(* ===== verification/Prelude.thy ===== *)
theory Prelude
  imports Main "HOL-Library.Word"
begin

text \<open>
  Shared vocabulary of the development: the C integer types, the bytes of a key as the code
  reads them through \<open>uint8_t*\<close>, \<open>memcmp\<close>, \<open>memmove\<close> on arrays represented as lists, and
  the lemma collections the component theories extend.
\<close>

unbundle bit_operations_syntax

type_synonym u8 = "8 word"
type_synonym u32 = "32 word"
type_synonym u64 = "64 word"

named_theorems model_defs
  \<open>definitions of the model that evaluate concrete inputs\<close>

named_theorems keep
  \<open>facts that an operation keeps a component of the state\<close>

section \<open>Bytes of a 64-bit word\<close>

text \<open>
  Keys and values are 8-byte arrays that the code reads both as bytes (\<open>key[i]\<close>) and as one
  \<open>uint64_t\<close> (\<open>*(uint64_t* )key\<close>). The targets are little-endian (x86-64), so byte \<open>i\<close> holds
  the bits from \<open>8 * i\<close> on.
\<close>

definition key_byte :: "u64 \<Rightarrow> nat \<Rightarrow> u8" where
  "key_byte k i = ucast (drop_bit (8 * i) k)"

definition key_bytes :: "u64 \<Rightarrow> u8 list" where
  "key_bytes k = map (key_byte k) [0..<8]"

lemma length_key_bytes [simp]: "length (key_bytes k) = 8"
  by (simp add: key_bytes_def)

lemma nth_key_bytes [simp]: "i < 8 \<Longrightarrow> key_bytes k ! i = key_byte k i"
  by (simp add: key_bytes_def)

lemma bit_key_byte: "bit (key_byte k i) j \<longleftrightarrow> j < 8 \<and> bit k (8 * i + j)"
  by (auto simp: key_byte_def bit_simps)

lemma key_bytes_inject: "key_bytes a = key_bytes b \<longleftrightarrow> a = b"
proof
  assume eq: "key_bytes a = key_bytes b"
  show "a = b"
  proof (rule bit_word_eqI)
    fix n :: nat
    assume "n < LENGTH(64)"
    then have n: "n div 8 < 8" by simp
    from eq n have "key_byte a (n div 8) = key_byte b (n div 8)"
      by (metis nth_key_bytes)
    then have "bit (key_byte a (n div 8)) (n mod 8) = bit (key_byte b (n div 8)) (n mod 8)"
      by simp
    then show "bit a n = bit b n"
      by (simp add: bit_key_byte)
  qed
qed simp

lemma key_eq_iff: "a = b \<longleftrightarrow> (\<forall>i < 8. key_byte a i = key_byte b i)"
  by (auto simp: key_bytes_inject [symmetric] list_eq_iff_nth_eq)

section \<open>C library routines on byte arrays\<close>

text \<open>\<open>memcmp\<close> compares unsigned bytes; the model returns \<open>-1\<close>, \<open>0\<close> or \<open>1\<close>, and the
  code only uses whether the result is zero.\<close>

fun memcmp :: "u8 list \<Rightarrow> u8 list \<Rightarrow> int" where
  "memcmp (x # xs) (y # ys) = (if x = y then memcmp xs ys else if x < y then -1 else 1)"
| "memcmp _ _ = 0"

lemma memcmp_eq_0: "length xs = length ys \<Longrightarrow> memcmp xs ys = 0 \<longleftrightarrow> xs = ys"
  by (induction xs ys rule: memcmp.induct) auto

text \<open>\<open>memmove(a + dst, a + src, n)\<close> within one array, as a list of the array's elements.\<close>

definition memmove :: "nat \<Rightarrow> nat \<Rightarrow> nat \<Rightarrow> 'a list \<Rightarrow> 'a list" where
  "memmove dst src n xs = take dst xs @ take n (drop src xs) @ drop (dst + n) xs"

text \<open>\<open>memcpy(dst, src, n)\<close> from one array to the start of another.\<close>

definition memcpy :: "nat \<Rightarrow> 'a list \<Rightarrow> 'a list \<Rightarrow> 'a list" where
  "memcpy n src dst = take n src @ drop n dst"

text \<open>\<open>memcpy(dst + at, src, n)\<close>.\<close>

definition memcpy_at :: "nat \<Rightarrow> nat \<Rightarrow> 'a list \<Rightarrow> 'a list \<Rightarrow> 'a list" where
  "memcpy_at at n src dst = take at dst @ take n src @ drop (at + n) dst"

text \<open>Unsigned 32-bit arithmetic on values kept as natural numbers.\<close>

definition w32 :: "nat \<Rightarrow> nat" where
  "w32 n = n mod 2 ^ 32"

lemma w32_id [simp]: "n < 2 ^ 32 \<Longrightarrow> w32 n = n"
  by (simp add: w32_def)

lemma length_memmove [simp]:
  "dst + n \<le> length xs \<Longrightarrow> src + n \<le> length xs \<Longrightarrow> length (memmove dst src n xs) = length xs"
  by (simp add: memmove_def)

lemma length_memcpy [simp]:
  "n \<le> length src \<Longrightarrow> n \<le> length dst \<Longrightarrow> length (memcpy n src dst) = length dst"
  by (simp add: memcpy_def)

lemma nth_memmove:
  assumes "dst + n \<le> length xs" "src + n \<le> length xs" "i < length xs"
  shows "memmove dst src n xs ! i = (if dst \<le> i \<and> i < dst + n then xs ! (i - dst + src) else xs ! i)"
  using assms by (auto simp: memmove_def nth_append add.commute)

lemma nth_memcpy:
  assumes "n \<le> length src" "n \<le> length dst" "i < length dst"
  shows "memcpy n src dst ! i = (if i < n then src ! i else dst ! i)"
  using assms by (auto simp: memcpy_def nth_append)

section \<open>Counting trailing zeros\<close>

text \<open>\<open>__builtin_ctz(b)\<close> of a 32-bit value: the least set bit (undefined for 0 in C; 32 here).\<close>

definition ctz32 :: "u32 \<Rightarrow> nat" where
  "ctz32 b = (case find (bit b) [0..<32] of Some i \<Rightarrow> i | None \<Rightarrow> 32)"

lemma find_upt_least:
  assumes "P i" "i < n" "\<And>j. j < i \<Longrightarrow> \<not> P j"
  shows "find P [0..<n] = Some i"
  using assms
  by (auto simp: find_Some_iff intro!: exI [of _ i])

lemma ctz32_least:
  assumes "bit b i" "\<And>j. j < i \<Longrightarrow> \<not> bit b j"
  shows "ctz32 b = i"
proof -
  from assms(1) have "i < 32" using bit_imp_le_length [OF assms(1)] by simp
  with assms have "find (bit b) [0..<32] = Some i" by (intro find_upt_least)
  then show ?thesis by (simp add: ctz32_def)
qed

section \<open>Lists and options\<close>

text \<open>The array read \<open>a[i]\<close> of a pointer array: \<open>None\<close> is \<open>NULL\<close>.\<close>

definition slot :: "'a option list \<Rightarrow> nat \<Rightarrow> 'a option" where
  "slot xs i = (if i < length xs then xs ! i else None)"

lemma slot_SomeD: "slot xs i = Some x \<Longrightarrow> i < length xs \<and> xs ! i = Some x"
  by (simp add: slot_def split: if_splits)

lemma slot_update: "slot (xs[i := y]) j = (if i = j \<and> i < length xs then y else slot xs j)"
  by (auto simp: slot_def)

text \<open>The first index below a bound that satisfies a test, as the code's scanning loops find it.\<close>

definition first_idx :: "nat \<Rightarrow> (nat \<Rightarrow> bool) \<Rightarrow> nat option" where
  "first_idx n P = find P [0..<n]"

lemma first_idx_None: "first_idx n P = None \<longleftrightarrow> (\<forall>i < n. \<not> P i)"
  by (auto simp: first_idx_def find_None_iff)

lemma first_idx_Some: "first_idx n P = Some i \<longleftrightarrow> i < n \<and> P i \<and> (\<forall>j < i. \<not> P j)"
  by (auto simp: first_idx_def find_Some_iff)

lemma first_idx_cong:
  "(\<And>i. i < n \<Longrightarrow> P i = Q i) \<Longrightarrow> first_idx n P = first_idx n Q"
  unfolding first_idx_def by (rule find_cong) auto

lemma first_idx_Suc:
  "first_idx (Suc n) P = (case first_idx n P of Some i \<Rightarrow> Some i | None \<Rightarrow> if P n then Some n else None)"
proof (cases "first_idx n P")
  case None
  then have "\<forall>i < n. \<not> P i" by (simp add: first_idx_None)
  then have "first_idx (Suc n) P = (if P n then Some n else None)"
    by (cases "P n") (simp_all add: first_idx_Some first_idx_None less_Suc_eq)
  with None show ?thesis by simp
next
  case (Some i)
  then have "first_idx (Suc n) P = Some i" by (simp add: first_idx_Some)
  with Some show ?thesis by simp
qed

end
