(* ===== verification/Murmur3.thy ===== *)
theory Murmur3
  imports Prelude
begin

text \<open>
  \<open>src/murmur3.c\<close>: the x64 MurmurHash3 in its 64-bit and 128-bit forms, on the bytes of the
  input. A pointer to the data is the list of its bytes and \<open>len\<close> the number of bytes hashed.
\<close>

section \<open>Rotations and finalizers\<close>

definition rotl32 :: "u32 \<Rightarrow> nat \<Rightarrow> u32" where
  "rotl32 x r = push_bit r x OR drop_bit (32 - r) x"

definition rotl64 :: "u64 \<Rightarrow> nat \<Rightarrow> u64" where
  "rotl64 x r = push_bit r x OR drop_bit (64 - r) x"

definition fmix32 :: "u32 \<Rightarrow> u32" where
  "fmix32 h =
    (let h = h XOR drop_bit 16 h;
         h = h * 0x85ebca6b;
         h = h XOR drop_bit 13 h;
         h = h * 0xc2b2ae35
     in h XOR drop_bit 16 h)"

definition fmix64 :: "u64 \<Rightarrow> u64" where
  "fmix64 k =
    (let k = k XOR drop_bit 33 k;
         k = k * 0xff51afd7ed558ccd;
         k = k XOR drop_bit 33 k;
         k = k * 0xc4ceb9fe1a85ec53
     in k XOR drop_bit 33 k)"

section \<open>Block and tail mixing\<close>

text \<open>\<open>getblock(blocks, i)\<close> reads the \<open>i\<close>-th little-endian \<open>uint64_t\<close> of the data.\<close>

definition getblock :: "u8 list \<Rightarrow> nat \<Rightarrow> u64" where
  "getblock data i = horner_sum ucast 256 (map (\<lambda>j. data ! (8 * i + j)) [0..<8])"

abbreviation (input) c1 :: u64 where "c1 \<equiv> 0x87c37b91114253d5"
abbreviation (input) c2 :: u64 where "c2 \<equiv> 0x4cf5ad432745937f"

text \<open>One iteration of the body loop on the pair \<open>(h1, h2)\<close>.\<close>

definition mix_block :: "u8 list \<Rightarrow> nat \<Rightarrow> u64 \<times> u64 \<Rightarrow> u64 \<times> u64" where
  "mix_block data i = (\<lambda>(h1, h2).
    let k1 = getblock data (i * 2 + 0);
        k2 = getblock data (i * 2 + 1);
        h1 = h1 XOR (rotl64 (k1 * c1) 31 * c2);
        h1 = rotl64 h1 27 + h2;
        h1 = h1 * 5 + 0x52dce729;
        h2 = h2 XOR (rotl64 (k2 * c2) 33 * c1);
        h2 = rotl64 h2 31 + h1;
        h2 = h2 * 5 + 0x38495ab5
    in (h1, h2))"

text \<open>
  The tail \<open>switch\<close> falls through from case \<open>len & 15\<close> down to case 1: bytes 14 to 8 go to
  \<open>k2\<close>, bytes 7 to 0 to \<open>k1\<close>, from the highest present byte down.
\<close>

definition tail_word :: "u8 list \<Rightarrow> nat \<Rightarrow> nat \<Rightarrow> u64" where
  "tail_word tail lo hi = fold (\<lambda>i k. k XOR push_bit (8 * (i - lo)) (ucast (tail ! i))) (rev [lo..<hi]) 0"

definition mix_tail :: "u8 list \<Rightarrow> nat \<Rightarrow> u64 \<times> u64 \<Rightarrow> u64 \<times> u64" where
  "mix_tail tail r = (\<lambda>(h1, h2).
    let h2 = (if 9 \<le> r then h2 XOR (rotl64 (tail_word tail 8 r * c2) 33 * c1) else h2);
        h1 = (if 1 \<le> r then h1 XOR (rotl64 (tail_word tail 0 (min r 8) * c1) 31 * c2) else h1)
    in (h1, h2))"

section \<open>The two hash functions\<close>

definition MurmurHash3_x64_64 :: "u8 list \<Rightarrow> nat \<Rightarrow> u32 \<Rightarrow> u64" where
  "MurmurHash3_x64_64 data len seed =
    (let nblocks = len div 16;
         (h1, h2) = fold (mix_block data) [0..<nblocks] (ucast seed, ucast seed);
         (h1, h2) = mix_tail (drop (nblocks * 16) data) (len mod 16) (h1, h2);
         h1 = h1 XOR of_nat len;
         h2 = h2 XOR of_nat len;
         h1 = h1 + h2;
         h2 = h2 + h1;
         h1 = fmix64 h1;
         h2 = fmix64 h2;
         h1 = h1 + h2;
         h2 = h2 + h1
     in h2)"

text \<open>The 128-bit form writes \<open>h1\<close> and \<open>h2\<close> to \<open>out[0]\<close> and \<open>out[1]\<close>.\<close>

definition MurmurHash3_x64_128 :: "u8 list \<Rightarrow> nat \<Rightarrow> u32 \<Rightarrow> u64 \<times> u64" where
  "MurmurHash3_x64_128 data len seed =
    (let nblocks = len div 16;
         (h1, h2) = fold (mix_block data) [0..<nblocks] (ucast seed, ucast seed);
         (h1, h2) = mix_tail (drop (nblocks * 16) data) (len mod 16) (h1, h2);
         h1 = h1 XOR of_nat len;
         h2 = h2 XOR of_nat len;
         h1 = h1 + h2;
         h2 = h2 + h1;
         h1 = fmix64 h1;
         h2 = fmix64 h2;
         h1 = h1 + h2;
         h2 = h2 + h1
     in (h1, h2))"

section \<open>Properties\<close>

text \<open>The hash table indexes bins by the 64-bit hash in some places and by the second half of
  the 128-bit hash in others: the two agree on every input.\<close>

lemma murmur_64_128: "MurmurHash3_x64_64 data len seed = snd (MurmurHash3_x64_128 data len seed)"
  by (simp add: MurmurHash3_x64_64_def MurmurHash3_x64_128_def Let_def split_beta)

lemma rotl64_bit:
  assumes "0 < r" "r < 64" "n < 64"
  shows "bit (rotl64 x r) n \<longleftrightarrow> bit x ((n + 64 - r) mod 64)"
proof (cases "r \<le> n")
  case True
  then have "n + 64 - r = (n - r) + 64" using assms by simp
  moreover have "((n - r) + 64) mod 64 = n - r" using assms by simp
  ultimately have "(n + 64 - r) mod 64 = n - r" by (rule ssubst)
  with True assms show ?thesis
    by (auto simp: rotl64_def bit_simps dest: bit_imp_le_length)
next
  case False
  then have "(n + 64 - r) mod 64 = 64 - r + n" using assms by simp
  with False assms show ?thesis
    by (auto simp: rotl64_def bit_simps)
qed

lemma rotl64_inj: "0 < r \<Longrightarrow> r < 64 \<Longrightarrow> rotl64 x r = rotl64 y r \<Longrightarrow> x = y"
proof (rule bit_word_eqI)
  fix n :: nat
  assume r: "0 < r" "r < 64" and eq: "rotl64 x r = rotl64 y r" and "n < LENGTH(64)"
  then have n: "n < 64" by simp
  let ?m = "(n + r) mod 64"
  have m: "?m < 64" by simp
  have "(?m + 64 - r) mod 64 = n"
  proof (cases "n + r < 64")
    case True
    with r n show ?thesis by simp
  next
    case False
    then have "?m = n + r - 64" using r n by (simp add: mod_if)
    with False r n show ?thesis by simp
  qed
  with rotl64_bit [OF r m, of x] rotl64_bit [OF r m, of y] eq
  show "bit x n = bit y n" by simp
qed

text \<open>Each finalizer step is invertible: the xor-shift by more than half the width is its own
  inverse, and multiplication by an odd constant has an inverse modulo \<open>2 ^ 64\<close>.\<close>

lemma xorshift33_involution: "(k XOR drop_bit 33 k) XOR drop_bit 33 (k XOR drop_bit 33 k) = (k::u64)"
  by (rule bit_word_eqI) (auto simp: bit_simps dest: bit_imp_le_length)

lemma xorshift33_inj: "k XOR drop_bit 33 k = l XOR drop_bit 33 l \<Longrightarrow> k = (l::u64)"
  using xorshift33_involution [of k] xorshift33_involution [of l] by simp

lemma mult_inv_inj:
  assumes cd: "c * d = (1::u64)" and eq: "a * c = b * c"
  shows "a = b"
proof -
  from eq have "a * c * d = b * c * d" by (rule arg_cong)
  then have "a * (c * d) = b * (c * d)" by (simp only: mult.assoc)
  then show "a = b" by (simp only: cd mult_1_right)
qed

lemma odd_constants:
  "(0xff51afd7ed558ccd::u64) * 0x4f74430c22a54005 = 1"
  "(0xc4ceb9fe1a85ec53::u64) * 0x9cb4b2f8129337db = 1"
  "c1 * 0xa98409e882ce4d7d = 1"
  "c2 * 0xa81e14edd9de2c7f = 1"
  by simp_all

lemma fmix64_inj: "fmix64 a = fmix64 b \<longleftrightarrow> a = b"
proof
  assume "fmix64 a = fmix64 b"
  then show "a = b"
    unfolding fmix64_def Let_def
    by (elim xorshift33_inj [THEN mult_inv_inj [OF odd_constants(2)], THEN xorshift33_inj,
          THEN mult_inv_inj [OF odd_constants(1)], THEN xorshift33_inj])
qed simp

section \<open>Hashing an 8-byte key\<close>

text \<open>The index hashes exactly one key of 8 bytes: no block, and a tail that is the key itself.\<close>

lemma rev_upt_8: "rev [0..<8] = [7, 6, 5, 4, 3, 2, 1, 0::nat]"
  by code_simp

lemma shifted_byte_bit:
  "n < 64 \<Longrightarrow> bit (push_bit (8 * i) (ucast (b::u8)) :: u64) n \<longleftrightarrow> n div 8 = i \<and> bit b (n mod 8)"
proof -
  assume n: "n < 64"
  have "8 * i \<le> n \<and> n - 8 * i < 8 \<longleftrightarrow> n div 8 = i" by auto
  moreover have "n div 8 = i \<Longrightarrow> n - 8 * i = n mod 8"
    by (metis minus_mult_div_eq_mod)
  ultimately show ?thesis
    using n by (auto simp: bit_simps dest: bit_imp_le_length)
qed

lemma tail_word_key: "tail_word (key_bytes k) 0 8 = k"
proof -
  let ?w = "((((((((0 XOR push_bit 56 (ucast (key_byte k 7))) XOR push_bit 48 (ucast (key_byte k 6)))
      XOR push_bit 40 (ucast (key_byte k 5))) XOR push_bit 32 (ucast (key_byte k 4)))
      XOR push_bit 24 (ucast (key_byte k 3))) XOR push_bit 16 (ucast (key_byte k 2)))
      XOR push_bit 8 (ucast (key_byte k 1))) XOR ucast (key_byte k 0)) :: u64"
  have "tail_word (key_bytes k) 0 8 = ?w"
    by (simp only: tail_word_def rev_upt_8 fold_simps o_apply id_apply) simp
  also have "?w = k"
  proof (rule bit_word_eqI)
    fix n :: nat
    assume "n < LENGTH(64)"
    then have n: "n < 64" by simp
    have bits: "bit (push_bit (8 * i) (ucast (key_byte k i)) :: u64) n \<longleftrightarrow> n div 8 = i \<and> bit k n"
      if "i < 8" for i
      using that shifted_byte_bit [OF n, of i "key_byte k i"] by (auto simp: bit_key_byte mult_div_mod_eq)
    note b = bits [of 0, simplified mult_0_right push_bit_0_id id_apply] bits [of 1, simplified mult_1_right]
      bits [of 2] bits [of 3] bits [of 4] bits [of 5] bits [of 6] bits [of 7]
    have "n div 8 = 0 \<or> n div 8 = 1 \<or> n div 8 = 2 \<or> n div 8 = 3 \<or> n div 8 = 4 \<or>
      n div 8 = 5 \<or> n div 8 = 6 \<or> n div 8 = 7" using n by linarith
    then show "bit ?w n = bit k n"
      using b by (elim disjE) (simp_all add: bit_xor_iff)
  qed
  finally show ?thesis .
qed

lemma murmur_key:
  "MurmurHash3_x64_128 (key_bytes k) 8 seed =
    (let s = ucast seed :: u64;
         h1 = (s XOR (rotl64 (k * c1) 31 * c2)) XOR 8;
         h2 = s XOR 8;
         h1 = h1 + h2;
         h2 = h2 + h1;
         h1 = fmix64 h1;
         h2 = fmix64 h2;
         h1 = h1 + h2;
         h2 = h2 + h1
     in (h1, h2))"
  by (simp add: MurmurHash3_x64_128_def mix_tail_def tail_word_key Let_def)

lemma xor_left_inj: "(a::u64) XOR b = a XOR c \<Longrightarrow> b = c"
  by (rule bit_word_eqI) (auto simp: bit_eq_iff bit_simps)

lemma xor_right_inj: "(b::u64) XOR a = c XOR a \<Longrightarrow> b = c"
  by (rule bit_word_eqI) (auto simp: bit_eq_iff bit_simps)

lemma final_add_inj: "(a + b, b + (a + b)) = (c + d, d + (c + (d::u64))) \<Longrightarrow> a = c \<and> b = d"
proof -
  assume eq: "(a + b, b + (a + b)) = (c + d, d + (c + d))"
  then have sum: "a + b = c + d" and "b + (a + b) = d + (c + d)" by (blast dest: Pair_inject)+
  then have "b + (a + b) = d + (a + b)" by (simp only: sum)
  then have "b = d" by (simp only: add_right_cancel)
  with eq show ?thesis by simp
qed

lemma murmur_128_inj:
  assumes "MurmurHash3_x64_128 (key_bytes a) 8 seed = MurmurHash3_x64_128 (key_bytes b) 8 seed"
  shows "a = b"
proof -
  let ?s = "ucast seed :: u64"
  let ?g = "\<lambda>k. (?s XOR (rotl64 (k * c1) 31 * c2)) XOR 8"
  let ?F = "\<lambda>k. fmix64 (?g k + (?s XOR 8))"
  let ?G = "\<lambda>k. fmix64 ((?s XOR 8) + (?g k + (?s XOR 8)))"
  have "MurmurHash3_x64_128 (key_bytes k) 8 seed = (?F k + ?G k, ?G k + (?F k + ?G k))" for k
    by (simp only: murmur_key Let_def)
  with assms have "(?F a + ?G a, ?G a + (?F a + ?G a)) = (?F b + ?G b, ?G b + (?F b + ?G b))"
    by (simp only:)
  then have "?F a = ?F b" by (rule final_add_inj [THEN conjunct1])
  then have "?g a = ?g b" by (simp only: fmix64_inj add_right_cancel)
  from xor_left_inj [OF xor_right_inj [OF this]]
  have "rotl64 (a * c1) 31 = rotl64 (b * c1) 31" by (rule mult_inv_inj [OF odd_constants(4)])
  then have "a * c1 = b * c1" by (rule rotl64_inj [rotated 2]) simp_all
  then show "a = b" by (rule mult_inv_inj [OF odd_constants(3)])
qed

section \<open>Properties\<close>

text \<open>\<open>hash_search\<close> and \<open>hash_modify\<close> take the bin from the second word of the 128-bit hash,
  \<open>hash_insert_nocheck\<close> and the expansions from the 64-bit hash: both are the same word, for data
  of any length and any seed, so all operations agree on the bin of a key.\<close>

theorem murmur_bin_agrees: "MurmurHash3_x64_64 data len seed = snd (MurmurHash3_x64_128 data len seed)"
  by (rule murmur_64_128)

text \<open>C33. On 8-byte keys the 128-bit hash is injective for every seed: two different keys never have
  the same pair of hash words, so the sketch never confuses them by the hash itself.\<close>

theorem murmur_key_injective:
  assumes "a \<noteq> b"
  shows "MurmurHash3_x64_128 (key_bytes a) 8 seed \<noteq> MurmurHash3_x64_128 (key_bytes b) 8 seed"
  using murmur_128_inj assms by blast

theorem murmur_key_injective_witness:
  "MurmurHash3_x64_128 (key_bytes 5) 8 42 \<noteq> MurmurHash3_x64_128 (key_bytes 6) 8 42"
  by (rule murmur_key_injective) simp

end
