(* ===== verification/Common.thy ===== *)
theory Common
  imports Prelude
begin

text \<open>
  The data types and constants of \<open>src/common.h\<close>: key-value entries, the two reserved key
  values that mark empty and occupied slots, storage types and the tuning constants.
\<close>

section \<open>Entries and reserved keys\<close>

abbreviation (input) KEY_LEN :: nat where "KEY_LEN \<equiv> 8"
abbreviation (input) VAL_LEN :: nat where "VAL_LEN \<equiv> 8"
abbreviation (input) BIN_CAPACITY :: nat where "BIN_CAPACITY \<equiv> 8"
abbreviation (input) BUF_LEN :: nat where "BUF_LEN \<equiv> 3"
abbreviation (input) MAX_PREFIX_LEN :: nat where "MAX_PREFIX_LEN \<equiv> 8"
abbreviation (input) EMPTY_FLAG :: u64 where "EMPTY_FLAG \<equiv> 0"
abbreviation (input) OCCUPIED_FLAG :: u64 where "OCCUPIED_FLAG \<equiv> 1"
abbreviation (input) MEM_TYPE :: nat where "MEM_TYPE \<equiv> 1"
abbreviation (input) SSD_TYPE :: nat where "SSD_TYPE \<equiv> 2"
abbreviation (input) HDD_TYPE :: nat where "HDD_TYPE \<equiv> 3"

text \<open>\<open>struct entry\<close>: key and value, each 8 bytes, kept as the \<open>uint64_t\<close> the code reads.\<close>

record entry =
  entry_key :: u64
  entry_value :: u64

definition empty_entry :: entry where
  "empty_entry = \<lparr>entry_key = 0, entry_value = 0\<rparr>"

definition IS_SPECIAL_KEY :: "u64 \<Rightarrow> bool" where
  "IS_SPECIAL_KEY k \<longleftrightarrow> (k AND NOT 1) = 0"

lemma IS_SPECIAL_KEY_iff: "IS_SPECIAL_KEY k \<longleftrightarrow> k = EMPTY_FLAG \<or> k = OCCUPIED_FLAG"
proof -
  have split: "k = (k AND NOT 1) OR (k AND 1)"
    by (rule bit_word_eqI) (auto simp: bit_simps)
  have low: "k AND 1 = 0 \<or> k AND 1 = 1"
    by (simp add: and_one_eq mod2_eq_if)
  show ?thesis
  proof
    assume "IS_SPECIAL_KEY k"
    then have "k = k AND 1" using split by (simp add: IS_SPECIAL_KEY_def)
    with low show "k = 0 \<or> k = 1" by metis
  next
    assume "k = 0 \<or> k = 1"
    then show "IS_SPECIAL_KEY k" by (auto simp: IS_SPECIAL_KEY_def)
  qed
qed

lemma not_special_nonzero [simp]: "\<not> IS_SPECIAL_KEY k \<Longrightarrow> k \<noteq> 0"
  by (auto simp: IS_SPECIAL_KEY_iff)

end
