(* ===== verification/Data_Sketch.thy ===== *)
theory Data_Sketch
  imports Murmur3 Common
begin

text \<open>
  The data sketches of \<open>src/data_sketch.c\<close>: the Count-Min sketch that estimates how often a key is
  used and the Bloom filter, over one array of 32-bit words.
\<close>

section \<open>State and construction\<close>

record sketch =
  width :: u32
  depth :: u32
  sk_seed :: u32
  shift :: u32
  counts :: "u32 list"

datatype sketch_mode = COUNT_MIN | BLOOM_FILTER

text \<open>\<open>alloc n\<close> says whether \<open>calloc\<close> grants \<open>n\<close> bytes, \<open>rnd\<close> is what \<open>rand\<close> returns. Products of
  \<open>uint32_t\<close> values wrap before they reach \<open>calloc\<close>. For width 0 the code calls \<open>__builtin_ctz(0)\<close>, which is
  undefined; \<open>ctz32 0 = 32\<close> stands for it, and no theorem is about that width.\<close>

definition sketch_construct :: "(nat \<Rightarrow> bool) \<Rightarrow> u32 \<Rightarrow> u32 \<Rightarrow> u32 \<Rightarrow> u32 \<Rightarrow> sketch_mode \<Rightarrow> sketch option" where
  "sketch_construct alloc rnd w d seed mode =
    (if \<not> alloc 24 \<or> w AND (w - 1) \<noteq> 0 then None
     else
       let sk = \<lparr>width = w, depth = d, sk_seed = (if seed = 0 then rnd else 0), shift = 0, counts = []\<rparr>
       in if mode = BLOOM_FILTER \<and> w \<ge> 32 then
            (if alloc (unat (w div 32) * 4) then Some (sk\<lparr>counts := replicate (unat (w div 32)) 0\<rparr>) else None)
          else if mode = COUNT_MIN then
            (let s = of_nat (ctz32 w)
             in if s * d > 128 then None
                else if alloc (unat (d * w) * 4)
                  then Some (sk\<lparr>shift := s, counts := replicate (unat (d * w)) 0\<rparr>) else None)
          else None)"

section \<open>Count-Min\<close>

text \<open>The hash words and \<open>tot_shift\<close> that a loop over the rows carries, and what one row does to them.\<close>

type_synonym hash_state = "u64 \<times> u64 \<times> u32"

definition hash_next :: "u32 \<Rightarrow> hash_state \<Rightarrow> hash_state" where
  "hash_next s = (\<lambda>(h0, h1, tot).
    let tot = tot + s;
        (h0, h1, tot) =
          (if tot \<ge> 64 then
             let tot = tot - 64
             in if tot = 0 then (h1, h1, tot)
                else (h0 OR push_bit (unat (s - tot)) h1, drop_bit (unat (64 - tot)) h1, tot)
           else (h0, h1, tot))
    in (drop_bit (unat s) h0, h1, tot))"

definition row_idx :: "sketch \<Rightarrow> nat \<Rightarrow> hash_state \<Rightarrow> u32" where
  "row_idx cm i = (\<lambda>(h0, _). of_nat i * width cm + ucast (h0 AND ucast (width cm - 1)))"

text \<open>The loops run \<open>i\<close> from its value to \<open>depth - 1\<close>; \<open>n\<close> is how many rows are left.\<close>

fun inc_rows :: "nat \<Rightarrow> nat \<Rightarrow> hash_state \<Rightarrow> u32 \<Rightarrow> sketch \<Rightarrow> sketch \<times> u32" where
  "inc_rows 0 i h minimal cm = (cm, minimal)"
| "inc_rows (Suc n) i h minimal cm =
    (let idx = unat (row_idx cm i h);
         cm = cm\<lparr>counts := (counts cm)[idx := counts cm ! idx + 1]\<rparr>;
         minimal = min minimal (counts cm ! idx)
     in inc_rows n (i + 1) (hash_next (shift cm) h) minimal cm)"

fun count_rows :: "nat \<Rightarrow> nat \<Rightarrow> hash_state \<Rightarrow> u32 \<Rightarrow> sketch \<Rightarrow> u32" where
  "count_rows 0 i h minimal cm = minimal"
| "count_rows (Suc n) i h minimal cm =
    count_rows n (i + 1) (hash_next (shift cm) h) (min minimal (counts cm ! unat (row_idx cm i h))) cm"

definition key_hash :: "sketch \<Rightarrow> u64 \<Rightarrow> (u64 \<times> u64) option \<Rightarrow> hash_state" where
  "key_hash cm key ext_hash =
    (case ext_hash of None \<Rightarrow> (case MurmurHash3_x64_128 (key_bytes key) KEY_LEN (sk_seed cm) of (h0, h1) \<Rightarrow> (h0, h1, 0))
     | Some (h0, h1) \<Rightarrow> (h0, h1, 0))"

abbreviation (input) INT32_MAX :: int where "INT32_MAX \<equiv> 2147483647"
abbreviation (input) UINT32_MAX :: u32 where "UINT32_MAX \<equiv> 0xFFFFFFFF"

text \<open>All callers pass 8-byte keys. The returned \<open>uint32_t\<close> becomes an \<open>int\<close>.\<close>

definition countmin_inc_explicit :: "sketch \<Rightarrow> u64 \<Rightarrow> (u64 \<times> u64) option \<Rightarrow> sketch \<times> int" where
  "countmin_inc_explicit cm key ext_hash =
    (if IS_SPECIAL_KEY key then (cm, INT32_MAX)
     else case inc_rows (unat (depth cm)) 0 (key_hash cm key ext_hash) UINT32_MAX cm of
       (cm', minimal) \<Rightarrow> (cm', sint minimal))"

definition countmin_count_explicit :: "sketch \<Rightarrow> u64 \<Rightarrow> (u64 \<times> u64) option \<Rightarrow> int" where
  "countmin_count_explicit cm key ext_hash =
    (if IS_SPECIAL_KEY key then INT32_MAX
     else sint (count_rows (unat (depth cm)) 0 (key_hash cm key ext_hash) UINT32_MAX cm))"

definition countmin_count :: "sketch \<Rightarrow> u64 \<Rightarrow> int" where
  "countmin_count cm key = countmin_count_explicit cm key None"

text \<open>
  \<open>countmin_amplify\<close> is \<open>ceil(fmax(f * 1.02, f))\<close> in doubles. For \<open>0 \<le> f < 2 ^ 31\<close> the rounded
  product has the ceiling of the exact one; its conversion back to \<open>int\<close> overflows for
  \<open>f > INT32_MAX / 1.02\<close>, where x86-64 yields \<open>INT32_MIN\<close>.
\<close>

definition to_int32 :: "int \<Rightarrow> int" where
  "to_int32 x = (if - (2 ^ 31) \<le> x \<and> x < 2 ^ 31 then x else - (2 ^ 31))"

definition countmin_amplify :: "int \<Rightarrow> int" where
  "countmin_amplify f = to_int32 (if f < 0 then f else (102 * f + 99) div 100)"

text \<open>\<open>memset(counts, 0, depth * width)\<close>: the third argument counts bytes, a counter has 4. With a
  number of bytes that 4 does not divide, the low bytes of the next counter are zeroed.\<close>

definition countmin_clear :: "sketch \<Rightarrow> sketch" where
  "countmin_clear cm =
    (let bytes = unat (depth cm * width cm);
         part = bytes mod 4;
         clear = (\<lambda>i c. if i < bytes div 4 then 0
            else if i = bytes div 4 then push_bit (8 * part) (drop_bit (8 * part) c) else c)
     in cm\<lparr>counts := map2 clear [0..<length (counts cm)] (counts cm)\<rparr>)"

section \<open>Bloom filter\<close>

definition bloom_pos :: "sketch \<Rightarrow> u8 list \<Rightarrow> nat \<Rightarrow> nat \<times> nat" where
  "bloom_pos b data len =
    (let idx = ucast (MurmurHash3_x64_64 data len (sk_seed b) AND ucast (width b - 1)) :: u32;
         bit = idx AND 31
     in (unat (drop_bit 5 idx), unat bit))"

definition bloom_add_row :: "u8 list \<Rightarrow> nat \<Rightarrow> sketch \<Rightarrow> sketch" where
  "bloom_add_row data len b =
    (let (idx, i) = bloom_pos b data len
     in b\<lparr>counts := (counts b)[idx := counts b ! idx OR push_bit i 1]\<rparr>)"

definition bloom_add :: "sketch \<Rightarrow> u8 list \<Rightarrow> nat \<Rightarrow> sketch" where
  "bloom_add b data len = (bloom_add_row data len ^^ unat (depth b)) b"

fun bloom_rows :: "nat \<Rightarrow> sketch \<Rightarrow> u8 list \<Rightarrow> nat \<Rightarrow> bool" where
  "bloom_rows 0 b data len = True"
| "bloom_rows (Suc n) b data len =
    (let (idx, i) = bloom_pos b data len
     in if counts b ! idx AND push_bit i 1 = 0 then False else bloom_rows n b data len)"

definition bloom_exists :: "sketch \<Rightarrow> u8 list \<Rightarrow> nat \<Rightarrow> bool" where
  "bloom_exists b data len = bloom_rows (unat (depth b)) b data len"

text \<open>The \<open>counts\<close> of the result is what \<open>calloc\<close> grants; \<open>NULL\<close> is the empty array.\<close>

definition bloom_expand :: "(nat \<Rightarrow> bool) \<Rightarrow> sketch \<Rightarrow> sketch" where
  "bloom_expand alloc b =
    (let w = width b * 2; n = unat (w div 32)
     in b\<lparr>width := w, counts := (if alloc (n * 4) then replicate n 0 else [])\<rparr>)"

section \<open>The counters a key uses\<close>

definition sk_ok :: "sketch \<Rightarrow> bool" where
  "sk_ok cm \<longleftrightarrow> width cm \<noteq> 0 \<and> unat (depth cm) * unat (width cm) < 2 ^ 32 \<and>
    length (counts cm) = unat (depth cm) * unat (width cm)"

fun rows :: "nat \<Rightarrow> nat \<Rightarrow> hash_state \<Rightarrow> sketch \<Rightarrow> nat list" where
  "rows 0 i h cm = []"
| "rows (Suc n) i h cm = unat (row_idx cm i h) # rows n (i + 1) (hash_next (shift cm) h) cm"

definition key_rows :: "sketch \<Rightarrow> u64 \<Rightarrow> (u64 \<times> u64) option \<Rightarrow> nat list" where
  "key_rows cm key ext_hash = rows (unat (depth cm)) 0 (key_hash cm key ext_hash) cm"

lemma row_idx_counts [simp]: "row_idx (cm\<lparr>counts := c\<rparr>) i h = row_idx cm i h"
  by (cases h) (simp add: row_idx_def)

lemma rows_counts [simp]: "rows n i h (cm\<lparr>counts := c\<rparr>) = rows n i h cm"
  by (induction n arbitrary: i h) simp_all

lemma masked_le:
  fixes w :: u32 and h :: u64
  assumes "w \<noteq> 0"
  shows "unat (ucast (h AND ucast (w - 1)) :: u32) < unat w"
proof -
  have "unat (ucast (h AND ucast (w - 1)) :: u32) \<le> unat (h AND ucast (w - 1))"
    by (simp add: unsigned_ucast_eq take_bit_nat_less_eq_self)
  also have "\<dots> \<le> unat (ucast (w - 1) :: u64)"
    using word_and_le1 [of h "ucast (w - 1)"] by (simp add: word_le_nat_alt)
  also have "\<dots> = unat (w - 1)"
    using unsigned_less [of "w - 1", where ?'a = nat]
    by (simp add: unsigned_ucast_eq take_bit_nat_eq_self_iff)
  also have "\<dots> < unat w" using assms by (simp add: unat_gt_0 unat_minus_one)
  finally show ?thesis .
qed

lemma row_idx_range:
  assumes ok: "sk_ok cm" and i: "i < unat (depth cm)"
  shows "i * unat (width cm) \<le> unat (row_idx cm i h)" "unat (row_idx cm i h) < (i + 1) * unat (width cm)"
proof -
  obtain h0 h1 tot where h: "h = (h0, h1, tot)" by (rule prod_cases3)
  let ?w = "unat (width cm)" and ?x = "ucast (h0 AND ucast (width cm - 1)) :: u32"
  have w: "width cm \<noteq> 0" and lt: "unat (depth cm) * ?w < 2 ^ 32" using ok by (simp_all add: sk_ok_def)
  have x: "unat ?x < ?w" using w by (rule masked_le)
  have "(i + 1) * ?w \<le> unat (depth cm) * ?w" using i by (intro mult_le_mono1) simp
  then have le: "(i + 1) * ?w < 2 ^ 32" using lt by simp
  then have lt2: "i * ?w + unat ?x < 2 ^ 32" using x by simp
  have e: "row_idx cm i h = of_nat (i * ?w + unat ?x)" by (simp add: row_idx_def h)
  have "unat (row_idx cm i h) = i * ?w + unat ?x" unfolding e unat_of_nat using lt2 by simp
  with x show "i * ?w \<le> unat (row_idx cm i h)" "unat (row_idx cm i h) < (i + 1) * ?w" by simp_all
qed

lemma rows_range:
  assumes "sk_ok cm" "i + n \<le> unat (depth cm)"
  shows "(\<forall>j \<in> set (rows n i h cm). i * unat (width cm) \<le> j \<and> j < (i + n) * unat (width cm)) \<and>
    distinct (rows n i h cm)"
  using assms(2)
proof (induction n arbitrary: i h)
  case (Suc n)
  let ?w = "unat (width cm)" and ?h = "hash_next (shift cm) h"
  from Suc.prems have i: "i < unat (depth cm)" by simp
  note R = row_idx_range [OF assms(1) i, of h]
  from Suc.IH [of "i + 1" ?h] Suc.prems
  have IH: "\<forall>j \<in> set (rows n (i + 1) ?h cm). (i + 1) * ?w \<le> j \<and> j < (i + 1 + n) * ?w"
    "distinct (rows n (i + 1) ?h cm)" by simp_all
  have "unat (row_idx cm i h) \<notin> set (rows n (i + 1) ?h cm)" using R(2) IH(1) by force
  moreover have "(i + 1) * ?w \<le> (i + Suc n) * ?w" "i * ?w \<le> (i + 1) * ?w" by (rule mult_le_mono1, simp)+
  moreover have "i * ?w \<le> j \<and> j < (i + Suc n) * ?w" if "j \<in> set (rows n (i + 1) ?h cm)" for j
    using IH(1) that calculation(3) by fastforce
  moreover have "unat (row_idx cm i h) < (i + Suc n) * ?w" using R(2) calculation(2) by linarith
  ultimately show ?case using R(1) IH(2) by simp
qed simp

lemma key_rows_ok:
  assumes "sk_ok cm"
  shows "distinct (key_rows cm key e)" "\<forall>j \<in> set (key_rows cm key e). j < length (counts cm)"
  using rows_range [OF assms, of 0 "unat (depth cm)"] assms by (simp_all add: key_rows_def sk_ok_def)

definition bump :: "nat list \<Rightarrow> u32 list \<Rightarrow> u32 list" where
  "bump js c = fold (\<lambda>j c. c[j := c ! j + 1]) js c"

definition least :: "u32 list \<Rightarrow> nat list \<Rightarrow> u32 \<Rightarrow> u32" where
  "least c js m = fold (\<lambda>j m. min m (c ! j)) js m"

lemma length_bump [simp]: "length (bump js c) = length c"
  by (induction js arbitrary: c) (simp_all add: bump_def)

lemma nth_bump:
  "distinct js \<Longrightarrow> (\<forall>j \<in> set js. j < length c) \<Longrightarrow> bump js c ! j = (if j \<in> set js then c ! j + 1 else c ! j)"
proof (induction js arbitrary: c)
  case (Cons a js)
  then have "bump js (c[a := c ! a + 1]) ! j = (if j \<in> set js then c[a := c ! a + 1] ! j + 1 else c[a := c ! a + 1] ! j)"
    by simp
  then show ?case using Cons.prems by (auto simp: bump_def nth_list_update)
qed (simp add: bump_def)

lemma least_cong: "(\<And>j. j \<in> set js \<Longrightarrow> c ! j = c' ! j) \<Longrightarrow> least c js m = least c' js m"
  unfolding least_def by (rule fold_cong) auto

lemma le_least: "v \<le> least c js m \<longleftrightarrow> v \<le> m \<and> (\<forall>j \<in> set js. v \<le> c ! j)"
  by (induction js arbitrary: m) (auto simp: least_def)

lemma count_rows_least: "count_rows n i h m cm = least (counts cm) (rows n i h cm) m"
  by (induction n arbitrary: i h m) (simp_all add: least_def)

lemma inc_rows_bump:
  assumes "distinct (rows n i h cm)" "\<forall>j \<in> set (rows n i h cm). j < length (counts cm)"
  shows "inc_rows n i h m cm = (cm\<lparr>counts := bump (rows n i h cm) (counts cm)\<rparr>,
    least (bump (rows n i h cm) (counts cm)) (rows n i h cm) m)"
  using assms
proof (induction n arbitrary: i h m cm)
  case (Suc n)
  let ?j = "unat (row_idx cm i h)" and ?h = "hash_next (shift cm) h"
  let ?c = "(counts cm)[?j := counts cm ! ?j + 1]"
  let ?cm = "cm\<lparr>counts := ?c\<rparr>" and ?r = "rows n (i + 1) ?h cm"
  from Suc.prems have j: "?j < length (counts cm)" "?j \<notin> set ?r" "distinct ?r" "\<forall>j \<in> set ?r. j < length ?c"
    by simp_all
  have "inc_rows (Suc n) i h m cm = inc_rows n (i + 1) ?h (min m (?c ! ?j)) ?cm"
    by (simp add: Let_def)
  also have "\<dots> = (cm\<lparr>counts := bump ?r ?c\<rparr>, least (bump ?r ?c) ?r (min m (?c ! ?j)))"
    using Suc.IH [of "i + 1" ?h ?cm "min m (?c ! ?j)"] j by simp
  also have "bump ?r ?c = bump (?j # ?r) (counts cm)" by (simp add: bump_def)
  also have "?c ! ?j = bump (?j # ?r) (counts cm) ! ?j"
    using nth_bump [of "?j # ?r" "counts cm" ?j] j by simp
  also have "least (bump (?j # ?r) (counts cm)) ?r (min m (bump (?j # ?r) (counts cm) ! ?j)) =
      least (bump (?j # ?r) (counts cm)) (?j # ?r) m"
    by (simp add: least_def)
  finally show ?case by simp
qed (simp add: bump_def least_def)

lemma inc_explicit:
  assumes "sk_ok cm" "\<not> IS_SPECIAL_KEY key"
  shows "countmin_inc_explicit cm key e =
    (cm\<lparr>counts := bump (key_rows cm key e) (counts cm)\<rparr>,
     sint (least (bump (key_rows cm key e) (counts cm)) (key_rows cm key e) UINT32_MAX))"
  using inc_rows_bump [of "unat (depth cm)" 0 "key_hash cm key e" cm UINT32_MAX] key_rows_ok [OF assms(1), of key e] assms(2)
  by (simp add: countmin_inc_explicit_def key_rows_def)

lemma count_explicit:
  "\<not> IS_SPECIAL_KEY key \<Longrightarrow>
    countmin_count_explicit cm key e = sint (least (counts cm) (key_rows cm key e) UINT32_MAX)"
  by (simp add: countmin_count_explicit_def count_rows_least key_rows_def)

lemma key_rows_counts [simp]: "key_rows (cm\<lparr>counts := c\<rparr>) key e = key_rows cm key e"
  by (simp add: key_rows_def key_hash_def split: option.split)

section \<open>A sequence of increments\<close>

definition incs :: "(u64 \<Rightarrow> (u64 \<times> u64) option) \<Rightarrow> u64 list \<Rightarrow> sketch \<Rightarrow> sketch" where
  "incs ext ks cm = fold (\<lambda>k cm. fst (countmin_inc_explicit cm k (ext k))) ks cm"

lemma incs_counts:
  assumes "sk_ok cm" "\<forall>k \<in> set ks. \<not> IS_SPECIAL_KEY k"
  shows "\<exists>c. incs ext ks cm = cm\<lparr>counts := c\<rparr> \<and> length c = length (counts cm) \<and>
    (\<forall>j. c ! j = counts cm ! j + of_nat (length (filter (\<lambda>k. j \<in> set (key_rows cm k (ext k))) ks)))"
  using assms
proof (induction ks arbitrary: cm)
  case Nil
  then show ?case by (intro exI [of _ "counts cm"]) (simp add: incs_def)
next
  case (Cons k ks)
  let ?r = "key_rows cm k (ext k)"
  let ?cm = "cm\<lparr>counts := bump ?r (counts cm)\<rparr>"
  have ok: "sk_ok ?cm" using Cons.prems(1) by (simp add: sk_ok_def)
  have e: "fst (countmin_inc_explicit cm k (ext k)) = ?cm" using inc_explicit [OF Cons.prems(1), of k] Cons.prems(2) by simp
  from Cons.IH [OF ok] Cons.prems(2) obtain c where c: "incs ext ks ?cm = ?cm\<lparr>counts := c\<rparr>" "length c = length (counts cm)"
    "\<And>j. c ! j = bump ?r (counts cm) ! j + of_nat (length (filter (\<lambda>k. j \<in> set (key_rows cm k (ext k))) ks))"
    by auto
  have "c ! j = counts cm ! j + of_nat (length (filter (\<lambda>k. j \<in> set (key_rows cm k (ext k))) (k # ks)))" for j
    using c(3) [of j] nth_bump [of ?r "counts cm" j] key_rows_ok [OF Cons.prems(1), of k "ext k"] by simp
  moreover have "incs ext (k # ks) cm = cm\<lparr>counts := c\<rparr>" using c(1) e by (simp add: incs_def)
  ultimately show ?case using c(2) by blast
qed

text \<open>The least counter of a key after increments from zero, between the key's own increments and all.\<close>

lemma incs_least:
  assumes "sk_ok cm" "depth cm \<noteq> 0" "\<forall>j < length (counts cm). counts cm ! j = 0"
    and "\<forall>k \<in> set ks. \<not> IS_SPECIAL_KEY k" "length ks < 2 ^ 31"
    and "counts (incs ext ks cm) = c"
  shows "count_list ks k \<le> unat (least c (key_rows cm k (ext k)) UINT32_MAX)"
    and "unat (least c (key_rows cm k (ext k)) UINT32_MAX) \<le> length ks"
proof -
  let ?n = "\<lambda>j. length (filter (\<lambda>k. j \<in> set (key_rows cm k (ext k))) ks)"
  let ?r = "key_rows cm k (ext k)"
  have c: "\<And>j. c ! j = counts cm ! j + of_nat (?n j)"
    using incs_counts [OF assms(1,4), of ext] assms(6) by auto
  note R = key_rows_ok [OF assms(1), of k "ext k"]
  have cj: "unat (c ! j) = ?n j" if "j \<in> set ?r" for j
  proof -
    have "?n j < 2 ^ 31" using length_filter_le assms(5) by (rule le_less_trans)
    moreover have "c ! j = of_nat (?n j)" using c [of j] assms(3) R(2) that by simp
    ultimately show ?thesis by (simp add: unat_of_nat)
  qed
  have lo: "count_list ks k \<le> ?n j" if "j \<in> set ?r" for j
  proof -
    have "count_list ks k = length (filter (\<lambda>x. x = k) ks)" by (induction ks) auto
    also have "\<dots> \<le> ?n j" using that by (induction ks) auto
    finally show ?thesis .
  qed
  have cl: "count_list ks k \<le> length ks" by (rule count_le_length)
  have "of_nat (count_list ks k) \<le> least c ?r UINT32_MAX"
    unfolding le_least
  proof (intro conjI ballI)
    show "of_nat (count_list ks k) \<le> UINT32_MAX" using unsigned_less [of "of_nat (count_list ks k) :: u32", where ?'a = nat]
      by (simp add: word_le_nat_alt)
  next
    fix j assume j: "j \<in> set ?r"
    show "of_nat (count_list ks k) \<le> c ! j"
      using lo [OF j] cj [OF j] cl assms(5) by (simp add: word_le_nat_alt unat_of_nat)
  qed
  then show "count_list ks k \<le> unat (least c ?r UINT32_MAX)"
    using cl assms(5) by (simp add: word_le_nat_alt unat_of_nat)
  have "?r \<noteq> []" using assms(2) by (cases "unat (depth cm)") (auto simp: key_rows_def unat_eq_0)
  then obtain j where j: "j \<in> set ?r" by (cases ?r) auto
  have "least c ?r UINT32_MAX \<le> c ! j" using le_least [of "least c ?r UINT32_MAX" c ?r UINT32_MAX] j by simp
  then have "unat (least c ?r UINT32_MAX) \<le> ?n j" using cj [OF j] by (simp add: word_le_nat_alt)
  then show "unat (least c ?r UINT32_MAX) \<le> length ks" by (rule order_trans [OF _ length_filter_le])
qed

lemma sint_small:
  fixes v :: u32
  assumes "unat v < 2 ^ 31"
  shows "sint v = int (unat v)"
proof -
  have "int (unat v) < int (2 ^ 31)" using assms by (simp only: of_nat_less_iff)
  then show ?thesis
    by (simp add: sint_uint signed_take_bit_int_eq_self_iff order_trans [OF _ unsigned_greater_eq])
qed

section \<open>Properties\<close>

text \<open>No out-of-range access: every counter that a key uses, whatever its hash words and however
  they are shifted along, lies in the row of its loop index and so inside the allocated array.\<close>

theorem countmin_rows_in_bounds:
  assumes "sk_ok cm" "i < unat (depth cm)"
  shows "i * unat (width cm) \<le> unat (row_idx cm i h) \<and> unat (row_idx cm i h) < (i + 1) * unat (width cm) \<and>
    unat (row_idx cm i h) < length (counts cm)"
proof -
  have "(i + 1) * unat (width cm) \<le> unat (depth cm) * unat (width cm)" using assms(2) by (intro mult_le_mono1) simp
  then have "unat (row_idx cm i h) < unat (depth cm) * unat (width cm)"
    using row_idx_range(2) [OF assms, of h] by (rule less_le_trans [rotated])
  then show ?thesis using row_idx_range [OF assms, of h] assms(1) by (simp add: sk_ok_def)
qed

definition sample_sketch :: sketch where
  "sample_sketch = \<lparr>width = 8, depth = 3, sk_seed = 0, shift = 3, counts = replicate 24 0\<rparr>"

lemma sample_sketch_ok: "sk_ok sample_sketch"
  by (simp add: sk_ok_def sample_sketch_def)

theorem countmin_rows_in_bounds_witness:
  "unat (row_idx sample_sketch 2 (0xFFFF, 7, 0)) < 24"
  using countmin_rows_in_bounds [OF sample_sketch_ok, of 2 "(0xFFFF, 7, 0)"] by (simp add: sample_sketch_def)

text \<open>C31. In a well-formed sketch of at least one row whose counters were all 0 at the start, after any
  sequence of fewer than \<open>2 ^ 31\<close> increments of keys that are not reserved, the estimate of such a key is
  at least how often it was incremented and at most the length of the sequence, if increments and estimate use the same
  hash of a key (\<open>ext\<close>; the program estimates with another seed than it counts with, as
  \<open>countmin_count\<close> shows).\<close>

theorem countmin_no_underestimate:
  assumes "sk_ok cm" "depth cm \<noteq> 0" "\<forall>j < length (counts cm). counts cm ! j = 0"
    and "\<forall>k \<in> set ks. \<not> IS_SPECIAL_KEY k" "\<not> IS_SPECIAL_KEY k" "length ks < 2 ^ 31"
  shows "int (count_list ks k) \<le> countmin_count_explicit (incs ext ks cm) k (ext k) \<and>
    countmin_count_explicit (incs ext ks cm) k (ext k) \<le> int (length ks)"
proof -
  let ?c = "counts (incs ext ks cm)"
  define v where "v = least ?c (key_rows cm k (ext k)) UINT32_MAX"
  note L = incs_least [OF assms(1-4,6) refl, where k = k and ext = ext, folded v_def]
  have "unat v < 2 ^ 31" using L(2) assms(6) by (rule le_less_trans)
  then have sv: "sint v = int (unat v)" by (rule sint_small)
  obtain c where "incs ext ks cm = cm\<lparr>counts := c\<rparr>" using incs_counts [OF assms(1,4), of ext] by blast
  then have ce: "countmin_count_explicit (incs ext ks cm) k (ext k) = sint v"
    using count_explicit [OF assms(5), of "incs ext ks cm" "ext k"] by (simp add: v_def)
  show ?thesis unfolding ce sv of_nat_le_iff using L by blast
qed

theorem countmin_no_underestimate_witness:
  "2 \<le> countmin_count_explicit (incs (\<lambda>_. None) [5, 9, 5] sample_sketch) 5 None"
  using countmin_no_underestimate [OF sample_sketch_ok, of "[5, 9, 5]" 5 "\<lambda>_. None"]
  by (simp add: sample_sketch_def IS_SPECIAL_KEY_iff)

text \<open>\<open>countmin_inc_explicit\<close> returns the estimate of the key after the increment, what
  \<open>countmin_count_explicit\<close> with the same hash returns next, and changes no counter of another
  position; its header promises the count before incrementing.\<close>

theorem countmin_inc_returns_new_count:
  assumes "sk_ok cm" "countmin_inc_explicit cm key ext = (cm', f)"
  shows "f = countmin_count_explicit cm' key ext \<and> sk_ok cm'"
proof (cases "IS_SPECIAL_KEY key")
  case True
  then show ?thesis using assms by (simp add: countmin_inc_explicit_def countmin_count_explicit_def)
next
  case False
  then show ?thesis using assms(2) inc_explicit [OF assms(1) False, of ext] count_explicit [OF False, of cm' ext] assms(1)
    by (auto simp: sk_ok_def)
qed

theorem countmin_inc_returns_new_count_witness:
  "snd (countmin_inc_explicit sample_sketch 5 None) =
    countmin_count_explicit (fst (countmin_inc_explicit sample_sketch 5 None)) 5 None"
  using countmin_inc_returns_new_count [OF sample_sketch_ok, of 5 None] by (cases "countmin_inc_explicit sample_sketch 5 None") simp

text \<open>The seed: \<open>sketch_construct\<close> drops a non-zero seed (the sketch hashes with seed 0), although
  its header says that it is used directly; only a zero seed is replaced by a random one.\<close>

theorem sketch_construct_seed:
  assumes "sketch_construct alloc rnd w d seed mode = Some sk"
  shows "sk_seed sk = (if seed = 0 then rnd else 0)"
  using assms by (auto simp: sketch_construct_def Let_def split: if_splits)

theorem sketch_construct_seed_witness:
  "\<exists>sk. sketch_construct (\<lambda>_. True) 77 8 3 42 COUNT_MIN = Some sk \<and> sk_seed sk = 0"
proof -
  have "sketch_construct (\<lambda>_. True) 77 8 3 42 COUNT_MIN = Some sample_sketch" by code_simp
  from sketch_construct_seed [OF this] this show ?thesis by simp
qed



text \<open>Two rows of \<open>2 ^ 31\<close> counters are accepted and get no counter: the first increment writes outside the array.\<close>

theorem countmin_construct_wraps:
  "case sketch_construct (\<lambda>_. True) 0 (2 ^ 31) 2 5 COUNT_MIN of
     None \<Rightarrow> False | Some sk \<Rightarrow> width sk = 2 ^ 31 \<and> depth sk = 2 \<and> counts sk = []"
  by code_simp

text \<open>\<open>countmin_clear\<close> clears a quarter of the counters: \<open>memset\<close> gets the number of counters as
  a number of bytes. A key counted twice still has the estimate 2 after the clear.\<close>

theorem countmin_clear_incomplete:
  "let cm = incs (\<lambda>_. None) [5, 5] (sample_sketch\<lparr>depth := 1, counts := replicate 8 0\<rparr>)
   in countmin_count cm 5 = 2 \<and> countmin_count (countmin_clear cm) 5 = 2"
  by code_simp

section \<open>The Bloom filter\<close>

definition bloom_ok :: "sketch \<Rightarrow> bool" where
  "bloom_ok b \<longleftrightarrow> 32 \<le> width b \<and> 32 dvd unat (width b) \<and> length (counts b) = unat (width b) div 32"

text \<open>\<open>TEST_BIT\<close> of the position that a key has.\<close>

definition bloom_bit :: "sketch \<Rightarrow> u8 list \<Rightarrow> nat \<Rightarrow> bool" where
  "bloom_bit b data len = bit (counts b ! fst (bloom_pos b data len)) (snd (bloom_pos b data len))"

lemma unat_drop5: "unat (drop_bit 5 (x :: u32)) = unat x div 32"
  by (simp add: drop_bit_eq_div unat_div_distrib)

lemma bloom_pos_bound:
  assumes "bloom_ok b"
  shows "fst (bloom_pos b data len) < length (counts b)" "snd (bloom_pos b data len) < 32"
proof -
  let ?i = "ucast (MurmurHash3_x64_64 data len (sk_seed b) AND ucast (width b - 1)) :: u32"
  have "width b \<noteq> 0" using assms by (auto simp: bloom_ok_def)
  then have "unat ?i < unat (width b)" by (rule masked_le)
  moreover obtain q where "unat (width b) = 32 * q" using assms by (auto simp: bloom_ok_def elim: dvdE)
  ultimately have "unat ?i div 32 < unat (width b) div 32" by (simp add: less_mult_imp_div_less mult.commute)
  then show "fst (bloom_pos b data len) < length (counts b)"
    using assms by (simp add: bloom_pos_def bloom_ok_def Let_def unat_drop5)
  have "unat (?i AND 31) \<le> unat (31 :: u32)" using word_and_le1 [of ?i 31] unfolding word_le_nat_alt .
  then show "snd (bloom_pos b data len) < 32" by (simp add: bloom_pos_def Let_def)
qed

lemma and_single_bit: "n < 32 \<Longrightarrow> (x AND push_bit n 1 = 0) \<longleftrightarrow> \<not> bit (x :: u32) n"
  by (simp add: push_bit_eq_mult and_exp_eq_0_iff_not_bit)

lemma bloom_rows_bit:
  assumes "bloom_ok b"
  shows "bloom_rows n b data len \<longleftrightarrow> n = 0 \<or> bloom_bit b data len"
proof (induction n)
  case (Suc n)
  obtain idx i where p: "bloom_pos b data len = (idx, i)" by (rule prod.exhaust)
  have "i < 32" using bloom_pos_bound(2) [OF assms, of data len] p by simp
  from and_single_bit [OF this] Suc show ?case by (simp add: p bloom_bit_def)
qed simp

lemma bloom_add_row_counts:
  assumes "bloom_ok b"
  shows "bloom_ok (bloom_add_row data len b)" "width (bloom_add_row data len b) = width b"
    "sk_seed (bloom_add_row data len b) = sk_seed b" "depth (bloom_add_row data len b) = depth b"
    "\<And>j n. j < length (counts b) \<Longrightarrow> n < 32 \<Longrightarrow>
      bit (counts (bloom_add_row data len b) ! j) n \<longleftrightarrow> bit (counts b ! j) n \<or> (j, n) = bloom_pos b data len"
proof -
  obtain idx i where p: "bloom_pos b data len = (idx, i)" by (rule prod.exhaust)
  have i: "idx < length (counts b)" "i < 32" using bloom_pos_bound [OF assms, of data len] p by simp_all
  show "bloom_ok (bloom_add_row data len b)" "width (bloom_add_row data len b) = width b"
    "sk_seed (bloom_add_row data len b) = sk_seed b" "depth (bloom_add_row data len b) = depth b"
    using assms by (simp_all add: bloom_add_row_def bloom_ok_def p)
  fix j n assume jn: "j < length (counts b)" "n < (32::nat)"
  show "bit (counts (bloom_add_row data len b) ! j) n \<longleftrightarrow> bit (counts b ! j) n \<or> (j, n) = bloom_pos b data len"
    using i jn by (auto simp: bloom_add_row_def p nth_list_update bit_simps)
qed

lemma bloom_pos_cong: "width b' = width b \<Longrightarrow> sk_seed b' = sk_seed b \<Longrightarrow> bloom_pos b' data len = bloom_pos b data len"
  by (simp add: bloom_pos_def)

lemma bloom_add_row_bit:
  assumes "bloom_ok b"
  shows "bloom_bit (bloom_add_row data len b) d l \<longleftrightarrow> bloom_bit b d l \<or> bloom_pos b d l = bloom_pos b data len"
proof -
  have "bloom_pos (bloom_add_row data len b) d l = bloom_pos b d l"
    using bloom_add_row_counts(2,3) [OF assms] by (intro bloom_pos_cong)
  then show ?thesis
    using bloom_add_row_counts(5) [OF assms, of "fst (bloom_pos b d l)" "snd (bloom_pos b d l)" data len]
      bloom_pos_bound [OF assms, of d l] by (simp add: bloom_bit_def)
qed

lemma bloom_add_rows:
  assumes "bloom_ok b"
  shows "bloom_ok ((bloom_add_row data len ^^ n) b) \<and> depth ((bloom_add_row data len ^^ n) b) = depth b \<and>
    width ((bloom_add_row data len ^^ n) b) = width b \<and> sk_seed ((bloom_add_row data len ^^ n) b) = sk_seed b \<and>
    (\<forall>d l. bloom_bit ((bloom_add_row data len ^^ n) b) d l \<longleftrightarrow>
      bloom_bit b d l \<or> 0 < n \<and> bloom_pos b d l = bloom_pos b data len)"
proof (induction n)
  case (Suc n)
  let ?b = "(bloom_add_row data len ^^ n) b"
  have ok: "bloom_ok ?b" using Suc by blast
  have p: "bloom_pos ?b d l = bloom_pos b d l" for d l using Suc by (intro bloom_pos_cong) blast+
  note C = bloom_add_row_counts(1-4) [OF ok, of data len]
  have "bloom_bit (bloom_add_row data len ?b) d l \<longleftrightarrow> bloom_bit b d l \<or> bloom_pos b d l = bloom_pos b data len" for d l
    unfolding bloom_add_row_bit [OF ok] p using Suc by blast
  then show ?case using C Suc by simp
qed (use assms in simp)

lemma bloom_exists_bit: "bloom_ok b \<Longrightarrow> bloom_exists b d l \<longleftrightarrow> depth b = 0 \<or> bloom_bit b d l"
  by (simp add: bloom_exists_def bloom_rows_bit unat_eq_zero)

lemma bloom_add_exists:
  assumes "bloom_ok b"
  shows "bloom_ok (bloom_add b data len) \<and>
    (bloom_exists (bloom_add b data len) d l \<longleftrightarrow> bloom_exists b d l \<or> bloom_pos b d l = bloom_pos b data len)"
proof -
  note A = bloom_add_rows [OF assms, of "unat (depth b)" data len]
  then have ok: "bloom_ok (bloom_add b data len)" and "depth (bloom_add b data len) = depth b"
    "bloom_bit (bloom_add b data len) d l \<longleftrightarrow> bloom_bit b d l \<or> depth b \<noteq> 0 \<and> bloom_pos b d l = bloom_pos b data len"
    by (simp_all add: bloom_add_def unat_gt_0)
  then show ?thesis using bloom_exists_bit [OF ok, of d l] bloom_exists_bit [OF assms, of d l] by argo
qed

lemma power_of_two_dvd_32:
  fixes w :: u32
  assumes "w AND (w - 1) = 0" "32 \<le> w"
  shows "32 dvd unat w"
proof (rule ccontr)
  assume n: "\<not> 32 dvd unat w"
  then have r: "unat w mod 32 \<noteq> 0" by (simp add: dvd_eq_mod_eq_0)
  have w: "32 \<le> unat w" using assms(2) by (simp add: word_le_nat_alt)
  then have "unat (w - 1) = unat w - 1" by (intro unat_minus_one) auto
  then have d: "unat (w - 1) div 32 = unat w div 32" using r w
    by (metis Suc_pred' div_Suc gr0I mod_0 mod_Suc)
  have "drop_bit 5 (w - 1) = drop_bit 5 w"
    by (rule word_unat_eq_iff [THEN iffD2]) (simp only: unat_drop5 d)
  then have "drop_bit 5 (w AND (w - 1)) = drop_bit 5 w" by (simp only: drop_bit_and and.idem)
  then have "drop_bit 5 w = 0" by (simp only: assms(1) drop_bit_of_0)
  then have "unat w div 32 = 0" using unat_drop5 [of w] by (simp only: unsigned_0)
  with w show False by simp
qed

section \<open>Properties of the filter\<close>

text \<open>What \<open>bloom_construct\<close> accepts is well formed: positions stay inside the bit array.\<close>

theorem bloom_construct_ok:
  assumes "sketch_construct alloc rnd w d seed BLOOM_FILTER = Some b"
  shows "bloom_ok b \<and> fst (bloom_pos b data len) < length (counts b) \<and> snd (bloom_pos b data len) < 32"
proof -
  from assms have "w AND (w - 1) = 0" "32 \<le> w" and b: "width b = w" "counts b = replicate (unat (w div 32)) 0"
    by (auto simp: sketch_construct_def Let_def split: if_splits)
  then have "bloom_ok b" using power_of_two_dvd_32 [of w] by (simp add: bloom_ok_def unat_div_distrib)
  then show ?thesis using bloom_pos_bound by blast
qed

theorem bloom_construct_ok_witness:
  "\<exists>b. sketch_construct (\<lambda>_. True) 9 64 7 0 BLOOM_FILTER = Some b \<and> bloom_ok b"
proof -
  have "sketch_construct (\<lambda>_. True) 9 64 7 0 BLOOM_FILTER \<noteq> None" by code_simp
  then obtain b where "sketch_construct (\<lambda>_. True) 9 64 7 0 BLOOM_FILTER = Some b" by blast
  with bloom_construct_ok [OF this] show ?thesis by simp
qed

text \<open>No false negatives: after any sequence of \<open>bloom_add\<close> every added datum exists, with those
  that existed before; and a datum that was not there exists only if its single bit position
  is the one of an added datum: whatever the depth, the filter behaves like one hash function,
  as each round hashes with the same seed.\<close>

theorem bloom_no_false_negative:
  assumes "bloom_ok b"
  shows "bloom_exists (fold (\<lambda>(d, l) b. bloom_add b d l) xs b) data len \<longleftrightarrow>
    bloom_exists b data len \<or> (\<exists>(d, l) \<in> set xs. bloom_pos b data len = bloom_pos b d l)"
  using assms
proof (induction xs arbitrary: b)
  case (Cons x xs)
  obtain d l where x: "x = (d, l)" by (rule prod.exhaust)
  note A = bloom_add_exists [OF Cons.prems, of d l data len]
  have "width (bloom_add b d l) = width b" "sk_seed (bloom_add b d l) = sk_seed b"
    using bloom_add_rows [OF Cons.prems, of "unat (depth b)" d l] by (simp_all add: bloom_add_def)
  then have "bloom_pos (bloom_add b d l) d' l' = bloom_pos b d' l'" for d' l' by (rule bloom_pos_cong)
  then show ?case using Cons.IH [of "bloom_add b d l"] A by (auto simp: x)
qed simp

theorem bloom_no_false_negative_witness:
  "bloom_exists (fold (\<lambda>(d, l) b. bloom_add b d l) [([7], 1), ([8], 1)]
      \<lparr>width = 64, depth = 3, sk_seed = 9, shift = 0, counts = [0, 0]\<rparr>) [8] 1"
proof -
  have "bloom_ok \<lparr>width = 64, depth = 3, sk_seed = 9, shift = 0, counts = [0, 0]\<rparr>"
    by (simp add: bloom_ok_def)
  from bloom_no_false_negative [OF this, of "[([7], 1), ([8], 1)]" "[8]" 1] show ?thesis by simp
qed

end
