(* ===== verification/ART_Node.thy ===== *)
theory ART_Node
  imports Common
begin

text \<open>
  The four node layouts of \<open>src/art.c\<close> and the operations on one node: allocation, child
  lookup, adding a child (growing the layout when it is full) and removing one (shrinking it).
  The \<open>art_node\<close> header is a record, the layout with its physical arrays a datatype whose
  constructor is the \<open>type\<close> field; the parameter \<open>'n\<close> is the type of child nodes, so that
  everything here is about one node. Arrays keep their C length, and slots past
  \<open>num_children\<close> keep what \<open>memmove\<close> and \<open>memcpy\<close> leave there. A pointer into a
  \<open>children\<close> array is its index, and writes through \<open>art_node **ref\<close> are the returned node.
\<close>

section \<open>Data\<close>

text \<open>\<open>partial_len\<close> is an 8-bit field kept as a number: a prefix is part of an 8-byte key, and where \<open>remove_child4\<close>
  adds two lengths the sum is reduced modulo 256 as the field does.\<close>

record art_hdr =
  partial_len :: nat
  num_children :: u8
  partial :: "u8 list"
  buffer :: "entry list"

datatype 'n children =
    Node4 "u8 list" "'n option list"
  | Node16 "u8 list" "'n option list"
  | Node48 "u8 list" "'n option list"
  | Node256 "'n option list"

datatype node_type = NODE4 | NODE16 | NODE48 | NODE256

fun node_type_of :: "'n children \<Rightarrow> node_type" where
  "node_type_of (Node4 _ _) = NODE4"
| "node_type_of (Node16 _ _) = NODE16"
| "node_type_of (Node48 _ _) = NODE48"
| "node_type_of (Node256 _) = NODE256"

text \<open>The number a \<open>type\<close> field holds (\<open>common.h\<close>) orders the layouts by capacity.\<close>

fun type_code :: "node_type \<Rightarrow> nat" where
  "type_code NODE4 = 1"
| "type_code NODE16 = 2"
| "type_code NODE48 = 3"
| "type_code NODE256 = 4"

instantiation node_type :: linorder
begin

definition less_eq_node_type :: "node_type \<Rightarrow> node_type \<Rightarrow> bool" where
  "less_eq_node_type a b \<longleftrightarrow> type_code a \<le> type_code b"

definition less_node_type :: "node_type \<Rightarrow> node_type \<Rightarrow> bool" where
  "less_node_type a b \<longleftrightarrow> type_code a < type_code b"

instance
proof
  fix a b :: node_type
  show "a \<le> b \<Longrightarrow> b \<le> a \<Longrightarrow> a = b"
    by (cases a; cases b) (simp_all add: less_eq_node_type_def)
qed (auto simp: less_eq_node_type_def less_node_type_def)

end

section \<open>Allocation\<close>

text \<open>\<open>alloc_node\<close> zeroes the node and sets its type; \<open>zero_hdr\<close> is the zeroed header.\<close>

definition zero_hdr :: art_hdr where
  "zero_hdr = \<lparr>partial_len = 0, num_children = 0, partial = replicate 8 0,
    buffer = replicate 3 empty_entry\<rparr>"

fun alloc_node :: "node_type \<Rightarrow> art_hdr \<times> 'n children" where
  "alloc_node NODE4 = (zero_hdr, Node4 (replicate 4 0) (replicate 4 None))"
| "alloc_node NODE16 = (zero_hdr, Node16 (replicate 16 0) (replicate 16 None))"
| "alloc_node NODE48 = (zero_hdr, Node48 (replicate 256 0) (replicate 48 None))"
| "alloc_node NODE256 = (zero_hdr, Node256 (replicate 256 None))"

definition copy_header :: "art_hdr \<Rightarrow> art_hdr \<Rightarrow> art_hdr" where
  "copy_header dest src = dest\<lparr>
     num_children := num_children src,
     partial_len := partial_len src,
     buffer := memcpy 3 (buffer src) (buffer dest),
     partial := memcpy (min MAX_PREFIX_LEN (partial_len src)) (partial src) (partial dest)\<rparr>"

section \<open>Child lookup\<close>

text \<open>
  The SSE2 comparison of one byte with the 16 keys of a \<open>Node16\<close>: \<open>_mm_movemask_epi8\<close>
  collects one bit per lane, the mask drops the lanes past \<open>num_children\<close>.
\<close>

definition movemask_epi8 :: "bool list \<Rightarrow> u32" where
  "movemask_epi8 bs = horner_sum of_bool 2 bs"

definition children_mask :: "u8 \<Rightarrow> u32" where
  "children_mask n = push_bit (unat n) 1 - 1"

fun find_child :: "art_hdr \<Rightarrow> 'n children \<Rightarrow> u8 \<Rightarrow> nat option" where
  "find_child h (Node4 keys cs) c = first_idx (unat (num_children h)) (\<lambda>i. keys ! i = c)"
| "find_child h (Node16 keys cs) c =
    (let bitfield = movemask_epi8 (map (\<lambda>k. k = c) keys) AND children_mask (num_children h)
     in if bitfield \<noteq> 0 then Some (ctz32 bitfield) else None)"
| "find_child h (Node48 keys cs) c =
    (let i = unat (keys ! unat c) in if i \<noteq> 0 then Some (i - 1) else None)"
| "find_child h (Node256 cs) c = (if slot cs (unat c) \<noteq> None then Some (unat c) else None)"

fun child_array :: "'n children \<Rightarrow> 'n option list" where
  "child_array (Node4 keys cs) = cs"
| "child_array (Node16 keys cs) = cs"
| "child_array (Node48 keys cs) = cs"
| "child_array (Node256 cs) = cs"

text \<open>\<open>*child\<close> and \<open>*child = x\<close> for the pointer that \<open>find_child\<close> returned.\<close>

definition child_at :: "'n children \<Rightarrow> nat \<Rightarrow> 'n option" where
  "child_at ch i = slot (child_array ch) i"

fun set_child :: "'n children \<Rightarrow> nat \<Rightarrow> 'n option \<Rightarrow> 'n children" where
  "set_child (Node4 keys cs) i x = Node4 keys (cs[i := x])"
| "set_child (Node16 keys cs) i x = Node16 keys (cs[i := x])"
| "set_child (Node48 keys cs) i x = Node48 keys (cs[i := x])"
| "set_child (Node256 cs) i x = Node256 (cs[i := x])"

section \<open>Adding a child\<close>

definition add_child256 :: "art_hdr \<Rightarrow> 'n option list \<Rightarrow> u8 \<Rightarrow> 'n \<Rightarrow> art_hdr \<times> 'n children" where
  "add_child256 h cs c child =
    (h\<lparr>num_children := num_children h + 1\<rparr>, Node256 (cs[unat c := Some child]))"

text \<open>\<open>while (n->children[pos]) pos++\<close>\<close>

definition free_pos :: "'n option list \<Rightarrow> nat" where
  "free_pos cs = length (takeWhile (\<lambda>x. x \<noteq> None) cs)"

definition grow256 :: "u8 list \<Rightarrow> 'n option list \<Rightarrow> 'n option list" where
  "grow256 keys cs = map (\<lambda>i. if keys ! i \<noteq> 0 then slot cs (unat (keys ! i) - 1) else None) [0..<256]"

definition add_child48 ::
  "art_hdr \<Rightarrow> u8 list \<Rightarrow> 'n option list \<Rightarrow> u8 \<Rightarrow> 'n \<Rightarrow> art_hdr \<times> 'n children" where
  "add_child48 h keys cs c child =
    (if unat (num_children h) < 48 then
       let pos = free_pos cs
       in (h\<lparr>num_children := num_children h + 1\<rparr>,
           Node48 (keys[unat c := of_nat (pos + 1)]) (cs[pos := Some child]))
     else add_child256 (copy_header zero_hdr h) (grow256 keys cs) c child)"

text \<open>\<open>_mm_cmplt_epi8\<close> compares the bytes as signed numbers.\<close>

definition insert_pos16 :: "art_hdr \<Rightarrow> u8 list \<Rightarrow> u8 \<Rightarrow> nat" where
  "insert_pos16 h keys c =
    (let bitfield = movemask_epi8 (map (\<lambda>k. sint c < sint k) keys) AND children_mask (num_children h)
     in if bitfield \<noteq> 0 then ctz32 bitfield else unat (num_children h))"

text \<open>The shift-and-store of \<open>add_child4\<close> and \<open>add_child16\<close> at index \<open>idx\<close> of \<open>n\<close> used slots.\<close>

definition array_insert :: "nat \<Rightarrow> nat \<Rightarrow> 'a \<Rightarrow> 'a list \<Rightarrow> 'a list" where
  "array_insert n idx x xs = (memmove (idx + 1) idx (n - idx) xs)[idx := x]"

definition grow48 :: "nat \<Rightarrow> u8 list \<Rightarrow> u8 list" where
  "grow48 n keys = fold (\<lambda>i ks. ks[unat (keys ! i) := of_nat (i + 1)]) [0..<n] (replicate 256 0)"

definition add_child16 ::
  "art_hdr \<Rightarrow> u8 list \<Rightarrow> 'n option list \<Rightarrow> u8 \<Rightarrow> 'n \<Rightarrow> art_hdr \<times> 'n children" where
  "add_child16 h keys cs c child =
    (let n = unat (num_children h) in
     if n < 16 then
       let idx = insert_pos16 h keys c
       in (h\<lparr>num_children := num_children h + 1\<rparr>,
           Node16 (array_insert n idx c keys) (array_insert n idx (Some child) cs))
     else add_child48 (copy_header zero_hdr h) (grow48 n keys) (memcpy n cs (replicate 48 None)) c child)"

definition insert_pos4 :: "art_hdr \<Rightarrow> u8 list \<Rightarrow> u8 \<Rightarrow> nat" where
  "insert_pos4 h keys c =
    (case first_idx (unat (num_children h)) (\<lambda>i. c < keys ! i) of
       Some idx \<Rightarrow> idx | None \<Rightarrow> unat (num_children h))"

definition add_child4 ::
  "art_hdr \<Rightarrow> u8 list \<Rightarrow> 'n option list \<Rightarrow> u8 \<Rightarrow> 'n \<Rightarrow> art_hdr \<times> 'n children" where
  "add_child4 h keys cs c child =
    (let n = unat (num_children h) in
     if n < 4 then
       let idx = insert_pos4 h keys c
       in (h\<lparr>num_children := num_children h + 1\<rparr>,
           Node4 (array_insert n idx c keys) (array_insert n idx (Some child) cs))
     else add_child16 (copy_header zero_hdr h) (memcpy n keys (replicate 16 0))
            (memcpy n cs (replicate 16 None)) c child)"

fun add_child :: "art_hdr \<Rightarrow> 'n children \<Rightarrow> u8 \<Rightarrow> 'n \<Rightarrow> art_hdr \<times> 'n children" where
  "add_child h (Node4 keys cs) c child = add_child4 h keys cs c child"
| "add_child h (Node16 keys cs) c child = add_child16 h keys cs c child"
| "add_child h (Node48 keys cs) c child = add_child48 h keys cs c child"
| "add_child h (Node256 cs) c child = add_child256 h cs c child"

section \<open>Removing a child\<close>

text \<open>One iteration of the loop that fills the smaller node, on \<open>pos\<close> and the new arrays.\<close>

definition shrink48_step ::
  "'n option list \<Rightarrow> nat \<Rightarrow> nat \<times> u8 list \<times> 'n option list \<Rightarrow> nat \<times> u8 list \<times> 'n option list" where
  "shrink48_step cs i = (\<lambda>(pos, ks, cs'). if cs ! i \<noteq> None
      then (pos + 1, ks[i := of_nat (pos + 1)], cs'[pos := cs ! i]) else (pos, ks, cs'))"

definition shrink48 :: "'n option list \<Rightarrow> nat \<times> u8 list \<times> 'n option list" where
  "shrink48 cs = fold (shrink48_step cs) [0..<256] (0, replicate 256 0, replicate 48 None)"

definition remove_child256 :: "art_hdr \<Rightarrow> 'n option list \<Rightarrow> u8 \<Rightarrow> art_hdr \<times> 'n children" where
  "remove_child256 h cs c =
    (let cs = cs[unat c := None];
         h = h\<lparr>num_children := num_children h - 1\<rparr>
     in if num_children h = 37
        then let (_, ks, cs') = shrink48 cs in (copy_header zero_hdr h, Node48 ks cs')
        else (h, Node256 cs))"

definition shrink16_step ::
  "u8 list \<Rightarrow> 'n option list \<Rightarrow> nat \<Rightarrow> nat \<times> u8 list \<times> 'n option list \<Rightarrow> nat \<times> u8 list \<times> 'n option list" where
  "shrink16_step keys cs i = (\<lambda>(child, ks, cs'). if keys ! i \<noteq> 0
      then (child + 1, ks[child := of_nat i], cs'[child := slot cs (unat (keys ! i) - 1)])
      else (child, ks, cs'))"

definition shrink16 :: "u8 list \<Rightarrow> 'n option list \<Rightarrow> nat \<times> u8 list \<times> 'n option list" where
  "shrink16 keys cs = fold (shrink16_step keys cs) [0..<256] (0, replicate 16 0, replicate 16 None)"

definition remove_child48 ::
  "art_hdr \<Rightarrow> u8 list \<Rightarrow> 'n option list \<Rightarrow> u8 \<Rightarrow> art_hdr \<times> 'n children" where
  "remove_child48 h keys cs c =
    (let pos = unat (keys ! unat c);
         keys = keys[unat c := 0];
         cs = cs[pos - 1 := None];
         h = h\<lparr>num_children := num_children h - 1\<rparr>
     in if num_children h = 12
        then let (_, ks, cs') = shrink16 keys cs in (copy_header zero_hdr h, Node16 ks cs')
        else (h, Node48 keys cs))"

text \<open>The \<open>memmove\<close> pair of \<open>remove_child16\<close> and \<open>remove_child4\<close>.\<close>

definition array_remove :: "nat \<Rightarrow> nat \<Rightarrow> 'a list \<Rightarrow> 'a list" where
  "array_remove n pos xs = memmove pos (pos + 1) (n - 1 - pos) xs"

definition remove_child16 ::
  "art_hdr \<Rightarrow> u8 list \<Rightarrow> 'n option list \<Rightarrow> nat \<Rightarrow> art_hdr \<times> 'n children" where
  "remove_child16 h keys cs pos =
    (let n = unat (num_children h);
         keys = array_remove n pos keys;
         cs = array_remove n pos cs;
         h = h\<lparr>num_children := num_children h - 1\<rparr>
     in if num_children h = 3
        then (copy_header zero_hdr h, Node4 (memcpy 4 keys (replicate 4 0)) (memcpy 4 cs (replicate 4 None)))
        else (h, Node16 keys cs))"

text \<open>The first part of \<open>remove_child4\<close>, up to the buffer flush and the path compression.\<close>

definition drop_child4 ::
  "art_hdr \<Rightarrow> u8 list \<Rightarrow> 'n option list \<Rightarrow> nat \<Rightarrow> art_hdr \<times> u8 list \<times> 'n option list" where
  "drop_child4 h keys cs pos =
    (let n = unat (num_children h)
     in (h\<lparr>num_children := num_children h - 1\<rparr>, array_remove n pos keys, array_remove n pos cs))"

end
