(* ===== verification/ART_Linear.thy ===== *)
theory ART_Linear
  imports ART_Node
begin

text \<open>
  The two layouts with parallel key and child arrays (\<open>Node4\<close>, \<open>Node16\<close>): the SSE2 search of
  \<open>Node16\<close> is a linear scan, and shifting keys and children together inserts into and deletes
  from the association of keys to children.
\<close>

section \<open>The SSE2 bit masks\<close>

lemma bit_movemask:
  "length bs \<le> 32 \<Longrightarrow> bit (movemask_epi8 bs) i \<longleftrightarrow> i < length bs \<and> bs ! i"
  by (auto simp: movemask_epi8_def bit_horner_sum_bit_word_iff)

lemma bit_children_mask: "bit (children_mask n) i \<longleftrightarrow> i < 32 \<and> i < unat n"
proof -
  have "children_mask n = mask (unat n)"
    by (simp add: children_mask_def mask_eq_exp_minus_1)
  then show ?thesis by (auto simp: bit_simps)
qed

lemma simd_first:
  fixes P :: "u8 \<Rightarrow> bool"
  assumes "length ks = 16" "unat n \<le> 16"
  defines "b \<equiv> movemask_epi8 (map P ks) AND children_mask n"
  shows "(if b \<noteq> 0 then Some (ctz32 b) else None) = first_idx (unat n) (\<lambda>i. P (ks ! i))"
proof -
  have bit_b: "bit b i \<longleftrightarrow> i < unat n \<and> P (ks ! i)" for i
    using assms by (auto simp: b_def bit_and_iff bit_movemask bit_children_mask)
  show ?thesis
  proof (cases "first_idx (unat n) (\<lambda>i. P (ks ! i))")
    case None
    then have "b = 0" by (intro bit_word_eqI) (auto simp: bit_b first_idx_None)
    with None show ?thesis by simp
  next
    case (Some i)
    then have "bit b i" "\<And>j. j < i \<Longrightarrow> \<not> bit b j" by (auto simp: first_idx_Some bit_b)
    then have "ctz32 b = i" "b \<noteq> 0" by (auto intro: ctz32_least)
    with Some show ?thesis by simp
  qed
qed

lemma find_child16:
  "length keys = 16 \<Longrightarrow> unat (num_children h) \<le> 16 \<Longrightarrow>
    find_child h (Node16 keys cs) c = first_idx (unat (num_children h)) (\<lambda>i. keys ! i = c)"
  using simd_first [of keys "num_children h" "\<lambda>k. k = c"] by (simp add: Let_def)

lemma insert_pos16:
  assumes "length keys = 16" "unat (num_children h) \<le> 16"
  shows "insert_pos16 h keys c =
    (case first_idx (unat (num_children h)) (\<lambda>i. sint c < sint (keys ! i)) of
       Some idx \<Rightarrow> idx | None \<Rightarrow> unat (num_children h))"
  using simd_first [OF assms, of "\<lambda>k. sint c < sint k", symmetric]
  by (simp add: insert_pos16_def Let_def)

lemma insert_pos_le:
  "insert_pos4 h keys c \<le> unat (num_children h)"
  "length keys = 16 \<Longrightarrow> unat (num_children h) \<le> 16 \<Longrightarrow> insert_pos16 h keys c \<le> unat (num_children h)"
  by (auto simp: insert_pos4_def insert_pos16 first_idx_Some split: option.splits)

section \<open>Parallel arrays as an association\<close>

definition lin_ok :: "nat \<Rightarrow> nat \<Rightarrow> u8 list \<Rightarrow> 'n option list \<Rightarrow> bool" where
  "lin_ok L n keys cs \<longleftrightarrow> length keys = L \<and> length cs = L \<and> n \<le> L \<and> distinct (take n keys) \<and>
    (\<forall>i < n. cs ! i \<noteq> None)"

definition assoc :: "nat \<Rightarrow> u8 list \<Rightarrow> 'n option list \<Rightarrow> (u8 \<times> 'n option) list" where
  "assoc n keys cs = zip (take n keys) (take n cs)"

definition lin_map :: "nat \<Rightarrow> u8 list \<Rightarrow> 'n option list \<Rightarrow> u8 \<Rightarrow> 'n option" where
  "lin_map n keys cs c = Option.bind (first_idx n (\<lambda>i. keys ! i = c)) (slot cs)"

lemma lin_map_at:
  assumes "lin_ok L n keys cs" "i < n"
  shows "lin_map n keys cs (keys ! i) = cs ! i"
proof -
  have "first_idx n (\<lambda>j. keys ! j = keys ! i) = Some i"
    using assms nth_eq_iff_index_eq [of "take n keys"]
    by (auto simp: first_idx_Some lin_ok_def)
  then show ?thesis using assms by (auto simp: lin_map_def slot_def lin_ok_def)
qed

lemma lin_map_None_iff:
  assumes "lin_ok L n keys cs"
  shows "lin_map n keys cs c = None \<longleftrightarrow> c \<notin> set (take n keys)"
proof -
  have "first_idx n (\<lambda>i. keys ! i = c) = None \<longleftrightarrow> c \<notin> set (take n keys)"
    using assms by (auto simp: first_idx_None in_set_conv_nth lin_ok_def)
  moreover have "lin_map n keys cs c = None \<longleftrightarrow> first_idx n (\<lambda>i. keys ! i = c) = None"
  proof (cases "first_idx n (\<lambda>i. keys ! i = c)")
    case (Some i)
    then have "i < n" by (simp add: first_idx_Some)
    with Some assms show ?thesis by (simp add: lin_map_def slot_def lin_ok_def)
  qed (simp add: lin_map_def)
  ultimately show ?thesis by simp
qed

lemma dom_lin_map: "lin_ok L n keys cs \<Longrightarrow> dom (lin_map n keys cs) = set (take n keys)"
  by (auto simp: dom_def lin_map_None_iff)

lemma card_dom_lin_map: "lin_ok L n keys cs \<Longrightarrow> card (dom (lin_map n keys cs)) = n"
  using distinct_card [of "take n keys"] by (simp add: dom_lin_map) (simp add: lin_ok_def min_absorb2)

lemma lin_map_assoc:
  assumes "lin_ok L n keys cs"
  shows "map_of (assoc n keys cs) c = (if c \<in> set (take n keys) then Some (lin_map n keys cs c) else None)"
proof (cases "c \<in> set (take n keys)")
  case True
  with assms obtain i where i: "i < n" "keys ! i = c"
    by (auto simp: in_set_conv_nth lin_ok_def)
  with assms map_of_zip_nth [of "take n keys" "take n cs" i]
  have "map_of (assoc n keys cs) c = Some (cs ! i)"
    by (auto simp: assoc_def lin_ok_def)
  with True i assms show ?thesis by (auto simp: lin_map_at)
next
  case False
  with assms have "map_of (assoc n keys cs) c = None"
    by (auto simp: assoc_def map_of_eq_None_iff dest: set_zip_leftD)
  with False show ?thesis by simp
qed

subsection \<open>Insertion\<close>

lemma take_array_insert:
  assumes "n < length xs" "idx \<le> n"
  shows "take (Suc n) (array_insert n idx x xs) = take idx xs @ x # drop idx (take n xs)"
    (is "?l = ?r")
proof (rule nth_equalityI)
  show "length ?l = length ?r" using assms by (simp add: array_insert_def)
  fix i
  assume "i < length ?l"
  then have i: "i < Suc n" using assms by (simp add: array_insert_def)
  show "?l ! i = ?r ! i"
  proof -
    consider "i < idx" | "i = idx" | "idx < i" by linarith
    then show ?thesis
    proof cases
      case 1 then show ?thesis using assms i by (simp add: array_insert_def nth_memmove nth_append)
    next
      case 2 then show ?thesis using assms i by (simp add: array_insert_def nth_append)
    next
      case 3
      then have "idx + (i - Suc idx) = i - 1" by simp
      with 3 show ?thesis using assms i
        by (simp add: array_insert_def nth_memmove nth_append nth_Cons' add.commute)
    qed
  qed
qed

lemma length_array_insert [simp]: "n < length xs \<Longrightarrow> idx \<le> n \<Longrightarrow> length (array_insert n idx x xs) = length xs"
  by (simp add: array_insert_def)

lemma assoc_insert:
  assumes "lin_ok L n keys cs" "n < L" "idx \<le> n"
  shows "assoc (Suc n) (array_insert n idx c keys) (array_insert n idx (Some x) cs) =
    take idx (assoc n keys cs) @ (c, Some x) # drop idx (assoc n keys cs)"
  using assms
  by (simp add: assoc_def lin_ok_def take_array_insert take_zip drop_zip min_absorb1)

lemma lin_insert:
  assumes ok: "lin_ok L n keys cs" and n: "n < L" "idx \<le> n" and c: "lin_map n keys cs c = None"
  shows "lin_ok L (Suc n) (array_insert n idx c keys) (array_insert n idx (Some x) cs)" (is ?ok)
    and "lin_map (Suc n) (array_insert n idx c keys) (array_insert n idx (Some x) cs) =
      (lin_map n keys cs)(c := Some x)" (is ?map)
proof -
  let ?ks = "array_insert n idx c keys" and ?cs = "array_insert n idx (Some x) cs"
  have cn: "c \<notin> set (take n keys)" using ok c by (simp add: lin_map_None_iff)
  have ks: "take (Suc n) ?ks = take idx (take n keys) @ c # drop idx (take n keys)"
    using ok n by (simp add: take_array_insert lin_ok_def min_absorb1)
  have sub: "set (take idx (take n keys)) \<subseteq> set (take n keys)" "set (drop idx (take n keys)) \<subseteq> set (take n keys)"
    by (rule set_take_subset, rule set_drop_subset)
  have dist: "distinct (take idx (take n keys) @ drop idx (take n keys))"
    using ok by (simp only: append_take_drop_id lin_ok_def)
  have d: "distinct (take (Suc n) ?ks)"
    using dist sub cn unfolding ks by auto
  have "set (take (Suc n) ?cs) = insert (Some x) (set (take n cs))"
  proof -
    have "take (Suc n) ?cs = take idx (take n cs) @ Some x # drop idx (take n cs)"
      using ok n by (simp add: take_array_insert lin_ok_def min_absorb1)
    then have "set (take (Suc n) ?cs) = insert (Some x) (set (take idx (take n cs) @ drop idx (take n cs)))"
      by simp
    then show ?thesis by (simp only: append_take_drop_id)
  qed
  moreover have "None \<notin> set (take n cs)"
    using ok by (auto simp: lin_ok_def in_set_conv_nth)
  ultimately have "None \<notin> set (take (Suc n) ?cs)" by simp
  then have "\<forall>i < Suc n. ?cs ! i \<noteq> None"
    using ok n by (force simp: in_set_conv_nth lin_ok_def)
  with ok n d show ok': ?ok by (simp add: lin_ok_def)
  have fst_assoc: "fst ` set (assoc n keys cs) = set (take n keys)"
    using ok by (simp add: assoc_def lin_ok_def flip: set_map)
  have split: "map_of (assoc n keys cs) = map_of (drop idx (assoc n keys cs)) ++ map_of (take idx (assoc n keys cs))"
    by (metis append_take_drop_id map_of_append)
  have cA: "map_of (take idx (assoc n keys cs)) c = None"
    using cn fst_assoc set_take_subset [of idx "assoc n keys cs"]
    by (fastforce simp: map_of_eq_None_iff)
  have mo: "map_of (assoc (Suc n) ?ks ?cs) = (map_of (assoc n keys cs))(c \<mapsto> Some x)"
    using cA by (auto simp: assoc_insert [OF ok n] split fun_eq_iff map_add_def split: option.splits)
  show ?map
  proof
    fix d
    from lin_map_assoc [OF ok', of d] lin_map_assoc [OF ok, of d] mo lin_map_None_iff [OF ok', of d]
      lin_map_None_iff [OF ok, of d]
    show "lin_map (Suc n) ?ks ?cs d = ((lin_map n keys cs)(c := Some x)) d"
      by (auto split: if_splits)
  qed
qed

subsection \<open>Deletion\<close>

lemma length_array_remove [simp]: "pos < n \<Longrightarrow> n \<le> length xs \<Longrightarrow> length (array_remove n pos xs) = length xs"
  by (simp add: array_remove_def)

lemma take_array_remove:
  assumes "pos < n" "n \<le> length xs"
  shows "take (n - 1) (array_remove n pos xs) = take pos xs @ drop (Suc pos) (take n xs)" (is "?l = ?r")
proof (rule nth_equalityI)
  show "length ?l = length ?r" using assms by (simp add: array_remove_def)
  fix i
  assume "i < length ?l"
  then have i: "i < n - 1" using assms by (simp add: array_remove_def)
  then show "?l ! i = ?r ! i"
    using assms by (auto simp: array_remove_def nth_memmove nth_append min_absorb1 add.commute)
qed

lemma assoc_remove:
  assumes "lin_ok L n keys cs" "pos < n"
  shows "assoc (n - 1) (array_remove n pos keys) (array_remove n pos cs) =
    take pos (assoc n keys cs) @ drop (Suc pos) (assoc n keys cs)"
  using assms
  by (simp add: assoc_def lin_ok_def take_array_remove [of pos n, simplified] take_zip drop_zip min_absorb1)

lemma lin_remove:
  assumes ok: "lin_ok L n keys cs" and n: "pos < n"
  shows "lin_ok L (n - 1) (array_remove n pos keys) (array_remove n pos cs)" (is ?ok)
    and "lin_map (n - 1) (array_remove n pos keys) (array_remove n pos cs) =
      (lin_map n keys cs)(keys ! pos := None)" (is ?map)
proof -
  let ?ks = "array_remove n pos keys" and ?cs = "array_remove n pos cs"
  let ?A = "assoc n keys cs"
  have len: "n \<le> length keys" "n \<le> length cs" using ok by (simp_all add: lin_ok_def)
  note tk = take_array_remove [OF n len(1)] and tc = take_array_remove [OF n len(2)]
  have keys_split: "take n keys = take pos (take n keys) @ keys ! pos # drop (Suc pos) (take n keys)"
    using n len by (metis id_take_nth_drop length_take min_absorb2 nth_take)
  have dk: "distinct (take n keys)" using ok by (simp add: lin_ok_def)
  then have "distinct (take pos (take n keys) @ keys ! pos # drop (Suc pos) (take n keys))"
    using keys_split by simp
  then have d: "distinct (take (n - 1) ?ks)" and notin: "keys ! pos \<notin> set (take (n - 1) ?ks)"
    using n by (simp_all add: tk min_absorb1 del: One_nat_def)
  have "\<forall>i < n - 1. ?cs ! i \<noteq> None"
    using ok n by (auto simp: lin_ok_def array_remove_def nth_memmove)
  with ok n d show ok': ?ok by (simp add: lin_ok_def le_diff_conv)
  have A_split: "?A = take pos ?A @ (keys ! pos, cs ! pos) # drop (Suc pos) ?A"
    using n len by (subst id_take_nth_drop [of pos]) (simp_all add: assoc_def)
  show ?map
  proof
    fix d
    show "lin_map (n - 1) ?ks ?cs d = ((lin_map n keys cs)(keys ! pos := None)) d"
    proof (cases "d = keys ! pos")
      case True
      with notin lin_map_None_iff [OF ok', of d] show ?thesis by simp
    next
      case False
      then have "map_of ?A d = map_of (take pos ?A @ drop (Suc pos) ?A) d"
        by (subst A_split) (simp add: map_add_def split: option.splits)
      then have "map_of ?A d = map_of (assoc (n - 1) ?ks ?cs) d"
        by (simp add: assoc_remove [OF ok n, simplified])
      with False lin_map_assoc [OF ok', of d] lin_map_assoc [OF ok, of d]
        lin_map_None_iff [OF ok', of d] lin_map_None_iff [OF ok, of d]
      show ?thesis by (auto split: if_splits)
    qed
  qed
qed

lemma lin_update:
  assumes ok: "lin_ok L n keys cs" and i: "i < n"
  shows "lin_ok L n keys (cs[i := Some x])"
    and "lin_map n keys (cs[i := Some x]) = (lin_map n keys cs)(keys ! i := Some x)"
proof -
  show ok': "lin_ok L n keys (cs[i := Some x])"
    using ok i by (auto simp: lin_ok_def nth_list_update)
  show "lin_map n keys (cs[i := Some x]) = (lin_map n keys cs)(keys ! i := Some x)"
  proof
    fix d
    show "lin_map n keys (cs[i := Some x]) d = ((lin_map n keys cs)(keys ! i := Some x)) d"
    proof (cases "first_idx n (\<lambda>j. keys ! j = d)")
      case None
      moreover from None i have "keys ! i \<noteq> d" by (simp add: first_idx_None)
      ultimately show ?thesis by (simp add: lin_map_def)
    next
      case (Some j)
      then have j: "j < n" "keys ! j = d" by (auto simp: first_idx_Some)
      with lin_map_at [OF ok' j(1)] lin_map_at [OF ok j(1)] ok i
      show ?thesis
        by (auto simp: nth_list_update lin_ok_def dest: nth_eq_iff_index_eq [of "take n keys" j i, THEN iffD1])
    qed
  qed
qed

lemma lin_memcpy:
  assumes ok: "lin_ok L n keys cs" and "n \<le> m" "m \<le> L" "m \<le> L'"
  shows "lin_ok L' n (memcpy m keys (replicate L' 0)) (memcpy m cs (replicate L' None))" (is ?ok)
    and "lin_map n (memcpy m keys (replicate L' 0)) (memcpy m cs (replicate L' None)) = lin_map n keys cs"
proof -
  have nth: "memcpy m keys (replicate L' 0) ! i = keys ! i" "memcpy m cs (replicate L' None) ! i = cs ! i"
    if "i < n" for i
    using that assms by (auto simp: nth_memcpy lin_ok_def)
  have "take n (memcpy m keys (replicate L' 0)) = take n keys"
    using assms by (auto simp: memcpy_def lin_ok_def min_absorb1)
  with assms nth show ?ok by (auto simp: lin_ok_def)
  have "slot (memcpy m cs (replicate L' None)) i = slot cs i" if "i < n" for i
    using that assms by (auto simp: slot_def nth lin_ok_def)
  then show "lin_map n (memcpy m keys (replicate L' 0)) (memcpy m cs (replicate L' None)) = lin_map n keys cs"
    using first_idx_cong [of n, OF arg_cong2 [where f = "(=)", OF nth(1) refl]]
    by (auto simp: lin_map_def first_idx_Some fun_eq_iff split: option.splits intro!: Option.bind_cong)
qed

end
