(* ===== verification/ART_Indexed.thy ===== *)
theory ART_Indexed
  imports ART_Linear
begin

text \<open>
  The two layouts addressed by the key byte: \<open>Node48\<close>, whose 256-byte \<open>keys\<close> table holds child
  numbers from 1 on (0 for absent), and \<open>Node256\<close>, a direct table. \<open>idx_map\<close> is the map from
  bytes to children that a \<open>Node48\<close> represents and \<open>idx_ok\<close> its representation invariant; the
  conversions between layouts keep the map.
\<close>

section \<open>The indexed layout\<close>

definition idx_map :: "u8 list \<Rightarrow> 'n option list \<Rightarrow> u8 \<Rightarrow> 'n option" where
  "idx_map keys cs c =
    (if keys ! unat c \<noteq> 0 then slot cs (unat (keys ! unat c) - 1) else None)"

definition idx_ok :: "u8 list \<Rightarrow> 'n option list \<Rightarrow> bool" where
  "idx_ok keys cs \<longleftrightarrow> length keys = 256 \<and> length cs = 48 \<and>
    (\<forall>c::u8. keys ! unat c \<noteq> 0 \<longrightarrow> unat (keys ! unat c) \<le> 48 \<and> cs ! (unat (keys ! unat c) - 1) \<noteq> None) \<and>
    (\<forall>c d::u8. keys ! unat c \<noteq> 0 \<longrightarrow> keys ! unat c = keys ! unat d \<longrightarrow> c = d) \<and>
    (\<forall>p < 48. cs ! p \<noteq> None \<longrightarrow> (\<exists>c::u8. unat (keys ! unat c) = p + 1))"

lemma unat_u8_lt [simp]: "unat (c::u8) < 256"
proof -
  have "unat c < 2 ^ LENGTH(8)" by (rule unsigned_less)
  then show ?thesis by simp
qed

lemma unat_of_nat_u8 [simp]: "n < 256 \<Longrightarrow> unat (of_nat n :: u8) = n"
  by (simp add: unat_of_nat)

lemma idx_okD:
  fixes c :: u8
  assumes "idx_ok keys cs" "keys ! unat c \<noteq> 0"
  shows "unat (keys ! unat c) - 1 < 48" "unat (keys ! unat c) \<le> 48" "0 < unat (keys ! unat c)"
    "cs ! (unat (keys ! unat c) - 1) \<noteq> None"
proof -
  from assms(1) have "\<forall>c::u8. keys ! unat c \<noteq> 0 \<longrightarrow>
      unat (keys ! unat c) \<le> 48 \<and> cs ! (unat (keys ! unat c) - 1) \<noteq> None"
    unfolding idx_ok_def by (elim conjE)
  with assms(2) show le: "unat (keys ! unat c) \<le> 48" and "cs ! (unat (keys ! unat c) - 1) \<noteq> None"
    by blast+
  show "0 < unat (keys ! unat c)" using assms(2) by (simp add: unat_gt_0)
  with le show "unat (keys ! unat c) - 1 < 48" by linarith
qed

lemma idx_ok_inj:
  fixes c d :: u8
  assumes "idx_ok keys cs" "keys ! unat c \<noteq> 0" "unat (keys ! unat c) = unat (keys ! unat d)"
  shows "c = d"
proof -
  from assms(1) have "\<forall>c d::u8. keys ! unat c \<noteq> 0 \<longrightarrow> keys ! unat c = keys ! unat d \<longrightarrow> c = d"
    unfolding idx_ok_def by (elim conjE)
  moreover from assms(3) have "keys ! unat c = keys ! unat d" by (simp add: word_unat_eq_iff)
  ultimately show ?thesis using assms(2) by blast
qed

lemma idx_map_None_iff: "idx_ok keys cs \<Longrightarrow> idx_map keys cs c = None \<longleftrightarrow> keys ! unat c = 0"
  using idx_okD [of keys cs c] by (auto simp: idx_map_def slot_def idx_ok_def)

lemma idx_all_used:
  assumes ok: "idx_ok keys cs" and full: "\<forall>p < 48. cs ! p \<noteq> None"
  shows "48 \<le> card (dom (idx_map keys cs))"
proof -
  from ok full have "\<forall>p. \<exists>c::u8. p < 48 \<longrightarrow> unat (keys ! unat c) = p + 1"
    by (auto simp: idx_ok_def)
  then obtain g :: "nat \<Rightarrow> u8" where g: "\<And>p. p < 48 \<Longrightarrow> unat (keys ! unat (g p)) = p + 1"
    by metis
  have "inj_on g {..<48}" by (rule inj_onI) (metis g add_right_cancel lessThan_iff)
  moreover have "g ` {..<48} \<subseteq> dom (idx_map keys cs)"
  proof
    fix c
    assume "c \<in> g ` {..<48}"
    then obtain p where "p < 48" "c = g p" by blast
    with g [of p] have "keys ! unat c \<noteq> 0" by auto
    with idx_map_None_iff [OF ok, of c] show "c \<in> dom (idx_map keys cs)" by auto
  qed
  ultimately have "card {..<48::nat} \<le> card (dom (idx_map keys cs))"
    by (metis card_inj_on_le finite)
  then show ?thesis by simp
qed

lemma free_pos_props:
  assumes "free_pos cs < length cs"
  shows "cs ! free_pos cs = None"
  using assms nth_length_takeWhile [of "\<lambda>x. x \<noteq> None" cs] by (simp add: free_pos_def)

lemma free_pos_lt:
  assumes "idx_ok keys cs" "card (dom (idx_map keys cs)) < 48"
  shows "free_pos cs < 48"
proof (rule ccontr)
  assume "\<not> free_pos cs < 48"
  moreover have len: "length cs = 48" using assms(1) by (simp add: idx_ok_def)
  moreover have "free_pos cs \<le> length cs" by (simp add: free_pos_def length_takeWhile_le)
  ultimately have "takeWhile (\<lambda>x. x \<noteq> None) cs = cs"
    by (metis free_pos_def le_antisym not_less takeWhile_eq_take take_all)
  then have "\<forall>x \<in> set cs. x \<noteq> None" by (metis set_takeWhileD)
  then have "\<forall>p < 48. cs ! p \<noteq> None" using len by auto
  with idx_all_used [OF assms(1)] assms(2) show False by simp
qed

lemma idx_add:
  fixes x :: 'n and c :: u8
  assumes ok: "idx_ok keys cs" and c: "idx_map keys cs c = None" and p: "p < 48" "cs ! p = None"
  defines "keys' \<equiv> keys[unat c := of_nat (p + 1)]" and "cs' \<equiv> cs[p := Some x]"
  shows "idx_ok keys' cs'" and "idx_map keys' cs' = (idx_map keys cs)(c := Some x)"
proof -
  have len: "length keys = 256" "length cs = 48" using ok by (simp_all add: idx_ok_def)
  have kc: "keys ! unat c = 0" using ok c by (simp add: idx_map_None_iff)
  have k': "keys' ! unat d = (if d = c then of_nat (p + 1) else keys ! unat d)" for d :: u8
    using len by (auto simp: keys'_def nth_list_update word_unat_eq_iff)
  have up: "unat (of_nat (p + 1) :: u8) = p + 1"
    by (rule unat_of_nat_u8) (use p in simp)
  then have nz: "(of_nat (p + 1) :: u8) \<noteq> 0" by (metis Suc_eq_plus1 nat.simps(3) unat_0)
  have other: "unat (keys ! unat d) \<noteq> p + 1" for d :: u8
  proof
    assume e: "unat (keys ! unat d) = p + 1"
    then have "keys ! unat d \<noteq> 0" by (auto simp: unat_gt_0 [symmetric])
    from idx_okD(4) [OF ok this] e p(2) show False by simp
  qed
  then have other': "keys ! unat d \<noteq> of_nat (p + 1)" for d :: u8
    using other [of d] up by metis
  have slot': "slot cs' q = (if q = p then Some x else slot cs q)" for q
    using len p by (auto simp: cs'_def slot_update)
  show "idx_map keys' cs' = (idx_map keys cs)(c := Some x)"
  proof
    fix d :: u8
    have "unat (keys ! unat d) - 1 \<noteq> p" if "keys ! unat (d::u8) \<noteq> 0" 
      using other [of d] that by (metis One_nat_def Suc_eq_plus1 Suc_pred unat_gt_0)
    then show "idx_map keys' cs' d = ((idx_map keys cs)(c := Some x)) d"
      using up nz by (auto simp: idx_map_def k' slot')
  qed
  show "idx_ok keys' cs'"
    unfolding idx_ok_def
  proof (intro conjI allI impI)
    show "length keys' = 256" "length cs' = 48" using len by (simp_all add: keys'_def cs'_def)
    fix d :: u8 assume d: "keys' ! unat d \<noteq> 0"
    show "unat (keys' ! unat d) \<le> 48"
      using d ok up p by (auto simp: k' idx_ok_def)
    show "cs' ! (unat (keys' ! unat d) - 1) \<noteq> None"
      using d ok up p len by (auto simp: k' idx_ok_def cs'_def nth_list_update)
    fix e :: u8 assume "keys' ! unat d = keys' ! unat e"
    then show "d = e" using d idx_ok_inj [OF ok, of d e] other' [of d] other' [of e]
      by (cases "d = c"; cases "e = c") (simp_all only: k' if_True if_False, auto)
  next
    fix q assume q: "q < 48" "cs' ! q \<noteq> None"
    show "\<exists>e::u8. unat (keys' ! unat e) = q + 1"
    proof (cases "q = p")
      case True
      with up show ?thesis by (intro exI [of _ c]) (simp add: k')
    next
      case False
      with q ok obtain e :: u8 where e: "unat (keys ! unat e) = q + 1"
        by (auto simp: idx_ok_def cs'_def)
      with kc have "e \<noteq> c" by auto
      with e show ?thesis by (intro exI [of _ e]) (simp add: k')
    qed
  qed
qed

lemma idx_remove:
  fixes c :: u8
  assumes ok: "idx_ok keys cs" and c: "keys ! unat c \<noteq> 0"
  defines "keys' \<equiv> keys[unat c := 0]" and "cs' \<equiv> cs[unat (keys ! unat c) - 1 := None]"
  shows "idx_ok keys' cs'" and "idx_map keys' cs' = (idx_map keys cs)(c := None)"
proof -
  let ?p = "unat (keys ! unat c) - 1"
  have len: "length keys = 256" "length cs = 48" using ok by (simp_all add: idx_ok_def)
  have p: "?p < 48" "unat (keys ! unat c) = ?p + 1"
    using idx_okD [OF ok c] by simp_all
  have k': "keys' ! unat d = (if d = c then 0 else keys ! unat d)" for d :: u8
    using len by (auto simp: keys'_def nth_list_update word_unat_eq_iff)
  have inj: "keys ! unat d \<noteq> 0 \<Longrightarrow> keys ! unat d = keys ! unat e \<Longrightarrow> d = e" for d e :: u8
    using idx_ok_inj [OF ok] by (simp add: word_unat_eq_iff)
  have other: "unat (keys ! unat d) - 1 \<noteq> ?p" if "d \<noteq> c" "keys ! unat d \<noteq> 0" for d :: u8
  proof
    assume "unat (keys ! unat d) - 1 = ?p"
    with p(2) that(2) have "unat (keys ! unat d) = unat (keys ! unat c)"
      by (metis One_nat_def Suc_eq_plus1 Suc_pred unat_gt_0)
    with idx_ok_inj [OF ok, of d c] that show False by simp
  qed
  have slot': "slot cs' q = (if q = ?p then None else slot cs q)" for q
    using len by (auto simp: cs'_def slot_update slot_def)
  show "idx_map keys' cs' = (idx_map keys cs)(c := None)"
    using other by (auto simp: idx_map_def k' slot' fun_eq_iff)
  show "idx_ok keys' cs'"
    unfolding idx_ok_def
  proof (intro conjI allI impI)
    show "length keys' = 256" "length cs' = 48" using len by (simp_all add: keys'_def cs'_def)
    fix d :: u8 assume d: "keys' ! unat d \<noteq> 0"
    then have dc: "d \<noteq> c" "keys ! unat d \<noteq> 0" by (auto simp: k' split: if_splits)
    then show "unat (keys' ! unat d) \<le> 48" using ok by (auto simp: k' idx_ok_def)
    from dc have "cs ! (unat (keys ! unat d) - 1) \<noteq> None" using ok by (auto simp: idx_ok_def)
    with other [OF dc] show "cs' ! (unat (keys' ! unat d) - 1) \<noteq> None"
      using dc by (simp add: k' cs'_def)
    fix e :: u8 assume "keys' ! unat d = keys' ! unat e"
    then show "d = e" using d inj by (auto simp: k' split: if_splits)
  next
    fix q assume q: "q < 48" "cs' ! q \<noteq> None"
    then have qp: "q \<noteq> ?p" using len by (auto simp: cs'_def)
    with q ok obtain e :: u8 where e: "unat (keys ! unat e) = q + 1"
      by (auto simp: idx_ok_def cs'_def)
    with qp p have "e \<noteq> c" by auto
    with e show "\<exists>e::u8. unat (keys' ! unat e) = q + 1" by (intro exI [of _ e]) (simp add: k')
  qed
qed

lemma idx_update:
  fixes x :: 'n and c :: u8
  assumes ok: "idx_ok keys cs" and c: "keys ! unat c \<noteq> 0"
  defines "cs' \<equiv> cs[unat (keys ! unat c) - 1 := Some x]"
  shows "idx_ok keys cs'" and "idx_map keys cs' = (idx_map keys cs)(c := Some x)"
proof -
  let ?p = "unat (keys ! unat c) - 1"
  have p: "?p < 48" "length cs = 48" "cs ! ?p \<noteq> None"
    using idx_okD [OF ok c] ok by (simp_all add: idx_ok_def)
  have some: "cs' ! q \<noteq> None \<longleftrightarrow> cs ! q \<noteq> None" for q
    using p by (cases "q < 48") (auto simp: cs'_def nth_list_update list_update_beyond)
  then show "idx_ok keys cs'" using ok by (auto simp: idx_ok_def cs'_def)
  have "d = c" if "keys ! unat d \<noteq> 0" "unat (keys ! unat d) - 1 = ?p" for d :: u8
  proof -
    from that c have "unat (keys ! unat d) = unat (keys ! unat c)"
      by (metis One_nat_def Suc_pred unat_gt_0)
    with idx_ok_inj [OF ok] that show ?thesis by blast
  qed
  then show "idx_map keys cs' = (idx_map keys cs)(c := Some x)"
    using c p by (auto simp: idx_map_def cs'_def slot_update fun_eq_iff)
qed

section \<open>Growing a linear node to an indexed one\<close>

lemma length_grow48 [simp]: "length (grow48 n keys) = 256"
  unfolding grow48_def by (induction n) simp_all

lemma grow48_nth:
  fixes c :: u8
  assumes "distinct (take n keys)" "n \<le> length keys"
  shows "grow48 n keys ! unat c =
    (case first_idx n (\<lambda>i. keys ! i = c) of Some i \<Rightarrow> of_nat (i + 1) | None \<Rightarrow> 0)"
  using assms
proof (induction n)
  case 0
  then show ?case by (simp add: grow48_def first_idx_def)
next
  case (Suc n)
  then have d: "distinct (take n keys)" and n: "keys ! n \<notin> set (take n keys)"
    by (simp_all add: take_Suc_conv_app_nth)
  have step: "grow48 (Suc n) keys = (grow48 n keys)[unat (keys ! n) := of_nat (n + 1)]"
    by (simp add: grow48_def)
  show ?case
  proof (cases "keys ! n = c")
    case True
    with n Suc.prems have "first_idx n (\<lambda>i. keys ! i = c) = None"
      by (auto simp: first_idx_None in_set_conv_nth)
    with True show ?thesis by (simp add: step first_idx_Suc)
  next
    case False
    then have "unat (keys ! n) \<noteq> unat c" by (simp add: word_unat_eq_iff)
    with False Suc.IH [OF d] Suc.prems show ?thesis
      by (simp add: step first_idx_Suc split: option.splits)
  qed
qed

lemma grow48_ok:
  assumes ok: "lin_ok L n keys cs" and n: "n \<le> 48"
  defines "ks \<equiv> grow48 n keys" and "cs' \<equiv> memcpy n cs (replicate 48 None)"
  shows "idx_ok ks cs'" and "idx_map ks cs' = lin_map n keys cs"
proof -
  have len: "length cs = L" "length keys = L" "n \<le> L" "distinct (take n keys)"
    using ok by (simp_all add: lin_ok_def)
  have k: "ks ! unat c = (case first_idx n (\<lambda>i. keys ! i = c) of Some i \<Rightarrow> of_nat (i + 1) | None \<Rightarrow> 0)"
    for c :: u8
    using grow48_nth [of n keys c] len by (simp add: ks_def)
  have up: "unat (of_nat (i + 1) :: u8) = i + 1" if "i < n" for i
    by (rule unat_of_nat_u8) (use that n in simp)
  then have nz: "(of_nat (i + 1) :: u8) \<noteq> 0" if "i < n" for i
    using that by (metis Suc_eq_plus1 nat.simps(3) unat_0)
  have cs': "cs' ! i = (if i < n then cs ! i else None)" if "i < 48" for i
    using that len n by (simp add: cs'_def nth_memcpy)
  have lcs': "length cs' = 48" using len n by (simp add: cs'_def)
  have used: "\<exists>i < n. keys ! i = c \<and> ks ! unat c = of_nat (i + 1)"
    if "ks ! unat c \<noteq> 0" for c :: u8
    using that
  proof (cases "first_idx n (\<lambda>i. keys ! i = c)")
    case (Some i)
    then show ?thesis by (intro exI [of _ i]) (simp add: k, simp add: first_idx_Some)
  qed (simp add: k)
  show "idx_map ks cs' = lin_map n keys cs"
  proof
    fix c
    show "idx_map ks cs' c = lin_map n keys cs c"
    proof (cases "first_idx n (\<lambda>i. keys ! i = c)")
      case None
      then show ?thesis by (simp add: idx_map_def lin_map_def k)
    next
      case (Some i)
      then have i: "i < n" by (simp add: first_idx_Some)
      have "ks ! unat c = of_nat (i + 1)" using Some by (simp add: k)
      then have "idx_map ks cs' c = slot cs' i"
        using up [OF i] nz [OF i] by (simp only: idx_map_def) simp
      also have "\<dots> = slot cs i" using i n len lcs' by (simp add: slot_def cs')
      finally show ?thesis using Some by (simp add: lin_map_def)
    qed
  qed
  show "idx_ok ks cs'"
    unfolding idx_ok_def
  proof (intro conjI allI impI)
    show "length ks = 256" by (simp add: ks_def)
    show "length cs' = 48" by (rule lcs')
    fix c :: u8 assume c: "ks ! unat c \<noteq> 0"
    from used [OF c] obtain i where i: "i < n" "keys ! i = c" "ks ! unat c = of_nat (i + 1)" by blast
    then have u: "unat (ks ! unat c) = i + 1" using up by simp
    then show "unat (ks ! unat c) \<le> 48" using i n by simp
    show "cs' ! (unat (ks ! unat c) - 1) \<noteq> None"
      using u i n ok by (simp add: cs' lin_ok_def)
    fix d :: u8 assume eq: "ks ! unat c = ks ! unat d"
    with c have "ks ! unat d \<noteq> 0" by simp
    from used [OF this] obtain j where j: "j < n" "keys ! j = d" "ks ! unat d = of_nat (j + 1)" by blast
    with up [OF j(1)] u eq have "i = j" by simp
    with i j show "c = d" by simp
  next
    fix p assume p: "p < 48" "cs' ! p \<noteq> None"
    then have pn: "p < n" using cs' by (metis (full_types))
    have "first_idx n (\<lambda>i. keys ! i = keys ! p) = Some p"
      using pn len nth_eq_iff_index_eq [of "take n keys"] by (auto simp: first_idx_Some)
    then have "ks ! unat (keys ! p) = of_nat (p + 1)" by (simp add: k)
    with up [OF pn] show "\<exists>c::u8. unat (ks ! unat c) = p + 1" by metis
  qed
qed

section \<open>Growing an indexed node to a direct one\<close>

definition dir_map :: "'n option list \<Rightarrow> u8 \<Rightarrow> 'n option" where
  "dir_map cs c = slot cs (unat c)"

lemma length_grow256 [simp]: "length (grow256 keys cs) = 256"
  by (simp add: grow256_def)

lemma grow256_map: "dir_map (grow256 keys cs) = idx_map keys cs"
proof
  fix c :: u8
  have "grow256 keys cs ! unat c = idx_map keys cs c"
    unfolding grow256_def by (subst nth_map) (simp_all add: idx_map_def)
  then show "dir_map (grow256 keys cs) c = idx_map keys cs c"
    by (simp add: dir_map_def slot_def)
qed

lemma dir_update: "length cs = 256 \<Longrightarrow> dir_map (cs[unat c := y]) = (dir_map cs)(c := y)"
  by (auto simp: dir_map_def slot_update fun_eq_iff word_unat_eq_iff)

section \<open>Shrinking\<close>

lemma unat_of_nat_byte [simp]: "of_nat (unat (c::u8)) = c"
  by simp

text \<open>Both conversions scan the 256 bytes in order and append the live ones.\<close>

definition live :: "(nat \<Rightarrow> bool) \<Rightarrow> nat \<Rightarrow> nat list" where
  "live P n = filter P [0..<n]"

lemma live_Suc: "live P (Suc n) = live P n @ (if P n then [n] else [])"
  by (simp add: live_def)

lemma live_props: "distinct (live P n)" "set (live P n) = {i. i < n \<and> P i}"
  by (auto simp: live_def)

lemma shrink48_fold:
  fixes cs :: "'n option list"
  defines "P \<equiv> \<lambda>i. cs ! i \<noteq> None"
  assumes "m \<le> 256" "length (live P m) \<le> 48"
    and "fold (shrink48_step cs) [0..<m] (0, replicate 256 0, replicate 48 None) = (pos, ks, cs')"
  shows "pos = length (live P m) \<and> length ks = 256 \<and> length cs' = 48 \<and>
    (\<forall>p < pos. ks ! (live P m ! p) = (of_nat (p + 1) :: u8) \<and> cs' ! p = cs ! (live P m ! p)) \<and>
    (\<forall>j < 256. j \<notin> set (live P m) \<longrightarrow> ks ! j = 0) \<and> (\<forall>p < 48. pos \<le> p \<longrightarrow> cs' ! p = None)"
  using assms(2-)
proof (induction m arbitrary: pos ks cs')
  case 0
  then show ?case by (auto simp: live_def)
next
  case (Suc m)
  obtain pos0 ks0 cs0 where f0: "fold (shrink48_step cs) [0..<m] (0, replicate 256 0, replicate 48 None) = (pos0, ks0, cs0)"
    by (rule prod_cases3)
  have le: "length (live P m) \<le> 48" using Suc.prems(2) by (auto simp: live_Suc split: if_splits)
  note IH = Suc.IH [OF _ le f0]
  have m: "m < 256" using Suc.prems(1) by simp
  have mem: "j \<in> set (live P m) \<Longrightarrow> j < m" for j by (simp add: live_props)
  have step: "shrink48_step cs m (pos0, ks0, cs0) = (pos, ks, cs')" using Suc.prems(3) f0 by simp
  show ?case
  proof (cases "P m")
    case False
    with step have "pos = pos0" "ks = ks0" "cs' = cs0" by (auto simp: P_def shrink48_step_def)
    with IH False m show ?thesis by (auto simp: live_Suc)
  next
    case True
    with step have new: "pos = pos0 + 1" "ks = ks0[m := of_nat (pos0 + 1)]" "cs' = cs0[pos0 := cs ! m]"
      by (auto simp: P_def shrink48_step_def)
    have p0: "pos0 = length (live P m)" "pos0 < 48" using IH m True Suc.prems(2) by (auto simp: live_Suc)
    have nth_lt: "live P m ! p < m" if "p < pos0" for p
      using that p0 mem nth_mem by blast
    have L: "live P (Suc m) = live P m @ [m]" using True by (simp add: live_Suc)
    have l: "length ks0 = 256" "length cs0 = 48" using IH m by simp_all
    have ks: "ks ! j = (if j = m then of_nat (pos0 + 1) else ks0 ! j)" if "j < 256" for j
      using that l by (simp add: new nth_list_update)
    have cs: "cs' ! p = (if p = pos0 then cs ! m else cs0 ! p)" if "p < 48" for p
      using that l by (simp add: new nth_list_update)
    have "ks ! (live P (Suc m) ! p) = of_nat (p + 1) \<and> cs' ! p = cs ! (live P (Suc m) ! p)" if "p < pos" for p
    proof (cases "p = pos0")
      case True
      then have "live P (Suc m) ! p = m" by (simp add: L p0 nth_append)
      with True p0 m show ?thesis by (simp add: ks cs)
    next
      case False
      with that new have p: "p < pos0" by simp
      then have n: "live P (Suc m) ! p = live P m ! p" by (simp add: L p0 nth_append)
      have "p < 48" "live P m ! p < 256" "live P m ! p \<noteq> m" using p p0 m nth_lt [OF p] by simp_all
      with p False IH m show ?thesis by (simp only: n ks cs) simp
    qed
    moreover have "ks ! j = 0" if "j < 256" "j \<notin> set (live P (Suc m))" for j
      using that IH m by (simp add: ks L)
    moreover have "cs' ! p = None" if "p < 48" "pos \<le> p" for p
      using that IH m new by (simp add: cs)
    moreover have "pos = length (live P (Suc m))" "length ks = 256" "length cs' = 48"
      using new l p0 L by simp_all
    ultimately show ?thesis by blast
  qed
qed

lemma shrink48_ok:
  fixes cs :: "'n option list"
  assumes len: "length cs = 256" and card: "card (dom (dir_map cs)) \<le> 48"
    and s: "shrink48 cs = (pos, ks, cs')"
  shows "idx_ok ks cs'" and "idx_map ks cs' = dir_map cs"
proof -
  define P where "P = (\<lambda>i. cs ! i \<noteq> None)"
  let ?L = "live P 256"
  have dom_eq: "unat ` dom (dir_map cs) = set ?L"
  proof -
    have "i \<in> unat ` dom (dir_map cs)" if "i < 256" "P i" for i
      using that len by (intro image_eqI [of _ _ "of_nat i :: u8"]) (auto simp: dir_map_def slot_def P_def)
    then show ?thesis using len by (auto simp: live_props dir_map_def slot_def P_def split: if_splits)
  qed
  have "card (unat ` dom (dir_map cs)) = card (dom (dir_map cs))"
    by (intro card_image inj_onI) (simp add: word_unat_eq_iff)
  then have L48: "length ?L \<le> 48"
    using card distinct_card [OF live_props(1) [of P 256]] dom_eq by simp
  from shrink48_fold [of 256 cs pos ks cs'] L48 s
  have pos: "pos = length ?L" and l: "length ks = 256" "length cs' = 48"
    and ks: "\<And>p. p < pos \<Longrightarrow> ks ! (?L ! p) = of_nat (p + 1)"
    and cs': "\<And>p. p < pos \<Longrightarrow> cs' ! p = cs ! (?L ! p)"
    and ks0: "\<And>j. j < 256 \<Longrightarrow> j \<notin> set ?L \<Longrightarrow> ks ! j = 0"
    and cs0: "\<And>p. p < 48 \<Longrightarrow> pos \<le> p \<Longrightarrow> cs' ! p = None"
    by (simp_all add: shrink48_def P_def)
  have up: "unat (of_nat (p + 1) :: u8) = p + 1" if "p < pos" for p
    by (rule unat_of_nat_u8) (use that pos L48 in simp)
  have at: "\<exists>p < pos. ?L ! p = unat c" if "ks ! unat c \<noteq> 0" for c :: u8
  proof -
    have "unat c \<in> set ?L" using that ks0 [of "unat c"] by auto
    then show ?thesis using pos by (auto simp: in_set_conv_nth)
  qed
  have nz: "ks ! unat c \<noteq> 0 \<longleftrightarrow> P (unat c)" for c :: u8
  proof
    assume "P (unat c)"
    then have "unat c \<in> set ?L" by (simp add: live_props)
    then obtain p where p: "p < pos" "?L ! p = unat c" using pos by (auto simp: in_set_conv_nth)
    from up [OF p(1)] have "(of_nat (p + 1) :: u8) \<noteq> 0" by (metis Suc_eq_plus1 nat.simps(3) unat_0)
    with ks [OF p(1)] p show "ks ! unat c \<noteq> 0" by simp
  next
    assume "ks ! unat c \<noteq> 0"
    then have "unat c \<in> set ?L" using ks0 [of "unat c"] by auto
    then show "P (unat c)" by (simp add: live_props)
  qed
  show "idx_map ks cs' = dir_map cs"
  proof
    fix c :: u8
    show "idx_map ks cs' c = dir_map cs c"
    proof (cases "ks ! unat c = 0")
      case True
      then show ?thesis using nz [of c] len by (auto simp: idx_map_def dir_map_def slot_def P_def)
    next
      case False
      from at [OF False] obtain p where p: "p < pos" "?L ! p = unat c" by blast
      then have "unat (ks ! unat c) - 1 = p" using ks [OF p(1)] up [OF p(1)] by simp
      then show ?thesis
        using False p pos L48 l len cs' [OF p(1)] by (simp add: idx_map_def dir_map_def slot_def)
    qed
  qed
  show "idx_ok ks cs'"
    unfolding idx_ok_def
  proof (intro conjI allI impI l)
    fix c :: u8 assume c: "ks ! unat c \<noteq> 0"
    from at [OF c] obtain p where p: "p < pos" "?L ! p = unat c" by blast
    then have u: "unat (ks ! unat c) = p + 1" using ks [OF p(1)] up [OF p(1)] by simp
    then show "unat (ks ! unat c) \<le> 48" using p pos L48 by simp
    show "cs' ! (unat (ks ! unat c) - 1) \<noteq> None"
      using u cs' [OF p(1)] p nz [of c] c by (simp add: P_def)
    fix d :: u8 assume eq: "ks ! unat c = ks ! unat d"
    with c have "ks ! unat d \<noteq> 0" by simp
    from at [OF this] obtain q where q: "q < pos" "?L ! q = unat d" by blast
    then have "unat (ks ! unat d) = q + 1" using ks [OF q(1)] up [OF q(1)] by simp
    with u eq have "p = q" by simp
    with p q show "c = d" by (simp add: word_unat_eq_iff)
  next
    fix p assume p: "p < 48" "cs' ! p \<noteq> None"
    have pp: "p < pos"
    proof (rule ccontr)
      assume "\<not> p < pos"
      with cs0 [of p] p show False by simp
    qed
    then have "?L ! p \<in> set ?L" using pos by simp
    then have "?L ! p < 256" by (simp add: live_props)
    then have "unat (of_nat (?L ! p) :: u8) = ?L ! p" by simp
    then show "\<exists>c::u8. unat (ks ! unat c) = p + 1"
      using ks [OF pp] up [OF pp] by (intro exI [of _ "of_nat (?L ! p)"]) simp
  qed
qed

lemma shrink16_fold:
  fixes cs :: "'n option list" and keys :: "u8 list"
  defines "P \<equiv> \<lambda>i. keys ! i \<noteq> 0"
  assumes "m \<le> 256" "length (live P m) \<le> 16"
    and "fold (shrink16_step keys cs) [0..<m] (0, replicate 16 0, replicate 16 None) = (n, ks, cs')"
  shows "n = length (live P m) \<and> length ks = 16 \<and> length cs' = 16 \<and>
    (\<forall>p < n. ks ! p = (of_nat (live P m ! p) :: u8) \<and> cs' ! p = slot cs (unat (keys ! (live P m ! p)) - 1))"
  using assms(2-)
proof (induction m arbitrary: n ks cs')
  case 0
  then show ?case by (auto simp: live_def)
next
  case (Suc m)
  obtain n0 ks0 cs0 where f0:
    "fold (shrink16_step keys cs) [0..<m] (0, replicate 16 0, replicate 16 None) = (n0, ks0, cs0)"
    by (rule prod_cases3)
  have le: "length (live P m) \<le> 16" using Suc.prems(2) by (auto simp: live_Suc split: if_splits)
  note IH = Suc.IH [OF _ le f0]
  have m: "m < 256" using Suc.prems(1) by simp
  have step: "shrink16_step keys cs m (n0, ks0, cs0) = (n, ks, cs')" using Suc.prems(3) f0 by simp
  show ?case
  proof (cases "P m")
    case False
    with step have "n = n0" "ks = ks0" "cs' = cs0" by (auto simp: P_def shrink16_step_def)
    with IH False m show ?thesis by (auto simp: live_Suc)
  next
    case True
    with step have new: "n = n0 + 1" "ks = ks0[n0 := of_nat m]" "cs' = cs0[n0 := slot cs (unat (keys ! m) - 1)]"
      by (auto simp: P_def shrink16_step_def)
    have L: "live P (Suc m) = live P m @ [m]" using True by (simp add: live_Suc)
    have l: "length ks0 = 16" "length cs0 = 16" and n0: "n0 = length (live P m)"
      using IH m by simp_all
    have n16: "n0 < 16" using Suc.prems(2) by (simp add: L n0)
    have "ks ! p = of_nat (live P (Suc m) ! p) \<and> cs' ! p = slot cs (unat (keys ! (live P (Suc m) ! p)) - 1)"
      if "p < n" for p
    proof (cases "p = n0")
      case True
      then have "live P (Suc m) ! p = m" by (simp add: L n0 nth_append)
      with True n16 l show ?thesis by (simp add: new)
    next
      case False
      with that new have p: "p < n0" by simp
      then have "live P (Suc m) ! p = live P m ! p" by (simp add: L n0 nth_append)
      with p False IH m l n16 show ?thesis by (simp add: new)
    qed
    moreover have "n = length (live P (Suc m))" "length ks = 16" "length cs' = 16"
      using new l n0 L by simp_all
    ultimately show ?thesis by blast
  qed
qed

lemma shrink16_ok:
  fixes cs :: "'n option list"
  assumes ok: "idx_ok keys cs" and card: "card (dom (idx_map keys cs)) \<le> 16"
    and s: "shrink16 keys cs = (n, ks, cs')"
  shows "lin_ok 16 n ks cs'" and "lin_map n ks cs' = idx_map keys cs" and "n = card (dom (idx_map keys cs))"
proof -
  define P where "P = (\<lambda>i. keys ! i \<noteq> 0)"
  let ?L = "live P 256"
  have dom_eq: "unat ` dom (idx_map keys cs) = set ?L"
  proof -
    have d: "c \<in> dom (idx_map keys cs) \<longleftrightarrow> P (unat c)" for c
      using idx_map_None_iff [OF ok, of c] by (auto simp: P_def)
    have "i \<in> unat ` dom (idx_map keys cs)" if "i < 256" "P i" for i
      using that by (intro image_eqI [of _ _ "of_nat i :: u8"]) (simp_all add: d)
    moreover have "idx_map keys cs c = Some x \<Longrightarrow> P (unat c)" for c x
      using d [of c] by auto
    ultimately show ?thesis by (auto simp: live_props)
  qed
  have "card (unat ` dom (idx_map keys cs)) = card (dom (idx_map keys cs))"
    by (intro card_image inj_onI) (simp add: word_unat_eq_iff)
  then have L: "length ?L = card (dom (idx_map keys cs))"
    using distinct_card [OF live_props(1) [of P 256]] dom_eq by simp
  from shrink16_fold [of 256 keys cs n ks cs'] L card s
  have n: "n = length ?L" and l: "length ks = 16" "length cs' = 16"
    and ks: "\<And>p. p < n \<Longrightarrow> ks ! p = of_nat (?L ! p)"
    and cs': "\<And>p. p < n \<Longrightarrow> cs' ! p = slot cs (unat (keys ! (?L ! p)) - 1)"
    by (simp_all add: shrink16_def P_def)
  from n L show "n = card (dom (idx_map keys cs))" by simp
  have n16: "n \<le> 16" using n L card by simp
  have Lp: "?L ! p < 256" "P (?L ! p)" if "p < n" for p
    using nth_mem [of p ?L] that n by (simp_all add: live_props)
  have u: "unat (of_nat (?L ! p) :: u8) = ?L ! p" if "p < n" for p
    using Lp [OF that] by simp
  have cs_idx: "cs' ! p = idx_map keys cs (ks ! p)" if "p < n" for p
    using Lp [OF that] u [OF that] by (simp add: cs' [OF that] ks [OF that] idx_map_def P_def)
  have dist: "distinct (take n ks)"
  proof (rule distinct_conv_nth [THEN iffD2], intro allI impI)
    fix i j assume ij: "i < length (take n ks)" "j < length (take n ks)" "i \<noteq> j"
    then have lt: "i < n" "j < n" by simp_all
    have "?L ! i \<noteq> ?L ! j" using ij lt n live_props(1) [of P 256] by (simp add: nth_eq_iff_index_eq)
    then have "ks ! i \<noteq> ks ! j" using u lt by (metis ks)
    with lt show "take n ks ! i \<noteq> take n ks ! j" by simp
  qed
  have some: "cs' ! p \<noteq> None" if "p < n" for p
    using idx_map_None_iff [OF ok, of "ks ! p"] Lp [OF that] u [OF that]
    by (simp add: cs_idx [OF that] ks [OF that] P_def)
  show lok: "lin_ok 16 n ks cs'"
    using l n16 dist some by (simp add: lin_ok_def)
  show "lin_map n ks cs' = idx_map keys cs"
  proof
    fix c
    show "lin_map n ks cs' c = idx_map keys cs c"
    proof (cases "idx_map keys cs c")
      case None
      have "c \<notin> set (take n ks)"
      proof
        assume "c \<in> set (take n ks)"
        then obtain p where "p < n" "ks ! p = c" by (auto simp: in_set_conv_nth)
        with cs_idx [of p] some [of p] None show False by simp
      qed
      with lin_map_None_iff [OF lok] None show ?thesis by simp
    next
      case (Some x)
      then have "unat c \<in> set ?L" using dom_eq by blast
      then obtain p where p: "p < n" "?L ! p = unat c" using n by (auto simp: in_set_conv_nth)
      then have "ks ! p = c" using ks [OF p(1)] by simp
      with lin_map_at [OF lok p(1)] cs_idx [OF p(1)] show ?thesis by simp
    qed
  qed
qed

end
