(* ===== verification/ART_Children.thy ===== *)
theory ART_Children
  imports ART_Indexed
begin

text \<open>
  One contract for the four layouts: a node maps key bytes to children, \<open>add_child\<close> extends
  the map, the \<open>remove_child*\<close> functions delete from it and an assignment through the pointer
  that \<open>find_child\<close> returned updates it, whatever layout changes happen on the way; the header
  keeps its prefix and its buffer.
\<close>

section \<open>The byte map of a node\<close>

definition child_map :: "art_hdr \<Rightarrow> 'n children \<Rightarrow> u8 \<Rightarrow> 'n option" where
  "child_map h ch c = Option.bind (find_child h ch c) (child_at ch)"

abbreviation nch :: "art_hdr \<Rightarrow> nat" where
  "nch h \<equiv> unat (num_children h)"

fun ch_ok :: "art_hdr \<Rightarrow> 'n children \<Rightarrow> bool" where
  "ch_ok h (Node4 keys cs) \<longleftrightarrow> lin_ok 4 (nch h) keys cs"
| "ch_ok h (Node16 keys cs) \<longleftrightarrow> lin_ok 16 (nch h) keys cs"
| "ch_ok h (Node48 keys cs) \<longleftrightarrow> idx_ok keys cs \<and> nch h = card (dom (idx_map keys cs))"
| "ch_ok h (Node256 cs) \<longleftrightarrow> length cs = 256 \<and> num_children h = of_nat (card (dom (dir_map cs)))"

lemma child_at_simps [simp]:
  "child_at (Node4 keys cs) = slot cs" "child_at (Node16 keys cs) = slot cs"
  "child_at (Node48 keys cs) = slot cs" "child_at (Node256 cs) = slot cs"
  by (simp_all add: child_at_def fun_eq_iff)

lemma child_map4: "child_map h (Node4 keys cs) = lin_map (nch h) keys cs"
  by (simp add: child_map_def lin_map_def fun_eq_iff)

lemma child_map16:
  "length keys = 16 \<Longrightarrow> nch h \<le> 16 \<Longrightarrow> child_map h (Node16 keys cs) = lin_map (nch h) keys cs"
  by (simp add: child_map_def lin_map_def fun_eq_iff find_child16 del: find_child.simps)

lemma child_map48: "child_map h (Node48 keys cs) = idx_map keys cs"
  by (simp add: child_map_def idx_map_def fun_eq_iff Let_def unat_gt_0)

lemma child_map256: "child_map h (Node256 cs) = dir_map cs"
  by (auto simp: child_map_def dir_map_def fun_eq_iff)

lemma child_map_ok:
  "ch_ok h (Node4 keys cs) \<Longrightarrow> child_map h (Node4 keys cs) = lin_map (nch h) keys cs"
  "ch_ok h (Node16 keys cs) \<Longrightarrow> child_map h (Node16 keys cs) = lin_map (nch h) keys cs"
  "child_map h (Node48 keys cs) = idx_map keys cs"
  "child_map h (Node256 cs) = dir_map cs"
  by (simp_all add: child_map4 child_map16 child_map48 child_map256 lin_ok_def)

text \<open>The \<open>num_children\<close> byte is the number of children modulo 256: a full \<open>Node256\<close> stores 0.\<close>

lemma num_of_nch: "nch h = n \<Longrightarrow> num_children h = of_nat n"
  by (auto simp: unat_of_nat_byte)

lemma num_children_card:
  assumes "ch_ok h ch"
  shows "num_children h = of_nat (card (dom (child_map h ch)))"
proof (cases ch)
  case (Node4 keys cs)
  then show ?thesis using assms card_dom_lin_map [of 4 "nch h" keys cs]
    by (intro num_of_nch) (simp add: child_map_ok)
next
  case (Node16 keys cs)
  then show ?thesis using assms card_dom_lin_map [of 16 "nch h" keys cs]
    by (intro num_of_nch) (simp add: child_map_ok)
next
  case (Node48 keys cs)
  then show ?thesis using assms by (intro num_of_nch) (simp add: child_map_ok)
next
  case (Node256 cs)
  then show ?thesis using assms by (simp add: child_map_ok)
qed

lemma find_child_iff:
  "ch_ok h ch \<Longrightarrow> find_child h ch c = None \<longleftrightarrow> child_map h ch c = None"
proof (cases ch)
  case (Node4 keys cs)
  assume ok: "ch_ok h ch"
  then have "lin_map (nch h) keys cs c = None \<longleftrightarrow> first_idx (nch h) (\<lambda>i. keys ! i = c) = None"
    using lin_map_None_iff [of 4 "nch h" keys cs c] Node4
    by (auto simp: first_idx_None lin_ok_def in_set_conv_nth)
  with ok Node4 show ?thesis by (simp add: child_map_ok)
next
  case (Node16 keys cs)
  assume ok: "ch_ok h ch"
  then have l: "lin_ok 16 (nch h) keys cs" using Node16 by simp
  then have "lin_map (nch h) keys cs c = None \<longleftrightarrow> first_idx (nch h) (\<lambda>i. keys ! i = c) = None"
    using lin_map_None_iff [of 16 "nch h" keys cs c]
    by (auto simp: first_idx_None lin_ok_def in_set_conv_nth)
  moreover have "find_child h ch c = first_idx (nch h) (\<lambda>i. keys ! i = c)"
    using l unfolding Node16 by (intro find_child16) (simp_all add: lin_ok_def)
  ultimately show ?thesis using ok Node16 by (simp only: child_map_ok)
next
  case (Node48 keys cs)
  assume "ch_ok h ch"
  then show ?thesis using Node48 idx_map_None_iff [of keys cs c]
    by (simp add: child_map_ok Let_def unat_gt_0)
next
  case (Node256 cs)
  then show ?thesis by (simp add: child_map_ok dir_map_def)
qed

lemma child_mapE:
  assumes "ch_ok h ch" "child_map h ch c = Some x"
  obtains i where "find_child h ch c = Some i" "child_at ch i = Some x"
  using assms by (auto simp: child_map_def bind_eq_Some_conv)

lemma find_child_at:
  assumes "ch_ok h ch" "find_child h ch c = Some i"
  shows "child_at ch i = child_map h ch c" "child_map h ch c \<noteq> None"
  using assms find_child_iff [of h ch c] by (simp_all add: child_map_def)

section \<open>Header preservation\<close>

definition hdr_ok :: "art_hdr \<Rightarrow> bool" where
  "hdr_ok h \<longleftrightarrow> length (partial h) = 8 \<and> length (buffer h) = 3 \<and> partial_len h \<le> 8"

definition prefix_of :: "art_hdr \<Rightarrow> u8 list" where
  "prefix_of h = take (partial_len h) (partial h)"

definition hdr_sim :: "art_hdr \<Rightarrow> art_hdr \<Rightarrow> bool" where
  "hdr_sim h h' \<longleftrightarrow> partial_len h' = partial_len h \<and> prefix_of h' = prefix_of h \<and> buffer h' = buffer h \<and>
    length (partial h') = 8"

lemma hdr_sim_ok: "hdr_ok h \<Longrightarrow> hdr_sim h h' \<Longrightarrow> hdr_ok h'"
  by (simp add: hdr_ok_def hdr_sim_def)

lemma hdr_sim_trans: "hdr_sim h h' \<Longrightarrow> hdr_sim h' h'' \<Longrightarrow> hdr_sim h h''"
  by (simp add: hdr_sim_def)

lemma hdr_sim_num: "hdr_ok h \<Longrightarrow> hdr_sim h (h\<lparr>num_children := n\<rparr>)"
  by (simp add: hdr_sim_def hdr_ok_def prefix_of_def)

lemma copy_header_sim:
  assumes "hdr_ok h"
  shows "hdr_sim h (copy_header zero_hdr h)"
proof -
  have "memcpy 3 (buffer h) (replicate 3 empty_entry) = buffer h"
    using assms by (simp add: memcpy_def hdr_ok_def)
  moreover have "take (partial_len h) (memcpy (min 8 (partial_len h)) (partial h) (replicate 8 0)) = prefix_of h"
    using assms by (simp add: memcpy_def hdr_ok_def prefix_of_def min_absorb2 min_absorb1)
  ultimately show ?thesis
    using assms by (simp add: hdr_sim_def copy_header_def prefix_of_def zero_hdr_def hdr_ok_def memcpy_def)
qed

lemma num_copy_header [simp]: "num_children (copy_header d h) = num_children h"
  by (simp add: copy_header_def)

section \<open>Adding a child\<close>

lemma nch_Suc: "nch h < 255 \<Longrightarrow> unat (num_children h + 1) = Suc (nch h)"
  by (simp add: unat_word_ariths)

lemma card_dom_upd:
  fixes m :: "u8 \<Rightarrow> 'n option"
  shows "m c = None \<Longrightarrow> card (insert c (dom m)) = Suc (card (dom m))"
  by (simp add: domIff)

lemma add_child256_ok:
  assumes "ch_ok h (Node256 cs)" "dir_map cs c = None" "hdr_ok h" "add_child256 h cs c x = (h', ch')"
  shows "ch_ok h' ch' \<and> child_map h' ch' = (dir_map cs)(c := Some x) \<and> hdr_sim h h' \<and>
    num_children h' = num_children h + 1"
  using assms by (auto simp: add_child256_def child_map_ok dir_update card_dom_upd hdr_sim_num)

lemma add_child48_ok:
  assumes ok: "ch_ok h (Node48 keys cs)" and c: "idx_map keys cs c = None" and h: "hdr_ok h"
    and eq: "add_child48 h keys cs c x = (h', ch')"
  shows "ch_ok h' ch' \<and> child_map h' ch' = (idx_map keys cs)(c := Some x) \<and> hdr_sim h h' \<and>
    num_children h' = num_children h + 1"
proof (cases "nch h < 48")
  case True
  from ok have iok: "idx_ok keys cs" and n: "nch h = card (dom (idx_map keys cs))" by simp_all
  have fp: "free_pos cs < 48" using free_pos_lt [OF iok] n True by simp
  then have free: "cs ! free_pos cs = None" using free_pos_props [of cs] iok by (simp add: idx_ok_def)
  note ia = idx_add [OF iok c fp free, of x]
  from eq True have e: "h' = h\<lparr>num_children := num_children h + 1\<rparr>"
    "ch' = Node48 (keys[unat c := of_nat (free_pos cs + 1)]) (cs[free_pos cs := Some x])"
    by (simp_all add: add_child48_def Let_def)
  show ?thesis using True ia n c h by (simp add: e child_map_ok nch_Suc card_dom_upd hdr_sim_num)
next
  case False
  let ?h = "copy_header zero_hdr h"
  have s: "hdr_sim h ?h" using h by (rule copy_header_sim)
  have "num_children h = of_nat (card (dom (idx_map keys cs)))"
    using num_children_card [OF ok] by (simp add: child_map_ok)
  then have "ch_ok ?h (Node256 (grow256 keys cs))" by (simp add: grow256_map)
  moreover have "dir_map (grow256 keys cs) c = None" using c by (simp add: grow256_map)
  moreover from eq False have "add_child256 ?h (grow256 keys cs) c x = (h', ch')"
    by (simp add: add_child48_def)
  ultimately show ?thesis
    using add_child256_ok [of ?h "grow256 keys cs" c x h' ch'] hdr_sim_ok [OF h s] s
    by (auto simp: grow256_map intro: hdr_sim_trans)
qed

lemma add_child16_ok:
  assumes ok: "ch_ok h (Node16 keys cs)" and c: "lin_map (nch h) keys cs c = None" and h: "hdr_ok h"
    and eq: "add_child16 h keys cs c x = (h', ch')"
  shows "ch_ok h' ch' \<and> child_map h' ch' = (lin_map (nch h) keys cs)(c := Some x) \<and> hdr_sim h h' \<and>
    num_children h' = num_children h + 1"
proof (cases "nch h < 16")
  case True
  from ok have lok: "lin_ok 16 (nch h) keys cs" by simp
  have le: "insert_pos16 h keys c \<le> nch h"
    using lok by (intro insert_pos_le) (simp_all add: lin_ok_def)
  note li = lin_insert [OF lok True le c, of x]
  from eq True have e: "h' = h\<lparr>num_children := num_children h + 1\<rparr>"
    "ch' = Node16 (array_insert (nch h) (insert_pos16 h keys c) c keys)
      (array_insert (nch h) (insert_pos16 h keys c) (Some x) cs)"
    by (simp_all add: add_child16_def Let_def)
  have n: "nch h' = Suc (nch h)" using True by (simp add: e nch_Suc)
  then have ok': "ch_ok h' ch'" using li(1) unfolding e(2) by simp
  show ?thesis
    using ok' child_map_ok(2) [of h', OF ok' [unfolded e(2)]] li(2) n h
    by (simp add: e hdr_sim_num)
next
  case False
  let ?h = "copy_header zero_hdr h"
  let ?ks = "grow48 (nch h) keys" and ?cs = "memcpy (nch h) cs (replicate 48 None)"
  have s: "hdr_sim h ?h" using h by (rule copy_header_sim)
  from ok have lok: "lin_ok 16 (nch h) keys cs" by simp
  note g = grow48_ok [OF lok]
  have n: "nch h \<le> 48" using lok by (simp add: lin_ok_def)
  have "ch_ok ?h (Node48 ?ks ?cs)" using g [OF n] card_dom_lin_map [OF lok] by simp
  moreover have "idx_map ?ks ?cs c = None" using c g [OF n] by simp
  moreover from eq False have "add_child48 ?h ?ks ?cs c x = (h', ch')"
    by (simp add: add_child16_def Let_def)
  ultimately show ?thesis
    using add_child48_ok [of ?h ?ks ?cs c x h' ch'] hdr_sim_ok [OF h s] s g [OF n]
    by (auto intro: hdr_sim_trans)
qed

lemma add_child4_ok:
  assumes ok: "ch_ok h (Node4 keys cs)" and c: "lin_map (nch h) keys cs c = None" and h: "hdr_ok h"
    and eq: "add_child4 h keys cs c x = (h', ch')"
  shows "ch_ok h' ch' \<and> child_map h' ch' = (lin_map (nch h) keys cs)(c := Some x) \<and> hdr_sim h h' \<and>
    num_children h' = num_children h + 1"
proof (cases "nch h < 4")
  case True
  from ok have lok: "lin_ok 4 (nch h) keys cs" by simp
  have le: "insert_pos4 h keys c \<le> nch h" by (rule insert_pos_le)
  note li = lin_insert [OF lok True le c, of x]
  from eq True have e: "h' = h\<lparr>num_children := num_children h + 1\<rparr>"
    "ch' = Node4 (array_insert (nch h) (insert_pos4 h keys c) c keys)
      (array_insert (nch h) (insert_pos4 h keys c) (Some x) cs)"
    by (simp_all add: add_child4_def Let_def)
  have n: "nch h' = Suc (nch h)" using True by (simp add: e nch_Suc)
  then have ok': "ch_ok h' ch'" using li(1) unfolding e(2) by simp
  show ?thesis
    using ok' child_map_ok(1) [of h', OF ok' [unfolded e(2)]] li(2) n h
    by (simp add: e hdr_sim_num)
next
  case False
  let ?h = "copy_header zero_hdr h"
  let ?ks = "memcpy (nch h) keys (replicate 16 0)" and ?cs = "memcpy (nch h) cs (replicate 16 None)"
  have s: "hdr_sim h ?h" using h by (rule copy_header_sim)
  from ok have lok: "lin_ok 4 (nch h) keys cs" by simp
  then have n: "nch h \<le> 4" by (simp add: lin_ok_def)
  note m = lin_memcpy [OF lok, of "nch h" 16]
  have "ch_ok ?h (Node16 ?ks ?cs)" using m n by simp
  moreover have "lin_map (nch ?h) ?ks ?cs c = None" using c m n by simp
  moreover from eq False have "add_child16 ?h ?ks ?cs c x = (h', ch')"
    by (simp add: add_child4_def Let_def)
  ultimately show ?thesis
    using add_child16_ok [of ?h ?ks ?cs c x h' ch'] hdr_sim_ok [OF h s] s m n
    by (auto intro: hdr_sim_trans)
qed

lemma add_child_ok:
  assumes "ch_ok h ch" "child_map h ch c = None" "hdr_ok h" "add_child h ch c x = (h', ch')"
  shows "ch_ok h' ch' \<and> child_map h' ch' = (child_map h ch)(c := Some x) \<and> hdr_sim h h' \<and>
    num_children h' = num_children h + 1"
proof (cases ch)
  case (Node4 keys cs)
  then show ?thesis using add_child4_ok [of h keys cs c x h' ch'] assms by (simp add: child_map_ok)
next
  case (Node16 keys cs)
  then show ?thesis using add_child16_ok [of h keys cs c x h' ch'] assms by (simp add: child_map_ok)
next
  case (Node48 keys cs)
  then show ?thesis using add_child48_ok [of h keys cs c x h' ch'] assms by (simp add: child_map_ok)
next
  case (Node256 cs)
  then show ?thesis using add_child256_ok [of h cs c x h' ch'] assms by (simp add: child_map_ok)
qed

section \<open>Removing and replacing a child\<close>

lemma nch_pred: "0 < nch h \<Longrightarrow> unat (num_children h - 1) = nch h - 1"
  by (simp add: unat_gt_0 unat_minus_one)

lemma card_dom_del:
  fixes m :: "u8 \<Rightarrow> 'n option"
  shows "m c = Some x \<Longrightarrow> card (dom m - {c}) = card (dom m) - 1"
  by (subst card_Diff_singleton) auto

lemma card_dom_pos:
  fixes m :: "u8 \<Rightarrow> 'n option"
  shows "m c = Some x \<Longrightarrow> 0 < card (dom m)"
  by (subst card_gt_0_iff) auto

text \<open>What every removal promises: the byte is gone from the map, the header keeps its prefix and
  buffer and counts one child less.\<close>

abbreviation removed ::
  "art_hdr \<Rightarrow> (u8 \<Rightarrow> 'n option) \<Rightarrow> u8 \<Rightarrow> art_hdr \<times> 'n children \<Rightarrow> bool" where
  "removed h m c r \<equiv> ch_ok (fst r) (snd r) \<and> child_map (fst r) (snd r) = m(c := None) \<and>
    hdr_sim h (fst r) \<and> num_children (fst r) = num_children h - 1"

lemma first_idxD: "first_idx n (\<lambda>i. keys ! i = c) = Some pos \<Longrightarrow> pos < n \<and> keys ! pos = c"
  by (simp add: first_idx_Some)

lemma drop_child4_ok:
  assumes ok: "ch_ok h (Node4 keys cs)" and h: "hdr_ok h"
    and pos: "find_child h (Node4 keys cs) c = Some pos" and eq: "drop_child4 h keys cs pos = (h', ks, cs')"
  shows "removed h (lin_map (nch h) keys cs) c (h', Node4 ks cs')"
proof -
  from ok have lok: "lin_ok 4 (nch h) keys cs" by simp
  from pos have p: "pos < nch h" "keys ! pos = c" by (simp_all add: first_idx_Some)
  note r = lin_remove [OF lok p(1)]
  from eq have e: "h' = h\<lparr>num_children := num_children h - 1\<rparr>"
    "ks = array_remove (nch h) pos keys" "cs' = array_remove (nch h) pos cs"
    by (simp_all add: drop_child4_def Let_def)
  have n: "nch h' = nch h - 1" using p by (simp add: e nch_pred)
  with r(1) have "ch_ok h' (Node4 ks cs')" by (simp add: e)
  with r(2) n p h show ?thesis by (simp add: child_map_ok e hdr_sim_num)
qed

lemma remove_child16_ok:
  assumes ok: "ch_ok h (Node16 keys cs)" and h: "hdr_ok h"
    and pos: "find_child h (Node16 keys cs) c = Some pos"
  shows "removed h (lin_map (nch h) keys cs) c (remove_child16 h keys cs pos)"
proof -
  from ok have lok: "lin_ok 16 (nch h) keys cs" by simp
  then have "find_child h (Node16 keys cs) c = first_idx (nch h) (\<lambda>i. keys ! i = c)"
    by (intro find_child16) (simp_all add: lin_ok_def)
  with pos have p: "pos < nch h" "keys ! pos = c" by (simp_all add: first_idx_Some del: find_child.simps)
  note r = lin_remove [OF lok p(1)]
  let ?ks = "array_remove (nch h) pos keys" and ?cs = "array_remove (nch h) pos cs"
  define h1 where "h1 = h\<lparr>num_children := num_children h - 1\<rparr>"
  have n: "nch h1 = nch h - 1" and num: "num_children h1 = num_children h - 1" and s1: "hdr_sim h h1"
    using p h by (simp_all add: h1_def nch_pred hdr_sim_num)
  show ?thesis
  proof (cases "num_children h1 = 3")
    case False
    then have "remove_child16 h keys cs pos = (h1, Node16 ?ks ?cs)"
      by (simp add: remove_child16_def Let_def h1_def)
    moreover from r(1) n have "ch_ok h1 (Node16 ?ks ?cs)" by simp
    ultimately show ?thesis using r(2) n p num s1 by (simp add: child_map_ok)
  next
    case True
    let ?h = "copy_header zero_hdr h1"
    have "remove_child16 h keys cs pos =
        (?h, Node4 (memcpy 4 ?ks (replicate 4 0)) (memcpy 4 ?cs (replicate 4 None)))"
      using True by (simp add: remove_child16_def Let_def h1_def)
    moreover have n3: "nch h - 1 = 3" using n True by simp
    moreover note m = lin_memcpy [OF r(1), of 4 4]
    have "ch_ok ?h (Node4 (memcpy 4 ?ks (replicate 4 0)) (memcpy 4 ?cs (replicate 4 None)))"
      using m(1) n n3 by simp
    moreover have "hdr_sim h ?h"
      using hdr_sim_trans [OF s1 copy_header_sim [OF hdr_sim_ok [OF h s1]]] .
    ultimately show ?thesis using r(2) m(2) n n3 p num by (simp add: child_map_ok)
  qed
qed

lemma remove_child48_ok:
  assumes ok: "ch_ok h (Node48 keys cs)" and h: "hdr_ok h"
    and pos: "find_child h (Node48 keys cs) c = Some pos"
  shows "removed h (idx_map keys cs) c (remove_child48 h keys cs c)"
proof -
  from ok have iok: "idx_ok keys cs" and cd: "nch h = card (dom (idx_map keys cs))" by simp_all
  from pos have c0: "keys ! unat c \<noteq> 0" by (auto simp: Let_def unat_gt_0 split: if_splits)
  then obtain x where x: "idx_map keys cs c = Some x" using idx_map_None_iff [OF iok, of c] by auto
  note r = idx_remove [OF iok c0]
  let ?ks = "keys[unat c := 0]" and ?cs = "cs[unat (keys ! unat c) - 1 := None]"
  define h1 where "h1 = h\<lparr>num_children := num_children h - 1\<rparr>"
  have pos_n: "0 < nch h" using card_dom_pos [of "idx_map keys cs", OF x] cd by simp
  have n: "nch h1 = nch h - 1" and num: "num_children h1 = num_children h - 1" and s1: "hdr_sim h h1"
    using pos_n h by (simp_all add: h1_def nch_pred hdr_sim_num)
  have cd': "card (dom (idx_map ?ks ?cs)) = nch h1"
    using card_dom_del [of "idx_map keys cs", OF x] cd by (simp add: r(2) n del: One_nat_def)
  show ?thesis
  proof (cases "num_children h1 = 12")
    case False
    then have "remove_child48 h keys cs c = (h1, Node48 ?ks ?cs)"
      by (simp add: remove_child48_def Let_def h1_def)
    then show ?thesis using r cd' num s1 by (simp add: child_map_ok)
  next
    case True
    let ?h = "copy_header zero_hdr h1"
    obtain m ks cs' where sh: "shrink16 ?ks ?cs = (m, ks, cs')" by (rule prod_cases3)
    have c12: "card (dom (idx_map ?ks ?cs)) \<le> 16" using cd' True by simp
    note so = shrink16_ok [OF r(1) c12 sh]
    have "remove_child48 h keys cs c = (?h, Node16 ks cs')"
      using True sh by (simp add: remove_child48_def Let_def h1_def)
    moreover have "m = nch h1" using so(3) cd' by simp
    with so(1) have "ch_ok ?h (Node16 ks cs')" by simp
    moreover have "hdr_sim h ?h"
      using hdr_sim_trans [OF s1 copy_header_sim [OF hdr_sim_ok [OF h s1]]] .
    ultimately show ?thesis using so(2) r(2) num \<open>m = nch h1\<close> by (simp add: child_map_ok)
  qed
qed

lemma remove_child256_ok:
  assumes ok: "ch_ok h (Node256 cs)" and h: "hdr_ok h"
    and pos: "find_child h (Node256 cs) c = Some pos"
  shows "removed h (dir_map cs) c (remove_child256 h cs c)"
proof -
  from ok have len: "length cs = 256" and cd: "num_children h = of_nat (card (dom (dir_map cs)))" by simp_all
  from pos obtain x where x: "dir_map cs c = Some x" by (auto simp: dir_map_def split: if_splits)
  let ?cs = "cs[unat c := None]"
  define h1 where "h1 = h\<lparr>num_children := num_children h - 1\<rparr>"
  have num: "num_children h1 = num_children h - 1" and s1: "hdr_sim h h1"
    using h by (simp_all add: h1_def hdr_sim_num)
  have dm: "dir_map ?cs = (dir_map cs)(c := None)" by (simp add: dir_update len)
  have cpos: "0 < card (dom (dir_map cs))" using x by (rule card_dom_pos)
  have "card (dom (dir_map ?cs)) = card (dom (dir_map cs)) - 1"
    using card_dom_del [of "dir_map cs", OF x] by (simp add: dm)
  then have cd': "num_children h1 = of_nat (card (dom (dir_map ?cs)))"
    using cpos by (simp add: num cd of_nat_diff Suc_leI)
  show ?thesis
  proof (cases "num_children h1 = 37")
    case False
    then have "remove_child256 h cs c = (h1, Node256 ?cs)"
      by (simp add: remove_child256_def Let_def h1_def)
    then show ?thesis using cd' num s1 dm len by (simp add: child_map_ok)
  next
    case True
    let ?h = "copy_header zero_hdr h1"
    obtain m ks cs' where sh: "shrink48 ?cs = (m, ks, cs')" by (rule prod_cases3)
    have "c \<notin> dom (dir_map ?cs)" by (simp add: dm)
    then have "card (dom (dir_map ?cs)) < card (UNIV :: u8 set)"
      by (intro psubset_card_mono) auto
    then have lt: "card (dom (dir_map ?cs)) < 256" by (simp add: card_word)
    from cd' True have "of_nat (card (dom (dir_map ?cs))) = (37 :: u8)" by simp
    with unat_of_nat_u8 [OF lt] have c37: "card (dom (dir_map ?cs)) = 37" by simp
    note so = shrink48_ok [of ?cs, OF _ _ sh]
    have "remove_child256 h cs c = (?h, Node48 ks cs')"
      using True sh by (simp add: remove_child256_def Let_def h1_def)
    moreover have "idx_ok ks cs'" "idx_map ks cs' = dir_map ?cs" using so len c37 by simp_all
    moreover have "hdr_sim h ?h"
      using hdr_sim_trans [OF s1 copy_header_sim [OF hdr_sim_ok [OF h s1]]] .
    ultimately show ?thesis using dm num c37 True by (simp add: child_map_ok)
  qed
qed

lemma set_child_ok:
  assumes ok: "ch_ok h ch" and i: "find_child h ch c = Some i"
  shows "ch_ok h (set_child ch i (Some x)) \<and>
    child_map h (set_child ch i (Some x)) = (child_map h ch)(c := Some x)"
proof (cases ch)
  case (Node4 keys cs)
  with ok have lok: "lin_ok 4 (nch h) keys cs" by simp
  from i Node4 have p: "i < nch h" "keys ! i = c" by (simp_all add: first_idx_Some)
  with lin_update [OF lok p(1), of x] Node4 lok show ?thesis by (simp add: child_map_ok)
next
  case (Node16 keys cs)
  with ok have lok: "lin_ok 16 (nch h) keys cs" by simp
  then have "find_child h ch c = first_idx (nch h) (\<lambda>i. keys ! i = c)"
    unfolding Node16 by (intro find_child16) (simp_all add: lin_ok_def)
  with i have p: "i < nch h" "keys ! i = c" by (simp_all add: first_idx_Some)
  with lin_update [OF lok p(1), of x] Node16 lok show ?thesis by (simp add: child_map_ok)
next
  case (Node48 keys cs)
  with i have c: "keys ! unat c \<noteq> 0" "i = unat (keys ! unat c) - 1"
    by (auto simp: Let_def unat_gt_0 split: if_splits)
  with idx_update [of keys cs c x] ok Node48 card_dom_upd show ?thesis
    using idx_map_None_iff [of keys cs c] by (auto simp: child_map_ok insert_absorb domIff)
next
  case (Node256 cs)
  with i have c: "i = unat c" "dir_map cs c \<noteq> None" by (auto simp: dir_map_def split: if_splits)
  with ok Node256 show ?thesis
    by (auto simp: child_map_ok dir_update insert_absorb domIff)
qed

end
