(* ===== verification/ART_Tree.thy ===== *)
theory ART_Tree
  imports ART_Children
begin

text \<open>
  The adaptive radix tree of \<open>src/art.c\<close>: a node pointer is \<open>art_node option\<close> (\<open>None\<close> is
  \<open>NULL\<close>), a tagged leaf pointer the constructor \<open>Leaf\<close>. Functions that write through
  \<open>art_node **ref\<close> return the new pointer; the pointer a function returns to a stored value is
  the value read through it after the call (\<open>None\<close> for \<open>NULL\<close>), and the small integers that
  \<open>recursive_delete\<close> packs into its low bits are a separate component.
\<close>

section \<open>Data\<close>

datatype art_node = Leaf entry | Inner art_hdr "art_node children"

record art_tree =
  root :: "art_node option"
  tree_size :: u64
  buffer_count :: u64

definition art_tree_init :: art_tree where
  "art_tree_init = \<lparr>root = None, tree_size = 0, buffer_count = 0\<rparr>"

definition art_size :: "art_tree \<Rightarrow> u64" where
  "art_size t = tree_size t"

lemma size_child_at: "child_at ch i = Some n \<Longrightarrow> size n < Suc (size_children size ch)"
  for n :: art_node
proof -
  have *: "x \<in> set cs \<Longrightarrow> x = Some n \<Longrightarrow> size n \<le> size_list (size_option size) cs"
    for x and cs :: "art_node option list"
    by (induction cs) auto
  have "slot cs i = Some n \<Longrightarrow> size n \<le> size_list (size_option size) cs" for cs
    by (rule * [of "Some n"]) (auto dest!: slot_SomeD simp: in_set_conv_nth)
  then show "child_at ch i = Some n \<Longrightarrow> size n < Suc (size_children size ch)"
    by (cases ch) (fastforce simp: child_at_def)+
qed

lemma size_child_map: "child_map h ch b = Some n \<Longrightarrow> size n < Suc (size_children size ch)"
  for n :: art_node
  by (auto simp: child_map_def bind_eq_Some_conv intro: size_child_at)

section \<open>Comparing keys with nodes\<close>

text \<open>The loop bound \<open>key_len - depth\<close> is never positive when \<open>depth\<close> exceeds \<open>key_len\<close>, as the
  truncated difference is.\<close>

definition check_prefix :: "art_hdr \<Rightarrow> u64 \<Rightarrow> nat \<Rightarrow> nat \<Rightarrow> nat" where
  "check_prefix h key key_len depth =
    (let max_cmp = min (min (partial_len h) MAX_PREFIX_LEN) (key_len - depth)
     in case first_idx max_cmp (\<lambda>idx. partial h ! idx \<noteq> key_byte key (depth + idx)) of
          Some idx \<Rightarrow> idx | None \<Rightarrow> max_cmp)"

text \<open>0 on success.\<close>

definition leaf_matches :: "entry \<Rightarrow> u64 \<Rightarrow> nat \<Rightarrow> nat \<Rightarrow> int" where
  "leaf_matches n key key_len depth =
    (if KEY_LEN \<noteq> key_len then 1
     else memcmp (take key_len (key_bytes (entry_key n))) (take key_len (key_bytes key)))"

definition longest_common_prefix :: "entry \<Rightarrow> entry \<Rightarrow> nat \<Rightarrow> nat" where
  "longest_common_prefix l1 l2 depth =
    (let max_cmp = KEY_LEN - depth
     in case first_idx max_cmp (\<lambda>idx. key_byte (entry_key l1) (depth + idx) \<noteq> key_byte (entry_key l2) (depth + idx)) of
          Some idx \<Rightarrow> idx | None \<Rightarrow> max_cmp)"

definition make_leaf :: "u64 \<Rightarrow> u64 \<Rightarrow> entry" where
  "make_leaf key value = \<lparr>entry_key = key, entry_value = value\<rparr>"

section \<open>Minimum and maximum\<close>

fun first_child :: "art_hdr \<Rightarrow> 'n children \<Rightarrow> nat option" where
  "first_child h (Node4 keys cs) = Some 0"
| "first_child h (Node16 keys cs) = Some 0"
| "first_child h (Node48 keys cs) = map_option (\<lambda>i. unat (keys ! i) - 1) (first_idx 256 (\<lambda>i. keys ! i \<noteq> 0))"
| "first_child h (Node256 cs) = first_idx 256 (\<lambda>i. slot cs i \<noteq> None)"

definition last_idx :: "nat \<Rightarrow> (nat \<Rightarrow> bool) \<Rightarrow> nat option" where
  "last_idx n P = find P (rev [0..<n])"

fun last_child :: "art_hdr \<Rightarrow> 'n children \<Rightarrow> nat option" where
  "last_child h (Node4 keys cs) = Some (unat (num_children h) - 1)"
| "last_child h (Node16 keys cs) = Some (unat (num_children h) - 1)"
| "last_child h (Node48 keys cs) = map_option (\<lambda>i. unat (keys ! i) - 1) (last_idx 256 (\<lambda>i. keys ! i \<noteq> 0))"
| "last_child h (Node256 cs) = last_idx 256 (\<lambda>i. slot cs i \<noteq> None)"

definition node_size :: "art_node option \<Rightarrow> nat" where
  "node_size n = (case n of None \<Rightarrow> 0 | Some n \<Rightarrow> size n)"

lemma node_size_child: "node_size (child_at ch i) < Suc (size_children size ch)"
  by (cases "child_at ch i") (auto simp: node_size_def size_child_at)

text \<open>The scan of an empty \<open>Node48\<close> or \<open>Node256\<close> would leave the array; here it is \<open>None\<close>.\<close>

function minimum :: "art_node option \<Rightarrow> entry option" where
  "minimum None = None"
| "minimum (Some (Leaf l)) = Some l"
| "minimum (Some (Inner h ch)) =
    (case first_child h ch of None \<Rightarrow> None | Some i \<Rightarrow> minimum (child_at ch i))"
  by pat_completeness auto
termination by (relation "measure node_size") (simp_all add: node_size_def [of "Some _"] node_size_child)

function maximum :: "art_node option \<Rightarrow> entry option" where
  "maximum None = None"
| "maximum (Some (Leaf l)) = Some l"
| "maximum (Some (Inner h ch)) =
    (case last_child h ch of None \<Rightarrow> None | Some i \<Rightarrow> maximum (child_at ch i))"
  by pat_completeness auto
termination by (relation "measure node_size") (simp_all add: node_size_def [of "Some _"] node_size_child)

definition art_minimum :: "art_tree \<Rightarrow> entry option" where
  "art_minimum t = minimum (root t)"

definition art_maximum :: "art_tree \<Rightarrow> entry option" where
  "art_maximum t = maximum (root t)"

text \<open>A prefix longer than \<open>MAX_PREFIX_LEN\<close> is compared with the minimum leaf from there on.\<close>

definition prefix_mismatch :: "art_hdr \<Rightarrow> art_node children \<Rightarrow> u64 \<Rightarrow> nat \<Rightarrow> nat \<Rightarrow> nat" where
  "prefix_mismatch h ch key key_len depth =
    (let max_cmp = min (min MAX_PREFIX_LEN (partial_len h)) (key_len - depth)
     in case first_idx max_cmp (\<lambda>idx. partial h ! idx \<noteq> key_byte key (depth + idx)) of
          Some idx \<Rightarrow> idx
        | None \<Rightarrow>
            (if partial_len h > MAX_PREFIX_LEN then
               case minimum (Some (Inner h ch)) of
                 None \<Rightarrow> max_cmp
               | Some l \<Rightarrow>
                   (case find (\<lambda>idx. key_byte (entry_key l) (idx + depth) \<noteq> key_byte key (depth + idx))
                      [max_cmp..<KEY_LEN - depth] of
                      Some idx \<Rightarrow> idx | None \<Rightarrow> max max_cmp (KEY_LEN - depth))
             else max_cmp))"

section \<open>Insertion\<close>

definition buffer_find :: "art_hdr \<Rightarrow> u64 \<Rightarrow> nat option" where
  "buffer_find h key = first_idx BUF_LEN (\<lambda>i. entry_key (buffer h ! i) = key)"

text \<open>The last slot the scan saw empty, then the first one from there that a
  compare-and-swap from 0 takes.\<close>

definition buffer_slot :: "art_hdr \<Rightarrow> nat option" where
  "buffer_slot h = Option.bind (last_idx BUF_LEN (\<lambda>i. entry_key (buffer h ! i) = EMPTY_FLAG))
     (\<lambda>z. find (\<lambda>i. entry_key (buffer h ! i) = EMPTY_FLAG) [z..<BUF_LEN])"

definition set_buffer :: "art_hdr \<Rightarrow> nat \<Rightarrow> entry \<Rightarrow> art_hdr" where
  "set_buffer h i e = h\<lparr>buffer := (buffer h)[i := e]\<rparr>"

definition set_buffer_value :: "art_hdr \<Rightarrow> nat \<Rightarrow> u64 \<Rightarrow> art_hdr" where
  "set_buffer_value h i v = set_buffer h i ((buffer h ! i)\<lparr>entry_value := v\<rparr>)"

definition set_buffer_key :: "art_hdr \<Rightarrow> nat \<Rightarrow> u64 \<Rightarrow> art_hdr" where
  "set_buffer_key h i k = set_buffer h i ((buffer h ! i)\<lparr>entry_key := k\<rparr>)"

abbreviation (input) INSERT_IS_IN_BUFFER_FLAG :: nat where "INSERT_IS_IN_BUFFER_FLAG \<equiv> 1"
abbreviation (input) INSERT_FOUND_KEY_FLAG :: nat where "INSERT_FOUND_KEY_FLAG \<equiv> 2"

text \<open>A fresh \<open>Node4\<close> with the given header that gets two children by \<open>add_child4\<close>.\<close>

definition node4_of_two :: "art_hdr \<Rightarrow> u8 \<Rightarrow> art_node \<Rightarrow> u8 \<Rightarrow> art_node \<Rightarrow> art_node" where
  "node4_of_two h c1 n1 c2 n2 =
    (let (h1, ch1) = add_child h (snd (alloc_node NODE4)) c1 n1;
         (h2, ch2) = add_child h1 ch1 c2 n2
     in Inner h2 ch2)"

text \<open>The leaf branch: an existing leaf \<open>l\<close> and the new one \<open>l2\<close> below a node with their common prefix.\<close>

definition split_leaf :: "entry \<Rightarrow> u64 \<Rightarrow> u64 \<Rightarrow> nat \<Rightarrow> art_node" where
  "split_leaf l key value depth =
    (let l2 = make_leaf key value;
         longest_prefix = longest_common_prefix l l2 depth;
         h = zero_hdr\<lparr>partial_len := longest_prefix,
           partial := memcpy (min MAX_PREFIX_LEN longest_prefix) (drop depth (key_bytes key)) (partial zero_hdr)\<rparr>
     in node4_of_two h (key_byte (entry_key l) (depth + longest_prefix)) (Leaf l)
          (key_byte (entry_key l2) (depth + longest_prefix)) (Leaf l2))"

text \<open>The prefix branch: a new \<open>Node4\<close> takes the shared prefix and the buffer, the old node keeps
  the rest of the prefix.\<close>

definition split_prefix :: "art_hdr \<Rightarrow> art_node children \<Rightarrow> u64 \<Rightarrow> u64 \<Rightarrow> nat \<Rightarrow> nat \<Rightarrow> art_node" where
  "split_prefix h ch key value depth prefix_diff =
    (let new_h = zero_hdr\<lparr>partial_len := prefix_diff,
           partial := memcpy (min MAX_PREFIX_LEN prefix_diff) (partial h) (partial zero_hdr),
           buffer := buffer h\<rparr>;
         plen = partial_len h - (prefix_diff + 1);
         (c, part) = (if partial_len h \<le> MAX_PREFIX_LEN
           then (partial h ! prefix_diff, memmove 0 (prefix_diff + 1) (min MAX_PREFIX_LEN plen) (partial h))
           else let l = (case minimum (Some (Inner h ch)) of Some l \<Rightarrow> l | None \<Rightarrow> empty_entry)
                in (key_byte (entry_key l) (depth + prefix_diff),
                    memcpy (min MAX_PREFIX_LEN plen) (drop (depth + prefix_diff + 1) (key_bytes (entry_key l))) (partial h)));
         old = Inner (h\<lparr>buffer := replicate BUF_LEN empty_entry, partial_len := plen, partial := part\<rparr>) ch
     in node4_of_two new_h c old (key_byte key (depth + prefix_diff)) (Leaf (make_leaf key value)))"

text \<open>
  \<open>recursive_insert\<close> returns what \<open>*ref\<close> holds afterwards, the value read through the returned
  pointer, and \<open>*old\<close> (0, as all callers initialise it, where it is not written).
\<close>

function recursive_insert ::
  "art_node option \<Rightarrow> u64 \<Rightarrow> nat \<Rightarrow> u64 \<Rightarrow> nat \<Rightarrow> bool \<Rightarrow> art_node option \<times> u64 option \<times> nat" where
  "recursive_insert None key key_len value depth replace = (Some (Leaf (make_leaf key value)), None, 0)"
| "recursive_insert (Some (Leaf l)) key key_len value depth replace =
    (if leaf_matches l key (key_len div 8 * 8) depth = 0 then
       let l' = (if replace then l\<lparr>entry_value := value\<rparr> else l)
       in (Some (Leaf l'), Some (entry_value l'), INSERT_FOUND_KEY_FLAG)
     else (Some (split_leaf l key value depth), None, 0))"
| "recursive_insert (Some (Inner h ch)) key key_len value depth replace =
    (let storage_type = key_len mod 8;
         len = key_len div 8 * 8;
         descend = (\<lambda>depth. case find_child h ch (key_byte key depth) of
             Some i \<Rightarrow> let (n', old_val, old) = recursive_insert (child_at ch i) key (len + storage_type) value (depth + 1) replace
                       in (Some (Inner h (set_child ch i n')), old_val, old)
           | None \<Rightarrow> let (h', ch') = add_child h ch (key_byte key depth) (Leaf (make_leaf key value))
                     in (Some (Inner h' ch'), None, 0));
         below = (if partial_len h \<noteq> 0 then
             let prefix_diff = prefix_mismatch h ch key len depth
             in if prefix_diff \<ge> partial_len h then descend (depth + partial_len h)
                else (Some (split_prefix h ch key value depth prefix_diff), None, 0)
           else descend depth)
     in if storage_type = MEM_TYPE then
          (case buffer_find h key of
             Some i \<Rightarrow>
               let h' = (if replace then set_buffer_value h i value else h)
               in (Some (Inner h' ch), Some (entry_value (buffer h' ! i)), INSERT_FOUND_KEY_FLAG)
           | None \<Rightarrow>
               (case (if replace then None else buffer_slot h) of
                  Some i \<Rightarrow> (Some (Inner (set_buffer h i \<lparr>entry_key = key, entry_value = value\<rparr>) ch),
                             None, INSERT_IS_IN_BUFFER_FLAG)
                | None \<Rightarrow> below))
        else below)"
  by pat_completeness auto
termination
  by (relation "measure (\<lambda>(n, _). node_size n)") (simp_all add: node_size_def [of "Some _"] node_size_child)

text \<open>\<open>INSERT_IS_IN_BUFFER(old_val)\<close> tests bit 0 of the flag, \<open>old_val ^= 1\<close> clears it.\<close>

definition art_insert_with :: "bool \<Rightarrow> art_tree \<Rightarrow> u64 \<Rightarrow> nat \<Rightarrow> u64 \<Rightarrow> art_tree \<times> u64 option" where
  "art_insert_with replace t key key_len value =
    (let (root', old, old_val) = recursive_insert (root t) key key_len value 0 replace;
         in_buffer = odd old_val;
         old_val = (if in_buffer then old_val - 1 else old_val)
     in (t\<lparr>root := root',
           buffer_count := (if in_buffer then buffer_count t + 1 else buffer_count t),
           tree_size := (if old_val = 0 then tree_size t + 1 else tree_size t)\<rparr>, old))"

definition art_insert :: "art_tree \<Rightarrow> u64 \<Rightarrow> nat \<Rightarrow> u64 \<Rightarrow> art_tree \<times> u64 option" where
  "art_insert = art_insert_with True"

definition art_insert_no_replace :: "art_tree \<Rightarrow> u64 \<Rightarrow> nat \<Rightarrow> u64 \<Rightarrow> art_tree \<times> u64 option" where
  "art_insert_no_replace = art_insert_with False"

section \<open>Deletion\<close>

text \<open>One iteration of the loop of \<open>remove_child4\<close> that turns buffer slot \<open>i\<close> into a leaf
  while the \<open>Node4\<close> has room, on the node and the counter \<open>cnt\<close>.\<close>

definition flush_step ::
  "nat \<Rightarrow> nat \<Rightarrow> art_hdr \<times> art_node children \<times> nat \<Rightarrow> art_hdr \<times> art_node children \<times> nat" where
  "flush_step depth i = (\<lambda>(h, ch, cnt).
    let e = buffer h ! i in
    if unat (num_children h) < 4 \<and> \<not> IS_SPECIAL_KEY (entry_key e) then
      let (h', ch') = add_child h ch (key_byte (entry_key e) depth)
                        (Leaf (make_leaf (entry_key e) (entry_value e)))
      in (set_buffer_key h' i EMPTY_FLAG, ch', cnt + 1)
    else (h, ch, cnt))"

definition flush_buffer :: "nat \<Rightarrow> art_hdr \<Rightarrow> art_node children \<Rightarrow> art_hdr \<times> art_node children \<times> nat" where
  "flush_buffer depth h ch = fold (flush_step depth) [0..<BUF_LEN] (h, ch, 0)"

text \<open>Path compression: the only child takes over the node's prefix and the byte that led to it.
  The 8-bit field \<open>partial_len\<close> wraps.\<close>

definition merge_prefix :: "art_hdr \<Rightarrow> u8 \<Rightarrow> art_hdr \<Rightarrow> art_hdr" where
  "merge_prefix h c hc =
    (let prefix = partial_len h;
         (p, prefix) = (if prefix < MAX_PREFIX_LEN then ((partial h)[prefix := c], prefix + 1)
                        else (partial h, prefix));
         (p, prefix) = (if prefix < MAX_PREFIX_LEN then
             let sub_prefix = min (partial_len hc) (MAX_PREFIX_LEN - prefix)
             in (memcpy_at prefix sub_prefix (partial hc) p, prefix + sub_prefix)
           else (p, prefix))
     in hc\<lparr>partial := memcpy (min prefix MAX_PREFIX_LEN) p (partial hc),
           partial_len := (partial_len hc + (partial_len h + 1)) mod 256\<rparr>)"

fun child_key :: "'n children \<Rightarrow> nat \<Rightarrow> u8" where
  "child_key (Node4 keys cs) i = keys ! i"
| "child_key (Node16 keys cs) i = keys ! i"
| "child_key (Node48 keys cs) i = keys ! i"
| "child_key (Node256 cs) i = of_nat i"

definition remove_child4 ::
  "art_hdr \<Rightarrow> u8 list \<Rightarrow> art_node option list \<Rightarrow> nat \<Rightarrow> nat \<Rightarrow> art_node option \<times> nat" where
  "remove_child4 h keys cs pos depth =
    (let (h, keys, cs) = drop_child4 h keys cs pos;
         (h, ch, cnt) = flush_buffer depth h (Node4 keys cs)
     in if cnt \<noteq> 0 then (Some (Inner h ch), cnt)
        else if num_children h = 1 then
          (case child_at ch 0 of
             Some (Inner hc chc) \<Rightarrow> (Some (Inner (merge_prefix h (child_key ch 0) hc) chc), 0)
           | child \<Rightarrow> (child, 0))
        else (Some (Inner h ch), 0))"

text \<open>\<open>*ref\<close> after the call and the number of flushed buffer entries.\<close>

fun remove_child :: "art_hdr \<Rightarrow> art_node children \<Rightarrow> u8 \<Rightarrow> nat \<Rightarrow> nat \<Rightarrow> art_node option \<times> nat" where
  "remove_child h (Node4 keys cs) c l depth = remove_child4 h keys cs l depth"
| "remove_child h (Node16 keys cs) c l depth =
    (let (h', ch') = remove_child16 h keys cs l in (Some (Inner h' ch'), 0))"
| "remove_child h (Node48 keys cs) c l depth =
    (let (h', ch') = remove_child48 h keys cs c in (Some (Inner h' ch'), 0))"
| "remove_child h (Node256 cs) c l depth =
    (let (h', ch') = remove_child256 h cs c in (Some (Inner h' ch'), 0))"

text \<open>\<open>*ref\<close> after the call, and the value behind the returned pointer with the pointer's low bits.\<close>

function recursive_delete ::
  "art_node option \<Rightarrow> u64 \<Rightarrow> nat \<Rightarrow> nat \<Rightarrow> art_node option \<times> (u64 \<times> nat) option" where
  "recursive_delete None key key_len depth = (None, None)"
| "recursive_delete (Some (Leaf l)) key key_len depth =
    (if leaf_matches l key key_len depth = 0 then (None, Some (entry_value l, 0)) else (Some (Leaf l), None))"
| "recursive_delete (Some (Inner h ch)) key key_len depth =
    (if partial_len h \<noteq> 0 \<and> check_prefix h key key_len depth \<noteq> min MAX_PREFIX_LEN (partial_len h)
     then (Some (Inner h ch), None)
     else
       let depth = depth + partial_len h in
       case buffer_find h key of
         Some i \<Rightarrow> (Some (Inner (set_buffer_key h i EMPTY_FLAG) ch), Some (entry_value (buffer h ! i), 1))
       | None \<Rightarrow>
           (case find_child h ch (key_byte key depth) of
              None \<Rightarrow> (Some (Inner h ch), None)
            | Some i \<Rightarrow>
                (case child_at ch i of
                   Some (Leaf l) \<Rightarrow>
                     (if leaf_matches l key key_len depth = 0 then
                        let (n', cnt) = remove_child h ch (key_byte key depth) i depth
                        in (n', Some (entry_value l, cnt))
                      else (Some (Inner h ch), None))
                 | _ \<Rightarrow>
                     let (n', old) = recursive_delete (child_at ch i) key key_len (depth + 1)
                     in (Some (Inner h (set_child ch i n')), old))))"
  by pat_completeness auto
termination
  by (relation "measure (\<lambda>(n, _). node_size n)") (auto simp: node_size_def dest: size_child_at)

definition art_delete :: "art_tree \<Rightarrow> u64 \<Rightarrow> nat \<Rightarrow> art_tree \<times> u64 option" where
  "art_delete t key key_len =
    (case recursive_delete (root t) key key_len 0 of
       (root', None) \<Rightarrow> (t\<lparr>root := root'\<rparr>, None)
     | (root', Some (old, tag)) \<Rightarrow>
         (t\<lparr>root := root', buffer_count := buffer_count t - of_nat tag, tree_size := tree_size t - 1\<rparr>,
          Some old))"

section \<open>Search\<close>

text \<open>
  The walk that \<open>art_search\<close> and \<open>art_update\<close> share: where the key was found, with the
  positions of the children followed from the root (\<open>ref_parent\<close> is \<open>NULL\<close> for the empty path),
  \<open>depth\<close> and \<open>depth_parent\<close>.
\<close>

datatype art_hit = InLeaf entry | InBuffer nat entry

record art_loc =
  loc_path :: "nat list"
  loc_hit :: art_hit
  loc_depth :: nat
  loc_depth_parent :: nat

function art_walk :: "u64 \<Rightarrow> art_node option \<Rightarrow> nat list \<Rightarrow> nat \<Rightarrow> nat \<Rightarrow> art_loc option" where
  "art_walk key None path depth depth_parent = None"
| "art_walk key (Some (Leaf l)) path depth depth_parent =
    (if leaf_matches l key KEY_LEN depth = 0 then
       Some \<lparr>loc_path = path, loc_hit = InLeaf l, loc_depth = depth, loc_depth_parent = depth_parent\<rparr>
     else None)"
| "art_walk key (Some (Inner h ch)) path depth depth_parent =
    (if partial_len h \<noteq> 0 \<and> check_prefix h key KEY_LEN depth \<noteq> min MAX_PREFIX_LEN (partial_len h)
     then None
     else
       let depth = depth + partial_len h in
       case buffer_find h key of
         Some i \<Rightarrow> Some \<lparr>loc_path = path, loc_hit = InBuffer i (buffer h ! i), loc_depth = depth,
                         loc_depth_parent = depth_parent\<rparr>
       | None \<Rightarrow>
           (case find_child h ch (key_byte key depth) of
              None \<Rightarrow> None
            | Some i \<Rightarrow> art_walk key (child_at ch i) (path @ [i]) (depth + 1) depth))"
  by pat_completeness auto
termination
  by (relation "measure (\<lambda>(_, n, _). node_size n)") (simp_all add: node_size_def [of "Some _"] node_size_child)

fun hit_value :: "art_hit \<Rightarrow> u64" where
  "hit_value (InLeaf l) = entry_value l"
| "hit_value (InBuffer i e) = entry_value e"

definition art_find :: "art_node option \<Rightarrow> u64 \<Rightarrow> art_loc option" where
  "art_find n key = art_walk key n [] 0 0"

section \<open>Iteration\<close>

text \<open>A loop over callback results that stops at the first non-zero one.\<close>

fun iter_stop :: "('a \<Rightarrow> 's \<Rightarrow> int \<times> 's) \<Rightarrow> 'a list \<Rightarrow> 's \<Rightarrow> int \<times> 's" where
  "iter_stop f [] s = (0, s)"
| "iter_stop f (x # xs) s = (case f x s of (res, s') \<Rightarrow> if res \<noteq> 0 then (res, s') else iter_stop f xs s')"

lemma iter_stop_cong [fundef_cong]:
  "xs = ys \<Longrightarrow> s = t \<Longrightarrow> (\<And>x s. x \<in> set ys \<Longrightarrow> f x s = g x s) \<Longrightarrow> iter_stop f xs s = iter_stop g ys t"
proof (induction xs arbitrary: ys s t)
  case (Cons x xs)
  then show ?case by (auto split: prod.split)
qed auto

fun child_order :: "art_hdr \<Rightarrow> 'n children \<Rightarrow> nat list" where
  "child_order h (Node4 keys cs) = [0..<unat (num_children h)]"
| "child_order h (Node16 keys cs) = [0..<unat (num_children h)]"
| "child_order h (Node48 keys cs) = map (\<lambda>i. unat (keys ! i) - 1) (filter (\<lambda>i. keys ! i \<noteq> 0) [0..<256])"
| "child_order h (Node256 cs) = filter (\<lambda>i. slot cs i \<noteq> None) [0..<256]"

function recursive_iter :: "(u64 \<Rightarrow> u64 \<Rightarrow> 's \<Rightarrow> int \<times> 's) \<Rightarrow> art_node option \<Rightarrow> 's \<Rightarrow> int \<times> 's" where
  "recursive_iter cb None s = (0, s)"
| "recursive_iter cb (Some (Leaf l)) s = cb (entry_key l) (entry_value l) s"
| "recursive_iter cb (Some (Inner h ch)) s =
    iter_stop (\<lambda>i. recursive_iter cb (child_at ch i)) (child_order h ch) s"
  by pat_completeness auto
termination
  by (relation "measure (\<lambda>(_, n, _). node_size n)") (simp_all add: node_size_def [of "Some _"] node_size_child)

definition art_iter :: "art_tree \<Rightarrow> (u64 \<Rightarrow> u64 \<Rightarrow> 's \<Rightarrow> int \<times> 's) \<Rightarrow> 's \<Rightarrow> int \<times> 's" where
  "art_iter t cb s = recursive_iter cb (root t) s"

definition leaf_prefix_matches :: "entry \<Rightarrow> u64 \<Rightarrow> nat \<Rightarrow> int" where
  "leaf_prefix_matches n key prefix_len =
    (if KEY_LEN < prefix_len then 1
     else memcmp (take prefix_len (key_bytes (entry_key n))) (take prefix_len (key_bytes key)))"

text \<open>The loop of \<open>art_iter_prefix\<close>; an inner node has a minimum leaf in every tree it can meet.\<close>

function iter_prefix ::
  "u64 \<Rightarrow> nat \<Rightarrow> (u64 \<Rightarrow> u64 \<Rightarrow> 's \<Rightarrow> int \<times> 's) \<Rightarrow> art_node option \<Rightarrow> nat \<Rightarrow> 's \<Rightarrow> int \<times> 's" where
  "iter_prefix key key_len cb None depth s = (0, s)"
| "iter_prefix key key_len cb (Some (Leaf l)) depth s =
    (if leaf_prefix_matches l key key_len = 0 then cb (entry_key l) (entry_value l) s else (0, s))"
| "iter_prefix key key_len cb (Some (Inner h ch)) depth s =
    (if depth = key_len then
       (case minimum (Some (Inner h ch)) of
          Some l \<Rightarrow> if leaf_prefix_matches l key key_len = 0 then recursive_iter cb (Some (Inner h ch)) s else (0, s)
        | None \<Rightarrow> (0, s))
     else
       let prefix_len = min (prefix_mismatch h ch key key_len depth) (partial_len h) in
       if partial_len h \<noteq> 0 \<and> prefix_len = 0 then (0, s)
       else if partial_len h \<noteq> 0 \<and> depth + prefix_len = key_len then recursive_iter cb (Some (Inner h ch)) s
       else
         let depth = depth + partial_len h in
         case find_child h ch (key_byte key depth) of
           None \<Rightarrow> (0, s)
         | Some i \<Rightarrow> iter_prefix key key_len cb (child_at ch i) (depth + 1) s)"
  by pat_completeness auto
termination
  by (relation "measure (\<lambda>(_, _, _, n, _). node_size n)") (simp_all add: node_size_def [of "Some _"] node_size_child)

definition art_iter_prefix :: "art_tree \<Rightarrow> u64 \<Rightarrow> nat \<Rightarrow> (u64 \<Rightarrow> u64 \<Rightarrow> 's \<Rightarrow> int \<times> 's) \<Rightarrow> 's \<Rightarrow> int \<times> 's" where
  "art_iter_prefix t key key_len cb s = iter_prefix key key_len cb (root t) 0 s"

section \<open>Destruction\<close>

text \<open>The nodes that \<open>destroy_node\<close> frees, in order: children first.\<close>

function destroy_node :: "art_node option \<Rightarrow> art_node list" where
  "destroy_node None = []"
| "destroy_node (Some (Leaf l)) = [Leaf l]"
| "destroy_node (Some (Inner h ch)) =
    concat (map (\<lambda>i. destroy_node (child_at ch i)) (child_order h ch)) @ [Inner h ch]"
  by pat_completeness auto
termination
  by (relation "measure node_size") (simp_all add: node_size_def [of "Some _"] node_size_child)

definition art_tree_destroy :: "art_tree \<Rightarrow> art_node list" where
  "art_tree_destroy t = destroy_node (root t)"

end
