(* ===== verification/ART_Correct.thy ===== *)
theory ART_Correct
  imports ART_Tree
begin

text \<open>
  The map that a tree represents, the tree invariant, and the laws of insertion and deletion:
  they update the map, under the conditions the code needs for it, and keep the invariant.
\<close>

section \<open>The lookup of a tree\<close>

text \<open>The value \<open>art_search\<close> reads, by recursion; \<open>art_find_lookup\<close> relates it to the walk.\<close>

function art_lookup :: "u64 \<Rightarrow> nat \<Rightarrow> art_node option \<Rightarrow> u64 option" where
  "art_lookup key depth None = None"
| "art_lookup key depth (Some (Leaf l)) =
    (if leaf_matches l key KEY_LEN depth = 0 then Some (entry_value l) else None)"
| "art_lookup key depth (Some (Inner h ch)) =
    (if partial_len h \<noteq> 0 \<and> check_prefix h key KEY_LEN depth \<noteq> min MAX_PREFIX_LEN (partial_len h)
     then None
     else case buffer_find h key of
         Some i \<Rightarrow> Some (entry_value (buffer h ! i))
       | None \<Rightarrow>
           (case find_child h ch (key_byte key (depth + partial_len h)) of
              None \<Rightarrow> None
            | Some i \<Rightarrow> art_lookup key (depth + partial_len h + 1) (child_at ch i)))"
  by pat_completeness auto
termination
  by (relation "measure (\<lambda>(_, _, n). node_size n)") (simp_all add: node_size_def [of "Some _"] node_size_child)

lemma art_walk_lookup:
  "map_option (hit_value \<circ> loc_hit) (art_walk key n path depth depth_parent) = art_lookup key depth n"
proof (induction key depth n arbitrary: path depth_parent rule: art_lookup.induct)
  case (3 key depth h ch)
  show ?case
  proof (cases "partial_len h \<noteq> 0 \<and> check_prefix h key KEY_LEN depth \<noteq> min MAX_PREFIX_LEN (partial_len h)")
    case False
    then show ?thesis using 3 by (auto simp: Let_def split: option.split)
  qed simp
qed simp_all

lemma art_find_lookup: "map_option (hit_value \<circ> loc_hit) (art_find n key) = art_lookup key 0 n"
  unfolding art_find_def by (rule art_walk_lookup)

section \<open>Keys that match a path\<close>

definition matches :: "u8 list \<Rightarrow> u64 \<Rightarrow> bool" where
  "matches p k \<longleftrightarrow> take (length p) (key_bytes k) = p"

lemma matches_Nil [simp]: "matches [] k"
  by (simp add: matches_def)

lemma matches_length: "matches p k \<Longrightarrow> length p \<le> 8"
  by (metis matches_def length_key_bytes length_take min.cobounded1)

lemma matches_iff: "length p \<le> 8 \<Longrightarrow> matches p k \<longleftrightarrow> (\<forall>i < length p. key_byte k i = p ! i)"
  by (auto simp: matches_def list_eq_iff_nth_eq)

lemma matches_append:
  assumes "length (p @ q) \<le> 8"
  shows "matches (p @ q) k \<longleftrightarrow> matches p k \<and> (\<forall>i < length q. key_byte k (length p + i) = q ! i)"
proof -
  have "(\<forall>i < length (p @ q). key_byte k i = (p @ q) ! i) \<longleftrightarrow>
    (\<forall>i < length p. key_byte k i = p ! i) \<and> (\<forall>i < length q. key_byte k (length p + i) = q ! i)"
    (is "?l \<longleftrightarrow> ?r1 \<and> ?r2")
  proof
    assume l: ?l
    have ?r1
    proof (intro allI impI)
      fix i assume "i < length p"
      with l [rule_format, of i] show "key_byte k i = p ! i" by (simp add: nth_append)
    qed
    moreover have ?r2
    proof (intro allI impI)
      fix i assume "i < length q"
      with l [rule_format, of "length p + i"] show "key_byte k (length p + i) = q ! i" by simp
    qed
    ultimately show "?r1 \<and> ?r2" ..
  next
    assume r: "?r1 \<and> ?r2"
    show ?l
    proof (intro allI impI)
      fix i assume i: "i < length (p @ q)"
      show "key_byte k i = (p @ q) ! i"
      proof (cases "i < length p")
        case False
        with conjunct2 [OF r, rule_format, of "i - length p"] i show ?thesis by (simp add: nth_append)
      qed (use r in \<open>simp add: nth_append\<close>)
    qed
  qed
  then show ?thesis using assms matches_iff [of p k] matches_iff [of "p @ q" k] by simp
qed

lemma matches_appendD:
  assumes "matches (p @ q) k"
  shows "matches p k"
proof -
  have "take (length p) (take (length (p @ q)) (key_bytes k)) = take (length p) (p @ q)"
    using assms by (simp only: matches_def)
  then show ?thesis by (simp add: matches_def)
qed

lemma matches_snoc: "length p < 8 \<Longrightarrow> matches (p @ [b]) k \<longleftrightarrow> matches p k \<and> key_byte k (length p) = b"
  by (simp add: matches_append)

section \<open>The invariant\<close>

text \<open>The map of a subtree at a depth; the keys 0 and 1 mark slots and never reach the tree.\<close>

definition node_map :: "nat \<Rightarrow> art_node \<Rightarrow> u64 \<Rightarrow> u64 option" where
  "node_map depth n k = (if IS_SPECIAL_KEY k then None else art_lookup k depth (Some n))"

definition buf_map :: "art_hdr \<Rightarrow> u64 \<Rightarrow> u64 option" where
  "buf_map h k = (if IS_SPECIAL_KEY k then None
     else map_option (\<lambda>i. entry_value (buffer h ! i)) (buffer_find h k))"

text \<open>A buffer at path \<open>p\<close> holds distinct keys that match the path, and empty slots.\<close>

definition buf_ok :: "u8 list \<Rightarrow> entry list \<Rightarrow> bool" where
  "buf_ok p b \<longleftrightarrow> (\<forall>i < 3. entry_key (b ! i) \<noteq> 0 \<longrightarrow>
     \<not> IS_SPECIAL_KEY (entry_key (b ! i)) \<and> matches p (entry_key (b ! i)) \<and>
     (\<forall>j < 3. entry_key (b ! j) = entry_key (b ! i) \<longrightarrow> j = i))"

definition kid_map :: "nat \<Rightarrow> art_hdr \<Rightarrow> art_node children \<Rightarrow> u64 \<Rightarrow> u64 option" where
  "kid_map d h ch k = (case child_map h ch (key_byte k d) of None \<Rightarrow> None | Some n \<Rightarrow> node_map (d + 1) n k)"

text \<open>\<open>art_ok p n\<close>: all keys of \<open>n\<close> start with the bytes \<open>p\<close> that lead to it, every node of it is
  well formed, and no key is both in a buffer and below that buffer.\<close>

inductive art_ok :: "u8 list \<Rightarrow> art_node \<Rightarrow> bool" where
  ok_leaf: "\<not> IS_SPECIAL_KEY (entry_key e) \<Longrightarrow> matches p (entry_key e) \<Longrightarrow> art_ok p (Leaf e)"
| ok_inner: "hdr_ok h \<Longrightarrow> ch_ok h ch \<Longrightarrow> length p + partial_len h < 8 \<Longrightarrow> buf_ok (p @ prefix_of h) (buffer h) \<Longrightarrow>
    (\<And>b n. child_map h ch b = Some n \<Longrightarrow> art_ok (p @ prefix_of h @ [b]) n) \<Longrightarrow>
    (\<And>k. buf_map h k \<noteq> None \<Longrightarrow> kid_map (length p + partial_len h) h ch k = None) \<Longrightarrow>
    art_ok p (Inner h ch)"

inductive_cases ok_leafE: "art_ok p (Leaf e)"
inductive_cases ok_innerE: "art_ok p (Inner h ch)"

text \<open>The same for an inner node, by the full path \<open>q\<close> that its prefix completes.\<close>

definition inner_ok :: "u8 list \<Rightarrow> art_hdr \<Rightarrow> art_node children \<Rightarrow> bool" where
  "inner_ok q h ch \<longleftrightarrow> hdr_ok h \<and> ch_ok h ch \<and> length q < 8 \<and> buf_ok q (buffer h) \<and>
    (\<forall>b n. child_map h ch b = Some n \<longrightarrow> art_ok (q @ [b]) n) \<and>
    (\<forall>k. buf_map h k \<noteq> None \<longrightarrow> kid_map (length q) h ch k = None)"

lemma length_prefix_of [simp]: "hdr_ok h \<Longrightarrow> length (prefix_of h) = partial_len h"
  by (simp add: hdr_ok_def prefix_of_def)

lemma art_ok_inner: "art_ok p (Inner h ch) \<longleftrightarrow> inner_ok (p @ prefix_of h) h ch"
proof
  assume "art_ok p (Inner h ch)"
  then show "inner_ok (p @ prefix_of h) h ch"
    by (rule ok_innerE) (simp add: inner_ok_def)
next
  assume i: "inner_ok (p @ prefix_of h) h ch"
  then have "length (prefix_of h) = partial_len h" by (simp add: inner_ok_def)
  with i show "art_ok p (Inner h ch)"
    by (intro ok_inner) (simp_all add: inner_ok_def)
qed

lemma inner_okD:
  assumes "inner_ok q h ch"
  shows "hdr_ok h" "ch_ok h ch" "length q < 8" "buf_ok q (buffer h)"
    "\<And>b n. child_map h ch b = Some n \<Longrightarrow> art_ok (q @ [b]) n"
    "\<And>k. buf_map h k \<noteq> None \<Longrightarrow> kid_map (length q) h ch k = None"
  using assms unfolding inner_ok_def by blast+

text \<open>What an inner node at the full path \<open>q\<close> maps.\<close>

definition inner_map :: "u8 list \<Rightarrow> art_hdr \<Rightarrow> art_node children \<Rightarrow> u64 \<Rightarrow> u64 option" where
  "inner_map q h ch k = (case buf_map h k of Some v \<Rightarrow> Some v | None \<Rightarrow>
     if matches q k then kid_map (length q) h ch k else None)"

lemma check_prefix_iff:
  assumes "hdr_ok h" "length p + partial_len h \<le> 8" "matches p k"
  shows "check_prefix h k 8 (length p) = min 8 (partial_len h) \<longleftrightarrow> matches (p @ prefix_of h) k"
proof -
  have l: "length (prefix_of h) = partial_len h" and le: "partial_len h \<le> 8" "length p \<le> 8"
    using assms by (simp_all add: hdr_ok_def prefix_of_def)
  have nth: "prefix_of h ! i = partial h ! i" if "i < partial_len h" for i
    using that by (simp add: prefix_of_def)
  have m: "min (min (partial_len h) 8) (8 - length p) = partial_len h" using assms(2) le by simp
  let ?P = "\<lambda>idx. partial h ! idx \<noteq> key_byte k (length p + idx)"
  have "matches (p @ prefix_of h) k \<longleftrightarrow> (\<forall>i < partial_len h. \<not> ?P i)"
    using matches_append [of p "prefix_of h" k] assms(2,3) l nth by auto
  also have "\<dots> \<longleftrightarrow> first_idx (partial_len h) ?P = None" by (simp add: first_idx_None)
  also have "\<dots> \<longleftrightarrow> check_prefix h k 8 (length p) = partial_len h"
    by (auto simp: check_prefix_def Let_def m first_idx_Some split: option.split)
  finally show ?thesis using le by simp
qed

lemma buf_find_matches:
  assumes "buf_ok q (buffer h)" "buffer_find h k = Some i" "k \<noteq> 0"
  shows "matches q k"
  using assms by (auto simp: buf_ok_def buffer_find_def first_idx_Some)

lemma lookup_matches:
  assumes "art_ok p n" "\<not> IS_SPECIAL_KEY k" "art_lookup k (length p) (Some n) \<noteq> None"
  shows "matches p k"
  using assms
proof (induction p n rule: art_ok.induct)
  case (ok_leaf e p)
  then show ?case
    by (auto simp: leaf_matches_def memcmp_eq_0 key_bytes_inject split: if_splits)
next
  case (ok_inner h ch p)
  show ?case
  proof (cases "buffer_find h k")
    case (Some i)
    with ok_inner have "matches (p @ prefix_of h) k"
      by (intro buf_find_matches [of _ h k i]) auto
    then show ?thesis by (rule matches_appendD)
  next
    case None
    with ok_inner.prems obtain i where i: "find_child h ch (key_byte k (length p + partial_len h)) = Some i"
      "art_lookup k (length p + partial_len h + 1) (child_at ch i) \<noteq> None"
      by (auto split: if_splits option.splits)
    then obtain n where n: "child_at ch i = Some n" by (cases "child_at ch i") auto
    with i have "child_map h ch (key_byte k (length p + partial_len h)) = Some n"
      by (simp add: child_map_def)
    with ok_inner.IH [OF this] i n ok_inner.prems ok_inner.hyps
    have "matches (p @ prefix_of h @ [key_byte k (length p + partial_len h)]) k" by simp
    then show ?thesis using matches_appendD [of p] by simp
  qed
qed

lemma node_map_matches: "art_ok p n \<Longrightarrow> node_map (length p) n k \<noteq> None \<Longrightarrow> matches p k"
  using lookup_matches [of p n k] by (auto simp: node_map_def split: if_splits)

lemma node_map_leaf: "art_ok p (Leaf e) \<Longrightarrow> node_map d (Leaf e) = [entry_key e \<mapsto> entry_value e]"
  by (auto elim!: ok_leafE simp: node_map_def fun_eq_iff leaf_matches_def memcmp_eq_0 key_bytes_inject)

lemma buf_map_matches: "buf_ok q (buffer h) \<Longrightarrow> buf_map h k \<noteq> None \<Longrightarrow> matches q k"
  using buf_find_matches [of q h k] by (auto simp: buf_map_def split: if_splits)

lemma node_map_inner:
  assumes "art_ok p (Inner h ch)"
  shows "node_map (length p) (Inner h ch) = inner_map (p @ prefix_of h) h ch"
proof (rule ext)
  fix k
  let ?q = "p @ prefix_of h"
  from assms have ok: "inner_ok ?q h ch" by (simp add: art_ok_inner)
  note D = inner_okD [OF ok]
  have len: "length ?q = length p + partial_len h" using D(1) by simp
  show "node_map (length p) (Inner h ch) k = inner_map ?q h ch k"
  proof (cases "IS_SPECIAL_KEY k")
    case True
    then show ?thesis by (auto simp: node_map_def inner_map_def buf_map_def kid_map_def split: option.split)
  next
    case s: False
    show ?thesis
    proof (cases "matches p k")
      case False
      then have "node_map (length p) (Inner h ch) k = None" using node_map_matches [OF assms] by blast
      moreover have "\<not> matches ?q k" using False matches_appendD by blast
      moreover then have "buf_map h k = None" using buf_map_matches [OF D(4)] by blast
      ultimately show ?thesis by (simp add: inner_map_def)
    next
      case True
      have cp: "check_prefix h k 8 (length p) = min 8 (partial_len h) \<longleftrightarrow> matches ?q k"
        using D True len by (intro check_prefix_iff) simp_all
      have p0: "partial_len h = 0 \<Longrightarrow> matches ?q k" using True D(1) by (simp add: prefix_of_def)
      have kid: "kid_map (length ?q) h ch k = (case find_child h ch (key_byte k (length p + partial_len h)) of
          None \<Rightarrow> None | Some i \<Rightarrow> art_lookup k (length p + partial_len h + 1) (child_at ch i))"
        using s len find_child_iff [OF D(2), of "key_byte k (length p + partial_len h)"]
          find_child_at [OF D(2), of "key_byte k (length p + partial_len h)"]
        by (auto simp: kid_map_def node_map_def split: option.split)
      show ?thesis
      proof (cases "matches ?q k")
        case False
        then have "buf_map h k = None" using buf_map_matches [OF D(4)] by blast
        with False cp p0 s show ?thesis by (auto simp: node_map_def inner_map_def)
      next
        case True
        then show ?thesis using cp s
          by (auto simp: node_map_def inner_map_def buf_map_def kid simp del: length_append split: option.split)
      qed
    qed
  qed
qed

section \<open>Changing the buffer of a node\<close>

lemma buffer_find_None: "buffer_find h k = None \<longleftrightarrow> (\<forall>i < 3. entry_key (buffer h ! i) \<noteq> k)"
  by (auto simp: buffer_find_def first_idx_None)

lemma buffer_findD: "buffer_find h k = Some i \<Longrightarrow> i < 3 \<and> entry_key (buffer h ! i) = k"
  by (auto simp: buffer_find_def first_idx_Some)

lemma buffer_find_unique:
  assumes "buf_ok q (buffer h)" "i < 3" "entry_key (buffer h ! i) = k" "k \<noteq> 0"
  shows "buffer_find h k = Some i"
proof (cases "buffer_find h k")
  case None
  with assms show ?thesis by (simp add: buffer_find_None)
next
  case (Some j)
  with assms show ?thesis using buffer_findD [OF Some] by (simp add: buf_ok_def)
qed

lemma buf_map_Some_iff:
  assumes "buf_ok q (buffer h)"
  shows "buf_map h k = Some v \<longleftrightarrow>
    \<not> IS_SPECIAL_KEY k \<and> (\<exists>i < 3. entry_key (buffer h ! i) = k \<and> entry_value (buffer h ! i) = v)"
proof
  assume "buf_map h k = Some v"
  then show "\<not> IS_SPECIAL_KEY k \<and> (\<exists>i < 3. entry_key (buffer h ! i) = k \<and> entry_value (buffer h ! i) = v)"
    using buffer_findD [of h k] by (auto simp: buf_map_def split: if_splits)
next
  assume "\<not> IS_SPECIAL_KEY k \<and> (\<exists>i < 3. entry_key (buffer h ! i) = k \<and> entry_value (buffer h ! i) = v)"
  then show "buf_map h k = Some v"
    using buffer_find_unique [OF assms, of _ k] by (auto simp: buf_map_def)
qed

text \<open>Writing one buffer slot: an entry with a key that is nowhere in the buffer, or an empty one.\<close>

lemma set_buffer_simps [simp]:
  "num_children (set_buffer h i e) = num_children h" "partial_len (set_buffer h i e) = partial_len h"
  "partial (set_buffer h i e) = partial h" "buffer (set_buffer h i e) = (buffer h)[i := e]"
  "prefix_of (set_buffer h i e) = prefix_of h" "hdr_ok (set_buffer h i e) = hdr_ok h"
  by (simp_all add: set_buffer_def prefix_of_def hdr_ok_def)

lemma child_map_cong:
  "num_children h' = num_children h \<Longrightarrow> child_map h' ch = child_map h ch"
  by (cases ch) (simp_all add: child_map_def fun_eq_iff)

lemma ch_ok_cong: "num_children h' = num_children h \<Longrightarrow> ch_ok h' ch = ch_ok h ch"
  by (cases ch) simp_all

lemma kid_map_cong: "child_map h' ch' = child_map h ch \<Longrightarrow> kid_map d h' ch' = kid_map d h ch"
  by (simp add: kid_map_def fun_eq_iff)

lemma child_map_set_buffer [simp]:
  "child_map (set_buffer h i e) ch = child_map h ch" "ch_ok (set_buffer h i e) ch = ch_ok h ch"
  by (rule child_map_cong, simp) (rule ch_ok_cong, simp)

lemma kid_map_set_buffer [simp]: "kid_map d (set_buffer h i e) ch = kid_map d h ch"
  by (rule kid_map_cong) simp

lemma set_slot_ok:
  assumes ok: "buf_ok q (buffer h)" and h: "hdr_ok h" and i: "i < 3"
    and e: "entry_key e = 0 \<or> \<not> IS_SPECIAL_KEY (entry_key e) \<and> matches q (entry_key e) \<and>
      (\<forall>j < 3. entry_key (buffer h ! j) = entry_key e \<longrightarrow> j = i)"
  shows "buf_ok q (buffer (set_buffer h i e))"
proof -
  let ?b = "(buffer h)[i := e]"
  have nth: "?b ! j = (if j = i then e else buffer h ! j)" if "j < 3" for j
    using h that by (simp add: hdr_ok_def nth_list_update)
  have "\<not> IS_SPECIAL_KEY (entry_key (?b ! a)) \<and> matches q (entry_key (?b ! a)) \<and>
      (\<forall>j < 3. entry_key (?b ! j) = entry_key (?b ! a) \<longrightarrow> j = a)" if a: "a < 3" "entry_key (?b ! a) \<noteq> 0" for a
  proof (cases "a = i")
    case True
    then have ba: "?b ! a = e" using nth [OF a(1)] by simp
    with a(2) have "entry_key e \<noteq> 0" by simp
    with e have A: "\<not> IS_SPECIAL_KEY (entry_key e)" "matches q (entry_key e)"
      "\<And>j. j < 3 \<Longrightarrow> entry_key (buffer h ! j) = entry_key e \<Longrightarrow> j = i" by blast+
    have "j = a" if "j < 3" "entry_key (?b ! j) = entry_key e" for j
      using nth [OF that(1)] A(3) [OF that(1)] that(2) True by (cases "j = i") auto
    with A(1,2) show ?thesis unfolding ba by blast
  next
    case False
    then have ba: "?b ! a = buffer h ! a" using nth [OF a(1)] by simp
    with a(2) ok a(1) have A: "\<not> IS_SPECIAL_KEY (entry_key (buffer h ! a))" "matches q (entry_key (buffer h ! a))"
      "\<And>j. j < 3 \<Longrightarrow> entry_key (buffer h ! j) = entry_key (buffer h ! a) \<Longrightarrow> j = a"
      unfolding buf_ok_def by force+
    have ne: "entry_key e \<noteq> entry_key (buffer h ! a)" using e a ba False by force
    have "j = a" if "j < 3" "entry_key (?b ! j) = entry_key (buffer h ! a)" for j
      using nth [OF that(1)] A(3) [OF that(1)] that(2) ne by (cases "j = i") auto
    with A(1,2) show ?thesis unfolding ba by blast
  qed
  then show ?thesis unfolding buf_ok_def set_buffer_simps by blast
qed

lemma ex_slot_update:
  assumes "length b = 3" "i < 3"
  shows "(\<exists>j < 3. Q (b[i := e] ! j) \<and> P (b[i := e] ! j)) \<longleftrightarrow> Q e \<and> P e \<or> (\<exists>j < 3. j \<noteq> i \<and> Q (b ! j) \<and> P (b ! j))"
  using assms by (auto simp: nth_list_update)

lemma set_slot_map:
  assumes ok: "buf_ok q (buffer h)" and h: "hdr_ok h" and i: "i < 3"
    and e: "\<not> IS_SPECIAL_KEY (entry_key e)" "matches q (entry_key e)"
      "\<forall>j < 3. entry_key (buffer h ! j) = entry_key e \<longrightarrow> j = i"
    and old: "entry_key (buffer h ! i) \<in> {0, entry_key e}"
  shows "buf_map (set_buffer h i e) = (buf_map h)(entry_key e \<mapsto> entry_value e)"
proof (rule ext)
  fix k
  have len: "length (buffer h) = 3" using h by (simp add: hdr_ok_def)
  have ok': "buf_ok q (buffer (set_buffer h i e))" using assms by (intro set_slot_ok) auto
  have ex: "(\<exists>j < 3. entry_key ((buffer h)[i := e] ! j) = k \<and> entry_value ((buffer h)[i := e] ! j) = v) \<longleftrightarrow>
      (if k = entry_key e then entry_value e = v
       else \<exists>j < 3. entry_key (buffer h ! j) = k \<and> entry_value (buffer h ! j) = v)" if k0: "k \<noteq> 0" for v
  proof (cases "k = entry_key e")
    case True
    then have "\<not> (\<exists>j < 3. j \<noteq> i \<and> entry_key (buffer h ! j) = k \<and> entry_value (buffer h ! j) = v)"
      using e(3) by blast
    with True show ?thesis
      unfolding ex_slot_update [OF len i, of "\<lambda>x. entry_key x = k" e "\<lambda>x. entry_value x = v"] by auto
  next
    case False
    with old k0 have "entry_key (buffer h ! i) \<noteq> k" by blast
    then have "(\<exists>j < 3. j \<noteq> i \<and> entry_key (buffer h ! j) = k \<and> entry_value (buffer h ! j) = v) \<longleftrightarrow>
      (\<exists>j < 3. entry_key (buffer h ! j) = k \<and> entry_value (buffer h ! j) = v)" by blast
    with False show ?thesis
      unfolding ex_slot_update [OF len i, of "\<lambda>x. entry_key x = k" e "\<lambda>x. entry_value x = v"] by simp
  qed
  have "buf_map (set_buffer h i e) k = Some v \<longleftrightarrow> ((buf_map h)(entry_key e \<mapsto> entry_value e)) k = Some v" for v
    using ex [of v] e(1) not_special_nonzero [of k]
    unfolding buf_map_Some_iff [OF ok'] fun_upd_apply set_buffer_simps
    by (cases "k = entry_key e"; simp add: buf_map_Some_iff [OF ok]; blast?)
  then show "buf_map (set_buffer h i e) k = ((buf_map h)(entry_key e \<mapsto> entry_value e)) k"
    by (metis option.exhaust)
qed

lemma clear_slot_map:
  assumes ok: "buf_ok q (buffer h)" and h: "hdr_ok h" and i: "i < 3"
    and k: "entry_key (buffer h ! i) = key" "key \<noteq> 0"
  shows "buf_map (set_buffer_key h i 0) = (buf_map h)(key := None)" "buf_ok q (buffer (set_buffer_key h i 0))"
proof -
  have len: "length (buffer h) = 3" using h by (simp add: hdr_ok_def)
  show ok': "buf_ok q (buffer (set_buffer_key h i 0))"
    unfolding set_buffer_key_def using assms by (intro set_slot_ok) auto
  show "buf_map (set_buffer_key h i 0) = (buf_map h)(key := None)"
  proof (rule ext)
    fix k
    let ?b = "(buffer h)[i := (buffer h ! i)\<lparr>entry_key := 0\<rparr>]"
    have inj: "entry_key (buffer h ! j) = key \<Longrightarrow> j < 3 \<Longrightarrow> j = i" for j
      using ok i k by (simp add: buf_ok_def)
    have ex: "(\<exists>j < 3. entry_key (?b ! j) = k \<and> entry_value (?b ! j) = v) \<longleftrightarrow>
        k \<noteq> key \<and> (\<exists>j < 3. entry_key (buffer h ! j) = k \<and> entry_value (buffer h ! j) = v)" if k0: "k \<noteq> 0" for v
    proof -
      have "(\<exists>j < 3. j \<noteq> i \<and> entry_key (buffer h ! j) = k \<and> entry_value (buffer h ! j) = v) \<longleftrightarrow>
        k \<noteq> key \<and> (\<exists>j < 3. entry_key (buffer h ! j) = k \<and> entry_value (buffer h ! j) = v)"
        using inj assms(4) by blast
      with k0 show ?thesis
        unfolding ex_slot_update [OF len i, of "\<lambda>x. entry_key x = k" _ "\<lambda>x. entry_value x = v"] by simp
    qed
    have "buf_map (set_buffer_key h i 0) k = Some v \<longleftrightarrow> ((buf_map h)(key := None)) k = Some v" for v
      using ex [of v] not_special_nonzero [of k] buf_map_Some_iff [OF ok', of k v] buf_map_Some_iff [OF ok, of k v]
      unfolding set_buffer_key_def set_buffer_simps by (cases "k = key"; simp; blast?)
    then show "buf_map (set_buffer_key h i 0) k = ((buf_map h)(key := None)) k"
      by (metis option.exhaust)
  qed
qed

section \<open>Changing the children of a node\<close>

lemma buf_map_cong: "buffer h' = buffer h \<Longrightarrow> buf_map h' = buf_map h"
  by (simp add: buf_map_def buffer_find_def fun_eq_iff)

lemma inner_map_split:
  assumes "inner_ok q h ch"
  shows "inner_map q h ch = buf_map h ++ (\<lambda>k. if matches q k then kid_map (length q) h ch k else None)"
proof (rule ext)
  fix k
  show "inner_map q h ch k = (buf_map h ++ (\<lambda>k. if matches q k then kid_map (length q) h ch k else None)) k"
    using inner_okD(6) [OF assms, of k]
    by (cases "buf_map h k") (auto simp: inner_map_def map_add_def split: option.split)
qed

lemma node_map_snoc:
  assumes "art_ok (q @ [c]) x" "node_map (length q + 1) x k \<noteq> None" "length q < 8"
  shows "matches q k" "key_byte k (length q) = c"
  using node_map_matches [of "q @ [c]" x k] assms by (auto simp: matches_snoc)

lemma inner_add:
  assumes ok: "inner_ok q h ch" and eq: "add_child h ch c x = (h', ch')" and c: "child_map h ch c = None"
    and x: "art_ok (q @ [c]) x" and disj: "\<And>k. buf_map h k \<noteq> None \<Longrightarrow> node_map (length q + 1) x k = None"
  shows "inner_ok q h' ch'" "hdr_sim h h'" "inner_map q h' ch' = inner_map q h ch ++ node_map (length q + 1) x"
    "child_map h' ch' = (child_map h ch)(c \<mapsto> x)"
proof -
  note D = inner_okD [OF ok]
  from add_child_ok [OF D(2) c D(1) eq]
  have A: "ch_ok h' ch'" "child_map h' ch' = (child_map h ch)(c \<mapsto> x)" "hdr_sim h h'" by simp_all
  then have h': "hdr_ok h'" "buffer h' = buffer h" using hdr_sim_ok [OF D(1)] by (auto simp: hdr_sim_def)
  have bm: "buf_map h' = buf_map h" by (rule buf_map_cong) (rule h'(2))
  have km: "kid_map (length q) h' ch' k =
      (if key_byte k (length q) = c then node_map (length q + 1) x k else kid_map (length q) h ch k)" for k
    by (simp add: kid_map_def A)
  have kc: "kid_map (length q) h ch k = None" if "key_byte k (length q) = c" for k
    using c that by (simp add: kid_map_def)
  show ok': "inner_ok q h' ch'"
    unfolding inner_ok_def using D A h' x disj by (auto simp: bm km)
  show "hdr_sim h h'" by (rule A(3))
  show "child_map h' ch' = (child_map h ch)(c \<mapsto> x)" by (rule A(2))
  show "inner_map q h' ch' = inner_map q h ch ++ node_map (length q + 1) x"
  proof (rule ext)
    fix k
    show "inner_map q h' ch' k = (inner_map q h ch ++ node_map (length q + 1) x) k"
    proof (cases "node_map (length q + 1) x k")
      case None
      then show ?thesis using kc [of k] by (auto simp: inner_map_def bm km map_add_def split: option.split)
    next
      case (Some v)
      then have "matches q k" "key_byte k (length q) = c" using node_map_snoc [OF x _ D(3), of k] by simp_all
      moreover have "buf_map h k = None" using disj [of k] Some by (cases "buf_map h k") auto
      ultimately show ?thesis using Some by (simp add: inner_map_def bm km map_add_def)
    qed
  qed
qed

lemma inner_set:
  assumes ok: "inner_ok q h ch" and i: "find_child h ch c = Some i"
    and m: "art_ok (q @ [c]) m" and disj: "\<And>k. buf_map h k \<noteq> None \<Longrightarrow> node_map (length q + 1) m k = None"
  shows "inner_ok q h (set_child ch i (Some m))"
    "inner_map q h (set_child ch i (Some m)) =
      (\<lambda>k. if matches (q @ [c]) k \<and> buf_map h k = None then node_map (length q + 1) m k else inner_map q h ch k)"
proof -
  note D = inner_okD [OF ok]
  from set_child_ok [OF D(2) i, of m]
  have A: "ch_ok h (set_child ch i (Some m))"
    "child_map h (set_child ch i (Some m)) = (child_map h ch)(c \<mapsto> m)" by simp_all
  have km: "kid_map (length q) h (set_child ch i (Some m)) k =
      (if key_byte k (length q) = c then node_map (length q + 1) m k else kid_map (length q) h ch k)" for k
    by (simp add: kid_map_def A)
  show "inner_ok q h (set_child ch i (Some m))"
    unfolding inner_ok_def using D A m disj by (auto simp: km)
  show "inner_map q h (set_child ch i (Some m)) =
      (\<lambda>k. if matches (q @ [c]) k \<and> buf_map h k = None then node_map (length q + 1) m k else inner_map q h ch k)"
    using D(3) by (auto simp: fun_eq_iff inner_map_def km matches_snoc split: option.split)
qed

lemma empty_inner:
  assumes "hdr_ok h" "num_children h = 0" "length q < 8" "buf_ok q (buffer h)"
  shows "inner_ok q h (snd (alloc_node NODE4))" "inner_map q h (snd (alloc_node NODE4)) = buf_map h"
    "child_map h (snd (alloc_node NODE4) :: art_node children) = Map.empty"
proof -
  let ?ch = "snd (alloc_node NODE4) :: art_node children"
  have ok: "ch_ok h ?ch" using assms(2) by (simp add: lin_ok_def)
  have "card (dom (child_map h ?ch)) = 0"
    using card_dom_lin_map [of 4 "nch h"] ok assms(2) by (simp add: child_map4)
  then show cm: "child_map h ?ch = Map.empty" by simp
  have km: "kid_map d h ?ch k = None" for d k using cm by (simp add: kid_map_def del: alloc_node.simps)
  show "inner_ok q h ?ch" unfolding inner_ok_def using assms ok cm km by simp
  show "inner_map q h ?ch = buf_map h"
    by (auto simp: fun_eq_iff inner_map_def km simp del: alloc_node.simps split: option.split)
qed

lemma node4_of_two_ok:
  assumes h: "hdr_ok h" "num_children h = 0" and q: "q = p @ prefix_of h" "length q < 8" "buf_ok q (buffer h)"
    and c: "c1 \<noteq> c2" and n1: "art_ok (q @ [c1]) n1" and n2: "art_ok (q @ [c2]) n2"
    and d1: "\<And>k. buf_map h k \<noteq> None \<Longrightarrow> node_map (length q + 1) n1 k = None"
    and d2: "\<And>k. buf_map h k \<noteq> None \<Longrightarrow> node_map (length q + 1) n2 k = None"
  shows "art_ok p (node4_of_two h c1 n1 c2 n2)"
    "node_map (length p) (node4_of_two h c1 n1 c2 n2) =
      buf_map h ++ node_map (length q + 1) n1 ++ node_map (length q + 1) n2"
proof -
  obtain h1 ch1 where e1: "add_child h (snd (alloc_node NODE4)) c1 n1 = (h1, ch1)" by (rule prod.exhaust)
  obtain h2 ch2 where e2: "add_child h1 ch1 c2 n2 = (h2, ch2)" by (rule prod.exhaust)
  note E = empty_inner [OF h q(2,3)]
  have 1: "inner_ok q h1 ch1" "hdr_sim h h1" "inner_map q h1 ch1 = buf_map h ++ node_map (length q + 1) n1"
      "child_map h1 ch1 = [c1 \<mapsto> n1]"
    using inner_add [OF E(1) e1 _ n1 d1] E(2,3) by simp_all
  then have "buf_map h1 = buf_map h" by (intro buf_map_cong) (simp add: hdr_sim_def)
  then have 2: "inner_ok q h2 ch2" "hdr_sim h1 h2"
      "inner_map q h2 ch2 = buf_map h ++ node_map (length q + 1) n1 ++ node_map (length q + 1) n2"
    using inner_add [OF 1(1) e2 _ n2] 1(3,4) c d2 by simp_all
  have m: "node4_of_two h c1 n1 c2 n2 = Inner h2 ch2"
    unfolding node4_of_two_def using e1 e2 by simp
  have pq: "p @ prefix_of h2 = q" using 1(2) 2(2) q(1) by (simp add: hdr_sim_def)
  show ok: "art_ok p (node4_of_two h c1 n1 c2 n2)" unfolding m art_ok_inner pq by (rule 2(1))
  show "node_map (length p) (node4_of_two h c1 n1 c2 n2) =
      buf_map h ++ node_map (length q + 1) n1 ++ node_map (length q + 1) n2"
    using node_map_inner [OF ok [unfolded m]] 2(3) by (simp add: m pq)
qed

section \<open>Splitting a leaf and a prefix\<close>

lemma longest_common_prefix_split:
  assumes ne: "entry_key l1 \<noteq> entry_key l2" and m: "matches p (entry_key l1)" "matches p (entry_key l2)"
    and L: "L = longest_common_prefix l1 l2 (length p)"
  shows "length p + L < 8" "key_byte (entry_key l1) (length p + L) \<noteq> key_byte (entry_key l2) (length p + L)"
    "\<And>i. i < L \<Longrightarrow> key_byte (entry_key l1) (length p + i) = key_byte (entry_key l2) (length p + i)"
proof -
  let ?P = "\<lambda>idx. key_byte (entry_key l1) (length p + idx) \<noteq> key_byte (entry_key l2) (length p + idx)"
  have len: "length p \<le> 8" using m(1) by (rule matches_length)
  from ne obtain i where i: "i < 8" "key_byte (entry_key l1) i \<noteq> key_byte (entry_key l2) i"
    by (auto simp: key_eq_iff)
  have "\<not> i < length p" using i m len by (auto simp: matches_iff)
  then have "\<exists>j < 8 - length p. ?P j" using i by (intro exI [of _ "i - length p"]) auto
  then obtain j where j: "first_idx (8 - length p) ?P = Some j"
    by (cases "first_idx (8 - length p) ?P") (auto simp: first_idx_None)
  then have "L = j" by (simp add: L longest_common_prefix_def)
  with j show "length p + L < 8" "?P L" "\<And>i. i < L \<Longrightarrow> key_byte (entry_key l1) (length p + i) = key_byte (entry_key l2) (length p + i)"
    by (auto simp: first_idx_Some)
qed

lemma empty_buffer:
  assumes "buffer h = replicate 3 empty_entry"
  shows "buf_map h = Map.empty" "buf_ok q (buffer h)"
  using assms by (auto simp: buf_map_def buf_ok_def fun_eq_iff buffer_find_None empty_entry_def split: option.split)

lemma split_leaf_ok:
  assumes ok: "art_ok p (Leaf l)" and key: "\<not> IS_SPECIAL_KEY key" "matches p key" "entry_key l \<noteq> key"
  shows "art_ok p (split_leaf l key value (length p))"
    "node_map (length p) (split_leaf l key value (length p)) = (node_map (length p) (Leaf l))(key \<mapsto> value)"
proof -
  define l2 where "l2 = make_leaf key value"
  define L where "L = longest_common_prefix l l2 (length p)"
  have l: "\<not> IS_SPECIAL_KEY (entry_key l)" "matches p (entry_key l)" using ok by (auto elim: ok_leafE)
  have k2: "entry_key l2 = key" by (simp add: l2_def make_leaf_def)
  note S = longest_common_prefix_split [of l l2 p L, unfolded k2, OF key(3) l(2) key(2) L_def]
  define h where "h = zero_hdr\<lparr>partial_len := L,
    partial := memcpy (min 8 L) (drop (length p) (key_bytes key)) (partial zero_hdr)\<rparr>"
  have h: "hdr_ok h" "num_children h = 0" "buffer h = replicate 3 empty_entry"
    using S(1) by (simp_all add: h_def zero_hdr_def hdr_ok_def)
  have pre: "prefix_of h = map (\<lambda>i. key_byte key (length p + i)) [0..<L]"
    using S(1) by (auto simp: h_def prefix_of_def zero_hdr_def memcpy_def list_eq_iff_nth_eq min_def)
  let ?q = "p @ prefix_of h"
  have lq: "length ?q = length p + L" by (simp add: pre)
  have kq: "matches ?q key" using S(1) key(2) by (simp add: matches_append pre)
  have lmq: "matches ?q (entry_key l)" using S(1,3) l(2) by (simp add: matches_append pre)
  let ?c1 = "key_byte (entry_key l) (length p + L)" and ?c2 = "key_byte key (length p + L)"
  have lt: "length ?q < 8" using S(1) lq by simp
  have n1: "art_ok (?q @ [?c1]) (Leaf l)"
    using l lmq lq matches_snoc [OF lt, of ?c1 "entry_key l"] by (intro ok_leaf) simp_all
  have n2: "art_ok (?q @ [?c2]) (Leaf l2)"
    using key kq lq matches_snoc [OF lt, of ?c2 key] k2 by (intro ok_leaf) simp_all
  have e: "split_leaf l key value (length p) = node4_of_two h ?c1 (Leaf l) ?c2 (Leaf l2)"
    by (simp add: split_leaf_def Let_def l2_def [symmetric] L_def [symmetric] h_def [symmetric] k2)
  note B = empty_buffer [OF h(3)]
  note N = node4_of_two_ok [OF h(1,2) refl lt B(2) S(2) n1 n2]
  show "art_ok p (split_leaf l key value (length p))" unfolding e by (rule N(1)) (simp_all add: B(1))
  show "node_map (length p) (split_leaf l key value (length p)) = (node_map (length p) (Leaf l))(key \<mapsto> value)"
    unfolding e using N(2) B(1) node_map_leaf [OF n1] node_map_leaf [OF n2] node_map_leaf [OF ok] k2
    by (simp add: l2_def make_leaf_def)
qed

lemma split_prefix_ok:
  assumes ok: "art_ok p (Inner h ch)" and key: "\<not> IS_SPECIAL_KEY key" "matches p key"
    and diff: "diff < partial_len h" "\<And>i. i < diff \<Longrightarrow> partial h ! i = key_byte key (length p + i)"
      "partial h ! diff \<noteq> key_byte key (length p + diff)"
  shows "art_ok p (split_prefix h ch key value (length p) diff)"
    "node_map (length p) (split_prefix h ch key value (length p) diff) =
      (node_map (length p) (Inner h ch))(key \<mapsto> value)"
proof -
  from ok have iok: "inner_ok (p @ prefix_of h) h ch" by (simp add: art_ok_inner)
  note D = inner_okD [OF iok]
  from D(1) have len: "length (partial h) = 8" "length (buffer h) = 3" "partial_len h \<le> 8"
    by (simp_all add: hdr_ok_def)
  define nh where "nh = zero_hdr\<lparr>partial_len := diff,
    partial := memcpy (min 8 diff) (partial h) (partial zero_hdr), buffer := buffer h\<rparr>"
  define oh where "oh = h\<lparr>buffer := replicate 3 empty_entry, partial_len := partial_len h - (diff + 1),
    partial := memmove 0 (diff + 1) (min 8 (partial_len h - (diff + 1))) (partial h)\<rparr>"
  define l2 where "l2 = make_leaf key value"
  let ?c = "partial h ! diff" and ?c2 = "key_byte key (length p + diff)"
  have e: "split_prefix h ch key value (length p) diff = node4_of_two nh ?c (Inner oh ch) ?c2 (Leaf l2)"
    using len(3) by (simp add: split_prefix_def Let_def nh_def oh_def l2_def)
  have nh: "hdr_ok nh" "num_children nh = 0" "buffer nh = buffer h"
    using len diff(1) by (simp_all add: nh_def zero_hdr_def hdr_ok_def)
  have oh: "hdr_ok oh" "num_children oh = num_children h" "buffer oh = replicate 3 empty_entry"
    using len diff(1) by (simp_all add: oh_def hdr_ok_def)
  have pn: "prefix_of nh = take diff (partial h)"
    using len diff(1) by (simp add: nh_def prefix_of_def zero_hdr_def memcpy_def)
  have po: "prefix_of oh = take (partial_len h - (diff + 1)) (drop (diff + 1) (partial h))"
    using len diff(1) by (simp add: oh_def prefix_of_def memmove_def)
  have full: "prefix_of h = prefix_of nh @ [?c] @ prefix_of oh"
  proof -
    have "take (partial_len h) (partial h) = take diff (partial h) @ take (partial_len h - diff) (drop diff (partial h))"
      using diff(1) by (metis le_add_diff_inverse less_imp_le take_add)
    also have "drop diff (partial h) = ?c # drop (diff + 1) (partial h)"
      using diff(1) len by (simp add: Cons_nth_drop_Suc)
    finally have "take (partial_len h) (partial h) = prefix_of nh @ [?c] @ prefix_of oh"
      using diff(1) unfolding pn po by (simp add: take_Cons' Suc_diff_Suc)
    then show ?thesis unfolding prefix_of_def [of h] .
  qed
  let ?q = "p @ prefix_of nh"
  have lq: "length ?q = length p + diff" using diff(1) len by (simp add: pn)
  have lt: "length ?q < 8" using D(1,3) diff(1) lq by simp
  have qq: "?q @ [?c] @ prefix_of oh = p @ prefix_of h" by (simp add: full)
  have mq: "matches ?q k" if "matches (p @ prefix_of h) k" for k
    using that matches_appendD [of ?q "[?c] @ prefix_of oh" k] by (simp add: full)
  have bq: "buf_ok ?q (buffer nh)" using D(4) mq unfolding buf_ok_def nh(3) by blast
  have cm: "child_map oh ch = child_map h ch" using oh(2) by (rule child_map_cong)
  have km: "kid_map d oh ch = kid_map d h ch" for d using cm by (rule kid_map_cong)
  note B = empty_buffer [OF oh(3)]
  have "inner_ok (p @ prefix_of h) oh ch"
    unfolding inner_ok_def using D oh B by (simp add: cm ch_ok_cong [OF oh(2)])
  then have n1: "art_ok (?q @ [?c]) (Inner oh ch)" unfolding art_ok_inner using qq by simp
  have m1: "node_map (length ?q + 1) (Inner oh ch) =
      (\<lambda>k. if matches (p @ prefix_of h) k then kid_map (length (p @ prefix_of h)) h ch k else None)"
    using node_map_inner [OF n1] qq by (simp add: fun_eq_iff inner_map_def B km)
  have kq: "matches ?q key" using diff(1,2) key(2) len lt lq by (simp add: matches_append pn)
  have n2: "art_ok (?q @ [?c2]) (Leaf l2)"
    using key(1) kq lq matches_snoc [OF lt, of ?c2 key] by (intro ok_leaf) (simp_all add: l2_def make_leaf_def)
  have m2: "node_map (length ?q + 1) (Leaf l2) = [key \<mapsto> value]"
    using node_map_leaf [OF n2] by (simp add: l2_def make_leaf_def)
  have nk: "\<not> matches (p @ prefix_of h) key"
  proof
    assume "matches (p @ prefix_of h) key"
    then have "matches (?q @ [?c]) key" using matches_appendD [of "?q @ [?c]" "prefix_of oh" key] qq by simp
    with matches_snoc [OF lt, of ?c key] lq diff(3) show False by simp
  qed
  have bm: "buf_map nh = buf_map h" by (rule buf_map_cong) (rule nh(3))
  have d1: "node_map (length ?q + 1) (Inner oh ch) k = None" if "buf_map nh k \<noteq> None" for k
    using D(6) [of k] that unfolding m1 bm by simp
  have d2: "node_map (length ?q + 1) (Leaf l2) k = None" if "buf_map nh k \<noteq> None" for k
    using that nk buf_map_matches [OF D(4), of k] unfolding m2 bm by auto
  note N = node4_of_two_ok [OF nh(1,2) refl lt bq diff(3) n1 n2 d1 d2]
  show "art_ok p (split_prefix h ch key value (length p) diff)" unfolding e by (rule N(1))
  have "node_map (length p) (Inner h ch) = buf_map h ++ node_map (length ?q + 1) (Inner oh ch)"
    using node_map_inner [OF ok] inner_map_split [OF iok] m1 by simp
  then show "node_map (length p) (split_prefix h ch key value (length p) diff) =
      (node_map (length p) (Inner h ch))(key \<mapsto> value)"
    unfolding e using N(2) m2 bm by simp
qed

section \<open>Insertion\<close>

text \<open>
  \<open>recursive_insert\<close> puts a memory-type key into the first node on its way with an empty buffer
  slot before it looks at that node's prefix. \<open>mem_safe\<close> says that the key matches the prefix of
  that node.
\<close>

function mem_safe :: "u64 \<Rightarrow> nat \<Rightarrow> art_node option \<Rightarrow> bool" where
  "mem_safe key depth None = True"
| "mem_safe key depth (Some (Leaf l)) = True"
| "mem_safe key depth (Some (Inner h ch)) =
    (let fits = (check_prefix h key KEY_LEN depth = min MAX_PREFIX_LEN (partial_len h)) in
     if buffer_slot h \<noteq> None then fits
     else fits \<longrightarrow>
       (case find_child h ch (key_byte key (depth + partial_len h)) of
          None \<Rightarrow> True
        | Some i \<Rightarrow> mem_safe key (depth + partial_len h + 1) (child_at ch i)))"
  by pat_completeness auto
termination
  by (relation "measure (\<lambda>(_, _, n). node_size n)") (simp_all add: node_size_def [of "Some _"] node_size_child)

text \<open>When \<open>recursive_insert\<close> adds or replaces as intended: it replaces a memory-type key wherever
  it is, and puts a new key in unless the buffer check comes too early.\<close>

definition insert_safe :: "bool \<Rightarrow> nat \<Rightarrow> u64 \<Rightarrow> nat \<Rightarrow> art_node \<Rightarrow> bool" where
  "insert_safe replace storage key depth n \<longleftrightarrow>
    replace \<and> storage = MEM_TYPE \<or>
    node_map depth n key = None \<and> (storage = MEM_TYPE \<longrightarrow> mem_safe key depth (Some n))"

text \<open>What the results of \<open>recursive_insert\<close> have to be.\<close>

definition inserted ::
  "u8 list \<Rightarrow> art_node \<Rightarrow> u64 \<Rightarrow> u64 \<Rightarrow> art_node option \<times> u64 option \<times> nat \<Rightarrow> bool" where
  "inserted p n key value r \<longleftrightarrow> (\<exists>m old flag. r = (Some m, old, flag) \<and> art_ok p m \<and>
    node_map (length p) m = (node_map (length p) n)(key \<mapsto> value) \<and>
    (if node_map (length p) n key = None then old = None \<and> flag \<in> {0, 1} else old = Some value \<and> flag = 2))"

lemma insertedI:
  assumes "art_ok p m" "node_map (length p) m = (node_map (length p) n)(key \<mapsto> value)"
    "if node_map (length p) n key = None then old = None \<and> flag \<in> {0, 1} else old = Some value \<and> flag = 2"
  shows "inserted p n key value (Some m, old, flag)"
  using assms by (auto simp: inserted_def)

lemma prefix_mismatch_check:
  "partial_len h \<le> 8 \<Longrightarrow> prefix_mismatch h ch key key_len depth = check_prefix h key key_len depth"
  by (simp add: prefix_mismatch_def check_prefix_def min.commute [of 8] Let_def)

lemma buffer_slotD: "buffer_slot h = Some i \<Longrightarrow> i < 3 \<and> entry_key (buffer h ! i) = 0"
  by (auto simp: buffer_slot_def bind_eq_Some_conv find_Some_iff)

lemma check_prefix_mismatch:
  assumes "hdr_ok h" "length p + partial_len h \<le> 8" "check_prefix h k 8 (length p) = d" "d < partial_len h"
  shows "\<And>i. i < d \<Longrightarrow> partial h ! i = key_byte k (length p + i)" "partial h ! d \<noteq> key_byte k (length p + d)"
proof -
  have m: "min (min (partial_len h) 8) (8 - length p) = partial_len h" using assms(1,2) by (simp add: hdr_ok_def)
  from assms(3,4) have "first_idx (partial_len h) (\<lambda>idx. partial h ! idx \<noteq> key_byte k (length p + idx)) = Some d"
    by (auto simp: check_prefix_def Let_def m split: option.splits)
  then show "\<And>i. i < d \<Longrightarrow> partial h ! i = key_byte k (length p + i)" "partial h ! d \<noteq> key_byte k (length p + d)"
    by (auto simp: first_idx_Some)
qed

lemma check_prefix_le: "check_prefix h k 8 d \<le> partial_len h"
  by (auto simp: check_prefix_def Let_def first_idx_Some split: option.split)

lemma insert_buffer_new:
  assumes ok: "art_ok p (Inner h ch)" and key: "\<not> IS_SPECIAL_KEY key" "matches (p @ prefix_of h) key"
    and fresh: "node_map (length p) (Inner h ch) key = None"
    and i: "i < 3" "entry_key (buffer h ! i) = 0"
  shows "inserted p (Inner h ch) key value
    (Some (Inner (set_buffer h i \<lparr>entry_key = key, entry_value = value\<rparr>) ch), None, 1)"
proof -
  let ?q = "p @ prefix_of h" and ?e = "\<lparr>entry_key = key, entry_value = value\<rparr>"
  let ?h = "set_buffer h i ?e"
  from ok have iok: "inner_ok ?q h ch" by (simp add: art_ok_inner)
  note D = inner_okD [OF iok]
  have im: "inner_map ?q h ch key = None" using fresh node_map_inner [OF ok] by simp
  then have b: "buf_map h key = None" and kd: "kid_map (length ?q) h ch key = None"
    using key(2) by (auto simp: inner_map_def split: option.splits)
  from b key(1) have "\<forall>j < 3. entry_key (buffer h ! j) \<noteq> key"
    by (auto simp: buf_map_def buffer_find_None)
  then have u: "\<forall>j < 3. entry_key (buffer h ! j) = entry_key ?e \<longrightarrow> j = i" by simp
  have e: "\<not> IS_SPECIAL_KEY (entry_key ?e)" "matches ?q (entry_key ?e)" "entry_key (buffer h ! i) \<in> {0, entry_key ?e}"
    using key i by simp_all
  have sm: "buf_map ?h = (buf_map h)(key \<mapsto> value)"
    using set_slot_map [OF D(4) D(1) i(1) e(1,2) u e(3)] by simp
  have so: "buf_ok ?q (buffer ?h)"
    using e u by (intro set_slot_ok [OF D(4) D(1) i(1)]) blast
  have "inner_ok ?q ?h ch"
    unfolding inner_ok_def using D so kd
    by (simp add: sm del: length_append)
  then have ok': "art_ok p (Inner ?h ch)" by (simp add: art_ok_inner)
  have "inner_map ?q ?h ch = (inner_map ?q h ch)(key \<mapsto> value)"
    by (auto simp: fun_eq_iff inner_map_def sm split: option.split)
  then have "node_map (length p) (Inner ?h ch) = (node_map (length p) (Inner h ch))(key \<mapsto> value)"
    using node_map_inner [OF ok'] node_map_inner [OF ok] by simp
  with ok' fresh show ?thesis by (intro insertedI) simp_all
qed

lemma insert_buffer_replace:
  assumes ok: "art_ok p (Inner h ch)" and key: "\<not> IS_SPECIAL_KEY key"
    and i: "buffer_find h key = Some i"
  shows "inserted p (Inner h ch) key value
    (Some (Inner (set_buffer_value h i value) ch), Some (entry_value (buffer (set_buffer_value h i value) ! i)), 2)"
proof -
  let ?q = "p @ prefix_of h" and ?e = "(buffer h ! i)\<lparr>entry_value := value\<rparr>"
  let ?h = "set_buffer_value h i value"
  from ok have iok: "inner_ok ?q h ch" by (simp add: art_ok_inner)
  note D = inner_okD [OF iok]
  from buffer_findD [OF i] have i3: "i < 3" and ik: "entry_key (buffer h ! i) = key" by simp_all
  have old: "buf_map h key \<noteq> None" using i key by (simp add: buf_map_def)
  have eq: "?h = set_buffer h i ?e" by (simp add: set_buffer_value_def)
  have u: "\<forall>j < 3. entry_key (buffer h ! j) = key \<longrightarrow> j = i"
    using D(4) i3 ik key not_special_nonzero [OF key] unfolding buf_ok_def by blast
  have mq: "matches ?q key" using buf_map_matches [OF D(4) old] .
  have ke: "entry_key ?e = key" "entry_value ?e = value" using ik by simp_all
  have e: "\<not> IS_SPECIAL_KEY (entry_key ?e)" "matches ?q (entry_key ?e)" "entry_key (buffer h ! i) \<in> {0, entry_key ?e}"
    unfolding ke(1) using key mq ik by simp_all
  have ue: "\<forall>j < 3. entry_key (buffer h ! j) = entry_key ?e \<longrightarrow> j = i" unfolding ke(1) by (rule u)
  have sm: "buf_map ?h = (buf_map h)(key \<mapsto> value)"
    using set_slot_map [OF D(4) D(1) i3 e(1,2) ue e(3)] unfolding eq ke .
  have so: "buf_ok ?q (buffer ?h)"
    unfolding eq using e ue by (intro set_slot_ok [OF D(4) D(1) i3]) blast
  have pre: "prefix_of ?h = prefix_of h" by (simp add: eq)
  have "inner_ok ?q ?h ch"
    unfolding inner_ok_def using D so old
    by (auto simp: sm [unfolded eq] eq simp del: length_append)
  then have ok': "art_ok p (Inner ?h ch)" by (simp add: art_ok_inner pre)
  have "inner_map ?q ?h ch = (inner_map ?q h ch)(key \<mapsto> value)"
    by (auto simp: fun_eq_iff inner_map_def sm [unfolded eq] eq split: option.split)
  then have "node_map (length p) (Inner ?h ch) = (node_map (length p) (Inner h ch))(key \<mapsto> value)"
    using node_map_inner [OF ok'] node_map_inner [OF ok] pre by simp
  moreover have "node_map (length p) (Inner h ch) key \<noteq> None"
    using node_map_inner [OF ok] old by (auto simp: inner_map_def)
  moreover have "entry_value (buffer ?h ! i) = value"
    using D(1) i3 by (simp add: eq hdr_ok_def)
  ultimately show ?thesis using ok' by (intro insertedI) simp_all
qed

lemma insert_new_child:
  assumes ok: "art_ok p (Inner h ch)" and key: "\<not> IS_SPECIAL_KEY key" "matches (p @ prefix_of h) key"
    and b: "buf_map h key = None" and d: "d = length p + partial_len h"
    and c: "find_child h ch (key_byte key d) = None"
    and eq: "add_child h ch (key_byte key d) (Leaf (make_leaf key value)) = (h', ch')"
  shows "inserted p (Inner h ch) key value (Some (Inner h' ch'), None, 0)"
proof -
  let ?q = "p @ prefix_of h" and ?x = "Leaf (make_leaf key value)"
  from ok have iok: "inner_ok ?q h ch" by (simp add: art_ok_inner)
  note D = inner_okD [OF iok]
  have d': "d = length ?q" using d D(1) by simp
  have cn: "child_map h ch (key_byte key d) = None" using c find_child_iff [OF D(2)] by simp
  have x: "art_ok (?q @ [key_byte key d]) ?x"
    using key D(3) d' matches_snoc [OF D(3), of "key_byte key d" key]
    by (intro ok_leaf) (simp_all add: make_leaf_def)
  have m: "node_map (length ?q + 1) ?x = [key \<mapsto> value]" using node_map_leaf [OF x] by (simp add: make_leaf_def)
  have disj: "node_map (length ?q + 1) ?x k = None" if "buf_map h k \<noteq> None" for k
    using that b unfolding m by auto
  note I = inner_add [OF iok eq cn x disj]
  have pre: "prefix_of h' = prefix_of h" using I(2) by (simp add: hdr_sim_def)
  have ok': "art_ok p (Inner h' ch')" using I(1) by (simp add: art_ok_inner pre)
  have old: "node_map (length p) (Inner h ch) key = None"
    using node_map_inner [OF ok] b cn d' by (simp add: inner_map_def kid_map_def)
  have "node_map (length p) (Inner h' ch') = (node_map (length p) (Inner h ch))(key \<mapsto> value)"
    using node_map_inner [OF ok'] node_map_inner [OF ok] I(3) unfolding m pre by simp
  with ok' old show ?thesis by (intro insertedI) simp_all
qed

text \<open>Replacing the child on the way of a key by one whose map differs at that key only.\<close>

lemma child_upd:
  assumes ok: "art_ok p (Inner h ch)" and c: "find_child h ch c = Some i" "child_at ch i = Some n"
    and m: "art_ok (p @ prefix_of h @ [c]) m"
      "node_map (length p + partial_len h + 1) m = (node_map (length p + partial_len h + 1) n)(k := x)"
    and k: "matches (p @ prefix_of h @ [c]) k" "buf_map h k = None"
  shows "art_ok p (Inner h (set_child ch i (Some m)))"
    "node_map (length p) (Inner h (set_child ch i (Some m))) = (node_map (length p) (Inner h ch))(k := x)"
    "node_map (length p) (Inner h ch) k = node_map (length p + partial_len h + 1) n k"
proof -
  let ?q = "p @ prefix_of h"
  from ok have iok: "inner_ok ?q h ch" by (simp add: art_ok_inner)
  note D = inner_okD [OF iok]
  have len: "length p + partial_len h = length ?q" using D(1) by simp
  have cm: "child_map h ch c = Some n" using find_child_at [OF D(2) c(1)] c(2) by simp
  have n: "node_map (length ?q + 1) n k' = None" if "buf_map h k' \<noteq> None" for k'
  proof (cases "key_byte k' (length ?q) = c")
    case True
    then show ?thesis using D(6) [OF that] cm by (simp add: kid_map_def)
  next
    case False
    then show ?thesis using node_map_snoc [OF D(5) [OF cm] _ D(3), of k'] by blast
  qed
  have m': "art_ok (?q @ [c]) m" "node_map (length ?q + 1) m = (node_map (length ?q + 1) n)(k := x)"
    using m by (simp_all only: len append_assoc)
  have disj: "node_map (length ?q + 1) m k' = None" if "buf_map h k' \<noteq> None" for k'
    using n [OF that] that k(2) unfolding m'(2) by auto
  note I = inner_set [OF iok c(1) m'(1) disj]
  show ok': "art_ok p (Inner h (set_child ch i (Some m)))" using I(1) by (simp add: art_ok_inner)
  have im: "inner_map ?q h ch k' = node_map (length ?q + 1) n k'" if "matches (?q @ [c]) k'" "buf_map h k' = None" for k'
    using that cm matches_snoc [OF D(3), of c k'] by (simp add: inner_map_def kid_map_def)
  have mk: "matches (?q @ [c]) k" using k(1) by simp
  have "inner_map ?q h (set_child ch i (Some m)) = (inner_map ?q h ch)(k := x)"
  proof (rule ext)
    fix k'
    have e: "inner_map ?q h (set_child ch i (Some m)) k' =
        (if matches (?q @ [c]) k' \<and> buf_map h k' = None then node_map (length ?q + 1) m k' else inner_map ?q h ch k')"
      by (rule fun_cong [OF I(2)])
    show "inner_map ?q h (set_child ch i (Some m)) k' = ((inner_map ?q h ch)(k := x)) k'"
    proof (cases "matches (?q @ [c]) k' \<and> buf_map h k' = None")
      case True
      then show ?thesis using im [of k'] unfolding e m'(2) by simp
    next
      case False
      then have "k' \<noteq> k" using mk k(2) by blast
      with False show ?thesis unfolding e by (simp only: if_False fun_upd_apply)
    qed
  qed
  then show "node_map (length p) (Inner h (set_child ch i (Some m))) = (node_map (length p) (Inner h ch))(k := x)"
    using node_map_inner [OF ok'] node_map_inner [OF ok] by simp
  show "node_map (length p) (Inner h ch) k = node_map (length p + partial_len h + 1) n k"
    using node_map_inner [OF ok] im [OF mk k(2)] by (simp only: len)
qed

lemma insert_old_child:
  assumes ok: "art_ok p (Inner h ch)" and key: "\<not> IS_SPECIAL_KEY key" "matches (p @ prefix_of h) key"
    and b: "buf_map h key = None" and d: "d = length p + partial_len h"
    and c: "find_child h ch (key_byte key d) = Some i" "child_at ch i = Some n"
    and r: "inserted (p @ prefix_of h @ [key_byte key d]) n key value (n', old, flag)"
  shows "inserted p (Inner h ch) key value (Some (Inner h (set_child ch i n')), old, flag)"
proof -
  have len: "length (p @ prefix_of h) = d" "d < 8"
    using ok d by (auto simp: art_ok_inner inner_ok_def)
  from r obtain m where m: "n' = Some m" "art_ok (p @ prefix_of h @ [key_byte key d]) m"
      "node_map (length p + partial_len h + 1) m = (node_map (length p + partial_len h + 1) n)(key \<mapsto> value)"
      "if node_map (length p + partial_len h + 1) n key = None then old = None \<and> flag \<in> {0, 1} else old = Some value \<and> flag = 2"
    using len d by (auto simp: inserted_def)
  have mk: "matches (p @ prefix_of h @ [key_byte key d]) key"
    using matches_snoc [of "p @ prefix_of h" "key_byte key d" key] key(2) len by simp
  note U = child_upd [OF ok c m(2,3) mk b]
  show ?thesis unfolding m(1) using U m(4) by (intro insertedI) simp_all
qed

lemma recursive_insert_ok:
  assumes "art_ok p n" "matches p key" "\<not> IS_SPECIAL_KEY key" "st < 8"
    and "insert_safe replace st key (length p) n"
  shows "inserted p n key value (recursive_insert (Some n) key (8 + st) value (length p) replace)"
  using assms
proof (induction p n rule: art_ok.induct)
  case (ok_leaf e p)
  then have ok: "art_ok p (Leaf e)" by (intro art_ok.ok_leaf)
  have m: "node_map (length p) (Leaf e) = [entry_key e \<mapsto> entry_value e]" by (rule node_map_leaf [OF ok])
  have len: "(8 + st) div 8 * 8 = 8" using \<open>st < 8\<close> by simp
  show ?case
  proof (cases "entry_key e = key")
    case True
    then have r: replace using ok_leaf by (simp add: insert_safe_def m)
    have lm: "leaf_matches e key 8 (length p) = 0" using True by (simp add: leaf_matches_def memcmp_eq_0)
    let ?e = "e\<lparr>entry_value := value\<rparr>"
    have ok': "art_ok p (Leaf ?e)" using ok_leaf by (intro art_ok.ok_leaf) simp_all
    show ?thesis
      unfolding recursive_insert.simps len using True ok' node_map_leaf [OF ok', of "length p"] r lm
      by (auto intro!: insertedI simp: m)
  next
    case False
    then have "leaf_matches e key 8 (length p) \<noteq> 0"
      by (simp add: leaf_matches_def memcmp_eq_0 key_bytes_inject)
    then show ?thesis
      unfolding recursive_insert.simps len using split_leaf_ok [OF ok _ _ False] False ok_leaf.prems
      by (auto intro!: insertedI simp: m)
  qed
next
  case (ok_inner h ch p)
  then have ok: "art_ok p (Inner h ch)" by (intro art_ok.ok_inner)
  let ?q = "p @ prefix_of h" and ?d = "length p + partial_len h"
  from ok have iok: "inner_ok ?q h ch" by (simp add: art_ok_inner)
  note D = inner_okD [OF iok]
  note key = \<open>\<not> IS_SPECIAL_KEY key\<close>
  have pl: "partial_len h \<le> 8" using D(1) by (simp add: hdr_ok_def)
  have lq: "length p + partial_len h < 8" "length ?q = ?d" using D(1,3) by simp_all
  have len: "(8 + st) div 8 * 8 = 8" "(8 + st) mod 8 = st" using \<open>st < 8\<close> by simp_all
  have cp: "check_prefix h key 8 (length p) = min 8 (partial_len h) \<longleftrightarrow> matches ?q key"
    using D lq ok_inner.prems by (intro check_prefix_iff) simp_all
  define descend where "descend = (\<lambda>depth. case find_child h ch (key_byte key depth) of
      Some i \<Rightarrow> let (n', old_val, old) = recursive_insert (child_at ch i) key (8 + st) value (depth + 1) replace
                in (Some (Inner h (set_child ch i n')), old_val, old)
    | None \<Rightarrow> let (h', ch') = add_child h ch (key_byte key depth) (Leaf (make_leaf key value))
              in (Some (Inner h' ch'), None, 0 :: nat))"
  define below where "below = (if partial_len h \<noteq> 0 then
      if prefix_mismatch h ch key 8 (length p) \<ge> partial_len h then descend ?d
      else (Some (split_prefix h ch key value (length p) (prefix_mismatch h ch key 8 (length p))), None, 0)
    else descend (length p))"
  have unf: "recursive_insert (Some (Inner h ch)) key (8 + st) value (length p) replace =
    (if st = 1 then
       (case buffer_find h key of
          Some i \<Rightarrow> (let h' = (if replace then set_buffer_value h i value else h)
            in (Some (Inner h' ch), Some (entry_value (buffer h' ! i)), 2))
        | None \<Rightarrow> (case (if replace then None else buffer_slot h) of
            Some i \<Rightarrow> (Some (Inner (set_buffer h i \<lparr>entry_key = key, entry_value = value\<rparr>) ch), None, 1)
          | None \<Rightarrow> below))
     else below)"
    unfolding recursive_insert.simps(3) len Let_def below_def descend_def by (simp only: if_cancel)
  have fresh: "node_map (length p) (Inner h ch) key = None" if "\<not> (replace \<and> st = 1)"
    using ok_inner.prems that by (auto simp: insert_safe_def)
  have descend: "inserted p (Inner h ch) key value (descend ?d)" if mq: "matches ?q key" and b: "buf_map h key = None"
      and safe: "st = 1 \<longrightarrow> replace \<or> buffer_slot h = None"
  proof (cases "find_child h ch (key_byte key ?d)")
    case None
    obtain h' ch' where a: "add_child h ch (key_byte key ?d) (Leaf (make_leaf key value)) = (h', ch')"
      by (rule prod.exhaust)
    then show ?thesis using insert_new_child [OF ok key mq b refl None a] None by (simp add: descend_def)
  next
    case (Some i)
    then obtain n where n: "child_at ch i = Some n" using find_child_at [OF D(2) Some] by auto
    then have cm: "child_map h ch (key_byte key ?d) = Some n" using find_child_at [OF D(2) Some] by simp
    let ?p = "p @ prefix_of h @ [key_byte key ?d]"
    have mp: "matches ?p key" using matches_snoc [OF D(3), of "key_byte key ?d" key] mq lq by simp
    have lp: "length ?p = ?d + 1" using lq by simp
    have nm: "node_map (?d + 1) n key = node_map (length p) (Inner h ch) key"
      using node_map_inner [OF ok] b mq cm lq by (simp add: inner_map_def kid_map_def)
    have "insert_safe replace st key (length ?p) n"
      using ok_inner.prems(4) safe Some n nm cp mq unfolding insert_safe_def lp by (auto simp: Let_def)
    from ok_inner.IH [OF cm mp key \<open>st < 8\<close> this]
    have r: "inserted ?p n key value (recursive_insert (child_at ch i) key (8 + st) value (?d + 1) replace)"
      unfolding n lp .
    obtain n' old flag where e: "recursive_insert (child_at ch i) key (8 + st) value (?d + 1) replace = (n', old, flag)"
      by (rule prod_cases3)
    show ?thesis using insert_old_child [OF ok key mq b refl Some n r [unfolded e]] Some e
      by (simp add: descend_def)
  qed
  have bel: "inserted p (Inner h ch) key value below" if b: "buf_map h key = None"
      and safe: "st = 1 \<longrightarrow> replace \<or> buffer_slot h = None"
  proof (cases "matches ?q key")
    case True
    with cp pl have "prefix_mismatch h ch key 8 (length p) = partial_len h" by (simp add: prefix_mismatch_check)
    then have "below = descend ?d" by (simp add: below_def)
    with descend [OF True b safe] show ?thesis by simp
  next
    case False
    let ?diff = "check_prefix h key 8 (length p)"
    have lt: "?diff < partial_len h" using False cp pl check_prefix_le [of h key "length p"] by simp
    then have e: "below = (Some (split_prefix h ch key value (length p) ?diff), None, 0)"
      using pl by (simp add: below_def prefix_mismatch_check)
    note M = check_prefix_mismatch [OF D(1) _ refl lt]
    have "node_map (length p) (Inner h ch) key = None"
      using node_map_inner [OF ok] b False by (simp add: inner_map_def)
    then show ?thesis unfolding e using lq(1) ok_inner.prems key
      by (intro insertedI split_prefix_ok ok M) (simp_all add: lt)
  qed
  show ?case
  proof (cases "buffer_find h key")
    case (Some i)
    have "buf_map h key \<noteq> None" using Some key by (simp add: buf_map_def)
    then have "node_map (length p) (Inner h ch) key \<noteq> None" using node_map_inner [OF ok] by (auto simp: inner_map_def)
    with fresh have "replace" "st = 1" by blast+
    then show ?thesis unfolding unf using insert_buffer_replace [OF ok key Some] Some by (simp add: Let_def)
  next
    case None
    then have b: "buf_map h key = None" by (simp add: buf_map_def)
    show ?thesis
    proof (cases "st = 1 \<and> \<not> replace \<and> buffer_slot h \<noteq> None")
      case True
      then obtain i where i: "buffer_slot h = Some i" by blast
      have "matches ?q key" using ok_inner.prems(4) True cp by (auto simp: insert_safe_def Let_def)
      with True i None fresh show ?thesis
        unfolding unf using insert_buffer_new [OF ok key] buffer_slotD [OF i] by simp
    next
      case False
      then have "recursive_insert (Some (Inner h ch)) key (8 + st) value (length p) replace = below"
        unfolding unf using None by auto
      with bel [OF b] False show ?thesis by auto
    qed
  qed
qed

section \<open>Deletion\<close>

text \<open>
  \<open>remove_child4\<close> moves buffer entries into the freed places of a \<open>Node4\<close> without looking
  whether their byte is taken: it works when the buffered keys have distinct bytes there that no
  remaining child has. \<open>del_safe\<close> says so for the node that loses a leaf.
\<close>

definition flush_safe :: "art_hdr \<Rightarrow> art_node children \<Rightarrow> u8 \<Rightarrow> nat \<Rightarrow> bool" where
  "flush_safe h ch c depth \<longleftrightarrow> (\<forall>i \<in> set [0..<3]. \<not> IS_SPECIAL_KEY (entry_key (buffer h ! i)) \<longrightarrow>
    (key_byte (entry_key (buffer h ! i)) depth = c \<or>
      child_map h ch (key_byte (entry_key (buffer h ! i)) depth) = None) \<and>
    (\<forall>j \<in> set [0..<3]. \<not> IS_SPECIAL_KEY (entry_key (buffer h ! j)) \<longrightarrow> j \<noteq> i \<longrightarrow>
      key_byte (entry_key (buffer h ! j)) depth \<noteq> key_byte (entry_key (buffer h ! i)) depth))"

function del_safe :: "u64 \<Rightarrow> nat \<Rightarrow> art_node option \<Rightarrow> bool" where
  "del_safe key depth None = True"
| "del_safe key depth (Some (Leaf l)) = True"
| "del_safe key depth (Some (Inner h ch)) =
    (check_prefix h key KEY_LEN depth = min MAX_PREFIX_LEN (partial_len h) \<longrightarrow> buffer_find h key = None \<longrightarrow>
      (let d = depth + partial_len h; c = key_byte key d in
       case find_child h ch c of
         None \<Rightarrow> True
       | Some i \<Rightarrow>
          (case child_at ch i of
             Some (Leaf l) \<Rightarrow> node_type_of ch = NODE4 \<longrightarrow> entry_key l = key \<longrightarrow> flush_safe h ch c d
           | _ \<Rightarrow> del_safe key (d + 1) (child_at ch i))))"
  by pat_completeness auto
termination
  by (relation "measure (\<lambda>(_, _, n). node_size n)") (auto simp: node_size_def dest: size_child_at)

definition opt_ok :: "u8 list \<Rightarrow> art_node option \<Rightarrow> bool" where
  "opt_ok p n = (case n of None \<Rightarrow> True | Some n \<Rightarrow> art_ok p n)"

definition opt_map :: "nat \<Rightarrow> art_node option \<Rightarrow> u64 \<Rightarrow> u64 option" where
  "opt_map d n = (case n of None \<Rightarrow> Map.empty | Some n \<Rightarrow> node_map d n)"

lemma opt_simps [simp]:
  "opt_ok p None" "opt_ok p (Some n) = art_ok p n" "opt_map d None = Map.empty" "opt_map d (Some n) = node_map d n"
  by (simp_all add: opt_ok_def opt_map_def)

definition deleted ::
  "u8 list \<Rightarrow> art_node \<Rightarrow> u64 \<Rightarrow> art_node option \<times> (u64 \<times> nat) option \<Rightarrow> bool" where
  "deleted p n key r \<longleftrightarrow> opt_ok p (fst r) \<and> opt_map (length p) (fst r) = (node_map (length p) n)(key := None) \<and>
    map_option fst (snd r) = node_map (length p) n key"

text \<open>The same on an inner node that may be replaced.\<close>

definition shrunk :: "u8 list \<Rightarrow> art_hdr \<Rightarrow> art_node children \<Rightarrow> u64 \<Rightarrow> art_node \<Rightarrow> bool" where
  "shrunk p h ch key m \<longleftrightarrow> art_ok p m \<and>
    node_map (length p) m = (inner_map (p @ prefix_of h) h ch)(key := None)"

lemma shrunkI:
  assumes "inner_ok q h' ch'" "q = p @ prefix_of h" "prefix_of h' = prefix_of h"
    "inner_map q h' ch' = (inner_map q h ch)(key := None)"
  shows "shrunk p h ch key (Inner h' ch')"
proof -
  have "art_ok p (Inner h' ch')" using assms by (simp add: art_ok_inner)
  with node_map_inner [OF this] assms show ?thesis by (simp add: shrunk_def)
qed

lemma inner_clear:
  assumes iok: "inner_ok q h ch" and i: "i < 3" and k: "entry_key (buffer h ! i) = key" "\<not> IS_SPECIAL_KEY key"
  shows "inner_ok q (set_buffer_key h i 0) ch" "inner_map q (set_buffer_key h i 0) ch = (inner_map q h ch)(key := None)"
proof -
  note D = inner_okD [OF iok]
  let ?h = "set_buffer_key h i 0"
  note C = clear_slot_map [OF D(4) D(1) i k(1) not_special_nonzero [OF k(2)]]
  have kid: "kid_map d ?h ch = kid_map d h ch" "child_map ?h ch = child_map h ch" for d
    by (simp_all add: set_buffer_key_def)
  have "hdr_ok ?h" "ch_ok ?h ch" using D by (simp_all add: set_buffer_key_def)
  moreover have "\<And>k. buf_map ?h k \<noteq> None \<Longrightarrow> kid_map (length q) h ch k = None"
    using D(6) unfolding C(1) by (metis fun_upd_apply)
  ultimately show "inner_ok q ?h ch" unfolding inner_ok_def kid using D C(2) by blast
  have "buf_map h key \<noteq> None" using buf_map_Some_iff [OF D(4), of key] i k by auto
  then have "kid_map (length q) h ch key = None" by (rule D(6))
  then show "inner_map q ?h ch = (inner_map q h ch)(key := None)"
    by (auto simp: fun_eq_iff inner_map_def C(1) kid(1) split: option.split)
qed

lemma inner_del:
  assumes iok: "inner_ok q h ch" and c: "child_map h ch c = Some (Leaf l)" and r: "removed h (child_map h ch) c (h', ch')"
    and b: "buf_map h (entry_key l) = None"
  shows "inner_ok q h' ch'" "inner_map q h' ch' = (inner_map q h ch)(entry_key l := None)"
    "prefix_of h' = prefix_of h" "buffer h' = buffer h"
proof -
  note D = inner_okD [OF iok]
  from r have s: "hdr_sim h h'" "ch_ok h' ch'" "child_map h' ch' = (child_map h ch)(c := None)" by simp_all
  have h': "hdr_ok h'" using hdr_sim_ok [OF D(1) s(1)] .
  show "prefix_of h' = prefix_of h" and bu: "buffer h' = buffer h" using s(1) by (simp_all add: hdr_sim_def)
  then have bm: "buf_map h' = buf_map h" by (intro buf_map_cong)
  have l: "art_ok (q @ [c]) (Leaf l)" by (rule D(5) [OF c])
  then have lm: "matches (q @ [c]) (entry_key l)" by (auto elim: ok_leafE)
  have lq: "matches q (entry_key l)" "key_byte (entry_key l) (length q) = c" using lm D(3) by (simp_all add: matches_snoc)
  have kid: "kid_map (length q) h' ch' k = (if k = entry_key l then None else kid_map (length q) h ch k)" for k
    using c lq(2) node_map_leaf [OF l, of "length q + 1"] by (auto simp: kid_map_def s(3))
  show "inner_ok q h' ch'"
    unfolding inner_ok_def using D h' s(2) by (auto simp: bm bu kid s(3) split: if_splits)
  show "inner_map q h' ch' = (inner_map q h ch)(entry_key l := None)"
    using b lq(1) by (auto simp: fun_eq_iff inner_map_def bm kid split: option.split)
qed

text \<open>The bytes of the buffered keys from slot \<open>i\<close> on are free and distinct.\<close>

definition pending :: "nat \<Rightarrow> nat \<Rightarrow> art_hdr \<Rightarrow> art_node children \<Rightarrow> bool" where
  "pending d i h ch \<longleftrightarrow> (\<forall>j. i \<le> j \<longrightarrow> j < 3 \<longrightarrow> \<not> IS_SPECIAL_KEY (entry_key (buffer h ! j)) \<longrightarrow>
    child_map h ch (key_byte (entry_key (buffer h ! j)) d) = None \<and>
    (\<forall>j'. i \<le> j' \<longrightarrow> j' < 3 \<longrightarrow> \<not> IS_SPECIAL_KEY (entry_key (buffer h ! j')) \<longrightarrow> j' \<noteq> j \<longrightarrow>
      key_byte (entry_key (buffer h ! j')) d \<noteq> key_byte (entry_key (buffer h ! j)) d))"

lemma pendingD:
  assumes "pending d i h ch" "i \<le> j" "j < 3" "\<not> IS_SPECIAL_KEY (entry_key (buffer h ! j))"
  shows "child_map h ch (key_byte (entry_key (buffer h ! j)) d) = None"
    "\<And>j'. i \<le> j' \<Longrightarrow> j' < 3 \<Longrightarrow> \<not> IS_SPECIAL_KEY (entry_key (buffer h ! j')) \<Longrightarrow> j' \<noteq> j \<Longrightarrow>
      key_byte (entry_key (buffer h ! j')) d \<noteq> key_byte (entry_key (buffer h ! j)) d"
  using assms unfolding pending_def by blast+

definition is_node4 :: "'n children \<Rightarrow> bool" where
  "is_node4 ch \<longleftrightarrow> node_type_of ch = NODE4"

lemma is_node4_iff: "is_node4 ch \<longleftrightarrow> (\<exists>ks cs. ch = Node4 ks cs)"
  by (cases ch) (simp_all add: is_node4_def)

lemma add_child4_clear:
  assumes "add_child h ch c x = (h', ch')" "is_node4 ch" "nch h < 4"
  shows "add_child (set_buffer_key h i 0) ch c x = (set_buffer_key h' i 0, ch') \<and> is_node4 ch' \<and> buffer h' = buffer h"
  using assms
  by (auto simp: is_node4_iff add_child4_def insert_pos4_def set_buffer_key_def set_buffer_def Let_def
      cong: option.case_cong)

lemma flush_step_ok:
  assumes iok: "inner_ok q h ch" and n4: "is_node4 ch" and pend: "pending (length q) i h ch" and i: "i < 3"
    and eq: "flush_step (length q) i (h, ch, cnt) = (h', ch', cnt')"
  shows "inner_ok q h' ch' \<and> is_node4 ch' \<and> pending (length q) (Suc i) h' ch' \<and> prefix_of h' = prefix_of h \<and>
    inner_map q h' ch' = inner_map q h ch \<and>
    (cnt' = cnt + 1 \<or> cnt' = cnt \<and> h' = h \<and> ch' = ch \<and> (nch h < 4 \<longrightarrow> IS_SPECIAL_KEY (entry_key (buffer h ! i))))"
proof (cases "nch h < 4 \<and> \<not> IS_SPECIAL_KEY (entry_key (buffer h ! i))")
  case False
  then have "h' = h" "ch' = ch" "cnt' = cnt" using eq by (auto simp: flush_step_def Let_def)
  moreover have "pending (length q) (Suc i) h ch" using pend unfolding pending_def by (meson Suc_leD)
  ultimately show ?thesis using iok n4 False by auto
next
  case True
  note D = inner_okD [OF iok]
  let ?e = "buffer h ! i"
  let ?x = "Leaf (make_leaf (entry_key ?e) (entry_value ?e))" and ?c = "key_byte (entry_key ?e) (length q)"
  obtain h1 where a: "add_child h ch ?c ?x = (h1, ch')" and h': "h' = set_buffer_key h1 i 0" and cnt: "cnt' = cnt + 1"
    using eq True by (auto simp: flush_step_def Let_def split: prod.splits)
  have A: "add_child (set_buffer_key h i 0) ch ?c ?x = (set_buffer_key h1 i 0, ch')" "is_node4 ch'"
      "buffer h1 = buffer h"
    using add_child4_clear [OF a n4, of i] True by simp_all
  have k: "\<not> IS_SPECIAL_KEY (entry_key ?e)" using True by blast
  have mq: "matches q (entry_key ?e)" using D(4) i k unfolding buf_ok_def by simp
  note C = inner_clear [OF iok i refl k]
  have cn: "child_map (set_buffer_key h i 0) ch ?c = None"
    using pendingD(1) [OF pend le_refl i k] by (simp add: set_buffer_key_def)
  have x: "art_ok (q @ [?c]) ?x"
    using k mq matches_snoc [OF D(3), of ?c "entry_key ?e"] by (intro ok_leaf) (simp_all add: make_leaf_def)
  have m: "node_map (length q + 1) ?x = [entry_key ?e \<mapsto> entry_value ?e]"
    using node_map_leaf [OF x] by (simp add: make_leaf_def)
  have bk: "buf_map (set_buffer_key h i 0) = (buf_map h)(entry_key ?e := None)"
    using clear_slot_map(1) [OF D(4) D(1) i refl not_special_nonzero [OF k]] .
  have disj: "node_map (length q + 1) ?x k = None" if "buf_map (set_buffer_key h i 0) k \<noteq> None" for k
    using that unfolding m bk by auto
  have a': "add_child (set_buffer_key h i 0) ch ?c ?x = (h', ch')" using A(1) True h' by simp
  note I = inner_add [OF C(1) a' cn x disj]
  have old: "inner_map q h ch (entry_key ?e) = Some (entry_value ?e)"
    using buf_map_Some_iff [OF D(4), of "entry_key ?e" "entry_value ?e"] k i by (auto simp: inner_map_def)
  have "inner_map q h' ch' = inner_map q (set_buffer_key h i 0) ch ++ node_map (length q + 1) ?x"
    by (rule I(3))
  then have im: "inner_map q h' ch' = inner_map q h ch" using old unfolding C(2) m by (auto simp: fun_eq_iff)
  have bu: "buffer h' ! j = buffer h ! j" if "j \<noteq> i" for j
    using A(3) True that by (simp add: h' set_buffer_key_def)
  have cm: "child_map h' ch' b = (if b = ?c then Some ?x else child_map h ch b)" for b
  proof -
    have "child_map h' ch' = (child_map (set_buffer_key h i 0) ch)(?c \<mapsto> ?x)" by (rule I(4))
    then show ?thesis by (simp add: set_buffer_key_def)
  qed
  have "pending (length q) (Suc i) h' ch'"
    unfolding pending_def
  proof (intro allI impI)
    fix j assume j: "Suc i \<le> j" "j < 3" "\<not> IS_SPECIAL_KEY (entry_key (buffer h' ! j))"
    then have ji: "j \<noteq> i" "i \<le> j" and kj: "\<not> IS_SPECIAL_KEY (entry_key (buffer h ! j))" using bu by simp_all
    note P = pendingD [OF pend ji(2) j(2) kj]
    have "key_byte (entry_key (buffer h ! j)) (length q) \<noteq> ?c"
      using P(2) [OF le_refl i k] ji(1) by metis
    with P bu ji(1) show "child_map h' ch' (key_byte (entry_key (buffer h' ! j)) (length q)) = None \<and>
      (\<forall>j'. Suc i \<le> j' \<longrightarrow> j' < 3 \<longrightarrow> \<not> IS_SPECIAL_KEY (entry_key (buffer h' ! j')) \<longrightarrow> j' \<noteq> j \<longrightarrow>
        key_byte (entry_key (buffer h' ! j')) (length q) \<noteq> key_byte (entry_key (buffer h' ! j)) (length q))"
      by (auto simp: cm)
  qed
  moreover have "prefix_of h' = prefix_of h"
    using I(2) by (simp add: hdr_sim_def set_buffer_key_def)
  ultimately show ?thesis using I(1) A(2) True im cnt by simp
qed

lemma flush_buffer_ok:
  assumes iok: "inner_ok q h ch" and n4: "is_node4 ch" and pend: "pending (length q) 0 h ch"
    and eq: "flush_buffer (length q) h ch = (h', ch', cnt)"
  shows "inner_ok q h' ch'" "prefix_of h' = prefix_of h" "inner_map q h' ch' = inner_map q h ch"
    "cnt = 0 \<Longrightarrow> h' = h \<and> ch' = ch \<and> (nch h < 4 \<longrightarrow> (\<forall>i < 3. IS_SPECIAL_KEY (entry_key (buffer h ! i))))"
proof -
  obtain h1 ch1 c1 where 1: "flush_step (length q) 0 (h, ch, 0) = (h1, ch1, c1)" by (rule prod_cases3)
  obtain h2 ch2 c2 where 2: "flush_step (length q) 1 (h1, ch1, c1) = (h2, ch2, c2)" by (rule prod_cases3)
  obtain h3 ch3 c3 where 3: "flush_step (length q) 2 (h2, ch2, c2) = (h3, ch3, c3)" by (rule prod_cases3)
  have "[0..<3] = [0, 1, 2 :: nat]" by (simp add: eval_nat_numeral)
  then have e: "h' = h3" "ch' = ch3" "cnt = c3" using eq 1 2 3 by (simp_all add: flush_buffer_def)
  have s1: "inner_ok q h1 ch1 \<and> is_node4 ch1 \<and> pending (length q) 1 h1 ch1 \<and> prefix_of h1 = prefix_of h \<and>
    inner_map q h1 ch1 = inner_map q h ch \<and>
    (c1 = 1 \<or> c1 = 0 \<and> h1 = h \<and> ch1 = ch \<and> (nch h < 4 \<longrightarrow> IS_SPECIAL_KEY (entry_key (buffer h ! 0))))"
    using flush_step_ok [OF iok n4 pend _ 1] by simp
  then have s2: "inner_ok q h2 ch2 \<and> is_node4 ch2 \<and> pending (length q) 2 h2 ch2 \<and> prefix_of h2 = prefix_of h1 \<and>
    inner_map q h2 ch2 = inner_map q h1 ch1 \<and>
    (c2 = c1 + 1 \<or> c2 = c1 \<and> h2 = h1 \<and> ch2 = ch1 \<and> (nch h1 < 4 \<longrightarrow> IS_SPECIAL_KEY (entry_key (buffer h1 ! 1))))"
    using flush_step_ok [OF _ _ _ _ 2] by (simp add: numeral_2_eq_2)
  then have s3: "inner_ok q h3 ch3 \<and> prefix_of h3 = prefix_of h2 \<and>
    inner_map q h3 ch3 = inner_map q h2 ch2 \<and>
    (c3 = c2 + 1 \<or> c3 = c2 \<and> h3 = h2 \<and> ch3 = ch2 \<and> (nch h2 < 4 \<longrightarrow> IS_SPECIAL_KEY (entry_key (buffer h2 ! 2))))"
    using flush_step_ok [OF _ _ _ _ 3] by simp
  show "inner_ok q h' ch'" "prefix_of h' = prefix_of h" "inner_map q h' ch' = inner_map q h ch"
    using s1 s2 s3 unfolding e by simp_all
  assume "cnt = 0"
  then have z: "c3 = 0" "c2 = 0" "c1 = 0" using s1 s2 s3 unfolding e by linarith+
  then have "h1 = h" "h2 = h" "h3 = h" "ch1 = ch" "ch2 = ch" "ch3 = ch" using s1 s2 s3 by simp_all
  moreover from this z have "nch h < 4 \<longrightarrow> (\<forall>i \<in> {0, 1, 2}. IS_SPECIAL_KEY (entry_key (buffer h ! i)))"
    using s1 s2 s3 by simp
  moreover have "i \<in> {0, 1, 2}" if "i < 3" for i :: nat using that by auto
  ultimately show "h' = h \<and> ch' = ch \<and> (nch h < 4 \<longrightarrow> (\<forall>i < 3. IS_SPECIAL_KEY (entry_key (buffer h ! i))))"
    unfolding e by blast
qed

lemma merge_prefix_ok:
  assumes h: "hdr_ok h" and hc: "hdr_ok hc" and len: "partial_len h + 1 + partial_len hc \<le> 8"
  shows "hdr_ok (merge_prefix h c hc)" "prefix_of (merge_prefix h c hc) = prefix_of h @ [c] @ prefix_of hc"
    "num_children (merge_prefix h c hc) = num_children hc" "buffer (merge_prefix h c hc) = buffer hc"
proof -
  from h hc have l: "length (partial h) = 8" "length (partial hc) = 8" "length (buffer hc) = 3"
    by (simp_all add: hdr_ok_def)
  let ?p = "(partial h)[partial_len h := c]" and ?n = "partial_len h + 1 + partial_len hc"
  define p2 where "p2 = (if partial_len h + 1 < 8 then memcpy_at (partial_len h + 1) (partial_len hc) (partial hc) ?p else ?p)"
  have lt: "partial_len h < 8" using len by simp
  have t: "take ?n p2 = prefix_of h @ [c] @ prefix_of hc"
  proof -
    have a: "take (partial_len h + 1) ?p = prefix_of h @ [c]"
      using lt l by (simp add: take_Suc_conv_app_nth prefix_of_def)
    show ?thesis
    proof (cases "partial_len h + 1 < 8")
      case True
      then show ?thesis using a l len
        by (simp add: p2_def memcpy_at_def prefix_of_def)
    next
      case False
      then have "partial_len hc = 0" "?n = partial_len h + 1" using len by simp_all
      then show ?thesis using a False by (simp add: p2_def prefix_of_def)
    qed
  qed
  have l2: "length p2 = 8" using l len by (simp add: p2_def memcpy_at_def)
  have e: "merge_prefix h c hc = hc\<lparr>partial := memcpy ?n p2 (partial hc), partial_len := ?n\<rparr>"
  proof (cases "partial_len h + 1 < 8")
    case True
    then show ?thesis using lt len by (auto simp: merge_prefix_def p2_def Let_def min_def add.commute)
  next
    case False
    then have "partial_len h = 7" "partial_len hc = 0" using lt len by simp_all
    then show ?thesis by (simp add: merge_prefix_def p2_def)
  qed
  show "num_children (merge_prefix h c hc) = num_children hc" "buffer (merge_prefix h c hc) = buffer hc"
    by (simp_all add: e)
  show "hdr_ok (merge_prefix h c hc)" using l l2 len by (simp add: e hdr_ok_def)
  have "prefix_of (merge_prefix h c hc) = take ?n (memcpy ?n p2 (partial hc))" by (simp add: e prefix_of_def)
  also have "\<dots> = take ?n p2" using l2 len by (simp add: memcpy_def)
  finally show "prefix_of (merge_prefix h c hc) = prefix_of h @ [c] @ prefix_of hc" using t by simp
qed

lemma inner_cong:
  assumes "hdr_ok h'" "num_children h' = num_children h" "buffer h' = buffer h"
  shows "inner_ok q h ch \<Longrightarrow> inner_ok q h' ch" "inner_map q h' ch = inner_map q h ch"
proof -
  have cm: "child_map h' ch = child_map h ch" using assms(2) by (rule child_map_cong)
  have km: "kid_map d h' ch = kid_map d h ch" for d using cm by (rule kid_map_cong)
  have bm: "buf_map h' = buf_map h" using assms(3) by (rule buf_map_cong)
  have co: "ch_ok h' ch = ch_ok h ch" using assms(2) by (rule ch_ok_cong)
  show "inner_ok q h ch \<Longrightarrow> inner_ok q h' ch" unfolding inner_ok_def cm km bm co assms(3) using assms(1) by blast
  show "inner_map q h' ch = inner_map q h ch" by (simp add: fun_eq_iff inner_map_def bm km split: option.split)
qed

lemma node4_only_child:
  assumes ok: "ch_ok h ch" and n4: "is_node4 ch" and one: "num_children h = 1"
  obtains n where "child_at ch 0 = Some n" "child_map h ch = [child_key ch 0 \<mapsto> n]"
proof -
  from n4 obtain ks cs where ch: "ch = Node4 ks cs" by (auto simp: is_node4_iff)
  with ok one have l: "lin_ok 4 1 ks cs" by simp
  then obtain n where n: "cs ! 0 = Some n" "length cs = 4" "length ks = 4" by (auto simp: lin_ok_def)
  have "child_map h ch b = (if b = ks ! 0 then Some n else None)" for b
    using lin_map_at [OF l, of 0] lin_map_None_iff [OF l, of b] n one
    by (auto simp: ch child_map4 take_Suc_conv_app_nth)
  then have "child_map h ch = [child_key ch 0 \<mapsto> n]" by (auto simp: ch fun_eq_iff)
  then show ?thesis using that [of n] n by (simp add: ch slot_def)
qed

lemma collapse_ok:
  assumes iok: "inner_ok q h ch" and q: "q = p @ prefix_of h" and n4: "is_node4 ch" and one: "num_children h = 1"
    and b: "\<forall>i < 3. IS_SPECIAL_KEY (entry_key (buffer h ! i))"
    and n: "child_at ch 0 = Some n"
    and m: "m = (case n of Leaf l \<Rightarrow> Leaf l | Inner hc chc \<Rightarrow> Inner (merge_prefix h (child_key ch 0) hc) chc)"
  shows "art_ok p m \<and> node_map (length p) m = inner_map q h ch"
proof -
  note D = inner_okD [OF iok]
  let ?c = "child_key ch 0"
  from node4_only_child [OF D(2) n4 one] n have cm: "child_map h ch = [?c \<mapsto> n]" by (metis option.inject)
  have nok: "art_ok (q @ [?c]) n" using D(5) [of ?c n] cm by simp
  have bm: "buf_map h k = None" for k
    using buf_map_Some_iff [OF D(4), of k] b by (cases "buf_map h k") auto
  have im: "inner_map q h ch = node_map (length q + 1) n"
  proof (rule ext)
    fix k
    show "inner_map q h ch k = node_map (length q + 1) n k"
    proof (cases "node_map (length q + 1) n k")
      case None
      then show ?thesis by (simp add: inner_map_def bm kid_map_def cm)
    next
      case (Some v)
      then have "matches q k" "key_byte k (length q) = ?c" using node_map_snoc [OF nok _ D(3), of k] by simp_all
      then show ?thesis by (simp add: inner_map_def bm kid_map_def cm)
    qed
  qed
  show ?thesis
  proof (cases n)
    case (Leaf l)
    then have ml: "m = Leaf l" by (simp add: m)
    from nok Leaf have "\<not> IS_SPECIAL_KEY (entry_key l)" "matches (q @ [?c]) (entry_key l)" by (auto elim: ok_leafE)
    then have ok': "art_ok p (Leaf l)"
      using matches_appendD [of p "prefix_of h @ [?c]" "entry_key l"] q by (intro ok_leaf) simp_all
    show ?thesis
      using node_map_leaf [OF ok', of "length p"] node_map_leaf [OF nok [unfolded Leaf], of "length q + 1"] ok'
      by (simp only: ml im Leaf simp_thms)
  next
    case (Inner hc chc)
    let ?m = "merge_prefix h ?c hc"
    have mI: "m = Inner ?m chc" by (simp add: m Inner)
    have iok': "inner_ok ((q @ [?c]) @ prefix_of hc) hc chc" using nok unfolding Inner art_ok_inner .
    note D' = inner_okD [OF iok']
    have "length q = length p + partial_len h" using q D(1) by simp
    then have len: "partial_len h + 1 + partial_len hc \<le> 8" using D'(1,3) by simp
    note M = merge_prefix_ok [OF D(1) D'(1) len, of ?c]
    have pq: "p @ prefix_of ?m = (q @ [?c]) @ prefix_of hc" by (simp add: M(2) q)
    have ok': "art_ok p (Inner ?m chc)"
      unfolding art_ok_inner pq by (rule inner_cong(1) [OF M(1,3,4) iok'])
    have "node_map (length p) (Inner ?m chc) = inner_map ((q @ [?c]) @ prefix_of hc) hc chc"
      unfolding node_map_inner [OF ok'] pq by (rule inner_cong(2) [OF M(1,3,4)])
    also have "\<dots> = node_map (length (q @ [?c])) (Inner hc chc)"
      by (rule node_map_inner [OF nok [unfolded Inner], symmetric])
    finally show ?thesis using ok' unfolding mI im Inner by simp
  qed
qed

lemma remove_child4_ok:
  assumes ok: "art_ok p (Inner h (Node4 keys cs))" and d: "d = length p + partial_len h"
    and pos: "find_child h (Node4 keys cs) (key_byte key d) = Some pos"
    and l: "child_at (Node4 keys cs) pos = Some (Leaf l)" "entry_key l = key"
    and b: "buf_map h key = None" and safe: "flush_safe h (Node4 keys cs) (key_byte key d) d"
    and eq: "remove_child4 h keys cs pos d = (m, cnt)"
  shows "\<exists>m'. m = Some m' \<and> shrunk p h (Node4 keys cs) key m'"
proof -
  let ?ch = "Node4 keys cs" and ?q = "p @ prefix_of h" and ?c = "key_byte key d"
  from ok have iok: "inner_ok ?q h ?ch" by (simp add: art_ok_inner)
  note D = inner_okD [OF iok]
  have dq: "d = length ?q" using d D(1) by simp
  obtain h1 ks cs1 where dr: "drop_child4 h keys cs pos = (h1, ks, cs1)" by (rule prod_cases3)
  obtain h2 ch2 n2 where fl: "flush_buffer d h1 (Node4 ks cs1) = (h2, ch2, n2)" by (rule prod_cases3)
  let ?ch1 = "Node4 ks cs1"
  have r: "removed h (child_map h ?ch) ?c (h1, ?ch1)"
    unfolding child_map4 by (rule drop_child4_ok [OF D(2) D(1) pos dr])
  have cm: "child_map h ?ch ?c = Some (Leaf l)" using find_child_at(1) [OF D(2) pos] l(1) by simp
  note I = inner_del [OF iok cm r b [folded l(2)], unfolded l(2)]
  have n4: "is_node4 ?ch1" by (simp add: is_node4_def)
  have "child_map h1 ?ch1 = (child_map h ?ch)(?c := None)" using r by simp
  then have pend: "pending (length ?q) 0 h1 ?ch1"
    using safe unfolding pending_def flush_safe_def dq I(4) by auto
  note F = flush_buffer_ok [OF I(1) n4 pend fl [unfolded dq]]
  have shr: "shrunk p h ?ch key (Inner h2 ch2)"
    by (rule shrunkI [OF F(1) refl]) (simp_all only: F(2,3) I(2,3))
  show ?thesis
  proof (cases "n2 = 0 \<and> num_children h2 = 1")
    case False
    then have "m = Some (Inner h2 ch2)" using eq dr fl by (auto simp: remove_child4_def split: if_splits)
    with shr show ?thesis by blast
  next
    case True
    then have same: "h2 = h1" "ch2 = ?ch1" and z: "\<forall>i < 3. IS_SPECIAL_KEY (entry_key (buffer h1 ! i))"
      using F(4) by simp_all
    obtain n where n: "child_at ?ch1 0 = Some n"
      using node4_only_child [of h1 ?ch1] inner_okD(2) [OF I(1)] n4 True same by blast
    define m' where "m' = (case n of Leaf l \<Rightarrow> Leaf l | Inner hc chc \<Rightarrow> Inner (merge_prefix h1 (child_key ?ch1 0) hc) chc)"
    have pq: "?q = p @ prefix_of h1" by (simp add: I(3))
    have "art_ok p m' \<and> node_map (length p) m' = inner_map ?q h1 ?ch1"
      by (rule collapse_ok [OF I(1) pq n4 _ z n m'_def]) (use True same in simp)
    moreover have "m = Some m'" using eq dr fl True n same
      by (auto simp: remove_child4_def m'_def split: art_node.split)
    ultimately show ?thesis using I(2) by (simp add: shrunk_def)
  qed
qed

lemma remove_child_ok:
  assumes ok: "art_ok p (Inner h ch)" and d: "d = length p + partial_len h"
    and pos: "find_child h ch (key_byte key d) = Some pos"
    and l: "child_at ch pos = Some (Leaf l)" "entry_key l = key"
    and b: "buf_map h key = None" and safe: "node_type_of ch = NODE4 \<longrightarrow> flush_safe h ch (key_byte key d) d"
    and eq: "remove_child h ch (key_byte key d) pos d = (m, cnt)"
  shows "\<exists>m'. m = Some m' \<and> shrunk p h ch key m'"
proof -
  let ?q = "p @ prefix_of h" and ?c = "key_byte key d"
  from ok have iok: "inner_ok ?q h ch" by (simp add: art_ok_inner)
  note D = inner_okD [OF iok]
  have cm: "child_map h ch ?c = Some (Leaf l)" using find_child_at(1) [OF D(2) pos] l(1) by simp
  have *: "\<exists>m'. m = Some m' \<and> shrunk p h ch key m'"
    if r: "removed h (child_map h ch) ?c r" and e: "m = Some (Inner (fst r) (snd r))" for r
  proof -
    from r have "removed h (child_map h ch) ?c (fst r, snd r)" by simp
    note I = inner_del [OF iok cm this b [folded l(2)], unfolded l(2)]
    show ?thesis using shrunkI [OF I(1) refl I(3) I(2)] e by blast
  qed
  show ?thesis
  proof (cases ch)
    case (Node4 keys cs)
    then show ?thesis using remove_child4_ok [of p h keys cs d key pos l m cnt] assms by simp
  next
    case (Node16 keys cs)
    have "removed h (child_map h ch) ?c (remove_child16 h keys cs pos)"
      using remove_child16_ok [of h keys cs ?c pos] D(1,2) pos unfolding Node16 child_map_ok(2) [OF D(2) [unfolded Node16]] by blast
    then show ?thesis using * eq Node16 by (auto split: prod.splits)
  next
    case (Node48 keys cs)
    have "removed h (child_map h ch) ?c (remove_child48 h keys cs ?c)"
      using remove_child48_ok [of h keys cs ?c pos] D(1,2) pos unfolding Node48 child_map_ok(3) by blast
    then show ?thesis using * eq Node48 by (auto split: prod.splits)
  next
    case (Node256 cs)
    have "removed h (child_map h ch) ?c (remove_child256 h cs ?c)"
      using remove_child256_ok [of h cs ?c pos] D(1,2) pos unfolding Node256 child_map_ok(4) by blast
    then show ?thesis using * eq Node256 by (auto split: prod.splits)
  qed
qed

lemma deletedI:
  assumes "art_ok p m" "node_map (length p) m = (node_map (length p) n)(key := None)"
    "map_option fst old = node_map (length p) n key"
  shows "deleted p n key (Some m, old)"
  using assms by (simp add: deleted_def)

lemma delete_unchanged:
  "art_ok p n \<Longrightarrow> node_map (length p) n key = None \<Longrightarrow> deleted p n key (Some n, None)"
  by (intro deletedI) auto

lemma delete_old_child:
  assumes ok: "art_ok p (Inner h ch)" and key: "\<not> IS_SPECIAL_KEY key" "matches (p @ prefix_of h) key"
    and b: "buf_map h key = None" and d: "d = length p + partial_len h"
    and c: "find_child h ch (key_byte key d) = Some i" "child_at ch i = Some n"
    and r: "deleted (p @ prefix_of h @ [key_byte key d]) n key (Some m, old)"
  shows "deleted p (Inner h ch) key (Some (Inner h (set_child ch i (Some m))), old)"
proof -
  have len: "length (p @ prefix_of h) = d" "d < 8"
    using ok d by (auto simp: art_ok_inner inner_ok_def)
  from r have m: "art_ok (p @ prefix_of h @ [key_byte key d]) m"
      "node_map (length p + partial_len h + 1) m = (node_map (length p + partial_len h + 1) n)(key := None)"
      "map_option fst old = node_map (length p + partial_len h + 1) n key"
    using len d by (auto simp: deleted_def)
  have mk: "matches (p @ prefix_of h @ [key_byte key d]) key"
    using matches_snoc [of "p @ prefix_of h" "key_byte key d" key] key(2) len by simp
  note U = child_upd [OF ok c m(1,2) mk b]
  show ?thesis using U m(3) by (intro deletedI) simp_all
qed

lemma recursive_delete_ok:
  assumes "art_ok p n" "matches p key" "\<not> IS_SPECIAL_KEY key" "del_safe key (length p) (Some n)"
  shows "deleted p n key (recursive_delete (Some n) key 8 (length p)) \<and>
    ((\<forall>l. n \<noteq> Leaf l) \<longrightarrow> fst (recursive_delete (Some n) key 8 (length p)) \<noteq> None)"
  using assms
proof (induction p n rule: art_ok.induct)
  case (ok_leaf e p)
  then have ok: "art_ok p (Leaf e)" by (intro art_ok.ok_leaf)
  have m: "node_map (length p) (Leaf e) = [entry_key e \<mapsto> entry_value e]" by (rule node_map_leaf [OF ok])
  show ?case
  proof (cases "entry_key e = key")
    case True
    then have "leaf_matches e key 8 (length p) = 0" by (simp add: leaf_matches_def memcmp_eq_0)
    then show ?thesis using True by (simp add: deleted_def m fun_eq_iff)
  next
    case False
    then have "leaf_matches e key 8 (length p) \<noteq> 0"
      by (simp add: leaf_matches_def memcmp_eq_0 key_bytes_inject)
    then show ?thesis using False delete_unchanged [OF ok, of key] m by simp
  qed
next
  case (ok_inner h ch p)
  then have ok: "art_ok p (Inner h ch)" by (intro art_ok.ok_inner)
  let ?q = "p @ prefix_of h" and ?d = "length p + partial_len h"
  let ?c = "key_byte key ?d"
  from ok have iok: "inner_ok ?q h ch" by (simp add: art_ok_inner)
  note D = inner_okD [OF iok]
  note key = \<open>\<not> IS_SPECIAL_KEY key\<close>
  have lq: "length p + partial_len h < 8" "length ?q = ?d" using D(1,3) by simp_all
  have cp: "check_prefix h key 8 (length p) = min 8 (partial_len h) \<longleftrightarrow> matches ?q key"
    using D lq ok_inner.prems by (intro check_prefix_iff) simp_all
  note nm = node_map_inner [OF ok]
  show ?case
  proof (cases "matches ?q key")
    case False
    then have e: "recursive_delete (Some (Inner h ch)) key 8 (length p) = (Some (Inner h ch), None)"
      using cp ok_inner.prems(1) D(1) by (auto simp: prefix_of_def)
    have "buf_map h key = None" using buf_map_matches [OF D(4), of key] False by blast
    then have "node_map (length p) (Inner h ch) key = None" using False by (simp add: nm inner_map_def)
    then show ?thesis unfolding e using delete_unchanged [OF ok] by simp
  next
    case mq: True
    show ?thesis
    proof (cases "buffer_find h key")
      case (Some i)
      from buffer_findD [OF Some] have i: "i < 3" "entry_key (buffer h ! i) = key" by simp_all
      have e: "recursive_delete (Some (Inner h ch)) key 8 (length p) =
          (Some (Inner (set_buffer_key h i 0) ch), Some (entry_value (buffer h ! i), 1))"
        using mq cp Some by simp
      note C = inner_clear [OF iok i key]
      have pre: "prefix_of (set_buffer_key h i 0) = prefix_of h" by (simp add: set_buffer_key_def)
      have ok': "art_ok p (Inner (set_buffer_key h i 0) ch)" using C(1) by (simp add: art_ok_inner pre)
      have "node_map (length p) (Inner h ch) key = Some (entry_value (buffer h ! i))"
        using Some key by (simp add: nm inner_map_def buf_map_def)
      then show ?thesis unfolding e using node_map_inner [OF ok'] C(2) nm ok'
        by (auto intro!: deletedI simp: pre)
    next
      case None
      then have b: "buf_map h key = None" by (simp add: buf_map_def)
      show ?thesis
      proof (cases "find_child h ch ?c")
        case f: None
        then have "child_map h ch ?c = None" using find_child_iff [OF D(2)] by simp
        then have "node_map (length p) (Inner h ch) key = None"
          using b lq by (simp add: nm inner_map_def kid_map_def)
        moreover have "recursive_delete (Some (Inner h ch)) key 8 (length p) = (Some (Inner h ch), None)"
          using mq cp None f by simp
        ultimately show ?thesis using delete_unchanged [OF ok] by simp
      next
        case (Some i)
        then obtain n where n: "child_at ch i = Some n" using find_child_at [OF D(2) Some] by auto
        then have cm: "child_map h ch ?c = Some n" using find_child_at [OF D(2) Some] by simp
        have nn: "node_map (length p) (Inner h ch) key = node_map (?d + 1) n key"
          using b mq cm lq by (simp add: nm inner_map_def kid_map_def)
        let ?p = "p @ prefix_of h @ [?c]"
        show ?thesis
        proof (cases n)
          case (Leaf l)
          have nl: "node_map (?d + 1) n key = (if entry_key l = key then Some (entry_value l) else None)"
            using node_map_leaf [OF D(5) [OF cm, unfolded Leaf]] by (simp add: Leaf)
          show ?thesis
          proof (cases "entry_key l = key")
            case False
            then have "leaf_matches l key 8 ?d \<noteq> 0" by (simp add: leaf_matches_def memcmp_eq_0 key_bytes_inject)
            then have "recursive_delete (Some (Inner h ch)) key 8 (length p) = (Some (Inner h ch), None)"
              using mq cp None Some n Leaf by simp
            then show ?thesis using delete_unchanged [OF ok] nn nl False by simp
          next
            case True
            then have lm: "leaf_matches l key 8 ?d = 0" by (simp add: leaf_matches_def memcmp_eq_0)
            obtain m cnt where rc: "remove_child h ch ?c i ?d = (m, cnt)" by (rule prod.exhaust)
            have safe: "node_type_of ch = NODE4 \<longrightarrow> flush_safe h ch ?c ?d"
              using ok_inner.prems(3) cp mq None Some n Leaf True by (simp add: Let_def)
            obtain m' where m': "m = Some m'" "shrunk p h ch key m'"
              using remove_child_ok [OF ok refl Some n [unfolded Leaf] True b safe rc] by blast
            have e: "recursive_delete (Some (Inner h ch)) key 8 (length p) = (Some m', Some (entry_value l, cnt))"
              using mq cp None Some n Leaf lm rc m'(1) by simp
            show ?thesis unfolding e using m'(2) nn nl True nm
              by (auto intro!: deletedI simp: shrunk_def)
          qed
        next
          case (Inner hc chc)
          have mp: "matches ?p key" using matches_snoc [OF D(3), of ?c key] mq lq by simp
          have lp: "length ?p = ?d + 1" using lq by simp
          have "del_safe key (length ?p) (Some n)"
            using ok_inner.prems(3) cp mq None Some n Inner unfolding lp by (simp add: Let_def)
          from ok_inner.IH [OF cm mp key this]
          have IH: "deleted ?p n key (recursive_delete (Some n) key 8 (?d + 1))"
            "fst (recursive_delete (Some n) key 8 (?d + 1)) \<noteq> None" unfolding lp using Inner by simp_all
          obtain mo old where r: "recursive_delete (Some n) key 8 (?d + 1) = (mo, old)" by (rule prod.exhaust)
          with IH(2) obtain m where m: "mo = Some m" by auto
          have e: "recursive_delete (Some (Inner h ch)) key 8 (length p) =
              (Some (Inner h (set_child ch i (Some m))), old)"
            using mq cp None Some n Inner r m by simp
          show ?thesis unfolding e
            using delete_old_child [OF ok key mq b refl Some n IH(1) [unfolded r m]] by simp
        qed
      qed
    qed
  qed
qed

end
