(* ===== verification/ART_Changes.thy ===== *)
theory ART_Changes
  imports ART_Correct
begin

text \<open>
  What an insertion and a deletion change in a tree, as relations between the tree before and after: each
  clause is one of the places where the code writes. Facts about all results of \<open>recursive_insert\<close> and
  \<open>recursive_delete\<close> are then rule inductions with one case per write.
\<close>

lemma child_ok:
  assumes "art_ok p (Inner h ch)" "find_child h ch b = Some i" "child_at ch i = Some c"
  shows "art_ok (p @ prefix_of h @ [b]) c" "length (p @ prefix_of h @ [b]) = length p + partial_len h + 1"
    "child_map h ch b = Some c"
proof -
  note D = inner_okD [OF assms(1) [unfolded art_ok_inner]]
  show cm: "child_map h ch b = Some c" using find_child_at [OF D(2) assms(2)] assms(3) by simp
  show "art_ok (p @ prefix_of h @ [b]) c" using D(5) [OF cm] by simp
  show "length (p @ prefix_of h @ [b]) = length p + partial_len h + 1" using D(1) by simp
qed

section \<open>New nodes\<close>

lemma node4_of_two_map:
  assumes "hdr_ok h" "num_children h = 0" "c1 \<noteq> c2"
  obtains h2 ch2 where "node4_of_two h c1 n1 c2 n2 = Inner h2 ch2" "child_map h2 ch2 = [c1 \<mapsto> n1, c2 \<mapsto> n2]"
    "hdr_sim h h2" "is_node4 ch2"
proof -
  let ?ch = "snd (alloc_node NODE4) :: art_node children"
  obtain h1 ch1 where e1: "add_child h ?ch c1 n1 = (h1, ch1)" by (rule prod.exhaust)
  obtain h2 ch2 where e2: "add_child h1 ch1 c2 n2 = (h2, ch2)" by (rule prod.exhaust)
  have ok: "ch_ok h ?ch" using assms(2) by (simp add: lin_ok_def)
  have "card (dom (child_map h ?ch)) = 0"
    using card_dom_lin_map [of 4 "nch h"] ok assms(2) by (simp add: child_map4)
  then have cm: "child_map h ?ch = Map.empty" by simp
  note A = add_child_ok [OF ok _ assms(1) e1]
  have A: "ch_ok h1 ch1" "child_map h1 ch1 = [c1 \<mapsto> n1]" "hdr_sim h h1" "hdr_ok h1" "nch h1 = 1"
    using A hdr_sim_ok [OF assms(1), of h1] cm assms(2) by simp_all
  have B: "child_map h2 ch2 = [c1 \<mapsto> n1, c2 \<mapsto> n2]" "hdr_sim h1 h2"
    using add_child_ok [OF A(1) _ A(4) e2] A(2) assms(3) by (simp_all add: fun_upd_twist)
  have "is_node4 ch1" "is_node4 ch2"
    using e1 e2 A(5) assms(2) by (auto simp: is_node4_iff add_child4_def Let_def)
  moreover have "node4_of_two h c1 n1 c2 n2 = Inner h2 ch2" unfolding node4_of_two_def using e1 e2 by simp
  ultimately show thesis using that B A(3) hdr_sim_trans by blast
qed

lemma split_leaf_two:
  assumes "art_ok p (Leaf l)" "matches p key" "entry_key l \<noteq> key"
  obtains h i where "split_leaf l key v (length p) =
      node4_of_two h (key_byte (entry_key l) i) (Leaf l) (key_byte key i) (Leaf (make_leaf key v))"
    "hdr_ok h" "num_children h = 0" "key_byte (entry_key l) i \<noteq> key_byte key i" "buffer h = replicate 3 empty_entry" "i < 8"
proof -
  define l2 where "l2 = make_leaf key v"
  define L where "L = longest_common_prefix l l2 (length p)"
  have k2: "entry_key l2 = key" by (simp add: l2_def make_leaf_def)
  have l: "matches p (entry_key l)" using assms(1) by (auto elim: ok_leafE)
  note S = longest_common_prefix_split [of l l2 p L, unfolded k2, OF assms(3) l assms(2) L_def]
  define h where "h = zero_hdr\<lparr>partial_len := L,
    partial := memcpy (min 8 L) (drop (length p) (key_bytes key)) (partial zero_hdr)\<rparr>"
  have h: "hdr_ok h" "num_children h = 0" "buffer h = replicate 3 empty_entry"
    using S(1) by (simp_all add: h_def zero_hdr_def hdr_ok_def)
  have "split_leaf l key v (length p) =
      node4_of_two h (key_byte (entry_key l) (length p + L)) (Leaf l) (key_byte key (length p + L)) (Leaf l2)"
    by (simp add: split_leaf_def Let_def l2_def [symmetric] L_def [symmetric] h_def [symmetric] k2)
  from that [OF this [unfolded l2_def] h(1,2) S(2) h(3) S(1)] show thesis .
qed

lemma split_prefix_two:
  assumes h: "hdr_ok h" and d: "diff < partial_len h" "partial h ! diff \<noteq> key_byte key (depth + diff)"
  obtains nh oh where "split_prefix h ch key v depth diff =
      node4_of_two nh (partial h ! diff) (Inner oh ch) (key_byte key (depth + diff)) (Leaf (make_leaf key v))"
    "hdr_ok nh" "num_children nh = 0" "buffer nh = buffer h"
    "buffer oh = replicate 3 empty_entry" "num_children oh = num_children h"
proof -
  from h have len: "length (partial h) = 8" "length (buffer h) = 3" "partial_len h \<le> 8" by (simp_all add: hdr_ok_def)
  define nh where "nh = zero_hdr\<lparr>partial_len := diff,
    partial := memcpy (min 8 diff) (partial h) (partial zero_hdr), buffer := buffer h\<rparr>"
  define oh where "oh = h\<lparr>buffer := replicate 3 empty_entry, partial_len := partial_len h - (diff + 1),
    partial := memmove 0 (diff + 1) (min 8 (partial_len h - (diff + 1))) (partial h)\<rparr>"
  have nh: "hdr_ok nh" "num_children nh = 0" "buffer nh = buffer h"
    using len d(1) by (simp_all add: nh_def zero_hdr_def hdr_ok_def)
  have oh: "buffer oh = replicate 3 empty_entry" "num_children oh = num_children h" by (simp_all add: oh_def)
  have "split_prefix h ch key v depth diff =
      node4_of_two nh (partial h ! diff) (Inner oh ch) (key_byte key (depth + diff)) (Leaf (make_leaf key v))"
    using len(3) by (simp add: split_prefix_def Let_def nh_def oh_def)
  from that [OF this nh(1,2) nh(3) oh] show thesis .
qed

section \<open>Insertion\<close>

text \<open>\<open>grows key v p n n' flag\<close>: the insertion of \<open>key\<close> into \<open>n\<close>, with the bytes \<open>p\<close> above it, gives \<open>n'\<close>. The flag is 1
  if the key went into a buffer and 2 if it was there.\<close>

inductive grows :: "u64 \<Rightarrow> u64 \<Rightarrow> u8 list \<Rightarrow> art_node \<Rightarrow> art_node \<Rightarrow> nat \<Rightarrow> bool" for key v where
  leaf: "grows key v p (Leaf e) (Leaf (if r then e\<lparr>entry_value := v\<rparr> else e)) 2"
| leaf_split: "entry_key e \<noteq> key \<Longrightarrow> matches p key \<Longrightarrow> grows key v p (Leaf e) (split_leaf e key v (length p)) 0"
| slot: "i < 3 \<Longrightarrow> entry_key (buffer h ! i) = key \<Longrightarrow> grows key v p (Inner h ch) (Inner (set_buffer_value h i v) ch) 2"
| slot_same: "i < 3 \<Longrightarrow> entry_key (buffer h ! i) = key \<Longrightarrow> grows key v p (Inner h ch) (Inner h ch) 2"
| slot_new: "buffer_slot h = Some i \<Longrightarrow>
    grows key v p (Inner h ch) (Inner (set_buffer h i \<lparr>entry_key = key, entry_value = v\<rparr>) ch) 1"
| prefix_split: "diff < partial_len h \<Longrightarrow> partial h ! diff \<noteq> key_byte key (length p + diff) \<Longrightarrow>
    grows key v p (Inner h ch) (split_prefix h ch key v (length p) diff) 0"
| child_new: "find_child h ch (key_byte key (length p + partial_len h)) = None \<Longrightarrow>
    add_child h ch (key_byte key (length p + partial_len h)) (Leaf (make_leaf key v)) = (h', ch') \<Longrightarrow>
    grows key v p (Inner h ch) (Inner h' ch') 0"
| child: "find_child h ch b = Some i \<Longrightarrow> child_at ch i = Some n \<Longrightarrow> grows key v (p @ prefix_of h @ [b]) n n' flag \<Longrightarrow>
    grows key v p (Inner h ch) (Inner h (set_child ch i (Some n'))) flag"

lemma grows_flag: "grows key v p n n' flag \<Longrightarrow> flag < 3"
  by (induction rule: grows.induct) simp_all

lemma insert_grows:
  assumes "art_ok p n" "matches p key" "\<not> IS_SPECIAL_KEY key" "st < 8"
    and "recursive_insert (Some n) key (8 + st) value (length p) replace = (m, old, flag)"
  shows "\<exists>n'. m = Some n' \<and> grows key value p n n' flag"
  using assms
proof (induction p n arbitrary: m old flag rule: art_ok.induct)
  case (ok_leaf e p)
  then have ok: "art_ok p (Leaf e)" by (intro art_ok.ok_leaf)
  have len: "(8 + st) div 8 * 8 = 8" using \<open>st < 8\<close> by simp
  show ?case
  proof (cases "entry_key e = key")
    case True
    then have "leaf_matches e key 8 (length p) = 0" by (simp add: leaf_matches_def memcmp_eq_0)
    then have "m = Some (Leaf (if replace then e\<lparr>entry_value := value\<rparr> else e))" "flag = 2"
      using ok_leaf.prems(4) unfolding recursive_insert.simps len by (simp_all add: Let_def)
    then show ?thesis using grows.leaf [of key "value" p e replace] by blast
  next
    case False
    then have "leaf_matches e key 8 (length p) \<noteq> 0"
      by (simp add: leaf_matches_def memcmp_eq_0 key_bytes_inject)
    then show ?thesis using ok_leaf.prems(4) grows.leaf_split [OF False ok_leaf.prems(1), of "value"]
      unfolding recursive_insert.simps len by auto
  qed
next
  case (ok_inner h ch p)
  then have ok: "art_ok p (Inner h ch)" by (intro art_ok.ok_inner)
  let ?q = "p @ prefix_of h" and ?d = "length p + partial_len h"
  from ok have iok: "inner_ok ?q h ch" by (simp add: art_ok_inner)
  note D = inner_okD [OF iok]
  note key = \<open>\<not> IS_SPECIAL_KEY key\<close>
  have pl: "partial_len h \<le> 8" using D(1) by (simp add: hdr_ok_def)
  have lq: "length p + partial_len h < 8" "length ?q = ?d" using D(1,3) by simp_all
  have len: "(8 + st) div 8 * 8 = 8" "(8 + st) mod 8 = st" using \<open>st < 8\<close> by simp_all
  have cp: "check_prefix h key 8 (length p) = min 8 (partial_len h) \<longleftrightarrow> matches ?q key"
    using D lq ok_inner.prems by (intro check_prefix_iff) simp_all
  define descend where "descend = (\<lambda>depth. case find_child h ch (key_byte key depth) of
      Some i \<Rightarrow> let (n', old_val, old) = recursive_insert (child_at ch i) key (8 + st) value (depth + 1) replace
                in (Some (Inner h (set_child ch i n')), old_val, old)
    | None \<Rightarrow> let (h', ch') = add_child h ch (key_byte key depth) (Leaf (make_leaf key value))
              in (Some (Inner h' ch'), None, 0 :: nat))"
  define below where "below = (if partial_len h \<noteq> 0 then
      if prefix_mismatch h ch key 8 (length p) \<ge> partial_len h then descend ?d
      else (Some (split_prefix h ch key value (length p) (prefix_mismatch h ch key 8 (length p))), None, 0)
    else descend (length p))"
  have unf: "recursive_insert (Some (Inner h ch)) key (8 + st) value (length p) replace =
    (if st = 1 then
       (case buffer_find h key of
          Some i \<Rightarrow> (let h' = (if replace then set_buffer_value h i value else h)
            in (Some (Inner h' ch), Some (entry_value (buffer h' ! i)), 2))
        | None \<Rightarrow> (case (if replace then None else buffer_slot h) of
            Some i \<Rightarrow> (Some (Inner (set_buffer h i \<lparr>entry_key = key, entry_value = value\<rparr>) ch), None, 1)
          | None \<Rightarrow> below))
     else below)"
    unfolding recursive_insert.simps(3) len Let_def below_def descend_def by (simp only: if_cancel)
  have descend: "\<exists>n'. m = Some n' \<and> grows key value p (Inner h ch) n' flag"
    if e: "descend ?d = (m, old, flag)" and mq: "matches ?q key" for m old flag
  proof (cases "find_child h ch (key_byte key ?d)")
    case None
    obtain h' ch' where a: "add_child h ch (key_byte key ?d) (Leaf (make_leaf key value)) = (h', ch')"
      by (rule prod.exhaust)
    from grows.child_new [OF None a] show ?thesis using e None a by (auto simp: descend_def)
  next
    case (Some i)
    then obtain n where n: "child_at ch i = Some n" using find_child_at [OF D(2) Some] by auto
    then have cm: "child_map h ch (key_byte key ?d) = Some n" using find_child_at [OF D(2) Some] by simp
    let ?p = "p @ prefix_of h @ [key_byte key ?d]"
    have mp: "matches ?p key" using matches_snoc [OF D(3), of "key_byte key ?d" key] mq lq by simp
    have lp: "length ?p = ?d + 1" using lq by simp
    obtain m' old' flag' where r: "recursive_insert (Some n) key (8 + st) value (?d + 1) replace = (m', old', flag')"
      by (rule prod_cases3)
    obtain x where x: "m' = Some x" "grows key value ?p n x flag'"
      using ok_inner.IH [OF cm mp key \<open>st < 8\<close>, unfolded lp, OF r] by blast
    have "m = Some (Inner h (set_child ch i (Some x)))" "flag = flag'" using e Some n r x by (simp_all add: descend_def)
    then show ?thesis using grows.child [OF Some n x(2)] by simp
  qed
  have bel: "\<exists>n'. m = Some n' \<and> grows key value p (Inner h ch) n' flag" if e: "below = (m, old, flag)"
  proof (cases "matches ?q key")
    case True
    with cp pl have "prefix_mismatch h ch key 8 (length p) = partial_len h" by (simp add: prefix_mismatch_check)
    then have "below = descend ?d" by (simp add: below_def)
    with descend [OF _ True] e show ?thesis by simp
  next
    case False
    let ?diff = "check_prefix h key 8 (length p)"
    have lt: "?diff < partial_len h" using False cp pl check_prefix_le [of h key "length p"] by simp
    then have b: "below = (Some (split_prefix h ch key value (length p) ?diff), None, 0)"
      using pl by (simp add: below_def prefix_mismatch_check)
    note M = check_prefix_mismatch [OF D(1) _ refl lt]
    have "grows key value p (Inner h ch) (split_prefix h ch key value (length p) ?diff) 0"
      by (rule grows.prefix_split [OF lt]) (use lq(1) in \<open>intro M, simp\<close>)
    then show ?thesis using b e by simp
  qed
  show ?case
  proof (cases "st = 1 \<and> (buffer_find h key \<noteq> None \<or> \<not> replace \<and> buffer_slot h \<noteq> None)")
    case False
    then have "recursive_insert (Some (Inner h ch)) key (8 + st) value (length p) replace = below"
      unfolding unf by auto
    with bel ok_inner.prems(4) show ?thesis by simp
  next
    case True
    show ?thesis
    proof (cases "buffer_find h key")
      case None
      then obtain i where i: "buffer_slot h = Some i" "\<not> replace" using True by blast
      then have e: "m = Some (Inner (set_buffer h i \<lparr>entry_key = key, entry_value = value\<rparr>) ch)" "flag = 1"
        using ok_inner.prems(4) True None unfolding unf by simp_all
      show ?thesis unfolding e using grows.slot_new [OF i(1)] by blast
    next
      case (Some i)
      from buffer_findD [OF Some] have i: "i < 3" "entry_key (buffer h ! i) = key" by simp_all
      have "m = Some (Inner (if replace then set_buffer_value h i value else h) ch)" "flag = 2"
        using ok_inner.prems(4) True Some unfolding unf by (simp_all add: Let_def)
      then show ?thesis using grows.slot [OF i] grows.slot_same [OF i] by (cases replace) simp_all
    qed
  qed
qed

section \<open>Deletion\<close>

text \<open>\<open>shrinks key p n m cnt\<close>: the deletion of \<open>key\<close> from \<open>n\<close> gives \<open>m\<close> and takes \<open>cnt\<close> keys out of buffers.\<close>

inductive shrinks :: "u64 \<Rightarrow> u8 list \<Rightarrow> art_node \<Rightarrow> art_node option \<Rightarrow> nat \<Rightarrow> bool" for key where
  none: "shrinks key p n (Some n) 0"
| leaf: "entry_key e = key \<Longrightarrow> shrinks key p (Leaf e) None 0"
| slot: "i < 3 \<Longrightarrow> entry_key (buffer h ! i) = key \<Longrightarrow>
    shrinks key p (Inner h ch) (Some (Inner (set_buffer_key h i 0) ch)) 1"
| child_leaf: "find_child h ch b = Some i \<Longrightarrow> child_at ch i = Some (Leaf l) \<Longrightarrow> entry_key l = key \<Longrightarrow>
    b = key_byte key d \<Longrightarrow> d = length p + partial_len h \<Longrightarrow> buf_map h key = None \<Longrightarrow>
    (node_type_of ch = NODE4 \<longrightarrow> flush_safe h ch b d) \<Longrightarrow> remove_child h ch b i d = (m, cnt) \<Longrightarrow>
    shrinks key p (Inner h ch) m cnt"
| child: "find_child h ch b = Some i \<Longrightarrow> child_at ch i = Some n \<Longrightarrow> shrinks key (p @ prefix_of h @ [b]) n (Some n') cnt \<Longrightarrow>
    shrinks key p (Inner h ch) (Some (Inner h (set_child ch i (Some n')))) cnt"

definition tag_of :: "(u64 \<times> nat) option \<Rightarrow> nat" where
  "tag_of old = (case old of None \<Rightarrow> 0 | Some (v, tag) \<Rightarrow> tag)"

lemma tag_of_simps [simp]: "tag_of None = 0" "tag_of (Some (v, tag)) = tag"
  by (simp_all add: tag_of_def)

lemma delete_shrinks:
  assumes "art_ok p n" "matches p key" "\<not> IS_SPECIAL_KEY key" "del_safe key (length p) (Some n)"
    and "recursive_delete (Some n) key 8 (length p) = (m, old)"
  shows "shrinks key p n m (tag_of old)"
  using assms
proof (induction p n arbitrary: m old rule: art_ok.induct)
  case (ok_leaf e p)
  show ?case
  proof (cases "entry_key e = key")
    case True
    then show ?thesis using ok_leaf.prems(4) shrinks.leaf [OF True, of p] by (auto simp: leaf_matches_def memcmp_eq_0)
  next
    case False
    then show ?thesis using ok_leaf.prems(4) shrinks.none [of key p "Leaf e"] by (simp add: leaf_matches_def memcmp_eq_0 key_bytes_inject)
  qed
next
  case (ok_inner h ch p)
  then have ok: "art_ok p (Inner h ch)" by (intro art_ok.ok_inner)
  let ?q = "p @ prefix_of h" and ?d = "length p + partial_len h"
  let ?c = "key_byte key ?d"
  from ok have iok: "inner_ok ?q h ch" by (simp add: art_ok_inner)
  note D = inner_okD [OF iok]
  note key = \<open>\<not> IS_SPECIAL_KEY key\<close>
  note eq = ok_inner.prems(4)
  have lq: "length p + partial_len h < 8" "length ?q = ?d" using D(1,3) by simp_all
  have cp: "check_prefix h key 8 (length p) = min 8 (partial_len h) \<longleftrightarrow> matches ?q key"
    using D lq ok_inner.prems by (intro check_prefix_iff) simp_all
  show ?case
  proof (cases "matches ?q key \<and> (buffer_find h key = None \<longrightarrow> find_child h ch ?c \<noteq> None)")
    case False
    then have "m = Some (Inner h ch)" "old = None"
      using eq cp ok_inner.prems(1) D(1) by (auto simp: prefix_of_def split: if_splits)
    then show ?thesis using shrinks.none by simp
  next
    case True
    then have mq: "matches ?q key" by blast
    show ?thesis
    proof (cases "buffer_find h key")
      case (Some i)
      from buffer_findD [OF Some] have i: "i < 3" "entry_key (buffer h ! i) = key" by simp_all
      have "m = Some (Inner (set_buffer_key h i 0) ch)" "tag_of old = 1" using eq mq cp Some by auto
      with shrinks.slot [OF i, of p ch] show ?thesis by simp
    next
      case None
      then have b: "buf_map h key = None" by (simp add: buf_map_def)
      from None True obtain i where f: "find_child h ch ?c = Some i" by auto
      then obtain n where n: "child_at ch i = Some n" using find_child_at [OF D(2) f] by auto
      then have cm: "child_map h ch ?c = Some n" using find_child_at [OF D(2) f] by simp
      show ?thesis
      proof (cases n)
        case (Leaf l)
        show ?thesis
        proof (cases "entry_key l = key")
          case False
          then have "leaf_matches l key 8 ?d \<noteq> 0" by (simp add: leaf_matches_def memcmp_eq_0 key_bytes_inject)
          then have "m = Some (Inner h ch)" "old = None" using eq mq cp None f n Leaf by simp_all
          then show ?thesis using shrinks.none by simp
        next
          case True
          then have lm: "leaf_matches l key 8 ?d = 0" by (simp add: leaf_matches_def memcmp_eq_0)
          obtain m' cnt where rc: "remove_child h ch ?c i ?d = (m', cnt)" by (rule prod.exhaust)
          have safe: "node_type_of ch = NODE4 \<longrightarrow> flush_safe h ch ?c ?d"
            using ok_inner.prems(3) cp mq None f n Leaf True by (simp add: Let_def)
          have "m = m'" "tag_of old = cnt" using eq mq cp None f n Leaf lm rc by auto
          with shrinks.child_leaf [OF f n [unfolded Leaf] True refl refl b safe rc] show ?thesis by simp
        qed
      next
        case (Inner hc chc)
        let ?p = "p @ prefix_of h @ [?c]"
        have mp: "matches ?p key" using matches_snoc [OF D(3), of ?c key] mq lq by simp
        have lp: "length ?p = ?d + 1" using lq by simp
        have safe: "del_safe key (length ?p) (Some n)"
          using ok_inner.prems(3) cp mq None f n Inner unfolding lp by (simp add: Let_def)
        have nok: "art_ok ?p n" using D(5) [OF cm] by simp
        obtain mo o' where r: "recursive_delete (Some n) key 8 (length ?p) = (mo, o')" by (rule prod.exhaust)
        have IH: "shrinks key ?p n mo (tag_of o')" by (rule ok_inner.IH [OF cm mp key safe r])
        have "mo \<noteq> None" using recursive_delete_ok [OF nok mp key safe] Inner unfolding r by simp
        then obtain x where x: "mo = Some x" by blast
        have "m = Some (Inner h (set_child ch i (Some x)))" "old = o'"
          using eq mq cp None f n Inner r [unfolded lp] x by simp_all
        then show ?thesis using shrinks.child [OF f n IH [unfolded x]] by simp
      qed
    qed
  qed
qed

text \<open>What holds before the flush and is kept whenever a buffer entry becomes a child holds after it.\<close>

lemma flush_buffer_induct:
  assumes iok: "inner_ok q h ch" and n4: "is_node4 ch" and pend: "pending (length q) 0 h ch"
    and eq: "flush_buffer (length q) h ch = (h', ch', cnt)" and R: "R h ch 0"
    and step: "\<And>i e h ch cnt h1 ch1. i < 3 \<Longrightarrow> e = buffer h ! i \<Longrightarrow> inner_ok q h ch \<Longrightarrow> is_node4 ch \<Longrightarrow> nch h < 4 \<Longrightarrow>
      \<not> IS_SPECIAL_KEY (entry_key e) \<Longrightarrow> child_map h ch (key_byte (entry_key e) (length q)) = None \<Longrightarrow>
      add_child h ch (key_byte (entry_key e) (length q)) (Leaf (make_leaf (entry_key e) (entry_value e))) = (h1, ch1) \<Longrightarrow>
      R h ch cnt \<Longrightarrow> R (set_buffer_key h1 i 0) ch1 (cnt + 1)"
  shows "R h' ch' cnt"
proof -
  have one: "R h' ch' cnt' \<and> inner_ok q h' ch' \<and> is_node4 ch' \<and> pending (length q) (Suc i) h' ch'"
    if a: "R h ch cnt" "inner_ok q h ch" "is_node4 ch" "pending (length q) i h ch" "i < 3"
      and eq: "flush_step (length q) i (h, ch, cnt) = (h', ch', cnt')" for h ch cnt i h' ch' cnt'
  proof -
    have "R h' ch' cnt'"
    proof (cases "nch h < 4 \<and> \<not> IS_SPECIAL_KEY (entry_key (buffer h ! i))")
      case False
      then show ?thesis using eq a(1) by (auto simp: flush_step_def Let_def)
    next
      case True
      then have c: "child_map h ch (key_byte (entry_key (buffer h ! i)) (length q)) = None"
        using pendingD(1) [OF a(4) le_refl a(5)] by blast
      obtain h1 ch1 where ad: "add_child h ch (key_byte (entry_key (buffer h ! i)) (length q))
          (Leaf (make_leaf (entry_key (buffer h ! i)) (entry_value (buffer h ! i)))) = (h1, ch1)"
        by (rule prod.exhaust)
      show ?thesis using step [OF a(5) refl a(2,3) _ _ c ad a(1)] True eq ad by (simp add: flush_step_def Let_def)
    qed
    then show ?thesis using flush_step_ok [OF a(2-5) eq] by simp
  qed
  obtain h1 ch1 c1 where 1: "flush_step (length q) 0 (h, ch, 0) = (h1, ch1, c1)" by (rule prod_cases3)
  obtain h2 ch2 c2 where 2: "flush_step (length q) 1 (h1, ch1, c1) = (h2, ch2, c2)" by (rule prod_cases3)
  obtain h3 ch3 c3 where 3: "flush_step (length q) 2 (h2, ch2, c2) = (h3, ch3, c3)" by (rule prod_cases3)
  have "[0..<3] = [0, 1, 2 :: nat]" by (simp add: eval_nat_numeral)
  then have e: "h' = h3" "ch' = ch3" "cnt = c3" using eq 1 2 3 by (simp_all add: flush_buffer_def)
  have s1: "R h1 ch1 c1" "inner_ok q h1 ch1" "is_node4 ch1" "pending (length q) 1 h1 ch1"
    using one [OF R iok n4 pend _ 1] by simp_all
  have s2: "R h2 ch2 c2" "inner_ok q h2 ch2" "is_node4 ch2" "pending (length q) 2 h2 ch2"
    using one [OF s1 _ 2] by (simp_all add: numeral_2_eq_2)
  show ?thesis unfolding e using one [OF s2 _ 3] by simp
qed

text \<open>The removal of a leaf from a \<open>Node4\<close>: the node stays, with buffered keys as new children, or its only child
  takes its place.\<close>

lemma remove_child4_cases:
  assumes ok: "art_ok p (Inner h (Node4 keys cs))" and d: "d = length p + partial_len h"
    and pos: "find_child h (Node4 keys cs) (key_byte key d) = Some pos"
    and l: "child_at (Node4 keys cs) pos = Some (Leaf l)" "entry_key l = key"
    and b: "buf_map h key = None" and safe: "flush_safe h (Node4 keys cs) (key_byte key d) d"
    and eq: "remove_child4 h keys cs pos d = (m, cnt)"
  obtains (kept) h1 ch1 h2 ch2 where "removed h (child_map h (Node4 keys cs)) (key_byte key d) (h1, ch1)" "is_node4 ch1"
      "inner_ok (p @ prefix_of h) h1 ch1" "pending d 0 h1 ch1" "flush_buffer d h1 ch1 = (h2, ch2, cnt)" "m = Some (Inner h2 ch2)"
      "cnt \<noteq> 0 \<or> num_children h2 \<noteq> 1" "\<exists>ks cs1. drop_child4 h keys cs pos = (h1, ks, cs1) \<and> ch1 = Node4 ks cs1"
  | (collapsed) h1 ch1 n where "removed h (child_map h (Node4 keys cs)) (key_byte key d) (h1, ch1)" "is_node4 ch1"
      "inner_ok (p @ prefix_of h) h1 ch1" "num_children h1 = 1" "\<forall>i < 3. IS_SPECIAL_KEY (entry_key (buffer h1 ! i))"
      "cnt = 0" "child_at ch1 0 = Some n" "child_map h1 ch1 = [child_key ch1 0 \<mapsto> n]"
      "\<And>hc chc. n = Inner hc chc \<Longrightarrow> hdr_ok hc \<and> partial_len h1 + 1 + partial_len hc \<le> 8"
      "m = Some (case n of Leaf l \<Rightarrow> Leaf l | Inner hc chc \<Rightarrow> Inner (merge_prefix h1 (child_key ch1 0) hc) chc)"
proof -
  let ?ch = "Node4 keys cs" and ?q = "p @ prefix_of h" and ?c = "key_byte key d"
  from ok have iok: "inner_ok ?q h ?ch" by (simp add: art_ok_inner)
  note D = inner_okD [OF iok]
  have dq: "d = length ?q" using d D(1) by simp
  obtain h1 ks cs1 where dr: "drop_child4 h keys cs pos = (h1, ks, cs1)" by (rule prod_cases3)
  obtain h2 ch2 n2 where fl: "flush_buffer d h1 (Node4 ks cs1) = (h2, ch2, n2)" by (rule prod_cases3)
  let ?ch1 = "Node4 ks cs1"
  have r: "removed h (child_map h ?ch) ?c (h1, ?ch1)"
    unfolding child_map4 by (rule drop_child4_ok [OF D(2) D(1) pos dr])
  have cm: "child_map h ?ch ?c = Some (Leaf l)" using find_child_at(1) [OF D(2) pos] l(1) by simp
  note I = inner_del [OF iok cm r b [folded l(2)], unfolded l(2)]
  have n4: "is_node4 ?ch1" by (simp add: is_node4_def)
  have "child_map h1 ?ch1 = (child_map h ?ch)(?c := None)" using r by simp
  then have pend: "pending (length ?q) 0 h1 ?ch1"
    using safe unfolding pending_def flush_safe_def dq I(4) by auto
  note F = flush_buffer_ok [OF I(1) n4 pend fl [unfolded dq]]
  show thesis
  proof (cases "n2 = 0 \<and> num_children h2 = 1")
    case False
    then have "m = Some (Inner h2 ch2)" "cnt = n2" using eq dr fl by (auto simp: remove_child4_def split: if_splits)
    with kept [OF r n4 I(1) pend [folded dq]] fl False dr show ?thesis by simp
  next
    case True
    then have same: "h2 = h1" "ch2 = ?ch1" and z: "\<forall>i < 3. IS_SPECIAL_KEY (entry_key (buffer h1 ! i))"
      using F(4) by simp_all
    have one: "num_children h1 = 1" using True same by simp
    obtain n where n: "child_at ?ch1 0 = Some n" "child_map h1 ?ch1 = [child_key ?ch1 0 \<mapsto> n]"
      by (rule node4_only_child [OF inner_okD(2) [OF I(1)] n4 one])
    define m' where "m' = (case n of Leaf l \<Rightarrow> Leaf l | Inner hc chc \<Rightarrow> Inner (merge_prefix h1 (child_key ?ch1 0) hc) chc)"
    have nok: "art_ok (?q @ [child_key ?ch1 0]) n" using inner_okD(5) [OF I(1)] n(2) by simp
    have pl: "hdr_ok hc \<and> partial_len h1 + 1 + partial_len hc \<le> 8" if "n = Inner hc chc" for hc chc
    proof -
      have i: "inner_ok ((?q @ [child_key ?ch1 0]) @ prefix_of hc) hc chc" using nok unfolding that art_ok_inner .
      note D' = inner_okD [OF i]
      have "length (prefix_of h) = partial_len h1" using I(3) inner_okD(1) [OF I(1)] by (metis length_prefix_of)
      with D'(1,3) show ?thesis by simp
    qed
    have m: "cnt = 0" "m = Some m'" using eq dr fl True n same
      by (cases n; auto simp: remove_child4_def m'_def)+
    show ?thesis by (rule collapsed [OF r n4 I(1) one z m(1) n pl m(2) [unfolded m'_def]])
  qed
qed

end
