(* ===== verification/ART_Buffers.thy ===== *)
theory ART_Buffers
  imports ART_Changes
begin

text \<open>
  How many keys of a tree are in node buffers, and that \<open>buffer_count\<close> is this number: \<open>index_delete\<close>
  asks it whether to compact, and the compaction stops when it is 0.
\<close>

section \<open>Buffered keys\<close>

definition taken :: "entry \<Rightarrow> nat" where
  "taken e = (if entry_key e = 0 then 0 else 1)"

definition used :: "art_hdr \<Rightarrow> nat" where
  "used h = (\<Sum>i<3. taken (buffer h ! i))"

definition over_kids :: "(art_node \<Rightarrow> nat) \<Rightarrow> (u8 \<Rightarrow> art_node option) \<Rightarrow> nat" where
  "over_kids f m = (\<Sum>c\<in>UNIV. case m c of None \<Rightarrow> 0 | Some n \<Rightarrow> f n)"

lemma over_kids_cong [fundef_cong]:
  assumes "m = m'" "\<And>c n. m' c = Some n \<Longrightarrow> f n = g n"
  shows "over_kids f m = over_kids g m'"
  unfolding over_kids_def assms(1) by (rule sum.cong) (auto simp: assms(2) split: option.split)

lemma over_kids_empty [simp]: "over_kids f Map.empty = 0"
  by (simp add: over_kids_def)

lemma over_kids_upd: "over_kids f (m(c := x)) + (case m c of None \<Rightarrow> 0 | Some n \<Rightarrow> f n) =
    over_kids f m + (case x of None \<Rightarrow> 0 | Some n \<Rightarrow> f n)"
proof -
  let ?g = "\<lambda>m c. case m c of None \<Rightarrow> 0 | Some n \<Rightarrow> f n"
  have "over_kids f m' = ?g m' c + (\<Sum>d\<in>UNIV - {c}. ?g m' d)" for m' :: "u8 \<Rightarrow> art_node option"
    unfolding over_kids_def by (rule sum.remove) simp_all
  moreover have "(\<Sum>d\<in>UNIV - {c}. ?g (m(c := x)) d) = (\<Sum>d\<in>UNIV - {c}. ?g m d)"
    by (rule sum.cong) simp_all
  ultimately show ?thesis by simp
qed

function buffered :: "art_node \<Rightarrow> nat" where
  "buffered (Leaf e) = 0"
| "buffered (Inner h ch) = used h + over_kids buffered (child_map h ch)"
  by pat_completeness auto
termination
  by (relation "measure size") (auto dest: size_child_map)

definition buffered_opt :: "art_node option \<Rightarrow> nat" where
  "buffered_opt n = (case n of None \<Rightarrow> 0 | Some n \<Rightarrow> buffered n)"

lemma buffered_opt_simps [simp]: "buffered_opt None = 0" "buffered_opt (Some n) = buffered n"
  by (simp_all add: buffered_opt_def)

lemma over_kids_opt: "over_kids buffered (m(c := x)) + buffered_opt (m c) = over_kids buffered m + buffered_opt x"
  using over_kids_upd [of buffered m c x] by (simp add: buffered_opt_def)

lemma used_cong: "buffer h' = buffer h \<Longrightarrow> used h' = used h"
  by (simp add: used_def)

lemma used_empty: "buffer h = replicate 3 empty_entry \<Longrightarrow> used h = 0"
  by (simp add: used_def taken_def empty_entry_def)

lemma used_zero: "used h = 0 \<longleftrightarrow> (\<forall>i < 3. entry_key (buffer h ! i) = 0)"
  by (auto simp: used_def taken_def)

lemma used_set:
  assumes "hdr_ok h" "i < 3"
  shows "used (set_buffer h i e) + taken (buffer h ! i) = used h + taken e"
proof -
  have l: "length (buffer h) = 3" using assms(1) by (simp add: hdr_ok_def)
  have "i = 0 \<or> i = 1 \<or> i = 2" using assms(2) by auto
  then show ?thesis using l by (auto simp: used_def set_buffer_def eval_nat_numeral)
qed

lemma buffered_cong:
  "num_children h' = num_children h \<Longrightarrow> buffer h' = buffer h \<Longrightarrow> buffered (Inner h' ch) = buffered (Inner h ch)"
  by (simp add: used_cong [of h' h] child_map_cong [of h' h])

lemma buffered_set:
  assumes "hdr_ok h" "i < 3"
  shows "buffered (Inner (set_buffer h i e) ch) + taken (buffer h ! i) =
    buffered (Inner h ch) + taken e"
  using used_set [OF assms, of e] by simp

lemma buffered_add_child:
  assumes "ch_ok h ch" "child_map h ch c = None" "hdr_ok h" "add_child h ch c x = (h', ch')"
  shows "buffered (Inner h' ch') = buffered (Inner h ch) + buffered x"
proof -
  have "child_map h' ch' = (child_map h ch)(c := Some x)" "hdr_sim h h'" using add_child_ok [OF assms] by simp_all
  then show ?thesis using over_kids_opt [of "child_map h ch" c "Some x"] assms(2) used_cong [of h' h]
    by (simp add: hdr_sim_def)
qed

lemma buffered_set_child:
  assumes "ch_ok h ch" "find_child h ch c = Some i"
  shows "buffered (Inner h (set_child ch i (Some m))) + buffered_opt (child_at ch i) = buffered (Inner h ch) + buffered m"
  using over_kids_opt [of "child_map h ch" c "Some m"] set_child_ok [OF assms, of m] find_child_at [OF assms] by simp

lemma buffered_removed:
  assumes "removed h (child_map h ch) c r" "child_map h ch c = Some (Leaf l)"
  shows "buffered (Inner (fst r) (snd r)) = buffered (Inner h ch)"
  using over_kids_opt [of "child_map h ch" c None] assms used_cong [of "fst r" h] by (simp add: hdr_sim_def)

section \<open>Insertion\<close>

lemma node4_of_two_buffered:
  assumes "hdr_ok h" "num_children h = 0" "c1 \<noteq> c2"
  shows "buffered (node4_of_two h c1 n1 c2 n2) = used h + buffered n1 + buffered n2"
proof -
  obtain h2 ch2 where n: "node4_of_two h c1 n1 c2 n2 = Inner h2 ch2" "child_map h2 ch2 = [c1 \<mapsto> n1, c2 \<mapsto> n2]" "hdr_sim h h2"
    by (rule node4_of_two_map [OF assms])
  then show ?thesis
    using over_kids_opt [of Map.empty c1 "Some n1"] over_kids_opt [of "[c1 \<mapsto> n1]" c2 "Some n2"] assms(3) used_cong [of h2 h]
    by (simp add: hdr_sim_def)
qed

lemma split_leaf_buffered:
  assumes "art_ok p (Leaf l)" "matches p key" "entry_key l \<noteq> key"
  shows "buffered (split_leaf l key v (length p)) = 0"
  by (rule split_leaf_two [OF assms, of v]) (simp add: node4_of_two_buffered used_empty)

lemma split_prefix_buffered:
  assumes "hdr_ok h" "diff < partial_len h" "partial h ! diff \<noteq> key_byte key (depth + diff)"
  shows "buffered (split_prefix h ch key v depth diff) = buffered (Inner h ch)"
proof (rule split_prefix_two [OF assms, of ch v])
  fix nh oh
  assume a: "split_prefix h ch key v depth diff =
      node4_of_two nh (partial h ! diff) (Inner oh ch) (key_byte key (depth + diff)) (Leaf (make_leaf key v))"
    "hdr_ok nh" "num_children nh = 0" "buffer nh = buffer h" "buffer oh = replicate 3 empty_entry"
    "num_children oh = num_children h"
  show ?thesis unfolding a(1) using node4_of_two_buffered [OF a(2,3) assms(3)] a(4-6) used_cong [of nh h]
    by (simp add: used_empty child_map_cong [of oh h])
qed

text \<open>The flag tells whether the key went into a buffer.\<close>

lemma grows_buffered:
  "grows key v p n n' flag \<Longrightarrow> art_ok p n \<Longrightarrow> \<not> IS_SPECIAL_KEY key \<Longrightarrow> buffered n' = buffered n + of_bool (odd flag)"
proof (induction rule: grows.induct)
  case (leaf_split e p)
  then show ?case using split_leaf_buffered by simp
next
  case (slot i h p ch)
  then show ?case
    using buffered_set [OF inner_okD(1) [OF slot(3) [unfolded art_ok_inner]], of i "(buffer h ! i)\<lparr>entry_value := v\<rparr>" ch]
    by (simp add: set_buffer_value_def taken_def del: buffered.simps)
next
  case (slot_new h i p ch)
  then show ?case
    using buffered_set [OF inner_okD(1) [OF slot_new(2) [unfolded art_ok_inner]], of i _ ch] buffer_slotD [OF slot_new(1)]
      not_special_nonzero [OF slot_new(3)]
    by (simp add: taken_def del: buffered.simps)
next
  case (prefix_split diff h p ch)
  then show ?case
    using split_prefix_buffered [OF inner_okD(1) [OF prefix_split(3) [unfolded art_ok_inner]] prefix_split(1,2)]
    by (simp del: buffered.simps)
next
  case (child_new h ch p h' ch')
  note D = inner_okD [OF child_new(3) [unfolded art_ok_inner]]
  have "child_map h ch (key_byte key (length p + partial_len h)) = None" using child_new(1) find_child_iff [OF D(2)] by simp
  from buffered_add_child [OF D(2) this D(1) child_new(2)] show ?case by simp
next
  case (child h ch b i n p n' flag)
  note D = inner_okD [OF child.prems(1) [unfolded art_ok_inner]]
  have "buffered n' = buffered n + of_bool (odd flag)"
    by (rule child.IH [OF child_ok(1) [OF child.prems(1) child.hyps(1,2)] child.prems(2)])
  then show ?case using buffered_set_child [OF D(2) child.hyps(1), of n'] child.hyps(2) by (simp del: buffered.simps)
qed simp_all

lemma insert_buffered:
  assumes "art_ok p n" "matches p key" "\<not> IS_SPECIAL_KEY key" "st < 8"
    and "recursive_insert (Some n) key (8 + st) value (length p) replace = (m, old, flag)"
  shows "buffered_opt m = buffered n + of_bool (odd flag)"
  using insert_grows [OF assms] grows_buffered [OF _ assms(1,3)] by auto

section \<open>Deletion\<close>

lemma flush_buffer_buffered:
  assumes iok: "inner_ok q h ch" and n4: "is_node4 ch" and pend: "pending (length q) 0 h ch"
    and eq: "flush_buffer (length q) h ch = (h', ch', cnt)"
  shows "buffered (Inner h' ch') + cnt = buffered (Inner h ch)"
proof (rule flush_buffer_induct [OF assms, of "\<lambda>h' ch' cnt. buffered (Inner h' ch') + cnt = buffered (Inner h ch)"])
  fix i e and h0 :: art_hdr and ch0 c0 h1 ch1
  assume a: "i < 3" "e = buffer h0 ! i" "inner_ok q h0 ch0" "\<not> IS_SPECIAL_KEY (entry_key e)"
    "child_map h0 ch0 (key_byte (entry_key e) (length q)) = None"
    "add_child h0 ch0 (key_byte (entry_key e) (length q)) (Leaf (make_leaf (entry_key e) (entry_value e))) = (h1, ch1)"
    and R: "buffered (Inner h0 ch0) + c0 = buffered (Inner h ch)"
  note D = inner_okD [OF a(3)]
  have s: "hdr_sim h0 h1" using add_child_ok [OF D(2) a(5) D(1) a(6)] by simp
  then have "buffer h1 = buffer h0" "hdr_ok h1" using hdr_sim_ok [OF D(1) s] by (simp_all add: hdr_sim_def)
  then show "buffered (Inner (set_buffer_key h1 i 0) ch1) + (c0 + 1) = buffered (Inner h ch)"
    using buffered_add_child [OF D(2) a(5) D(1) a(6)] buffered_set [of h1 i "e\<lparr>entry_key := 0\<rparr>" ch1] a(1,2)
      not_special_nonzero [OF a(4)] R by (simp add: set_buffer_key_def taken_def del: buffered.simps(2))
qed simp

text \<open>Path compression meets an empty buffer only.\<close>

lemma collapse_buffered:
  assumes iok: "inner_ok q h ch" and n4: "is_node4 ch" and one: "num_children h = 1"
    and b: "\<forall>i < 3. IS_SPECIAL_KEY (entry_key (buffer h ! i))" and n: "child_at ch 0 = Some n"
    and pl: "\<And>hc chc. n = Inner hc chc \<Longrightarrow> hdr_ok hc \<and> partial_len h + 1 + partial_len hc \<le> 8"
    and m: "m = (case n of Leaf l \<Rightarrow> Leaf l | Inner hc chc \<Rightarrow> Inner (merge_prefix h (child_key ch 0) hc) chc)"
  shows "buffered m = buffered (Inner h ch)"
proof -
  note D = inner_okD [OF iok]
  from node4_only_child [OF D(2) n4 one] n have cm: "child_map h ch = [child_key ch 0 \<mapsto> n]" by (metis option.inject)
  have "used h = 0" using D(4) b unfolding used_zero buf_ok_def by blast
  then have e: "buffered (Inner h ch) = buffered n"
    using cm over_kids_opt [of Map.empty "child_key ch 0" "Some n"] by simp
  show ?thesis
  proof (cases n)
    case (Inner hc chc)
    note M = merge_prefix_ok [OF D(1), of hc "child_key ch 0"]
    have "buffered m = buffered (Inner hc chc)"
      unfolding m Inner art_node.case using M(3,4) pl [OF Inner] by (intro buffered_cong) simp_all
    then show ?thesis using e Inner by simp
  qed (use e m in simp)
qed

lemma remove_child4_buffered:
  assumes ok: "art_ok p (Inner h (Node4 keys cs))" and d: "d = length p + partial_len h"
    and pos: "find_child h (Node4 keys cs) (key_byte key d) = Some pos"
    and l: "child_at (Node4 keys cs) pos = Some (Leaf l)" "entry_key l = key"
    and b: "buf_map h key = None" and safe: "flush_safe h (Node4 keys cs) (key_byte key d) d"
    and eq: "remove_child4 h keys cs pos d = (m, cnt)"
  shows "buffered_opt m + cnt = buffered (Inner h (Node4 keys cs))"
proof -
  note D = inner_okD [OF ok [unfolded art_ok_inner]]
  have dq: "d = length (p @ prefix_of h)" using d D(1) by simp
  have cm: "child_map h (Node4 keys cs) (key_byte key d) = Some (Leaf l)" using find_child_at(1) [OF D(2) pos] l(1) by simp
  show ?thesis
  proof (rule remove_child4_cases [OF assms])
    fix h1 ch1 h2 ch2
    assume a: "removed h (child_map h (Node4 keys cs)) (key_byte key d) (h1, ch1)" "is_node4 ch1"
      "inner_ok (p @ prefix_of h) h1 ch1" "pending d 0 h1 ch1" "flush_buffer d h1 ch1 = (h2, ch2, cnt)" "m = Some (Inner h2 ch2)"
    show ?thesis
      using flush_buffer_buffered [OF a(3,2) a(4,5) [unfolded dq]] buffered_removed [OF a(1) cm] a(6)
      unfolding fst_conv snd_conv by (simp del: buffered.simps)
  next
    fix h1 ch1 c n
    assume a: "removed h (child_map h (Node4 keys cs)) (key_byte key d) (h1, ch1)" "is_node4 ch1"
      "inner_ok (p @ prefix_of h) h1 ch1" "num_children h1 = 1" "\<forall>i < 3. IS_SPECIAL_KEY (entry_key (buffer h1 ! i))"
      "cnt = 0" "child_at ch1 0 = Some n"
      "\<And>hc chc. n = Inner hc chc \<Longrightarrow> hdr_ok hc \<and> partial_len h1 + 1 + partial_len hc \<le> 8"
      "m = Some (case n of Leaf l \<Rightarrow> Leaf l | Inner hc chc \<Rightarrow> Inner (merge_prefix h1 (child_key ch1 0) hc) chc)"
    show ?thesis
      using collapse_buffered [OF a(3,2,4,5,7,8) refl] buffered_removed [OF a(1) cm] a(6,9)
      unfolding fst_conv snd_conv by (simp del: buffered.simps)
  qed
qed

lemma remove_child_buffered:
  assumes ok: "art_ok p (Inner h ch)" and d: "d = length p + partial_len h"
    and pos: "find_child h ch (key_byte key d) = Some pos"
    and l: "child_at ch pos = Some (Leaf l)" "entry_key l = key"
    and b: "buf_map h key = None" and safe: "node_type_of ch = NODE4 \<longrightarrow> flush_safe h ch (key_byte key d) d"
    and eq: "remove_child h ch (key_byte key d) pos d = (m, cnt)"
  shows "buffered_opt m + cnt = buffered (Inner h ch)"
proof -
  let ?c = "key_byte key d"
  from ok have iok: "inner_ok (p @ prefix_of h) h ch" by (simp add: art_ok_inner)
  note D = inner_okD [OF iok]
  have cm: "child_map h ch ?c = Some (Leaf l)" using find_child_at(1) [OF D(2) pos] l(1) by simp
  show ?thesis
  proof (cases ch)
    case (Node4 keys cs)
    then show ?thesis using remove_child4_buffered [of p h keys cs d key pos l m cnt] assms by simp
  next
    case (Node16 keys cs)
    have "removed h (child_map h ch) ?c (remove_child16 h keys cs pos)"
      using remove_child16_ok [of h keys cs ?c pos] D(1,2) pos unfolding Node16 child_map_ok(2) [OF D(2) [unfolded Node16]] by blast
    from buffered_removed [OF this cm] show ?thesis using eq Node16 by (auto split: prod.splits)
  next
    case (Node48 keys cs)
    have "removed h (child_map h ch) ?c (remove_child48 h keys cs ?c)"
      using remove_child48_ok [of h keys cs ?c pos] D(1,2) pos unfolding Node48 child_map_ok(3) by blast
    from buffered_removed [OF this cm] show ?thesis using eq Node48 by (auto split: prod.splits)
  next
    case (Node256 cs)
    have "removed h (child_map h ch) ?c (remove_child256 h cs ?c)"
      using remove_child256_ok [of h cs ?c pos] D(1,2) pos unfolding Node256 child_map_ok(4) by blast
    from buffered_removed [OF this cm] show ?thesis using eq Node256 by (auto split: prod.splits)
  qed
qed

lemma shrinks_buffered:
  "shrinks key p n m cnt \<Longrightarrow> art_ok p n \<Longrightarrow> \<not> IS_SPECIAL_KEY key \<Longrightarrow> buffered_opt m + cnt = buffered n"
proof (induction rule: shrinks.induct)
  case (slot i h p ch)
  then show ?case
    using buffered_set [OF inner_okD(1) [OF slot(3) [unfolded art_ok_inner]], of i "(buffer h ! i)\<lparr>entry_key := 0\<rparr>" ch]
      not_special_nonzero [OF slot(4)]
    by (simp add: set_buffer_key_def taken_def del: buffered.simps)
next
  case (child_leaf h ch b i l d p m cnt)
  note c = child_leaf.hyps
  show ?case by (rule remove_child_buffered [OF child_leaf.prems(1) c(5) c(1,2,3) [unfolded c(4)] c(6,7,8) [unfolded c(4)]])
next
  case (child h ch b i n p n' cnt)
  note D = inner_okD [OF child.prems(1) [unfolded art_ok_inner]]
  have "buffered_opt (Some n') + cnt = buffered n"
    by (rule child.IH [OF child_ok(1) [OF child.prems(1) child.hyps(1,2)] child.prems(2)])
  then show ?case using buffered_set_child [OF D(2) child.hyps(1), of n'] child.hyps(2) by (simp del: buffered.simps)
qed simp_all

lemma delete_buffered:
  assumes "art_ok p n" "matches p key" "\<not> IS_SPECIAL_KEY key" "del_safe key (length p) (Some n)"
    and "recursive_delete (Some n) key 8 (length p) = (m, old)"
  shows "buffered_opt m + tag_of old = buffered n"
  by (rule shrinks_buffered [OF delete_shrinks [OF assms] assms(1,3)])

end
