(* ===== verification/Node_Invariant.thy ===== *)
theory Node_Invariant
  imports ART_Changes
begin

text \<open>
  Invariants of the nodes of a tree. Every inner node has enough children for its kind: the next smaller kind
  would take over when it has fewer, with some slack so that a node does not grow and shrink in turn. The
  locale \<open>node_invariant\<close> states what a further condition on nodes must promise about the operations on
  one node; insertions and deletions then keep it, together with the number of children, in all nodes of a tree.
\<close>

section \<open>The number of children\<close>

fun min_children :: "node_type \<Rightarrow> nat" where
  "min_children NODE4 = 2"
| "min_children NODE16 = 4"
| "min_children NODE48 = 13"
| "min_children NODE256 = 38"

fun max_children :: "node_type \<Rightarrow> nat" where
  "max_children NODE4 = 4"
| "max_children NODE16 = 16"
| "max_children NODE48 = 48"
| "max_children NODE256 = 256"

definition kids :: "art_hdr \<Rightarrow> 'n children \<Rightarrow> nat" where
  "kids h ch = card (dom (child_map h ch))"

definition enough :: "art_hdr \<Rightarrow> 'n children \<Rightarrow> bool" where
  "enough h ch \<longleftrightarrow> min_children (node_type_of ch) \<le> kids h ch"

lemma kids_cong: "num_children h' = num_children h \<Longrightarrow> kids h' ch = kids h ch"
  by (simp add: kids_def child_map_cong [of h' h])

lemma kids_nch: "ch_ok h ch \<Longrightarrow> node_type_of ch \<noteq> NODE256 \<Longrightarrow> kids h ch = nch h"
  by (cases ch) (simp_all add: kids_def child_map_ok card_dom_lin_map)

lemma kids_max:
  assumes "ch_ok h ch"
  shows "kids h ch \<le> max_children (node_type_of ch)"
proof (cases ch)
  case (Node4 keys cs)
  then show ?thesis using assms kids_nch [OF assms] by (simp add: lin_ok_def)
next
  case (Node16 keys cs)
  then show ?thesis using assms kids_nch [OF assms] by (simp add: lin_ok_def)
next
  case (Node48 keys cs)
  then have ok: "idx_ok keys cs" using assms by simp
  let ?f = "\<lambda>c. unat (keys ! unat c) - 1"
  have "inj_on ?f (dom (idx_map keys cs))"
  proof (rule inj_onI)
    fix c d assume "c \<in> dom (idx_map keys cs)" "d \<in> dom (idx_map keys cs)" and e: "?f c = ?f d"
    then have c: "keys ! unat c \<noteq> 0" and d: "keys ! unat d \<noteq> 0" by (simp_all add: domIff idx_map_None_iff [OF ok])
    then have "unat (keys ! unat c) = unat (keys ! unat d)" using e idx_okD [OF ok c] idx_okD [OF ok d] by linarith
    with idx_ok_inj [OF ok c] show "c = d" .
  qed
  moreover have "?f ` dom (idx_map keys cs) \<subseteq> {..<48}"
  proof (rule image_subsetI)
    fix c assume "c \<in> dom (idx_map keys cs)"
    then have "keys ! unat c \<noteq> 0" by (simp add: domIff idx_map_None_iff [OF ok])
    with idx_okD [OF ok] show "?f c \<in> {..<48}" by simp
  qed
  ultimately have "card (dom (idx_map keys cs)) \<le> 48" using card_inj_on_le [of ?f _ "{..<48}"] by simp
  then show ?thesis by (simp add: kids_def child_map48 Node48)
next
  case (Node256 cs)
  have "card (dom (child_map h ch)) \<le> card (UNIV :: u8 set)" by (rule card_mono) simp_all
  then show ?thesis by (simp add: kids_def card_word Node256)
qed

lemma kids_add:
  assumes "ch_ok h ch" "child_map h ch c = None" "hdr_ok h" "add_child h ch c x = (h', ch')"
  shows "kids h' ch' = kids h ch + 1"
  using add_child_ok [OF assms] assms(2) by (simp add: kids_def card_dom_upd)

lemma kids_removed:
  assumes "removed h (child_map h ch) c (h', ch')" "child_map h ch c \<noteq> None"
  shows "kids h' ch' + 1 = kids h ch"
proof -
  obtain x where x: "child_map h ch c = Some x" using assms(2) by blast
  have "kids h' ch' = card (dom (child_map h ch) - {c})" using assms(1) by (simp add: kids_def)
  also have "\<dots> + 1 = kids h ch" using card_dom_pos [of "child_map h ch", OF x] x by (simp add: kids_def card_Diff_singleton domI)
  finally show ?thesis .
qed

text \<open>A node that is full grows, and the new kind has enough children at once.\<close>

lemma add_child_type:
  assumes "ch_ok h ch" "add_child h ch c x = (h', ch')"
  shows "node_type_of ch' = node_type_of ch \<or> min_children (node_type_of ch') \<le> nch h"
proof (cases ch)
  case (Node4 keys cs)
  have "nch (copy_header zero_hdr h) = nch h" by simp
  then show ?thesis using assms Node4
    by (auto simp: add_child4_def add_child16_def lin_ok_def Let_def split: if_splits)
next
  case (Node16 keys cs)
  then show ?thesis using assms
    by (auto simp: add_child16_def add_child48_def Let_def lin_ok_def split: if_splits)
next
  case (Node48 keys cs)
  then show ?thesis using assms by (auto simp: add_child48_def add_child256_def Let_def split: if_splits)
next
  case (Node256 cs)
  then show ?thesis using assms by (auto simp: add_child256_def)
qed

lemma enough_add:
  assumes "ch_ok h ch" "child_map h ch c = None" "hdr_ok h" "add_child h ch c x = (h', ch')" "enough h ch"
  shows "enough h' ch'"
proof (cases "node_type_of ch' = node_type_of ch")
  case True
  then show ?thesis using kids_add [OF assms(1-4)] assms(5) by (simp add: enough_def)
next
  case False
  then have "min_children (node_type_of ch') \<le> nch h" using add_child_type [OF assms(1,4)] by blast
  moreover have "node_type_of ch \<noteq> NODE256" using False assms(4) by (cases ch) (auto simp: add_child256_def)
  ultimately show ?thesis using kids_nch [OF assms(1)] kids_add [OF assms(1-4)] by (simp add: enough_def)
qed

text \<open>A removal that leaves too few children for the kind of the node changes the kind.\<close>

lemma enough_remove:
  assumes ok: "ch_ok h ch" "hdr_ok h" and n4: "node_type_of ch \<noteq> NODE4" and f: "find_child h ch c = Some pos"
    and eq: "remove_child h ch c pos d = (Some (Inner h' ch'), cnt)" and en: "enough h ch"
    and r: "removed h (child_map h ch) c (h', ch')"
  shows "enough h' ch'"
proof -
  have k: "kids h' ch' + 1 = kids h ch" using kids_removed [OF r] find_child_at(2) [OF ok(1) f] by simp
  have num: "num_children h' = num_children h - 1" using r by simp
  show ?thesis
  proof (cases ch)
    case (Node4 keys cs)
    then show ?thesis using n4 by simp
  next
    case (Node16 keys cs)
    have "kids h ch = nch h" using kids_nch [OF ok(1)] Node16 by simp
    moreover have "nch h' = nch h - 1" using k num calculation en by (simp add: enough_def Node16 nch_pred)
    ultimately have "kids h' ch' = nch h'" using k by simp
    moreover have "nch h' = 3 \<longleftrightarrow> num_children h' = 3" by (simp add: word_unat_eq_iff)
    moreover have "num_children h' \<noteq> 3 \<and> node_type_of ch' = NODE16 \<or> num_children h' = 3 \<and> node_type_of ch' = NODE4"
      using eq Node16 num by (auto simp: remove_child16_def Let_def split: if_splits)
    ultimately show ?thesis using k en Node16 by (auto simp: enough_def)
  next
    case (Node48 keys cs)
    have "kids h ch = nch h" using kids_nch [OF ok(1)] Node48 by simp
    moreover have "nch h' = nch h - 1" using k num calculation en by (simp add: enough_def Node48 nch_pred)
    ultimately have "kids h' ch' = nch h'" using k by simp
    moreover have "nch h' = 12 \<longleftrightarrow> num_children h' = 12" by (simp add: word_unat_eq_iff)
    moreover have "num_children h' \<noteq> 12 \<and> node_type_of ch' = NODE48 \<or> num_children h' = 12 \<and> node_type_of ch' = NODE16"
      using eq Node48 num by (auto simp: remove_child48_def Let_def split: if_splits prod.splits)
    ultimately show ?thesis using k en Node48 by (auto simp: enough_def)
  next
    case (Node256 cs)
    have n: "num_children h' = of_nat (kids h' ch')" using r num_children_card [of h' ch'] by (simp add: kids_def)
    have "kids h ch \<le> 256" using kids_max [OF ok(1)] Node256 by simp
    then have "nch h' = kids h' ch'" using k n by simp
    moreover have "nch h' = 37 \<longleftrightarrow> num_children h' = 37" by (simp add: word_unat_eq_iff)
    moreover have "num_children h' \<noteq> 37 \<and> node_type_of ch' = NODE256 \<or> num_children h' = 37 \<and> node_type_of ch' = NODE48"
      using eq Node256 num by (auto simp: remove_child256_def Let_def split: if_splits prod.splits)
    ultimately show ?thesis using k en Node256 by (auto simp: enough_def)
  qed
qed

section \<open>Conditions on all nodes\<close>

text \<open>\<open>tidy Q n\<close>: every inner node of \<open>n\<close> has enough children and satisfies \<open>Q\<close>.\<close>

function tidy :: "(art_hdr \<Rightarrow> art_node children \<Rightarrow> bool) \<Rightarrow> art_node \<Rightarrow> bool" where
  "tidy Q (Leaf e) \<longleftrightarrow> True"
| "tidy Q (Inner h ch) \<longleftrightarrow> enough h ch \<and> Q h ch \<and> (\<forall>c n. child_map h ch c = Some n \<longrightarrow> tidy Q n)"
  by pat_completeness auto
termination
  by (relation "measure (\<lambda>(_, n). size n)") (auto dest: size_child_map)

definition key_in :: "(u8 \<Rightarrow> bool) \<Rightarrow> u64 \<Rightarrow> bool" where
  "key_in B k \<longleftrightarrow> (\<forall>b \<in> set (key_bytes k). B b)"

definition buffer_in :: "(u8 \<Rightarrow> bool) \<Rightarrow> art_hdr \<Rightarrow> bool" where
  "buffer_in B h \<longleftrightarrow> (\<forall>i < 3. \<not> IS_SPECIAL_KEY (entry_key (buffer h ! i)) \<longrightarrow> key_in B (entry_key (buffer h ! i)))"

text \<open>\<open>bytes_in B n\<close>: the bytes of prefixes, of keys and of the edges to children satisfy \<open>B\<close>.\<close>

function bytes_in :: "(u8 \<Rightarrow> bool) \<Rightarrow> art_node \<Rightarrow> bool" where
  "bytes_in B (Leaf e) \<longleftrightarrow> key_in B (entry_key e)"
| "bytes_in B (Inner h ch) \<longleftrightarrow> (\<forall>b \<in> set (prefix_of h). B b) \<and> buffer_in B h \<and>
    (\<forall>c n. child_map h ch c = Some n \<longrightarrow> B c \<and> bytes_in B n)"
  by pat_completeness auto
termination
  by (relation "measure (\<lambda>(_, n). size n)") (auto dest: size_child_map)

lemma key_inD: "key_in B k \<Longrightarrow> i < 8 \<Longrightarrow> B (key_byte k i)"
  using nth_mem [of i "key_bytes k"] by (simp add: key_in_def)

lemma bytes_in_True: "bytes_in (\<lambda>_. True) n"
  by (induction "\<lambda>_ :: u8. True" n rule: bytes_in.induct) (simp_all add: key_in_def buffer_in_def)

text \<open>The bytes of a tree whose nodes have children are bytes of its keys.\<close>

lemma enough_kid:
  assumes "enough h ch"
  obtains c n where "child_map h ch c = Some n"
proof -
  have "dom (child_map h ch) \<noteq> {}" using assms by (cases "node_type_of ch") (auto simp: enough_def kids_def)
  then obtain c where "c \<in> dom (child_map h ch)" by blast
  with that show thesis by blast
qed

lemma tidy_has_key:
  assumes "art_ok p n" "tidy Q n"
  obtains k where "node_map (length p) n k \<noteq> None" "matches p k"
proof -
  have "\<exists>k. node_map (length p) n k \<noteq> None"
    using assms
  proof (induction p n rule: art_ok.induct)
    case (ok_leaf e p)
    then have "node_map (length p) (Leaf e) (entry_key e) \<noteq> None"
      using node_map_leaf [OF art_ok.ok_leaf, of e p] by simp
    then show ?case by blast
  next
    case (ok_inner h ch p)
    then have ok: "art_ok p (Inner h ch)" by (intro art_ok.ok_inner)
    let ?q = "p @ prefix_of h"
    note D = inner_okD [OF ok [unfolded art_ok_inner]]
    from ok_inner.prems have "enough h ch" by simp
    then obtain c n where c: "child_map h ch c = Some n" by (rule enough_kid)
    have lq: "length ?q + 1 = length (p @ prefix_of h @ [c])" by simp
    obtain k where k: "node_map (length ?q + 1) n k \<noteq> None"
      using ok_inner.IH [OF c] ok_inner.prems c unfolding lq by auto
    have "matches ?q k" "key_byte k (length ?q) = c" using node_map_snoc [OF D(5) [OF c] k D(3)] by simp_all
    then have "inner_map ?q h ch k \<noteq> None" using k c by (simp add: inner_map_def kid_map_def split: option.split)
    then show ?case using node_map_inner [OF ok] by auto
  qed
  then show thesis using that node_map_matches [OF assms(1)] by blast
qed

lemma child_keys:
  assumes ok: "art_ok p (Inner h ch)" and c: "child_map h ch c = Some n"
    and k: "node_map (length (p @ prefix_of h @ [c])) n k \<noteq> None"
  shows "node_map (length p) (Inner h ch) k \<noteq> None"
proof -
  let ?q = "p @ prefix_of h"
  note D = inner_okD [OF ok [unfolded art_ok_inner]]
  have lq: "length (p @ prefix_of h @ [c]) = length ?q + 1" by simp
  have "matches ?q k" "key_byte k (length ?q) = c" using node_map_snoc [OF D(5) [OF c] k [unfolded lq] D(3)] by simp_all
  then show ?thesis using k [unfolded lq] c
    by (simp add: node_map_inner [OF ok] inner_map_def kid_map_def split: option.split)
qed

lemma keys_bytes_in:
  assumes "art_ok p n" "tidy Q n" "\<And>k. node_map (length p) n k \<noteq> None \<Longrightarrow> key_in B k"
  shows "bytes_in B n"
  using assms
proof (induction p n rule: art_ok.induct)
  case (ok_leaf e p)
  then show ?case using node_map_leaf [OF art_ok.ok_leaf, of e p] by (metis bytes_in.simps(1) fun_upd_same option.distinct(1))
next
  case (ok_inner h ch p)
  then have ok: "art_ok p (Inner h ch)" by (intro art_ok.ok_inner)
  let ?q = "p @ prefix_of h"
  note D = inner_okD [OF ok [unfolded art_ok_inner]]
  have nth: "B (b ! i)" if "matches (p @ b) k" "key_in B k" "i < length b" for b k i
  proof -
    have "length (p @ b) \<le> 8" by (rule matches_length [OF that(1)])
    then have "key_byte k (length p + i) = (p @ b) ! (length p + i)" "length p + i < 8"
      using that(1,3) matches_iff [of "p @ b" k] by simp_all
    with key_inD [OF that(2)] show ?thesis by (metis nth_append_length_plus)
  qed
  obtain k where k: "node_map (length p) (Inner h ch) k \<noteq> None" "matches p k"
    by (rule tidy_has_key [OF ok ok_inner.prems(1)])
  have kid: "B c \<and> bytes_in B n \<and> (\<forall>b \<in> set (prefix_of h). B b)" if c: "child_map h ch c = Some n" for c n
  proof -
    let ?p = "p @ prefix_of h @ [c]"
    have n: "art_ok ?p n" "tidy Q n" using D(5) [OF c] ok_inner.prems(1) c by simp_all
    have keys: "key_in B k" if "node_map (length ?p) n k \<noteq> None" for k
      by (rule ok_inner.prems(2) [OF child_keys [OF ok c that]])
    obtain k where k: "node_map (length ?p) n k \<noteq> None" "matches ?p k" by (rule tidy_has_key [OF n])
    have "\<forall>i < length (prefix_of h @ [c]). B ((prefix_of h @ [c]) ! i)" using nth [OF k(2) keys [OF k(1)]] by blast
    then have "\<forall>b \<in> set (prefix_of h @ [c]). B b" by (metis in_set_conv_nth)
    then show ?thesis using ok_inner.IH [OF c n(2) keys] by simp
  qed
  from ok_inner.prems(1) have "enough h ch" by simp
  then obtain c n where "child_map h ch c = Some n" by (rule enough_kid)
  then have "\<forall>b \<in> set (prefix_of h). B b" using kid by blast
  moreover have "buffer_in B h"
    unfolding buffer_in_def
  proof (intro allI impI)
    fix i assume i: "i < 3" "\<not> IS_SPECIAL_KEY (entry_key (buffer h ! i))"
    then have "buf_map h (entry_key (buffer h ! i)) \<noteq> None" using buf_map_Some_iff [OF D(4)] by blast
    then have "node_map (length p) (Inner h ch) (entry_key (buffer h ! i)) \<noteq> None"
      by (auto simp: node_map_inner [OF ok] inner_map_def)
    then show "key_in B (entry_key (buffer h ! i))" by (rule ok_inner.prems(2))
  qed
  ultimately show ?case using kid by auto
qed

section \<open>The contract of a condition on nodes\<close>

text \<open>\<open>Q\<close> is a condition on an inner node that its operations keep as long as the bytes of its children satisfy \<open>B\<close>;
  a node without children has it.\<close>

locale node_invariant =
  fixes Q :: "art_hdr \<Rightarrow> art_node children \<Rightarrow> bool" and B :: "u8 \<Rightarrow> bool"
  assumes fresh: "num_children h = 0 \<Longrightarrow> is_node4 ch \<Longrightarrow> Q h ch"
    and same: "num_children h' = num_children h \<Longrightarrow> Q h ch \<Longrightarrow> Q h' ch"
    and set: "Q h ch \<Longrightarrow> Q h (set_child ch i y)"
    and add: "ch_ok h ch \<Longrightarrow> child_map h ch c = None \<Longrightarrow> hdr_ok h \<Longrightarrow> add_child h ch c x = (h', ch') \<Longrightarrow>
      (\<And>b. b \<in> dom (child_map h ch) \<Longrightarrow> B b) \<Longrightarrow> B c \<Longrightarrow> Q h ch \<Longrightarrow> Q h' ch'"
    and drop: "ch_ok h (Node4 keys cs) \<Longrightarrow> find_child h (Node4 keys cs) c = Some pos \<Longrightarrow>
      drop_child4 h keys cs pos = (h', ks, cs') \<Longrightarrow> Q h (Node4 keys cs) \<Longrightarrow> Q h' (Node4 ks cs')"
    and remove: "ch_ok h ch \<Longrightarrow> hdr_ok h \<Longrightarrow> node_type_of ch \<noteq> NODE4 \<Longrightarrow> find_child h ch c = Some pos \<Longrightarrow>
      remove_child h ch c pos d = (Some (Inner h' ch'), cnt) \<Longrightarrow> Q h ch \<Longrightarrow> Q h' ch'"
begin

lemma tidy_cong: "num_children h' = num_children h \<Longrightarrow> tidy Q (Inner h ch) \<Longrightarrow> tidy Q (Inner h' ch)"
  using same [of h' h ch] by (simp add: enough_def kids_cong [of h' h] child_map_cong [of h' h])

lemma tidy_two:
  assumes h: "hdr_ok h" "num_children h = 0" and c: "c1 \<noteq> c2" "B c1" "B c2" and n: "tidy Q n1" "tidy Q n2"
  shows "tidy Q (node4_of_two h c1 n1 c2 n2)"
proof -
  let ?ch = "snd (alloc_node NODE4) :: art_node children"
  obtain h1 ch1 where 1: "add_child h ?ch c1 n1 = (h1, ch1)" by (rule prod.exhaust)
  obtain h2 ch2 where 2: "add_child h1 ch1 c2 n2 = (h2, ch2)" by (rule prod.exhaust)
  have ok: "ch_ok h ?ch" using h(2) by (simp add: lin_ok_def)
  have "kids h ?ch = 0" using kids_nch [OF ok] h(2) by simp
  then have cm: "child_map h ?ch = Map.empty" by (simp add: kids_def)
  note A = add_child_ok [OF ok _ h(1) 1]
  have A: "ch_ok h1 ch1" "child_map h1 ch1 = [c1 \<mapsto> n1]" "hdr_ok h1" using A cm hdr_sim_ok [OF h(1), of h1] by simp_all
  have m2: "child_map h2 ch2 = [c1 \<mapsto> n1, c2 \<mapsto> n2]"
    using add_child_ok [OF A(1) _ A(3) 2] A(2) c(1) by (simp add: fun_upd_twist)
  have q1: "Q h1 ch1" using add [OF ok _ h(1) 1 _ c(2) fresh [OF h(2)]] cm by (simp add: is_node4_def)
  have "Q h2 ch2" using add [OF A(1) _ A(3) 2 _ c(3) q1] A(2) c(1,2) by simp
  obtain h3 ch3 where 3: "node4_of_two h c1 n1 c2 n2 = Inner h3 ch3" "is_node4 ch3"
    by (rule node4_of_two_map [OF h c(1)])
  then have e: "h3 = h2" "ch3 = ch2" using 1 2 by (simp_all add: node4_of_two_def)
  have "kids h2 ch2 = 2" using m2 c(1) by (simp add: kids_def)
  then have "enough h2 ch2" using 3(2) e by (simp add: enough_def is_node4_def)
  with \<open>Q h2 ch2\<close> m2 n show ?thesis unfolding 3(1) e by auto
qed

lemma tidy_set_child:
  assumes ok: "art_ok p (Inner h ch)" and i: "find_child h ch b = Some i" and c: "child_map h ch b = Some n"
    and t: "tidy Q (Inner h ch)" "tidy Q n'"
  shows "tidy Q (Inner h (set_child ch i (Some n')))"
proof -
  note S = set_child_ok [OF inner_okD(2) [OF ok [unfolded art_ok_inner]] i, of n']
  have "kids h (set_child ch i (Some n')) = kids h ch" using S c by (simp add: kids_def insert_absorb domI)
  moreover have "node_type_of (set_child ch i (Some n')) = node_type_of ch" by (cases ch) simp_all
  ultimately show ?thesis using S t set [of h ch i "Some n'"] by (simp add: enough_def)
qed

text \<open>Insertion.\<close>

lemma grows_tidy:
  "grows key v p n n' flag \<Longrightarrow> art_ok p n \<Longrightarrow> key_in B key \<Longrightarrow> bytes_in B n \<Longrightarrow> tidy Q n \<Longrightarrow> tidy Q n'"
proof (induction rule: grows.induct)
  case (leaf_split e p)
  show ?case
  proof (rule split_leaf_two [OF leaf_split(3,2,1), of v])
    fix h i
    assume a: "split_leaf e key v (length p) =
        node4_of_two h (key_byte (entry_key e) i) (Leaf e) (key_byte key i) (Leaf (make_leaf key v))"
      "hdr_ok h" "num_children h = 0" "key_byte (entry_key e) i \<noteq> key_byte key i" "i < 8"
    have "B (key_byte (entry_key e) i)" "B (key_byte key i)" using leaf_split(4,5) a(5) by (simp_all add: key_inD)
    then show ?case unfolding a(1) by (rule tidy_two [OF a(2-4)]) simp_all
  qed
next
  case (slot i h p ch)
  show ?case by (rule tidy_cong [OF _ slot(6)]) (simp add: set_buffer_value_def set_buffer_def)
next
  case (slot_new h i p ch)
  show ?case by (rule tidy_cong [OF _ slot_new(5)]) (simp add: set_buffer_def)
next
  case (prefix_split diff h p ch)
  note D = inner_okD [OF prefix_split(3) [unfolded art_ok_inner]]
  have b: "B (partial h ! diff)"
    using nth_mem [of diff "prefix_of h"] prefix_split(1,5) D(1) by (simp add: prefix_of_def hdr_ok_def)
  have k: "B (key_byte key (length p + diff))" using prefix_split(1,4) D(1,3) by (simp add: key_inD)
  show ?case
  proof (rule split_prefix_two [OF D(1) prefix_split(1,2), of ch v])
    fix nh oh
    assume a: "split_prefix h ch key v (length p) diff =
        node4_of_two nh (partial h ! diff) (Inner oh ch) (key_byte key (length p + diff)) (Leaf (make_leaf key v))"
      "hdr_ok nh" "num_children nh = 0" "num_children oh = num_children h"
    show ?case unfolding a(1) by (rule tidy_two [OF a(2,3) prefix_split(2) b k tidy_cong [OF a(4) prefix_split(6)]]) simp
  qed
next
  case (child_new h ch p h' ch')
  note D = inner_okD [OF child_new(3) [unfolded art_ok_inner]]
  have c: "child_map h ch (key_byte key (length p + partial_len h)) = None"
    using child_new(1) find_child_iff [OF D(2)] by simp
  have "B (key_byte key (length p + partial_len h))" using child_new(4) D(1,3) by (simp add: key_inD)
  then have "Q h' ch'" using add [OF D(2) c D(1) child_new(2)] child_new(5,6) by auto
  then show ?case
    using enough_add [OF D(2) c D(1) child_new(2)] add_child_ok [OF D(2) c D(1) child_new(2)] child_new(6) by auto
next
  case (child h ch b i n p n' flag)
  note C = child_ok [OF child.prems(1) child.hyps(1,2)]
  have "tidy Q n'" using child.IH [OF C(1) child.prems(2)] child.prems(3,4) C(3) by simp
  then show ?case by (rule tidy_set_child [OF child.prems(1) child.hyps(1) C(3) child.prems(4)])
qed simp_all
text \<open>Deletion: first the flush of the buffer of a \<open>Node4\<close>.\<close>

abbreviation flushing :: "art_hdr \<Rightarrow> art_node children \<Rightarrow> bool" where
  "flushing h ch \<equiv> Q h ch \<and> is_node4 ch \<and> buffer_in B h \<and> (\<forall>c n. child_map h ch c = Some n \<longrightarrow> B c \<and> tidy Q n)"

lemma flush_step_tidy:
  assumes i: "i < 3" and e: "e = buffer h ! i" "\<not> IS_SPECIAL_KEY (entry_key e)" and iok: "inner_ok q h ch" and n: "nch h < 4"
    and c: "child_map h ch (key_byte (entry_key e) (length q)) = None"
    and a: "add_child h ch (key_byte (entry_key e) (length q)) (Leaf (make_leaf (entry_key e) (entry_value e))) = (h1, ch1)"
    and R: "flushing h ch \<and> kids h ch = k + cnt"
  shows "flushing (set_buffer_key h1 i 0) ch1 \<and> kids (set_buffer_key h1 i 0) ch1 = k + (cnt + 1)"
proof -
  note D = inner_okD [OF iok]
  note A = add_child_ok [OF D(2) c D(1) a]
  have num: "num_children (set_buffer_key h1 i 0) = num_children h1" by (simp add: set_buffer_key_def set_buffer_def)
  have b: "B (key_byte (entry_key e) (length q))"
    using R i e key_inD [OF _ D(3)] unfolding buffer_in_def by blast
  have "Q h1 ch1" using add [OF D(2) c D(1) a _ b] R by blast
  then have "Q (set_buffer_key h1 i 0) ch1" by (rule same [OF num])
  moreover have "is_node4 ch1" using add_child4_clear [OF a _ n] R by simp
  moreover have "buffer_in B (set_buffer_key h1 i 0)"
  proof -
    have l: "buffer h1 = buffer h" "length (buffer h) = 3" using A D(1) by (simp_all add: hdr_sim_def hdr_ok_def)
    have "buffer (set_buffer_key h1 i 0) ! j = (if j = i then (buffer h ! i)\<lparr>entry_key := 0\<rparr> else buffer h ! j)" if "j < 3" for j
      using l i that by (simp add: set_buffer_key_def set_buffer_def)
    then show ?thesis using R unfolding buffer_in_def by (simp add: IS_SPECIAL_KEY_iff)
  qed
  moreover have "\<forall>c n. child_map (set_buffer_key h1 i 0) ch1 c = Some n \<longrightarrow> B c \<and> tidy Q n"
    using A R b child_map_cong [OF num, of ch1] by auto
  moreover have "kids (set_buffer_key h1 i 0) ch1 = k + (cnt + 1)"
    using kids_add [OF D(2) c D(1) a] kids_cong [OF num, of ch1] conjunct2 [OF R] by simp
  ultimately show ?thesis by blast
qed

lemma flush_tidy:
  assumes iok: "inner_ok q h ch" and pend: "pending (length q) 0 h ch"
    and eq: "flush_buffer (length q) h ch = (h', ch', cnt)" and f: "flushing h ch"
  shows "flushing h' ch' \<and> kids h' ch' = kids h ch + cnt"
proof -
  have n4: "is_node4 ch" using f by blast
  show ?thesis
    by (rule flush_buffer_induct [OF iok n4 pend eq, of "\<lambda>h' ch' cnt. flushing h' ch' \<and> kids h' ch' = kids h ch + cnt"])
      (use f flush_step_tidy in simp, use flush_step_tidy in blast)
qed

lemma remove_child4_tidy:
  assumes ok: "art_ok p (Inner h (Node4 keys cs))" and d: "d = length p + partial_len h"
    and pos: "find_child h (Node4 keys cs) (key_byte key d) = Some pos"
    and l: "child_at (Node4 keys cs) pos = Some (Leaf l)" "entry_key l = key"
    and b: "buf_map h key = None" and safe: "flush_safe h (Node4 keys cs) (key_byte key d) d"
    and eq: "remove_child4 h keys cs pos d = (m, cnt)"
    and t: "bytes_in B (Inner h (Node4 keys cs))" "tidy Q (Inner h (Node4 keys cs))"
  shows "case m of None \<Rightarrow> True | Some n \<Rightarrow> tidy Q n"
proof -
  let ?ch = "Node4 keys cs"
  note D = inner_okD [OF ok [unfolded art_ok_inner]]
  have dq: "d = length (p @ prefix_of h)" using d D(1) by simp
  have c: "child_map h ?ch (key_byte key d) \<noteq> None" by (rule find_child_at(2) [OF D(2) pos])
  have "kids h ?ch = nch h" using kids_nch [OF D(2)] by simp
  with t(2) have k2: "2 \<le> kids h ?ch" by (simp add: enough_def)
  show ?thesis
  proof (rule remove_child4_cases [OF assms(1-8)])
    fix h1 ch1 h2 ch2
    assume a: "removed h (child_map h ?ch) (key_byte key d) (h1, ch1)" "is_node4 ch1" "inner_ok (p @ prefix_of h) h1 ch1"
      "pending d 0 h1 ch1" "flush_buffer d h1 ch1 = (h2, ch2, cnt)" "m = Some (Inner h2 ch2)" "cnt \<noteq> 0 \<or> num_children h2 \<noteq> 1"
      "\<exists>ks cs1. drop_child4 h keys cs pos = (h1, ks, cs1) \<and> ch1 = Node4 ks cs1"
    have "Q h1 ch1" using a(8) drop [OF D(2) pos] t(2) by auto
    moreover have "buffer_in B h1" using t(1) a(1) by (simp add: buffer_in_def hdr_sim_def)
    moreover have "\<forall>c n. child_map h1 ch1 c = Some n \<longrightarrow> B c \<and> tidy Q n" using t a(1) by simp
    ultimately have F: "flushing h2 ch2 \<and> kids h2 ch2 = kids h1 ch1 + cnt"
      using flush_tidy [OF a(3) a(4,5) [unfolded dq]] a(2) by blast
    moreover have "2 \<le> kids h2 ch2"
    proof -
      have "kids h1 ch1 + 1 = kids h ?ch" by (rule kids_removed [OF a(1) c])
      moreover have "kids h2 ch2 \<noteq> 1" if "cnt = 0"
      proof
        assume "kids h2 ch2 = 1"
        moreover have "h2 = h1 \<and> ch2 = ch1"
          using flush_buffer_ok(4) [OF a(3,2) a(4,5) [unfolded dq] that] by blast
        ultimately show False using num_children_card [of h1 ch1] a(1,7) that by (simp add: kids_def)
      qed
      ultimately show ?thesis using k2 F by (cases "cnt = 0") simp_all
    qed
    ultimately show ?thesis using a(6) by (simp add: enough_def is_node4_def)
  next
    fix h1 ch1 n
    assume a: "removed h (child_map h ?ch) (key_byte key d) (h1, ch1)" "inner_ok (p @ prefix_of h) h1 ch1"
      "child_map h1 ch1 = [child_key ch1 0 \<mapsto> n]"
      and pl: "\<And>hc chc. n = Inner hc chc \<Longrightarrow> hdr_ok hc \<and> partial_len h1 + 1 + partial_len hc \<le> 8"
      and m: "m = Some (case n of Leaf l \<Rightarrow> Leaf l | Inner hc chc \<Rightarrow> Inner (merge_prefix h1 (child_key ch1 0) hc) chc)"
    have "child_map h ?ch (child_key ch1 0) = Some n"
      using a(1,3) by (metis fst_conv snd_conv fun_upd_other fun_upd_same option.distinct(1))
    then have n: "tidy Q n" using t(2) by simp
    show ?thesis
    proof (cases n)
      case (Inner hc chc)
      then have "num_children (merge_prefix h1 (child_key ch1 0) hc) = num_children hc"
        using merge_prefix_ok(3) [OF inner_okD(1) [OF a(2)]] pl by blast
      from tidy_cong [OF this, of chc] show ?thesis using m n Inner by simp
    qed (simp add: m)
  qed
qed
lemma remove_child_tidy:
  assumes ok: "art_ok p (Inner h ch)" and d: "d = length p + partial_len h"
    and pos: "find_child h ch (key_byte key d) = Some pos" and l: "child_at ch pos = Some (Leaf l)" "entry_key l = key"
    and b: "buf_map h key = None" and safe: "node_type_of ch = NODE4 \<longrightarrow> flush_safe h ch (key_byte key d) d"
    and eq: "remove_child h ch (key_byte key d) pos d = (m, cnt)" and t: "bytes_in B (Inner h ch)" "tidy Q (Inner h ch)"
  shows "case m of None \<Rightarrow> True | Some n \<Rightarrow> tidy Q n"
proof (cases "node_type_of ch = NODE4")
  case True
  then obtain keys cs where "ch = Node4 keys cs" by (cases ch) simp_all
  then show ?thesis using remove_child4_tidy [of p h keys cs d key pos l m cnt] assms by simp
next
  case False
  note D = inner_okD [OF ok [unfolded art_ok_inner]]
  obtain h' ch' where m: "m = Some (Inner h' ch')" using eq False by (cases ch) (auto split: prod.splits)
  have r: "removed h (child_map h ch) (key_byte key d) (h', ch')"
  proof (cases ch)
    case (Node16 keys cs)
    then have "remove_child16 h keys cs pos = (h', ch')" using eq m by (auto split: prod.splits)
    with remove_child16_ok [OF D(2,1) [unfolded Node16] pos [unfolded Node16]] show ?thesis
      using D(2) by (simp add: Node16 child_map_ok)
  next
    case (Node48 keys cs)
    then have "remove_child48 h keys cs (key_byte key d) = (h', ch')" using eq m by (auto split: prod.splits)
    with remove_child48_ok [OF D(2,1) [unfolded Node48] pos [unfolded Node48]] show ?thesis
      using D(2) by (simp add: Node48 child_map_ok)
  next
    case (Node256 cs)
    then have "remove_child256 h cs (key_byte key d) = (h', ch')" using eq m by (auto split: prod.splits)
    with remove_child256_ok [OF D(2,1) [unfolded Node256] pos [unfolded Node256]] show ?thesis
      using D(2) by (simp add: Node256 child_map_ok)
  qed (use False in simp)
  have "enough h' ch'" using enough_remove [OF D(2,1) False pos eq [unfolded m] _ r] t(2) by simp
  moreover have "Q h' ch'" using remove [OF D(2,1) False pos eq [unfolded m]] t(2) by simp
  ultimately show ?thesis using r t(2) by (simp add: m)
qed

lemma shrinks_tidy:
  "shrinks key p n m cnt \<Longrightarrow> art_ok p n \<Longrightarrow> bytes_in B n \<Longrightarrow> tidy Q n \<Longrightarrow> case m of None \<Rightarrow> True | Some n \<Rightarrow> tidy Q n"
proof (induction rule: shrinks.induct)
  case (slot i h p ch)
  have "tidy Q (Inner (set_buffer_key h i 0) ch)"
    by (rule tidy_cong [OF _ slot(5)]) (simp add: set_buffer_key_def set_buffer_def)
  then show ?case by simp
next
  case (child_leaf h ch b i l d p m cnt)
  from child_leaf.hyps child_leaf.prems show ?case by (intro remove_child_tidy [of p h ch d key i l m cnt]) simp_all
next
  case (child h ch b i n p n' cnt)
  note C = child_ok [OF child.prems(1) child.hyps(1,2)]
  have "tidy Q n'" using child.IH [OF C(1)] child.prems(2,3) C(3) by simp
  with tidy_set_child [OF child.prems(1) child.hyps(1) C(3) child.prems(3)] show ?case by simp
qed simp_all

lemma insert_tidy:
  assumes "art_ok p n" "matches p key" "\<not> IS_SPECIAL_KEY key" "st < 8"
    and "recursive_insert (Some n) key (8 + st) value (length p) replace = (m, old, flag)"
    and "key_in B key" "bytes_in B n" "tidy Q n"
  shows "case m of None \<Rightarrow> True | Some n \<Rightarrow> tidy Q n"
  using insert_grows [OF assms(1-5)] grows_tidy [OF _ assms(1,6-8)] by auto

lemma delete_tidy:
  assumes "art_ok p n" "matches p key" "\<not> IS_SPECIAL_KEY key" "del_safe key (length p) (Some n)"
    and "recursive_delete (Some n) key 8 (length p) = (m, old)" "bytes_in B n" "tidy Q n"
  shows "case m of None \<Rightarrow> True | Some n \<Rightarrow> tidy Q n"
  by (rule shrinks_tidy [OF delete_shrinks [OF assms(1-5)] assms(1,6,7)])

end

section \<open>Enough children everywhere\<close>

interpretation sizes: node_invariant "\<lambda>_ _. True" "\<lambda>_. True"
  by unfold_locales simp_all

definition filled :: "art_node \<Rightarrow> bool" where
  "filled = tidy (\<lambda>_ _. True)"

definition filled_opt :: "art_node option \<Rightarrow> bool" where
  "filled_opt n \<longleftrightarrow> (case n of None \<Rightarrow> True | Some n \<Rightarrow> filled n)"

lemma filled_simps [simp]: "filled (Leaf e)" "filled_opt None" "filled_opt (Some n) = filled n"
  by (simp_all add: filled_def filled_opt_def)

lemma filled_inner: "filled (Inner h ch) \<longleftrightarrow> enough h ch \<and> (\<forall>c n. child_map h ch c = Some n \<longrightarrow> filled n)"
  by (simp add: filled_def)

lemma filled_set_buffer [simp]: "filled (Inner (set_buffer h i e) ch) = filled (Inner h ch)"
proof -
  have n: "num_children (set_buffer h i e) = num_children h" by (simp add: set_buffer_def)
  show ?thesis by (simp add: filled_inner enough_def kids_cong [OF n] child_map_cong [OF n])
qed

lemma filled_set_buffer_key [simp]: "filled (Inner (set_buffer_key h i k) ch) = filled (Inner h ch)"
  by (simp add: set_buffer_key_def)

lemma filled_set_buffer_value [simp]: "filled (Inner (set_buffer_value h i v) ch) = filled (Inner h ch)"
  by (simp add: set_buffer_value_def)

lemma filled_child: "filled (Inner h ch) \<Longrightarrow> child_map h ch c = Some n \<Longrightarrow> filled n"
  by (simp add: filled_inner)

lemma filled_set_child:
  assumes "art_ok p (Inner h ch)" "find_child h ch b = Some i" "child_map h ch b = Some n" "filled (Inner h ch)" "filled n'"
  shows "filled (Inner h (set_child ch i (Some n')))"
  unfolding filled_def by (rule sizes.tidy_set_child [OF assms(1-3) assms(4,5) [unfolded filled_def]])

lemma insert_filled:
  assumes "art_ok p n" "matches p key" "\<not> IS_SPECIAL_KEY key" "st < 8"
    and "recursive_insert (Some n) key (8 + st) value (length p) replace = (m, old, flag)" "filled n"
  shows "filled_opt m"
proof -
  have "key_in (\<lambda>_. True) key" by (simp add: key_in_def)
  from sizes.insert_tidy [OF assms(1-5) this bytes_in_True assms(6) [unfolded filled_def]]
  show ?thesis unfolding filled_opt_def filled_def .
qed

lemma delete_filled:
  assumes "art_ok p n" "matches p key" "\<not> IS_SPECIAL_KEY key" "del_safe key (length p) (Some n)"
    and "recursive_delete (Some n) key 8 (length p) = (m, old)" "filled n"
  shows "filled_opt m"
  unfolding filled_opt_def filled_def by (rule sizes.delete_tidy [OF assms(1-5) bytes_in_True assms(6) [unfolded filled_def]])

end
