(* ===== verification/KV_Interface.thy ===== *)
theory KV_Interface
  imports Common
begin

text \<open>
  The contract of a key-value store, for the stores the index is built from: after a \<open>put\<close> or a
  \<open>del\<close> that the store is safe for, its map is updated and its invariant kept. The reserved keys
  0 and 1 never reach a store. A run of such operations then agrees with a run on a plain map.
\<close>

datatype kv_op = Put u64 u64 | Del u64

fun op_key :: "kv_op \<Rightarrow> u64" where
  "op_key (Put k v) = k"
| "op_key (Del k) = k"

fun map_op :: "kv_op \<Rightarrow> (u64 \<Rightarrow> u64 option) \<Rightarrow> u64 \<Rightarrow> u64 option" where
  "map_op (Put k v) m = m(k \<mapsto> v)"
| "map_op (Del k) m = m(k := None)"

locale kv_store =
  fixes inv :: "'s \<Rightarrow> bool"
    and look :: "'s \<Rightarrow> u64 \<Rightarrow> u64 option"
    and put :: "u64 \<Rightarrow> u64 \<Rightarrow> 's \<Rightarrow> 's"
    and del :: "u64 \<Rightarrow> 's \<Rightarrow> 's"
    and put_safe :: "'s \<Rightarrow> u64 \<Rightarrow> u64 \<Rightarrow> bool"
    and del_safe :: "'s \<Rightarrow> u64 \<Rightarrow> bool"
  assumes put: "inv s \<Longrightarrow> \<not> IS_SPECIAL_KEY k \<Longrightarrow> put_safe s k v \<Longrightarrow>
      inv (put k v s) \<and> look (put k v s) = (look s)(k \<mapsto> v)"
    and del: "inv s \<Longrightarrow> \<not> IS_SPECIAL_KEY k \<Longrightarrow> del_safe s k \<Longrightarrow>
      inv (del k s) \<and> look (del k s) = (look s)(k := None)"
begin

fun do_op :: "kv_op \<Rightarrow> 's \<Rightarrow> 's" where
  "do_op (Put k v) s = put k v s"
| "do_op (Del k) s = del k s"

fun op_safe :: "'s \<Rightarrow> kv_op \<Rightarrow> bool" where
  "op_safe s (Put k v) \<longleftrightarrow> \<not> IS_SPECIAL_KEY k \<and> put_safe s k v"
| "op_safe s (Del k) \<longleftrightarrow> \<not> IS_SPECIAL_KEY k \<and> del_safe s k"

fun run_safe :: "kv_op list \<Rightarrow> 's \<Rightarrow> bool" where
  "run_safe [] s \<longleftrightarrow> True"
| "run_safe (x # xs) s \<longleftrightarrow> op_safe s x \<and> run_safe xs (do_op x s)"

lemma op_refines: "inv s \<Longrightarrow> op_safe s x \<Longrightarrow> inv (do_op x s) \<and> look (do_op x s) = map_op x (look s)"
  by (cases x) (use put del in auto)

lemma run_refines:
  "inv s \<Longrightarrow> run_safe xs s \<Longrightarrow> inv (fold do_op xs s) \<and> look (fold do_op xs s) = fold map_op xs (look s)"
proof (induction xs arbitrary: s)
  case (Cons x xs)
  with op_refines [of s x] show ?case by simp
qed simp

text \<open>Operations on distinct keys commute on the map.\<close>

lemma map_op_commute: "op_key x \<noteq> op_key y \<Longrightarrow> map_op x (map_op y m) = map_op y (map_op x m)"
  by (cases x; cases y) auto

lemma ops_commute:
  assumes "inv s" "op_safe s x" "op_safe s y" "op_safe (do_op x s) y" "op_safe (do_op y s) x"
    and "op_key x \<noteq> op_key y"
  shows "look (do_op y (do_op x s)) = look (do_op x (do_op y s))"
  using op_refines [of s x] op_refines [of s y] op_refines [of "do_op x s" y] op_refines [of "do_op y s" x]
    map_op_commute [OF assms(6)] assms(1-5) by simp

lemma last_put_wins:
  assumes "inv s" "run_safe (xs @ [Put k v]) s"
  shows "look (fold do_op (xs @ [Put k v]) s) k = Some v"
  using run_refines [OF assms] by simp

end

end
