(* ===== verification/ART_Laws.thy ===== *)
theory ART_Laws
  imports ART_Buffers Node_Invariant KV_Interface
begin

text \<open>
  The laws of \<open>art_insert\<close>, \<open>art_insert_no_replace\<close> and \<open>art_delete\<close> on whole trees, the
  interpretation of the store contract by the tree, and the inputs on which the code loses a key.
\<close>

section \<open>Trees\<close>

definition art_map :: "art_tree \<Rightarrow> u64 \<Rightarrow> u64 option" where
  "art_map t = opt_map 0 (root t)"

definition tree_ok :: "art_tree \<Rightarrow> bool" where
  "tree_ok t \<longleftrightarrow> opt_ok [] (root t) \<and> tree_size t = of_nat (card (dom (art_map t))) \<and>
    buffer_count t = of_nat (buffered_opt (root t)) \<and> filled_opt (root t)"

lemma tree_ok_init: "tree_ok art_tree_init" "art_map art_tree_init = Map.empty"
  by (simp_all add: tree_ok_def art_tree_init_def art_map_def)

lemma card_dom_put:
  fixes m :: "u64 \<Rightarrow> u64 option"
  shows "card (dom (m(k \<mapsto> v))) = (if m k = None then card (dom m) + 1 else card (dom m))"
  by (auto simp: card_insert_if domIff insert_absorb)

lemma card_dom_remove:
  fixes m :: "u64 \<Rightarrow> u64 option"
  shows "m k \<noteq> None \<Longrightarrow> card (dom (m(k := None))) = card (dom m) - 1" "m k \<noteq> None \<Longrightarrow> 0 < card (dom m)"
    "m k = None \<Longrightarrow> m(k := None) = m"
proof -
  assume "m k \<noteq> None"
  then have "k \<in> dom m" by auto
  then show "card (dom (m(k := None))) = card (dom m) - 1" by (simp add: card_Diff_singleton)
  from \<open>k \<in> dom m\<close> show "0 < card (dom m)" by (subst card_gt_0_iff) auto
next
  assume "m k = None"
  then show "m(k := None) = m" by (simp add: fun_upd_idem)
qed

definition tree_insert_safe :: "bool \<Rightarrow> nat \<Rightarrow> art_tree \<Rightarrow> u64 \<Rightarrow> bool" where
  "tree_insert_safe replace storage t key \<longleftrightarrow>
    replace \<and> storage = MEM_TYPE \<or>
    art_map t key = None \<and> (storage = MEM_TYPE \<longrightarrow> mem_safe key 0 (root t))"

definition tree_del_safe :: "art_tree \<Rightarrow> u64 \<Rightarrow> bool" where
  "tree_del_safe t key \<longleftrightarrow> del_safe key 0 (root t)"

lemma recursive_insert_root:
  assumes ok: "opt_ok [] n" and key: "\<not> IS_SPECIAL_KEY key" "st < 8"
    and safe: "replace \<and> st = MEM_TYPE \<or> opt_map 0 n key = None \<and> (st = MEM_TYPE \<longrightarrow> mem_safe key 0 n)" and f: "filled_opt n"
  shows "\<exists>m old flag. recursive_insert n key (8 + st) v 0 replace = (Some m, old, flag) \<and> art_ok [] m \<and>
    node_map 0 m = (opt_map 0 n)(key \<mapsto> v) \<and>
    (if opt_map 0 n key = None then old = None \<and> flag \<in> {0, 1} else old = Some v \<and> flag = 2) \<and>
    buffered m = buffered_opt n + of_bool (odd flag) \<and> filled m"
proof (cases n)
  case None
  have "art_ok [] (Leaf (make_leaf key v))" using key by (intro ok_leaf) (simp_all add: make_leaf_def)
  then show ?thesis using node_map_leaf [of "[]" "make_leaf key v" 0] None by (simp add: make_leaf_def)
next
  case (Some m)
  with safe have "insert_safe replace st key (length []) m" by (simp add: insert_safe_def)
  then have i: "inserted [] m key v (recursive_insert (Some m) key (8 + st) v 0 replace)"
    using recursive_insert_ok [of "[]" m key st replace v] ok key Some by simp
  obtain x old flag where r: "recursive_insert (Some m) key (8 + st) v 0 replace = (x, old, flag)" by (rule prod_cases3)
  have "buffered_opt x = buffered m + of_bool (odd flag)"
    using insert_buffered [of "[]" m key st v replace x old flag] ok key Some r by simp
  moreover have "filled_opt x" using insert_filled [of "[]" m key st v replace x old flag] ok key Some r f by simp
  ultimately show ?thesis using i unfolding Some r by (auto simp: inserted_def)
qed

lemma insert_with_ok:
  assumes ok: "tree_ok t" and key: "\<not> IS_SPECIAL_KEY key" "st < 8" and safe: "tree_insert_safe replace st t key"
    and eq: "art_insert_with replace t key (8 + st) v = (t', old)"
  shows "tree_ok t' \<and> art_map t' = (art_map t)(key \<mapsto> v) \<and>
    old = (if art_map t key = None then None else Some v)"
proof -
  obtain m old' flag where r: "recursive_insert (root t) key (8 + st) v 0 replace = (Some m, old', flag)"
    "art_ok [] m" "node_map 0 m = (art_map t)(key \<mapsto> v)"
    "if art_map t key = None then old' = None \<and> flag \<in> {0, 1} else old' = Some v \<and> flag = 2"
    "buffered m = buffered_opt (root t) + of_bool (odd flag)" "filled m"
    using recursive_insert_root [of "root t" key st replace v] ok key safe
    unfolding tree_ok_def tree_insert_safe_def art_map_def by blast
  have t': "root t' = Some m" "old = old'"
    "tree_size t' = (if art_map t key = None then tree_size t + 1 else tree_size t)"
    "buffer_count t' = buffer_count t + of_bool (odd flag)"
    using eq r(1,4) by (auto simp: art_insert_with_def Let_def split: if_splits)
  then have "art_map t' = (art_map t)(key \<mapsto> v)" using r(3) by (simp add: art_map_def)
  moreover have "tree_size t' = of_nat (card (dom ((art_map t)(key \<mapsto> v))))"
    using ok t'(3) unfolding tree_ok_def card_dom_put by (simp split: if_splits)
  moreover have "buffer_count t' = of_nat (buffered_opt (root t'))" using ok t'(1,4) r(5) by (simp add: tree_ok_def)
  ultimately show ?thesis using t' r(2,4,6) by (simp add: tree_ok_def)
qed

lemma delete_ok:
  assumes ok: "tree_ok t" and key: "\<not> IS_SPECIAL_KEY key" and safe: "tree_del_safe t key"
    and eq: "art_delete t key 8 = (t', old)"
  shows "tree_ok t' \<and> art_map t' = (art_map t)(key := None) \<and> old = art_map t key"
proof (cases "root t")
  case None
  then have "t' = t\<lparr>root := None\<rparr>" "old = None" using eq by (simp_all add: art_delete_def)
  then show ?thesis using ok None by (simp add: tree_ok_def art_map_def)
next
  case (Some n)
  obtain r tagged where e: "recursive_delete (Some n) key 8 0 = (r, tagged)" by (rule prod.exhaust)
  from recursive_delete_ok [of "[]" n key] ok key safe Some e
  have d: "opt_ok [] r" "opt_map 0 r = (art_map t)(key := None)" "map_option fst tagged = art_map t key"
    by (simp_all add: tree_ok_def tree_del_safe_def deleted_def art_map_def)
  have "buffered_opt r + tag_of tagged = buffered n"
    using delete_buffered [of "[]" n key r tagged] ok key safe Some e by (simp add: tree_ok_def tree_del_safe_def)
  then have "of_nat (buffered n) = (of_nat (buffered_opt r) + of_nat (tag_of tagged) :: u64)" by (metis of_nat_add)
  moreover have "root t' = r" "buffer_count t' = buffer_count t - of_nat (tag_of tagged)"
    using eq e Some by (auto simp: art_delete_def split: option.splits prod.splits)
  ultimately have b: "buffer_count t' = of_nat (buffered_opt (root t'))" using ok Some by (simp add: tree_ok_def)
  have f: "filled_opt r" using delete_filled [of "[]" n key r tagged] ok key safe Some e by (simp add: tree_ok_def tree_del_safe_def)
  from d have t': "root t' = r" "old = art_map t key"
    "tree_size t' = (if art_map t key = None then tree_size t else tree_size t - 1)"
    using eq e Some by (auto simp: art_delete_def split: option.splits prod.splits)
  then have m: "art_map t' = (art_map t)(key := None)" using d by (simp add: art_map_def)
  have "tree_size t' = of_nat (card (dom ((art_map t)(key := None))))"
  proof (cases "art_map t key")
    case None
    then show ?thesis using t'(3) ok card_dom_remove(3) [of "art_map t" key] by (simp add: tree_ok_def)
  next
    case (Some v)
    then have "art_map t key \<noteq> None" by simp
    then show ?thesis using t'(3) ok card_dom_remove(1,2) [of "art_map t" key]
      by (simp only: tree_ok_def if_False of_nat_diff Suc_leI) (simp add: of_nat_diff Suc_leI)
  qed
  then show ?thesis using t' d m b f by (simp add: tree_ok_def)
qed

section \<open>The tree as a store\<close>

text \<open>\<open>art_insert\<close> with memory-type keys, as the header of the library documents it, replaces.\<close>

definition art_put :: "u64 \<Rightarrow> u64 \<Rightarrow> art_tree \<Rightarrow> art_tree" where
  "art_put k v t = fst (art_insert t k (KEY_LEN + MEM_TYPE) v)"

definition art_del :: "u64 \<Rightarrow> art_tree \<Rightarrow> art_tree" where
  "art_del k t = fst (art_delete t k KEY_LEN)"

interpretation art: kv_store tree_ok art_map art_put art_del "\<lambda>_ _ _. True" tree_del_safe
proof
  fix t k v
  assume t: "tree_ok t" "\<not> IS_SPECIAL_KEY k"
  obtain t' old where e: "art_insert_with True t k (8 + 1) v = (t', old)" by (rule prod.exhaust)
  have "tree_ok t' \<and> art_map t' = (art_map t)(k \<mapsto> v)"
    using insert_with_ok [OF t, of 1 True v t' old] e by (simp add: tree_insert_safe_def)
  then show "tree_ok (art_put k v t) \<and> art_map (art_put k v t) = (art_map t)(k \<mapsto> v)"
    using e by (simp add: art_put_def art_insert_def)
next
  fix t k
  assume "tree_ok t" "\<not> IS_SPECIAL_KEY k" "tree_del_safe t k"
  moreover obtain t' old where "art_delete t k 8 = (t', old)" by (rule prod.exhaust)
  ultimately show "tree_ok (art_del k t) \<and> art_map (art_del k t) = (art_map t)(k := None)"
    using delete_ok [of t k t' old] by (simp add: art_del_def)
qed

lemma tree_ok_puts:
  "tree_ok t \<Longrightarrow> (\<forall>(k, v) \<in> set kvs. \<not> IS_SPECIAL_KEY k) \<Longrightarrow> tree_ok (fold (\<lambda>(k, v). art_put k v) kvs t)"
  by (induction kvs arbitrary: t) (use art.put in auto)

definition sample_tree :: "(u64 \<times> u64) list \<Rightarrow> art_tree" where
  "sample_tree kvs = fold (\<lambda>(k, v). art_put k v) kvs art_tree_init"

lemma sample_tree_ok: "(\<forall>(k, v) \<in> set kvs. \<not> IS_SPECIAL_KEY k) \<Longrightarrow> tree_ok (sample_tree kvs)"
  unfolding sample_tree_def using tree_ok_init(1) by (rule tree_ok_puts)

lemma fold_append_put: "sample_tree (kvs @ [(k, v)]) = art_put k v (sample_tree kvs)"
  by (simp add: sample_tree_def)

section \<open>Properties\<close>

text \<open>\<open>art_insert\<close> of a memory-type key into a well-formed tree, whatever the tree holds: afterwards
  the key maps to the value, every other key to what it did, the tree is well formed with its size
  counting the keys, and \<open>NULL\<close> is returned exactly for a new key (else a pointer to the new value).\<close>

theorem art_insert_updates:
  assumes "tree_ok t" "\<not> IS_SPECIAL_KEY key" "art_insert t key (KEY_LEN + MEM_TYPE) v = (t', old)"
  shows "tree_ok t' \<and> art_map t' = (art_map t)(key \<mapsto> v) \<and>
    old = (if art_map t key = None then None else Some v)"
  using insert_with_ok [of t key MEM_TYPE True v t' old] assms by (simp add: art_insert_def tree_insert_safe_def)

theorem art_insert_updates_witness:
  "tree_ok (fst (art_insert (sample_tree [(0x0101, 7), (0x0201, 8)]) 0x0301 9 6)) \<and>
    art_map (fst (art_insert (sample_tree [(0x0101, 7), (0x0201, 8)]) 0x0301 9 6)) 0x0301 = Some 6"
proof -
  let ?t = "sample_tree [(0x0101, 7), (0x0201, 8)]"
  have "tree_ok ?t" by (rule sample_tree_ok) (simp add: IS_SPECIAL_KEY_iff)
  moreover obtain t' old where e: "art_insert ?t 0x0301 9 6 = (t', old)" by (rule prod.exhaust)
  ultimately show ?thesis
    using art_insert_updates [of ?t "0x0301" 6 t' old] by (simp add: e IS_SPECIAL_KEY_iff)
qed

text \<open>\<open>art_insert_no_replace\<close> of a new key, of any storage type, adds it and changes nothing else,
  provided that a memory-type key matches the prefix of the first node on its way with room in
  its buffer (the lost insert below shows the other case).\<close>

theorem art_insert_no_replace_adds:
  assumes "tree_ok t" "\<not> IS_SPECIAL_KEY key" "storage < 8" "art_map t key = None"
    and "storage = MEM_TYPE \<longrightarrow> mem_safe key 0 (root t)"
    and "art_insert_no_replace t key (KEY_LEN + storage) v = (t', old)"
  shows "tree_ok t' \<and> art_map t' = (art_map t)(key \<mapsto> v) \<and> old = None"
  using insert_with_ok [of t key storage False v t' old] assms
  by (simp add: art_insert_no_replace_def tree_insert_safe_def)

theorem art_insert_no_replace_adds_witness:
  "art_map (fst (art_insert_no_replace (sample_tree [(0x010505, 7), (0x020505, 8)]) 0x030505 9 6)) 0x030505 = Some 6"
proof -
  let ?t = "sample_tree [(0x010505, 7), (0x020505, 8)]"
  have "tree_ok ?t" by (rule sample_tree_ok) (simp add: IS_SPECIAL_KEY_iff)
  moreover have "art_map ?t 0x030505 = None" by code_simp
  moreover have "mem_safe 0x030505 0 (root ?t)" by code_simp
  moreover obtain t' old where e: "art_insert_no_replace ?t 0x030505 9 6 = (t', old)" by (rule prod.exhaust)
  ultimately show ?thesis
    using art_insert_no_replace_adds [of ?t "0x030505" MEM_TYPE 6 t' old] by (simp add: e IS_SPECIAL_KEY_iff)
qed

text \<open>C14. \<open>art_delete\<close> removes the key and nothing else, through buffer flushes, shrinking and path
  compression, keeps the tree well formed with its size, and returns the value the key had, provided
  that the buffer entries flushed into a \<open>Node4\<close> have bytes no child has (the lost key below shows the other case).\<close>

theorem art_delete_removes:
  assumes "tree_ok t" "\<not> IS_SPECIAL_KEY key" "del_safe key 0 (root t)" "art_delete t key KEY_LEN = (t', old)"
  shows "tree_ok t' \<and> art_map t' = (art_map t)(key := None) \<and> old = art_map t key"
  using delete_ok [of t key t' old] assms by (simp add: tree_del_safe_def)

theorem art_delete_removes_witness:
  "tree_ok (fst (art_delete (sample_tree [(0x0101, 7), (0x0201, 8), (0x09, 5)]) 0x0101 8)) \<and>
    snd (art_delete (sample_tree [(0x0101, 7), (0x0201, 8), (0x09, 5)]) 0x0101 8) = Some 7"
proof -
  let ?t = "sample_tree [(0x0101, 7), (0x0201, 8), (0x09, 5)]"
  have "tree_ok ?t" by (rule sample_tree_ok) (simp add: IS_SPECIAL_KEY_iff)
  moreover have "del_safe 0x0101 0 (root ?t)" by code_simp
  moreover have "art_map ?t 0x0101 = Some 7" by code_simp
  moreover obtain t' old where e: "art_delete ?t 0x0101 8 = (t', old)" by (rule prod.exhaust)
  ultimately show ?thesis
    using art_delete_removes [of ?t "0x0101" t' old] by (simp add: e IS_SPECIAL_KEY_iff)
qed

text \<open>Sequences of insertions and deletions.\<close>

fun art_op :: "kv_op \<Rightarrow> art_tree \<Rightarrow> art_tree" where
  "art_op (Put k v) t = art_put k v t"
| "art_op (Del k) t = art_del k t"

fun art_ops_safe :: "kv_op list \<Rightarrow> art_tree \<Rightarrow> bool" where
  "art_ops_safe [] t \<longleftrightarrow> True"
| "art_ops_safe (Put k v # xs) t \<longleftrightarrow> \<not> IS_SPECIAL_KEY k \<and> art_ops_safe xs (art_op (Put k v) t)"
| "art_ops_safe (Del k # xs) t \<longleftrightarrow>
    \<not> IS_SPECIAL_KEY k \<and> tree_del_safe t k \<and> art_ops_safe xs (art_op (Del k) t)"

lemma art_op_do_op: "art_op x t = art.do_op x t"
  by (cases x) simp_all

lemma art_ops_safe_run: "art_ops_safe xs t = art.run_safe xs t"
  by (induction xs t rule: art_ops_safe.induct) (simp_all add: art_op_do_op)

text \<open>The value \<open>art_search\<close> reads at the place its walk finds is the tree's map: for every key
  that is not reserved the walk finds a place exactly if the map has the key, with its value.\<close>

theorem art_find_is_map:
  assumes "\<not> IS_SPECIAL_KEY key"
  shows "map_option (hit_value \<circ> loc_hit) (art_find (root t) key) = art_map t key"
  using assms by (cases "root t") (simp_all add: art_find_lookup art_map_def node_map_def)

theorem art_find_is_map_witness:
  "map_option (hit_value \<circ> loc_hit) (art_find (root (sample_tree [(0x0101, 7), (0x0201, 8)])) 0x0201) =
    art_map (sample_tree [(0x0101, 7), (0x0201, 8)]) 0x0201"
  by (rule art_find_is_map) (simp add: IS_SPECIAL_KEY_iff)

text \<open>C13. Refinement: any sequence of \<open>art_insert\<close> (memory type) and \<open>art_delete\<close> operations, each
  safe where it happens, leaves a well-formed tree with the map of a plain map on which the same
  sequence was run, and the walk of \<open>art_search\<close> finds exactly the keys of that map, with their values.\<close>

theorem art_ops_refine_map:
  assumes "tree_ok t" "art_ops_safe xs t"
  shows "tree_ok (fold art_op xs t) \<and> art_map (fold art_op xs t) = fold map_op xs (art_map t) \<and>
    (\<forall>k. \<not> IS_SPECIAL_KEY k \<longrightarrow>
      map_option (hit_value \<circ> loc_hit) (art_find (root (fold art_op xs t)) k) = fold map_op xs (art_map t) k)"
  using art.run_refines [of t xs] assms art_find_is_map by (simp add: art_ops_safe_run art_op_do_op [abs_def])

theorem art_ops_refine_map_witness:
  "art_map (fold art_op [Put 0x0101 7, Put 0x0201 8, Put 0x0301 9, Del 0x0201, Put 0x0101 6] art_tree_init) =
    fold map_op [Put 0x0101 7, Put 0x0201 8, Put 0x0301 9, Del 0x0201, Put 0x0101 6] Map.empty"
proof -
  have "art_ops_safe [Put 0x0101 7, Put 0x0201 8, Put 0x0301 9, Del 0x0201, Put 0x0101 6] art_tree_init"
    by code_simp
  with art_ops_refine_map [OF tree_ok_init(1)] show ?thesis by (simp only: tree_ok_init(2))
qed

text \<open>A lost insert: with the keys \<open>05 05 01\<close> and \<open>05 05 02\<close> under a root with prefix \<open>05 05\<close>,
  \<open>art_insert_no_replace\<close> of the memory-type key \<open>06\<close> takes the root's free buffer slot before the
  prefix is compared; it reports an insert and counts it, but no search finds the key, as every
  search compares the prefix first.\<close>

theorem art_insert_before_prefix_loses:
  "let t = sample_tree [(0x010505, 7), (0x020505, 8)];
       r = art_insert_no_replace t 0x06 (KEY_LEN + MEM_TYPE) 5
   in tree_ok t \<and> snd r = None \<and> tree_size (fst r) = 3 \<and> buffer_count (fst r) = 1 \<and> art_find (root (fst r)) 0x06 = None"
proof -
  have "tree_ok (sample_tree [(0x010505, 7), (0x020505, 8)])"
    by (rule sample_tree_ok) (simp add: IS_SPECIAL_KEY_iff)
  moreover have "let r = art_insert_no_replace (sample_tree [(0x010505, 7), (0x020505, 8)]) 0x06 9 5
    in snd r = None \<and> tree_size (fst r) = 3 \<and> buffer_count (fst r) = 1 \<and> art_find (root (fst r)) 0x06 = None"
    by code_simp
  ultimately show ?thesis by (simp add: Let_def)
qed

text \<open>A lost key after a delete: with leaves \<open>01 01\<close> and \<open>02 02\<close> and the key \<open>01 09\<close> in the
  buffer of the root, deleting \<open>02 02\<close> flushes the buffered key into the root under byte 1, which a
  child already has; the key that was not deleted is found no more, although it is still counted.\<close>

theorem art_delete_flush_loses:
  "let t = fst (art_insert_no_replace (sample_tree [(0x0101, 7), (0x0202, 8)]) 0x0901 (KEY_LEN + MEM_TYPE) 5);
       t' = fst (art_delete t 0x0202 KEY_LEN)
   in tree_ok t \<and> art_map t 0x0901 = Some 5 \<and> tree_size t' = 2 \<and> art_find (root t') 0x0901 = None"
proof -
  let ?t = "sample_tree [(0x0101, 7), (0x0202, 8)]"
  have ok: "tree_ok ?t" by (rule sample_tree_ok) (simp add: IS_SPECIAL_KEY_iff)
  obtain t' old where e: "art_insert_with False ?t 0x0901 (8 + 1) 5 = (t', old)" by (rule prod.exhaust)
  have "art_map ?t 0x0901 = None" "mem_safe 0x0901 0 (root ?t)" by code_simp+
  then have "tree_ok t'" using insert_with_ok [OF ok _ _ _ e] by (simp add: tree_insert_safe_def IS_SPECIAL_KEY_iff)
  moreover have "let t = fst (art_insert_no_replace ?t 0x0901 9 5); t' = fst (art_delete t 0x0202 8)
    in art_map t 0x0901 = Some 5 \<and> tree_size t' = 2 \<and> art_find (root t') 0x0901 = None"
    by code_simp
  ultimately show ?thesis using e by (simp add: Let_def art_insert_no_replace_def)
qed

text \<open>\<open>art_insert_no_replace\<close> of a memory-type key that is already in a leaf puts a second entry
  into a buffer above it: both are counted, and after one delete the key is back with its old value.\<close>

theorem art_no_replace_duplicates:
  "let t = fst (art_insert_no_replace (sample_tree [(0x0101, 7), (0x0202, 8)]) 0x0101 (KEY_LEN + MEM_TYPE) 9);
       t' = fst (art_delete t 0x0101 KEY_LEN)
   in tree_size t = 3 \<and> art_map t 0x0101 = Some 9 \<and> art_map t' 0x0101 = Some 7"
  by code_simp

end
