(* ===== verification/Hash.thy ===== *)
theory Hash
  imports Complex_Main Data_Sketch ART_Laws
begin

text \<open>
  The hash table of \<open>src/hash.c\<close>: an array of bins with eight entries each, its insertion, lookup,
  deletion and doubling, and \<open>hash_modify\<close> and \<open>hash_search\<close>, which work on the whole index because
  they count accesses in the sketch and may exchange a key with the tree. Operations run one at a
  time here: a compare-and-swap whose expected value was just read succeeds.
\<close>

section \<open>State\<close>

record hash_sys =
  h_seed :: u32
  h_size :: u64
  h_count :: u64
  entries :: "entry list list"

text \<open>\<open>index_sys\<close> of \<open>common.h\<close>; the unused sketch \<open>memb\<close> is left out.\<close>

record index_sys =
  has_special_key :: "u8 list"
  special_key_val :: "u64 list"
  cm :: sketch
  hash :: hash_sys
  tree :: art_tree

abbreviation (input) HASH_BIN_FULL :: int where "HASH_BIN_FULL \<equiv> 2"
abbreviation (input) ELEMENT_NOT_FOUND :: int where "ELEMENT_NOT_FOUND \<equiv> 1"
abbreviation (input) ELEMENT_ALREADY_EXISTS :: int where "ELEMENT_ALREADY_EXISTS \<equiv> 3"

definition hash_construct :: "(nat \<Rightarrow> bool) \<Rightarrow> u32 \<Rightarrow> u64 \<Rightarrow> u32 \<Rightarrow> hash_sys option" where
  "hash_construct alloc rnd sz seed =
    (if \<not> alloc 32 then None
     else if alloc (unat sz * 128) then
       Some \<lparr>h_seed = (if seed = 0 then rnd else seed), h_size = sz, h_count = 0,
         entries = replicate (unat sz) (replicate BIN_CAPACITY empty_entry)\<rparr>
     else None)"

definition HASH_IDX :: "hash_sys \<Rightarrow> u64 \<times> u64 \<Rightarrow> nat" where
  "HASH_IDX hs h = unat (snd h AND (h_size hs - 1))"

definition HASH_COMP_IDX :: "hash_sys \<Rightarrow> u64 \<Rightarrow> nat" where
  "HASH_COMP_IDX hs key = unat (MurmurHash3_x64_64 (key_bytes key) KEY_LEN (h_seed hs) AND (h_size hs - 1))"

definition HASH_LEVEL :: "hash_sys \<Rightarrow> u64 \<Rightarrow> bool" where
  "HASH_LEVEL hs key \<longleftrightarrow> MurmurHash3_x64_64 (key_bytes key) KEY_LEN (h_seed hs) AND h_size hs \<noteq> 0"

definition set_entry :: "hash_sys \<Rightarrow> nat \<Rightarrow> nat \<Rightarrow> entry \<Rightarrow> hash_sys" where
  "set_entry hs i j e = hs\<lparr>entries := (entries hs)[i := (entries hs ! i)[j := e]]\<rparr>"

section \<open>Insertion without a check\<close>

text \<open>The first empty slot of the bin takes the entry; only the concurrent version marks the slot
  with \<open>OCCUPIED_FLAG\<close> in between.\<close>

definition hash_insert_nocheck_nosafe :: "hash_sys \<Rightarrow> u64 \<Rightarrow> u64 \<Rightarrow> hash_sys \<times> int" where
  "hash_insert_nocheck_nosafe hs key v =
    (let idx = HASH_COMP_IDX hs key
     in case first_idx BIN_CAPACITY (\<lambda>j. entry_key (entries hs ! idx ! j) = 0) of
          Some j \<Rightarrow> (set_entry (hs\<lparr>h_count := h_count hs + 1\<rparr>) idx j \<lparr>entry_key = key, entry_value = v\<rparr>, 0)
        | None \<Rightarrow> (hs, HASH_BIN_FULL))"

definition hash_insert_nocheck :: "hash_sys \<Rightarrow> u64 \<Rightarrow> u64 \<Rightarrow> hash_sys \<times> int" where
  "hash_insert_nocheck hs key v =
    (let idx = HASH_COMP_IDX hs key
     in case first_idx BIN_CAPACITY (\<lambda>j. entry_key (entries hs ! idx ! j) = EMPTY_FLAG) of
          Some j \<Rightarrow>
            let hs = set_entry hs idx j ((entries hs ! idx ! j)\<lparr>entry_key := OCCUPIED_FLAG\<rparr>);
                hs = set_entry hs idx j ((entries hs ! idx ! j)\<lparr>entry_value := v\<rparr>);
                hs = set_entry hs idx j ((entries hs ! idx ! j)\<lparr>entry_key := key\<rparr>)
            in (hs\<lparr>h_count := h_count hs + 1\<rparr>, 0)
        | None \<Rightarrow> (hs, HASH_BIN_FULL))"

section \<open>Doubling\<close>

text \<open>One entry of a bin: kept in the lower bin or moved to the next place \<open>k\<close> of the upper one.\<close>

definition expand_step ::
  "hash_sys \<Rightarrow> nat \<Rightarrow> entry list \<times> entry list \<times> nat \<Rightarrow> entry list \<times> entry list \<times> nat" where
  "expand_step hs j = (\<lambda>(low, up, k).
    let e = low ! j in
    if entry_key e \<noteq> 0 \<and> HASH_LEVEL hs (entry_key e)
    then (low[j := e\<lparr>entry_key := 0\<rparr>], up[k := e], k + 1)
    else (low, up, k))"

definition expand_bin :: "hash_sys \<Rightarrow> entry list \<Rightarrow> entry list \<times> entry list \<times> nat" where
  "expand_bin hs low = fold (expand_step hs) [0..<BIN_CAPACITY] (low, replicate BIN_CAPACITY empty_entry, 0)"

text \<open>\<open>None\<close> is the dereference of the \<open>NULL\<close> that \<open>hash_construct\<close> returned.\<close>

definition hash_expand_copy :: "(nat \<Rightarrow> bool) \<Rightarrow> u32 \<Rightarrow> hash_sys \<Rightarrow> hash_sys option" where
  "hash_expand_copy alloc rnd hs =
    (case hash_construct alloc rnd (h_size hs * 2) (h_seed hs) of
       None \<Rightarrow> None
     | Some new_h \<Rightarrow>
         let bins = map (expand_bin hs) (entries hs)
         in Some (new_h\<lparr>entries := map fst bins @ map (fst \<circ> snd) bins, h_count := h_count hs\<rparr>))"

definition hash_expand_reinsert :: "(nat \<Rightarrow> bool) \<Rightarrow> u32 \<Rightarrow> hash_sys \<Rightarrow> hash_sys option" where
  "hash_expand_reinsert alloc rnd hs =
    (case hash_construct alloc rnd (h_size hs * 2) (h_seed hs) of
       None \<Rightarrow> None
     | Some new_h \<Rightarrow>
         Some (fold (\<lambda>e new_h. if entry_key e \<noteq> 0
             then fst (hash_insert_nocheck_nosafe new_h (entry_key e) (entry_value e)) else new_h)
           (concat (entries hs)) new_h))"

section \<open>Modification and search through the index\<close>

datatype modify_mode = UPDATE | INSERT | STRICT_UPDATE | STRICT_INSERT

text \<open>\<open>mode & INSERT\<close>\<close>

fun inserting :: "modify_mode \<Rightarrow> bool" where
  "inserting UPDATE = False"
| "inserting INSERT = True"
| "inserting STRICT_UPDATE = False"
| "inserting STRICT_INSERT = True"

text \<open>The scan of the bin: it stops at the key, else it gives the first empty slot and the slot (with
  its key) picked for an exchange. The estimate is taken of \<open>data[j].value\<close>, as in the code.\<close>

datatype scan = Found nat | Scanned "nat option" "(nat \<times> u64) option"

fun scan_bin :: "sketch \<Rightarrow> u64 \<Rightarrow> nat \<Rightarrow> entry list \<Rightarrow> int \<Rightarrow> nat option \<Rightarrow> (nat \<times> u64) option \<Rightarrow> scan" where
  "scan_bin sk key j [] min_cnt available i_min = Scanned available i_min"
| "scan_bin sk key j (e # es) min_cnt available i_min =
    (if entry_key e = key then Found j
     else
       let available = (if entry_key e = EMPTY_FLAG \<and> available = None then Some j else available);
           cnt = countmin_amplify (countmin_count sk (entry_value e));
           pick = (min_cnt > 0 \<and> available = None \<and> i_min = None \<and> min_cnt > cnt)
       in scan_bin sk key (j + 1) es (if pick then cnt else min_cnt) available
            (if pick then Some (j, entry_key e) else i_min))"

text \<open>The index afterwards, \<open>*freq\<close> (\<open>None\<close> where it is not written) and the status.\<close>

definition hash_modify :: "index_sys \<Rightarrow> u64 \<Rightarrow> u64 \<Rightarrow> modify_mode \<Rightarrow> index_sys \<times> int option \<times> int" where
  "hash_modify ind key v mode =
    (let h = MurmurHash3_x64_128 (key_bytes key) KEY_LEN (h_seed (hash ind));
         idx = HASH_IDX (hash ind) h;
         (cm', min_cnt) = (if inserting mode then (cm ind, 0) else countmin_inc_explicit (cm ind) key (Some h));
         ind = ind\<lparr>cm := cm'\<rparr>;
         freq = (if inserting mode then None else Some min_cnt);
         hs = hash ind
     in case scan_bin cm' key 0 (take BIN_CAPACITY (entries hs ! idx)) min_cnt None None of
          Found j \<Rightarrow>
            if mode = STRICT_INSERT then (ind, freq, ELEMENT_ALREADY_EXISTS)
            else (ind\<lparr>hash := set_entry hs idx j ((entries hs ! idx ! j)\<lparr>entry_value := v\<rparr>)\<rparr>, freq, 0)
        | Scanned available i_min \<Rightarrow>
            if mode = STRICT_UPDATE then (ind, freq, ELEMENT_NOT_FOUND)
            else (case available of
                Some j \<Rightarrow>
                  (ind\<lparr>hash := (set_entry hs idx j \<lparr>entry_key = key, entry_value = v\<rparr>)\<lparr>h_count := h_count hs + 1\<rparr>\<rparr>, freq, 0)
              | None \<Rightarrow>
                  (case i_min of
                     Some (i, key_lru) \<Rightarrow>
                       let old = entry_value (entries hs ! idx ! i);
                           t = fst (art_delete (tree ind) key KEY_LEN);
                           t = fst (art_insert_no_replace t key_lru (KEY_LEN + MEM_TYPE) old)
                       in (ind\<lparr>hash := set_entry hs idx i \<lparr>entry_key = key, entry_value = v\<rparr>, tree := t\<rparr>, freq, 0)
                   | None \<Rightarrow> (ind, freq, HASH_BIN_FULL))))"

datatype search_mode = HASH_QUERY | HASH_DELETE

text \<open>The index afterwards, the value written to \<open>*freq\<close> (which only a query with a pointer does), the
  query result and the returned truth value.\<close>

definition hash_search ::
  "index_sys \<Rightarrow> u64 \<Rightarrow> bool \<Rightarrow> search_mode \<Rightarrow> index_sys \<times> int option \<times> u64 option \<times> bool" where
  "hash_search ind key want_freq mode =
    (let h = MurmurHash3_x64_128 (key_bytes key) KEY_LEN (h_seed (hash ind));
         (ind, freq) = (if mode = HASH_QUERY \<and> want_freq then
             let (cm', f) = countmin_inc_explicit (cm ind) key (Some h) in (ind\<lparr>cm := cm'\<rparr>, Some f)
           else (ind, None));
         hs = hash ind;
         idx = HASH_IDX hs h
     in case first_idx BIN_CAPACITY (\<lambda>j. entry_key (entries hs ! idx ! j) = key) of
          None \<Rightarrow> (ind, freq, None, False)
        | Some j \<Rightarrow>
            if mode = HASH_QUERY then (ind, freq, Some (entry_value (entries hs ! idx ! j)), True)
            else (ind\<lparr>hash := (set_entry hs idx j ((entries hs ! idx ! j)\<lparr>entry_key := EMPTY_FLAG\<rparr>))
                    \<lparr>h_count := h_count hs - 1\<rparr>\<rparr>, freq, None, True))"

text \<open>
  \<open>load_factor\<close> multiplies with the bin capacity. The quotients the code compares have a power of 2 as
  denominator and are exact in a double, so the comparison with a decimal constant is the rational
  one; with size 0 the quotient is infinite or not a number and no comparison holds.
\<close>

definition load_factor :: "hash_sys \<Rightarrow> rat" where
  "load_factor hs = of_nat (unat (h_count hs)) * of_nat BIN_CAPACITY / of_nat (unat (h_size hs))"

definition load_factor_below :: "hash_sys \<Rightarrow> rat \<Rightarrow> bool" where
  "load_factor_below hs x \<longleftrightarrow> h_size hs \<noteq> 0 \<and> load_factor hs < x"

end
