(* ===== verification/ART_Float.thy ===== *)
theory ART_Float
  imports Hash
begin

text \<open>
  The float of a key towards the root (\<open>art_float\<close> of \<open>src/art.c\<close>) and its callers \<open>art_search\<close> and
  \<open>art_update\<close>. \<open>SDR_FLOAT\<close> is 1: only keys found in a buffer float, so \<open>IS_LEAF(n)\<close> is false in
  \<open>art_float\<close> and its branches for leaves are not compiled into a call. A pointer into the tree is the
  path of child positions that leads there; \<open>ref_parent\<close> is \<open>NULL\<close> for the empty path.
\<close>

section \<open>Places in a tree\<close>

fun node_at :: "art_node option \<Rightarrow> nat list \<Rightarrow> art_node option" where
  "node_at n [] = n"
| "node_at (Some (Inner h ch)) (i # path) = node_at (child_at ch i) path"
| "node_at n (i # path) = None"

text \<open>\<open>*ref = x\<close>\<close>

fun put_at :: "art_node option \<Rightarrow> nat list \<Rightarrow> art_node option \<Rightarrow> art_node option" where
  "put_at n [] x = x"
| "put_at (Some (Inner h ch)) (i # path) x = Some (Inner h (set_child ch i (put_at (child_at ch i) path x)))"
| "put_at n (i # path) x = n"

fun buffer_of :: "art_node option \<Rightarrow> entry list" where
  "buffer_of (Some (Inner h ch)) = buffer h"
| "buffer_of n = []"

fun with_slot :: "nat \<Rightarrow> entry \<Rightarrow> art_node option \<Rightarrow> art_node option" where
  "with_slot i e (Some (Inner h ch)) = Some (Inner (set_buffer h i e) ch)"
| "with_slot i e n = n"

text \<open>Stores to buffer slot \<open>i\<close> of the node at a path: both fields, the key, the value.\<close>

definition store_entry :: "art_node option \<Rightarrow> nat list \<Rightarrow> nat \<Rightarrow> entry \<Rightarrow> art_node option" where
  "store_entry r path i e = put_at r path (with_slot i e (node_at r path))"

definition store_key :: "art_node option \<Rightarrow> nat list \<Rightarrow> nat \<Rightarrow> u64 \<Rightarrow> art_node option" where
  "store_key r path i k = store_entry r path i ((buffer_of (node_at r path) ! i)\<lparr>entry_key := k\<rparr>)"

definition store_value :: "art_node option \<Rightarrow> nat list \<Rightarrow> nat \<Rightarrow> u64 \<Rightarrow> art_node option" where
  "store_value r path i v = store_entry r path i ((buffer_of (node_at r path) ! i)\<lparr>entry_value := v\<rparr>)"

section \<open>The packed arguments\<close>

text \<open>A negative \<open>freq\<close> is sign-extended over the upper fields.\<close>

definition PACK_INFO :: "int \<Rightarrow> nat \<Rightarrow> nat \<Rightarrow> nat \<Rightarrow> u64" where
  "PACK_INFO freq i d d_parent =
    push_bit 32 (push_bit 8 (push_bit 8 (of_nat d_parent) OR of_nat d) OR of_nat i) OR of_int freq"

definition info_freq :: "u64 \<Rightarrow> int" where
  "info_freq info = sint (ucast (info AND 0xffffffff) :: u32)"

definition info_i :: "u64 \<Rightarrow> nat" where
  "info_i info = unat (drop_bit 32 info AND 0xff)"

definition info_depth :: "u64 \<Rightarrow> nat" where
  "info_depth info = unat (drop_bit 40 info AND 0xff)"

definition info_parent :: "u64 \<Rightarrow> nat" where
  "info_parent info = unat (drop_bit 48 info AND 0xff)"

section \<open>Float\<close>

abbreviation (input) FLOAT_RESULT_ROOT :: nat where "FLOAT_RESULT_ROOT \<equiv> 1"
abbreviation (input) FLOAT_RESULT_MOVE :: nat where "FLOAT_RESULT_MOVE \<equiv> 2"
abbreviation (input) FLOAT_RESULT_REINSERT :: nat where "FLOAT_RESULT_REINSERT \<equiv> 3"
abbreviation (input) FLOAT_RESULT_SWAP :: nat where "FLOAT_RESULT_SWAP \<equiv> 4"

text \<open>\<open>memcmp(a + from, b + from, to - from)\<close> on the bytes of two keys.\<close>

definition memcmp_range :: "u64 \<Rightarrow> u64 \<Rightarrow> nat \<Rightarrow> nat \<Rightarrow> int" where
  "memcmp_range a b lo hi =
    memcmp (take (hi - lo) (drop lo (key_bytes a))) (take (hi - lo) (drop lo (key_bytes b)))"

text \<open>The loop over the parent's buffer: it stops at an empty slot or at a key that is used less.\<close>

datatype float_pick = Free nat | Lru nat u64 | Nothing

fun float_scan :: "sketch \<Rightarrow> u64 \<Rightarrow> int \<Rightarrow> nat \<Rightarrow> nat \<Rightarrow> nat \<Rightarrow> entry list \<Rightarrow> float_pick" where
  "float_scan sk key freq d d_parent j [] = Nothing"
| "float_scan sk key freq d d_parent j (e # es) =
    (if freq = 0 then Nothing
     else if entry_key e = EMPTY_FLAG then Free j
     else if entry_key e = OCCUPIED_FLAG then float_scan sk key freq d d_parent (j + 1) es
     else
       let f = countmin_amplify (countmin_count sk (entry_key e))
       in if freq > f \<or> freq = f \<and> memcmp_range key (entry_key e) d_parent d = 0
          then Lru j (entry_key e)
          else float_scan sk key freq d d_parent (j + 1) es)"

text \<open>The stores shared by moving up into a free slot and by displacing a key: slot \<open>j\<close> of the parent gets the
  key with its value, slot \<open>i\<close> of the node is emptied.\<close>

definition float_up :: "art_node option \<Rightarrow> nat list \<Rightarrow> nat \<Rightarrow> nat \<Rightarrow> u64 \<Rightarrow> u64 \<Rightarrow> art_node option" where
  "float_up r path i j key val =
    store_key (store_entry r (butlast path) j \<lparr>entry_key = key, entry_value = val\<rparr>) path i EMPTY_FLAG"

text \<open>The index afterwards and the result code. The displaced key is inserted again below the parent
  with \<open>depth_parent\<close> as the depth.\<close>

definition art_float :: "index_sys \<Rightarrow> u64 \<Rightarrow> u64 \<Rightarrow> nat list \<Rightarrow> u64 option \<Rightarrow> index_sys \<times> nat" where
  "art_float ind key info path update_value =
    (let freq = info_freq info; i = info_i info; d = info_depth info; d_parent = info_parent info;
         t = tree ind;
         val = (case update_value of Some v \<Rightarrow> v | None \<Rightarrow> entry_value (buffer_of (node_at (root t) path) ! i))
     in if path = [] then
          (case hash_insert_nocheck (hash ind) key val of (hs, st) \<Rightarrow>
             if st \<noteq> 0 then (ind, 0)
             else (ind\<lparr>hash := hs, tree := t\<lparr>root := store_key (root t) path i EMPTY_FLAG,
                     buffer_count := buffer_count t - 1, tree_size := tree_size t - 1\<rparr>\<rparr>, FLOAT_RESULT_ROOT))
        else
          let parent = butlast path;
              buf = buffer_of (node_at (root t) parent)
          in case float_scan (cm ind) key freq d d_parent 0 (take BUF_LEN buf) of
               Free j \<Rightarrow>
                 (ind\<lparr>tree := t\<lparr>root := float_up (root t) path i j key val\<rparr>\<rparr>, FLOAT_RESULT_MOVE)
             | Lru j key_lru \<Rightarrow>
                 let old = entry_value (buf ! j)
                 in if memcmp_range key key_lru d_parent d \<noteq> 0 then
                      (let r = float_up (root t) path i j key val;
                           (m, _, f) = recursive_insert (node_at r parent) key_lru (KEY_LEN + MEM_TYPE) old d_parent False;
                           delta = int (f mod 2) - 1
                       in (ind\<lparr>tree := t\<lparr>root := put_at r parent m, buffer_count := buffer_count t + of_int delta\<rparr>\<rparr>,
                           FLOAT_RESULT_REINSERT))
                    else (let r = store_entry (root t) parent j \<lparr>entry_key = key, entry_value = val\<rparr>
                          in (ind\<lparr>tree := t\<lparr>root := store_entry r path i \<lparr>entry_key = key_lru, entry_value = old\<rparr>\<rparr>\<rparr>,
                              FLOAT_RESULT_SWAP))
             | Nothing \<Rightarrow> (ind, 0))"

section \<open>Search and update\<close>

text \<open>The index afterwards and \<open>*query_result\<close>, \<open>None\<close> where 0 is returned.\<close>

definition art_search :: "index_sys \<Rightarrow> u64 \<Rightarrow> int \<Rightarrow> index_sys \<times> u64 option" where
  "art_search ind key freq =
    (case art_find (root (tree ind)) key of
       None \<Rightarrow> (ind, None)
     | Some loc \<Rightarrow>
         (case loc_hit loc of
            InLeaf l \<Rightarrow> (ind, Some (entry_value l))
          | InBuffer i e \<Rightarrow>
              (fst (art_float ind key (PACK_INFO freq i (loc_depth loc) (loc_depth_parent loc)) (loc_path loc) None),
               Some (entry_value e))))"

fun with_leaf :: "u64 \<Rightarrow> art_node option \<Rightarrow> art_node option" where
  "with_leaf v (Some (Leaf l)) = Some (Leaf (l\<lparr>entry_value := v\<rparr>))"
| "with_leaf v n = n"

text \<open>The index afterwards and whether the returned pointer is not \<open>NULL\<close>: for a leaf the old value is
  returned as the pointer.\<close>

definition art_update :: "index_sys \<Rightarrow> u64 \<Rightarrow> int \<Rightarrow> u64 \<Rightarrow> index_sys \<times> bool" where
  "art_update ind key freq v =
    (let r = root (tree ind)
     in case art_find r key of
          None \<Rightarrow> (ind, False)
        | Some loc \<Rightarrow>
            (case loc_hit loc of
               InLeaf l \<Rightarrow>
                 (ind\<lparr>tree := (tree ind)\<lparr>root := put_at r (loc_path loc) (with_leaf v (node_at r (loc_path loc)))\<rparr>\<rparr>,
                  entry_value l \<noteq> 0)
             | InBuffer i e \<Rightarrow>
                 (case art_float ind key (PACK_INFO freq i (loc_depth loc) (loc_depth_parent loc)) (loc_path loc) (Some v) of
                    (ind', st) \<Rightarrow>
                      if st \<noteq> 0 then (ind', True)
                      else (ind\<lparr>tree := (tree ind)\<lparr>root := store_value r (loc_path loc) i v\<rparr>\<rparr>, True))))"

end
