(* ===== verification/ART_Path.thy ===== *)
theory ART_Path
  imports ART_Float
begin

text \<open>
  Reasoning about one place in a tree: the path of child positions from the root to a node, replacing the
  node there, and the place at which the search finds a key.
\<close>

section \<open>Paths\<close>

text \<open>\<open>reaches p n path q m\<close>: from node \<open>n\<close> with the bytes \<open>p\<close> above it, \<open>path\<close> leads to \<open>m\<close> with \<open>q\<close>.\<close>

inductive reaches :: "u8 list \<Rightarrow> art_node \<Rightarrow> nat list \<Rightarrow> u8 list \<Rightarrow> art_node \<Rightarrow> bool" where
  here: "reaches p n [] p n"
| down: "find_child h ch b = Some i \<Longrightarrow> child_at ch i = Some c \<Longrightarrow>
    reaches (p @ prefix_of h @ [b]) c path q m \<Longrightarrow> reaches p (Inner h ch) (i # path) q m"

inductive_cases reaches_NilE: "reaches p n [] q m"
inductive_cases reaches_ConsE: "reaches p n (i # path) q m"

lemma reaches_node_at: "reaches p n path q m \<Longrightarrow> node_at (Some n) path = Some m"
  by (induction rule: reaches.induct) simp_all

lemma reaches_ok: "reaches p n path q m \<Longrightarrow> art_ok p n \<Longrightarrow> art_ok q m"
  by (induction rule: reaches.induct) (use child_ok in blast)+

lemma find_child_set:
  assumes "ch_ok h ch" "find_child h ch b = Some i"
  shows "find_child h (set_child ch i (Some x)) b = Some i" "child_at (set_child ch i (Some x)) i = Some x"
proof -
  show f: "find_child h (set_child ch i (Some x)) b = Some i"
    using assms by (cases ch) (auto simp: slot_update slot_def split: if_splits)
  have "ch_ok h (set_child ch i (Some x))" "child_map h (set_child ch i (Some x)) b = Some x"
    using set_child_ok [OF assms, of x] by simp_all
  then show "child_at (set_child ch i (Some x)) i = Some x" using find_child_at [OF _ f] by simp
qed

lemma find_child_set_buffer [simp]: "find_child (set_buffer h i e) ch = find_child h ch"
  by (cases ch) (simp_all add: set_buffer_def fun_eq_iff)

text \<open>What a node maps, the tree maps.\<close>

lemma child_node_map:
  assumes ok: "art_ok p (Inner h ch)" and c: "find_child h ch b = Some i" "child_at ch i = Some c"
    and k: "node_map (length p + partial_len h + 1) c k = Some v"
  shows "node_map (length p) (Inner h ch) k = Some v" "matches (p @ prefix_of h @ [b]) k" "buf_map h k = None"
proof -
  let ?q = "p @ prefix_of h"
  note D = inner_okD [OF ok [unfolded art_ok_inner]] and C = child_ok [OF ok c]
  have len: "length ?q = length p + partial_len h" using D(1) by simp
  show m: "matches (p @ prefix_of h @ [b]) k" using node_map_matches [OF C(1), of k] C(2) k by simp
  then have m': "matches ?q k" "key_byte k (length ?q) = b" using matches_snoc [OF D(3), of b k] by simp_all
  have kid: "kid_map (length ?q) h ch k = Some v" using C(3) m'(2) k len by (simp add: kid_map_def)
  show b: "buf_map h k = None" using D(6) [of k] kid by (cases "buf_map h k") (auto simp del: length_append)
  show "node_map (length p) (Inner h ch) k = Some v"
    unfolding node_map_inner [OF ok] using m'(1) b kid by (simp add: inner_map_def)
qed

lemma reaches_map:
  "reaches p n path q m \<Longrightarrow> art_ok p n \<Longrightarrow> node_map (length q) m k = Some v \<Longrightarrow> node_map (length p) n k = Some v"
proof (induction rule: reaches.induct)
  case (down h ch b i c p path q m)
  note C = child_ok [OF down.prems(1) down.hyps(1,2)]
  from down.IH [OF C(1) down.prems(2)] C(2)
  show ?case using child_node_map(1) [OF down.prems(1) down.hyps(1,2)] by simp
qed

text \<open>Replacing the node at the end of a path by one that differs in the value of one key, which the node
  has or which the tree does not have at all.\<close>

lemma replace_upd:
  "reaches p n path q m \<Longrightarrow> art_ok p n \<Longrightarrow> art_ok q m' \<Longrightarrow> node_map (length q) m' = (node_map (length q) m)(k := x) \<Longrightarrow>
    node_map (length q) m k \<noteq> None \<or> node_map (length p) n k = None \<and> matches q k \<Longrightarrow>
    \<exists>n'. put_at (Some n) path (Some m') = Some n' \<and> art_ok p n' \<and> node_map (length p) n' = (node_map (length p) n)(k := x) \<and>
      reaches p n' path q m'"
proof (induction rule: reaches.induct)
  case (here p n)
  then show ?case by (auto intro: reaches.here)
next
  case (down h ch b i c p path q m)
  note ok = down.prems(1)
  note D = inner_okD [OF ok [unfolded art_ok_inner]] and C = child_ok [OF ok down.hyps(1,2)]
  have k: "(node_map (length q) m k \<noteq> None \<or> node_map (length p + partial_len h + 1) c k = None \<and> matches q k) \<and>
      matches (p @ prefix_of h @ [b]) k \<and> buf_map h k = None"
  proof (cases "node_map (length q) m k")
    case (Some v)
    then have "node_map (length p + partial_len h + 1) c k = Some v"
      using reaches_map [OF down.hyps(3) C(1) Some] C(2) by simp
    then show ?thesis using child_node_map [OF ok down.hyps(1,2)] Some by blast
  next
    case None
    with down.prems(4) have f: "node_map (length p) (Inner h ch) k = None" "matches q k" by auto
    have "\<exists>r. q = (p @ prefix_of h @ [b]) @ r" using down.hyps(3)
      by (induction rule: reaches.induct) auto
    then have m: "matches (p @ prefix_of h @ [b]) k" using f(2) matches_appendD by blast
    moreover have "buf_map h k = None"
      using f(1) unfolding node_map_inner [OF ok] by (simp add: inner_map_def split: option.splits)
    moreover have "node_map (length p + partial_len h + 1) c k = None"
      using child_node_map(1) [OF ok down.hyps(1,2), of k] f(1) by (cases "node_map (length p + partial_len h + 1) c k") auto
    ultimately show ?thesis using f(2) by blast
  qed
  obtain c' where c': "put_at (Some c) path (Some m') = Some c'" "art_ok (p @ prefix_of h @ [b]) c'"
    "node_map (length p + partial_len h + 1) c' = (node_map (length p + partial_len h + 1) c)(k := x)"
    "reaches (p @ prefix_of h @ [b]) c' path q m'"
    using down.IH [OF C(1) down.prems(2,3)] k unfolding C(2) by blast
  note U = child_upd [OF ok down.hyps(1,2) c'(2,3)]
  have S: "find_child h (set_child ch i (Some c')) b = Some i" "child_at (set_child ch i (Some c')) i = Some c'"
    using find_child_set [OF D(2) down.hyps(1)] by simp_all
  from k have "matches (p @ prefix_of h @ [b]) k" "buf_map h k = None" by simp_all
  note U = U [OF this]
  have "put_at (Some (Inner h ch)) (i # path) (Some m') = Some (Inner h (set_child ch i (Some c')))"
    using c'(1) down.hyps(2) by simp
  with U(1,2) reaches.down [OF S c'(4)] show ?case by blast
qed

text \<open>The buffered keys of the tree change by those of the replaced node.\<close>

lemma put_buffered:
  "reaches p n path q m \<Longrightarrow> art_ok p n \<Longrightarrow> put_at (Some n) path (Some m') = Some n' \<Longrightarrow>
    buffered n' + buffered m = buffered n + buffered m'"
proof (induction arbitrary: n' rule: reaches.induct)
  case (down h ch b i c p path q m)
  note D = inner_okD [OF down.prems(1) [unfolded art_ok_inner]] and C = child_ok [OF down.prems(1) down.hyps(1,2)]
  have "put_at (Some c) path (Some m') \<noteq> None" by (cases path; cases c) simp_all
  then obtain c' where c': "put_at (Some c) path (Some m') = Some c'" by blast
  then have n': "n' = Inner h (set_child ch i (Some c'))" using down.prems(2) down.hyps(2) by simp
  show ?case using down.IH [OF C(1) c'] buffered_set_child [OF D(2) down.hyps(1), of c'] down.hyps(2) by (simp add: n')
qed simp

text \<open>And every node keeps enough children if the new node's do.\<close>

lemma reaches_filled: "reaches p n path q m \<Longrightarrow> art_ok p n \<Longrightarrow> filled n \<Longrightarrow> filled m"
proof (induction rule: reaches.induct)
  case (down h ch b i c p path q m)
  note C = child_ok [OF down.prems(1) down.hyps(1,2)]
  show ?case by (rule down.IH [OF C(1) filled_child [OF down.prems(2) C(3)]])
qed

lemma put_filled:
  "reaches p n path q m \<Longrightarrow> art_ok p n \<Longrightarrow> put_at (Some n) path (Some m') = Some n' \<Longrightarrow> filled n \<Longrightarrow> filled m' \<Longrightarrow> filled n'"
proof (induction arbitrary: n' rule: reaches.induct)
  case (down h ch b i c p path q m)
  note C = child_ok [OF down.prems(1) down.hyps(1,2)]
  have "put_at (Some c) path (Some m') \<noteq> None" by (cases path; cases c) simp_all
  then obtain c' where c': "put_at (Some c) path (Some m') = Some c'" by blast
  then have n': "n' = Inner h (set_child ch i (Some c'))" using down.prems(2) down.hyps(2) by simp
  have "filled c'" by (rule down.IH [OF C(1) c' filled_child [OF down.prems(3) C(3)] down.prems(4)])
  then show ?case unfolding n' by (rule filled_set_child [OF down.prems(1) down.hyps(1) C(3) down.prems(3)])
qed simp

section \<open>Composing places\<close>

lemma node_at_None [simp]: "node_at None path = None"
  by (cases path) simp_all

lemma node_at_append: "node_at n (path @ path') = node_at (node_at n path) path'"
  by (induction n path rule: node_at.induct) (cases path'; simp)+

lemma put_at_append: "put_at n (path @ path') x = put_at n path (put_at (node_at n path) path' x)"
  by (induction n path x rule: put_at.induct) simp_all

lemma set_child_twice [simp]: "set_child (set_child ch i x) i y = set_child ch i y"
  by (cases ch) simp_all

lemma child_at_set: "child_at ch i \<noteq> None \<Longrightarrow> child_at (set_child ch i x) i = x"
  by (cases ch) (auto simp: child_at_def slot_def split: if_splits)

lemma child_of_path: "node_at (child_at ch i) path \<noteq> None \<Longrightarrow> child_at ch i \<noteq> None"
  by (cases "child_at ch i") simp_all

lemma put_at_twice: "node_at n path \<noteq> None \<Longrightarrow> put_at (put_at n path x) path y = put_at n path y"
  by (induction n path x rule: put_at.induct) (simp_all add: child_at_set child_of_path del: not_None_eq)

lemma node_at_put: "node_at n path \<noteq> None \<Longrightarrow> node_at (put_at n path x) path = x"
  by (induction n path x rule: put_at.induct) (simp_all add: child_at_set child_of_path del: not_None_eq)

section \<open>The place of a key\<close>

lemma reaches_snocD:
  "reaches p n (path @ [i]) q m \<Longrightarrow>
    \<exists>qp h ch b. reaches p n path qp (Inner h ch) \<and> find_child h ch b = Some i \<and> child_at ch i = Some m \<and>
      q = qp @ prefix_of h @ [b]"
proof (induction path arbitrary: p n)
  case Nil
  then obtain h ch b where "n = Inner h ch" "find_child h ch b = Some i" "child_at ch i = Some m" "q = p @ prefix_of h @ [b]"
    by (auto elim!: reaches_ConsE reaches_NilE)
  then show ?case using reaches.here by blast
next
  case (Cons j path)
  from Cons.prems obtain h ch b c where n: "n = Inner h ch" "find_child h ch b = Some j" "child_at ch j = Some c"
    "reaches (p @ prefix_of h @ [b]) c (path @ [i]) q m"
    by (auto elim!: reaches_ConsE)
  from Cons.IH [OF n(4)] obtain qp h' ch' b' where
    "reaches (p @ prefix_of h @ [b]) c path qp (Inner h' ch')" "find_child h' ch' b' = Some i" "child_at ch' i = Some m"
    "q = qp @ prefix_of h' @ [b']" by blast
  then show ?case using reaches.down [OF n(2,3)] n(1) by blast
qed

fun hit_at :: "u64 \<Rightarrow> u8 list \<Rightarrow> art_node \<Rightarrow> art_loc \<Rightarrow> bool" where
  "hit_at key q (Leaf l) loc \<longleftrightarrow> loc_hit loc = InLeaf l \<and> entry_key l = key"
| "hit_at key q (Inner h ch) loc \<longleftrightarrow> (\<exists>i. buffer_find h key = Some i \<and> loc_hit loc = InBuffer i (buffer h ! i)) \<and>
    loc_depth loc = length q + partial_len h"

text \<open>Where \<open>art_walk\<close> stops: at a node that the returned path reaches and that has the key, with the
  depths after its prefix and after its parent's.\<close>

lemma art_walk_reaches:
  "art_ok p n \<Longrightarrow> art_walk key (Some n) path0 (length p) dp = Some loc \<Longrightarrow>
    \<exists>path q m. loc_path loc = path0 @ path \<and> reaches p n path q m \<and> hit_at key q m loc \<and>
      (if path = [] then loc_depth_parent loc = dp else length q = loc_depth_parent loc + 1)"
proof (induction p n arbitrary: path0 dp rule: art_ok.induct)
  case (ok_leaf e p)
  then have "entry_key e = key" by (simp add: leaf_matches_def memcmp_eq_0 key_bytes_inject split: if_splits)
  with ok_leaf.prems show ?case by (intro exI [of _ "[]"] exI [of _ p] exI [of _ "Leaf e"]) (auto intro: reaches.here split: if_splits)
next
  case (ok_inner h ch p)
  then have ok: "art_ok p (Inner h ch)" by (intro art_ok.ok_inner)
  note D = inner_okD [OF ok [unfolded art_ok_inner]]
  let ?d = "length p + partial_len h"
  show ?case
  proof (cases "buffer_find h key")
    case (Some i)
    with ok_inner.prems show ?thesis
      by (intro exI [of _ "[]"] exI [of _ p] exI [of _ "Inner h ch"])
        (auto intro: reaches.here simp: Let_def split: if_splits)
  next
    case None
    with ok_inner.prems obtain i where i: "find_child h ch (key_byte key ?d) = Some i"
      "art_walk key (child_at ch i) (path0 @ [i]) (?d + 1) ?d = Some loc"
      by (auto simp: Let_def split: if_splits option.splits)
    then obtain c where c: "child_at ch i = Some c" by (cases "child_at ch i") auto
    note C = child_ok [OF ok i(1) c]
    from ok_inner.IH(1) [OF C(3), of "path0 @ [i]" ?d] i(2) c C(2) obtain path q m where
      r: "loc_path loc = path0 @ i # path" "reaches (p @ prefix_of h @ [key_byte key ?d]) c path q m" "hit_at key q m loc"
      "if path = [] then loc_depth_parent loc = ?d else length q = loc_depth_parent loc + 1" by auto
    have "length q = loc_depth_parent loc + 1"
      using r(2,4) C(2) by (cases path) (auto elim: reaches_NilE)
    with r reaches.down [OF i(1) c r(2)] show ?thesis by fastforce
  qed
qed

end
