(* ===== verification/Hash_Correct.thy ===== *)
theory Hash_Correct
  imports Hash
begin

text \<open>
  The map that a hash table represents, its invariant, and the laws of insertion, deletion, lookup and
  the two ways to double the table.
\<close>

section \<open>Bins\<close>

definition bin_ok :: "entry list \<Rightarrow> bool" where
  "bin_ok b \<longleftrightarrow> length b = 8 \<and>
    (\<forall>i < 8. \<forall>j < 8. entry_key (b ! i) \<noteq> 0 \<longrightarrow> entry_key (b ! j) = entry_key (b ! i) \<longrightarrow> j = i)"

definition bin_find :: "entry list \<Rightarrow> u64 \<Rightarrow> nat option" where
  "bin_find b k = first_idx 8 (\<lambda>j. entry_key (b ! j) = k)"

definition bin_map :: "entry list \<Rightarrow> u64 \<Rightarrow> u64 option" where
  "bin_map b k = (if k = 0 then None else map_option (\<lambda>j. entry_value (b ! j)) (bin_find b k))"

lemma bin_okD: "bin_ok b \<Longrightarrow> i < 8 \<Longrightarrow> j < 8 \<Longrightarrow> entry_key (b ! i) \<noteq> 0 \<Longrightarrow> entry_key (b ! j) = entry_key (b ! i) \<Longrightarrow> j = i"
  unfolding bin_ok_def by blast

lemma bin_findD: "bin_find b k = Some j \<Longrightarrow> j < 8 \<and> entry_key (b ! j) = k"
  by (simp add: bin_find_def first_idx_Some)

lemma bin_find_None: "bin_find b k = None \<longleftrightarrow> (\<forall>j < 8. entry_key (b ! j) \<noteq> k)"
  by (simp add: bin_find_def first_idx_None)

lemma bin_map_None: "k \<noteq> 0 \<Longrightarrow> bin_map b k = None \<longleftrightarrow> (\<forall>j < 8. entry_key (b ! j) \<noteq> k)"
  by (simp add: bin_map_def bin_find_None)

lemma bin_map_Some:
  assumes "bin_ok b" "k \<noteq> 0"
  shows "bin_map b k = Some v \<longleftrightarrow> (\<exists>j < 8. entry_key (b ! j) = k \<and> entry_value (b ! j) = v)"
proof
  assume "bin_map b k = Some v"
  then show "\<exists>j < 8. entry_key (b ! j) = k \<and> entry_value (b ! j) = v"
    using bin_findD [of b k] assms(2) by (auto simp: bin_map_def)
next
  assume "\<exists>j < 8. entry_key (b ! j) = k \<and> entry_value (b ! j) = v"
  then obtain j where j: "j < 8" "entry_key (b ! j) = k" "entry_value (b ! j) = v" by blast
  then obtain i where i: "bin_find b k = Some i" using bin_find_None [of b k] by (cases "bin_find b k") auto
  then have "j = i" using bin_okD [OF assms(1), of i j] bin_findD [OF i] j assms(2) by simp
  with i j assms(2) show "bin_map b k = Some v" by (simp add: bin_map_def)
qed

lemma bin_ext:
  assumes "\<And>k v. k \<noteq> 0 \<Longrightarrow> bin_map b k = Some v \<longleftrightarrow> m k = Some v" "m 0 = None"
  shows "bin_map b = m"
proof (rule ext)
  fix k
  show "bin_map b k = m k"
  proof (cases "k = 0")
    case False
    from assms(1) [OF this] show ?thesis by (metis option.exhaust)
  qed (simp add: bin_map_def assms(2))
qed

text \<open>Writing an entry: over an empty slot or the same key, when the key is nowhere else.\<close>

lemma bin_put:
  assumes ok: "bin_ok b" and j: "j < 8" and k: "k \<noteq> 0" "\<And>i. i < 8 \<Longrightarrow> entry_key (b ! i) = k \<Longrightarrow> i = j"
    and old: "entry_key (b ! j) = 0 \<or> entry_key (b ! j) = k"
  shows "bin_ok (b[j := \<lparr>entry_key = k, entry_value = v\<rparr>])"
    "bin_map (b[j := \<lparr>entry_key = k, entry_value = v\<rparr>]) = (bin_map b)(k \<mapsto> v)"
proof -
  let ?b = "b[j := \<lparr>entry_key = k, entry_value = v\<rparr>]"
  have len: "length b = 8" using ok by (simp add: bin_ok_def)
  have nth: "?b ! i = (if i = j then \<lparr>entry_key = k, entry_value = v\<rparr> else b ! i)" if "i < 8" for i
    using that len by (simp add: nth_list_update)
  have key: "entry_key (?b ! i) = (if i = j then k else entry_key (b ! i))" if "i < 8" for i
    using nth [OF that] by simp
  have inj: "i' = i" if "i < 8" "i' < 8" "entry_key (?b ! i) \<noteq> 0" "entry_key (?b ! i') = entry_key (?b ! i)" for i i'
    using that key [of i] key [of i'] k(2) [of i] k(2) [of i'] bin_okD [OF ok, of i i'] by (auto split: if_splits)
  show ok': "bin_ok ?b" unfolding bin_ok_def using inj len by simp
  show "bin_map ?b = (bin_map b)(k \<mapsto> v)"
  proof (rule bin_ext)
    fix k' v' assume k': "k' \<noteq> (0 :: u64)"
    show "bin_map ?b k' = Some v' \<longleftrightarrow> ((bin_map b)(k \<mapsto> v)) k' = Some v'"
    proof (cases "k' = k")
      case True
      have "bin_map ?b k = Some v" using bin_map_Some [OF ok' k(1), of v] nth [OF j] j by auto
      with True show ?thesis by auto
    next
      case False
      have "(\<exists>i < 8. entry_key (?b ! i) = k' \<and> entry_value (?b ! i) = v') \<longleftrightarrow>
          (\<exists>i < 8. entry_key (b ! i) = k' \<and> entry_value (b ! i) = v')"
      proof (intro ex_cong1 conj_cong refl)
        fix i assume i: "i < (8 :: nat)"
        show "(entry_key (?b ! i) = k') = (entry_key (b ! i) = k')" using nth [OF i] old False k' by auto
        assume "entry_key (b ! i) = k'"
        then show "(entry_value (?b ! i) = v') = (entry_value (b ! i) = v')" using nth [OF i] old False k' by auto
      qed
      then show ?thesis using False bin_map_Some [OF ok' k', of v'] bin_map_Some [OF ok k', of v'] by simp
    qed
  qed (use k(1) in \<open>simp add: bin_map_def\<close>)
qed

lemma bin_clear:
  assumes ok: "bin_ok b" and j: "j < 8" "entry_key (b ! j) = k" "k \<noteq> 0"
  shows "bin_ok (b[j := (b ! j)\<lparr>entry_key := 0\<rparr>])"
    "bin_map (b[j := (b ! j)\<lparr>entry_key := 0\<rparr>]) = (bin_map b)(k := None)"
proof -
  let ?b = "b[j := (b ! j)\<lparr>entry_key := 0\<rparr>]"
  have len: "length b = 8" using ok by (simp add: bin_ok_def)
  have nth: "?b ! i = (if i = j then (b ! j)\<lparr>entry_key := 0\<rparr> else b ! i)" if "i < 8" for i
    using that len by (simp add: nth_list_update)
  have inj: "i' = i" if "i < 8" "i' < 8" "entry_key (?b ! i) \<noteq> 0" "entry_key (?b ! i') = entry_key (?b ! i)" for i i'
    using that nth [of i] nth [of i'] bin_okD [OF ok, of i i'] by (auto split: if_splits)
  show ok': "bin_ok ?b" unfolding bin_ok_def using inj len by simp
  show "bin_map ?b = (bin_map b)(k := None)"
  proof (rule bin_ext)
    fix k' v' assume k': "k' \<noteq> (0 :: u64)"
    have "(\<exists>i < 8. entry_key (?b ! i) = k' \<and> entry_value (?b ! i) = v') \<longleftrightarrow>
        k' \<noteq> k \<and> (\<exists>i < 8. entry_key (b ! i) = k' \<and> entry_value (b ! i) = v')"
    proof
      assume "\<exists>i < 8. entry_key (?b ! i) = k' \<and> entry_value (?b ! i) = v'"
      then obtain i where "i < 8" "entry_key (?b ! i) = k'" "entry_value (?b ! i) = v'" by blast
      then show "k' \<noteq> k \<and> (\<exists>i < 8. entry_key (b ! i) = k' \<and> entry_value (b ! i) = v')"
        using nth [of i] k' bin_okD [OF ok j(1), of i] j by (cases "i = j") auto
    next
      assume "k' \<noteq> k \<and> (\<exists>i < 8. entry_key (b ! i) = k' \<and> entry_value (b ! i) = v')"
      then obtain i where "k' \<noteq> k" "i < 8" "entry_key (b ! i) = k'" "entry_value (b ! i) = v'" by blast
      then show "\<exists>i < 8. entry_key (?b ! i) = k' \<and> entry_value (?b ! i) = v'"
        using nth [of i] j by (intro exI [of _ i]) auto
    qed
    then show "bin_map ?b k' = Some v' \<longleftrightarrow> ((bin_map b)(k := None)) k' = Some v'"
      using bin_map_Some [OF ok' k', of v'] bin_map_Some [OF ok k', of v'] by auto
  qed (simp add: bin_map_def)
qed

section \<open>The table\<close>

definition hash_map :: "hash_sys \<Rightarrow> u64 \<Rightarrow> u64 option" where
  "hash_map hs k = (if IS_SPECIAL_KEY k then None else bin_map (entries hs ! HASH_COMP_IDX hs k) k)"

text \<open>The size is a power of 2, every bin has eight slots with distinct keys that belong there, and
  the count is that of the keys.\<close>

definition hash_ok :: "hash_sys \<Rightarrow> bool" where
  "hash_ok hs \<longleftrightarrow> (\<exists>n < 64. h_size hs = 2 ^ n) \<and> length (entries hs) = unat (h_size hs) \<and>
    (\<forall>i < unat (h_size hs). bin_ok (entries hs ! i)) \<and>
    (\<forall>i < unat (h_size hs). \<forall>j < 8. entry_key (entries hs ! i ! j) \<noteq> 0 \<longrightarrow>
      \<not> IS_SPECIAL_KEY (entry_key (entries hs ! i ! j)) \<and> HASH_COMP_IDX hs (entry_key (entries hs ! i ! j)) = i) \<and>
    h_count hs = of_nat (card (dom (hash_map hs)))"

lemma hash_okD:
  assumes "hash_ok hs"
  shows "length (entries hs) = unat (h_size hs)" "h_count hs = of_nat (card (dom (hash_map hs)))"
    "\<And>i. i < unat (h_size hs) \<Longrightarrow> bin_ok (entries hs ! i)"
    "\<And>i j. i < unat (h_size hs) \<Longrightarrow> j < 8 \<Longrightarrow> entry_key (entries hs ! i ! j) \<noteq> 0 \<Longrightarrow>
      \<not> IS_SPECIAL_KEY (entry_key (entries hs ! i ! j)) \<and> HASH_COMP_IDX hs (entry_key (entries hs ! i ! j)) = i"
  using assms unfolding hash_ok_def by blast+

lemma unat_pow2: "n < 64 \<Longrightarrow> unat ((2 :: u64) ^ n) = 2 ^ n"
proof -
  assume n: "n < 64"
  have e: "(2 :: u64) ^ n = of_nat (2 ^ n)" by simp
  have "(2 :: nat) ^ n < 2 ^ 64" using n by (intro power_strict_increasing) simp_all
  then show ?thesis unfolding e unat_of_nat by simp
qed

lemma size_pow:
  assumes "hash_ok hs"
  obtains n where "n < 64" "h_size hs = 2 ^ n" "unat (h_size hs) = 2 ^ n"
  using assms unat_pow2 by (auto simp: hash_ok_def)

lemma HASH_IDX_mod:
  assumes "n < 64" "h_size hs = 2 ^ n"
  shows "HASH_COMP_IDX hs k = unat (MurmurHash3_x64_64 (key_bytes k) 8 (h_seed hs)) mod 2 ^ n"
proof -
  let ?h = "MurmurHash3_x64_64 (key_bytes k) 8 (h_seed hs)"
  have "?h AND (2 ^ n - 1) = take_bit n ?h" by (simp add: take_bit_eq_mask mask_eq_exp_minus_1)
  then have "HASH_COMP_IDX hs k = unat (take_bit n ?h)" by (simp only: HASH_COMP_IDX_def assms(2))
  also have "\<dots> = take_bit n (unat ?h)" by (rule unsigned_take_bit_eq)
  finally show ?thesis by (simp only: take_bit_eq_mod)
qed

lemma hash_idx_bound: "hash_ok hs \<Longrightarrow> HASH_COMP_IDX hs k < unat (h_size hs)"
  by (elim size_pow) (simp add: HASH_IDX_mod)

lemma hash_idx_agree: "HASH_IDX hs (MurmurHash3_x64_128 (key_bytes k) 8 (h_seed hs)) = HASH_COMP_IDX hs k"
  by (simp add: HASH_IDX_def HASH_COMP_IDX_def murmur_64_128)

section \<open>One bin changes\<close>

lemma bin_of_key: "hash_ok hs \<Longrightarrow> bin_ok (entries hs ! HASH_COMP_IDX hs k)"
  by (rule hash_okD(3)) (simp_all add: hash_idx_bound)

text \<open>A table whose bin \<open>idx\<close> is replaced by one whose keys belong there.\<close>

lemma replace_bin:
  assumes ok: "hash_ok hs" and idx: "idx < unat (h_size hs)" and b: "bin_ok b"
    and keys: "\<And>j. j < 8 \<Longrightarrow> entry_key (b ! j) \<noteq> 0 \<Longrightarrow>
      \<not> IS_SPECIAL_KEY (entry_key (b ! j)) \<and> HASH_COMP_IDX hs (entry_key (b ! j)) = idx"
    and hs': "h_seed hs' = h_seed hs" "h_size hs' = h_size hs" "entries hs' = (entries hs)[idx := b]"
  shows "hash_map hs' = (\<lambda>k. if HASH_COMP_IDX hs k = idx \<and> \<not> IS_SPECIAL_KEY k then bin_map b k else hash_map hs k)"
    "h_count hs' = of_nat (card (dom (hash_map hs'))) \<Longrightarrow> hash_ok hs'"
proof -
  have ci: "HASH_COMP_IDX hs' k = HASH_COMP_IDX hs k" for k by (simp add: HASH_COMP_IDX_def hs')
  have len: "idx < length (entries hs)" using idx hash_okD(1) [OF ok] by simp
  show "hash_map hs' = (\<lambda>k. if HASH_COMP_IDX hs k = idx \<and> \<not> IS_SPECIAL_KEY k then bin_map b k else hash_map hs k)"
    using len by (auto simp: fun_eq_iff hash_map_def ci hs'(3))
  assume c: "h_count hs' = of_nat (card (dom (hash_map hs')))"
  have nth: "entries hs' ! i = (if i = idx then b else entries hs ! i)" for i
    using len by (simp add: hs'(3))
  have "\<exists>n < 64. h_size hs' = 2 ^ n" using ok hs'(2) by (simp add: hash_ok_def)
  moreover have "length (entries hs') = unat (h_size hs')" using hash_okD(1) [OF ok] hs' by simp
  moreover have "bin_ok (entries hs' ! i)" if "i < unat (h_size hs')" for i
    using b hash_okD(3) [OF ok, of i] that by (simp add: nth hs'(2))
  moreover have "\<not> IS_SPECIAL_KEY (entry_key (entries hs' ! i ! j)) \<and> HASH_COMP_IDX hs' (entry_key (entries hs' ! i ! j)) = i"
    if "i < unat (h_size hs')" "j < 8" "entry_key (entries hs' ! i ! j) \<noteq> 0" for i j
    using keys [of j] hash_okD(4) [OF ok, of i j] that unfolding ci nth hs'(2) by (auto split: if_splits)
  ultimately show "hash_ok hs'" using c unfolding hash_ok_def by blast
qed

lemma bin_keys:
  assumes "hash_ok hs" "j < 8" "entry_key (entries hs ! HASH_COMP_IDX hs k ! j) \<noteq> 0"
  shows "\<not> IS_SPECIAL_KEY (entry_key (entries hs ! HASH_COMP_IDX hs k ! j))"
    "HASH_COMP_IDX hs (entry_key (entries hs ! HASH_COMP_IDX hs k ! j)) = HASH_COMP_IDX hs k"
  using hash_okD(4) [OF assms(1) hash_idx_bound [OF assms(1), of k] assms(2,3)] by simp_all

text \<open>Putting an entry for a key into its bin, and clearing the slot of a key.\<close>

lemma table_put:
  assumes ok: "hash_ok hs" and k: "\<not> IS_SPECIAL_KEY k" and j: "j < 8"
    and u: "\<And>i. i < 8 \<Longrightarrow> entry_key (entries hs ! HASH_COMP_IDX hs k ! i) = k \<Longrightarrow> i = j"
    and old: "entry_key (entries hs ! HASH_COMP_IDX hs k ! j) = 0 \<or> entry_key (entries hs ! HASH_COMP_IDX hs k ! j) = k"
    and hs': "hs' = (set_entry hs (HASH_COMP_IDX hs k) j \<lparr>entry_key = k, entry_value = v\<rparr>)\<lparr>h_count := c\<rparr>"
    and c: "c = (if hash_map hs k = None then h_count hs + 1 else h_count hs)"
  shows "hash_ok hs' \<and> hash_map hs' = (hash_map hs)(k \<mapsto> v)"
proof -
  let ?idx = "HASH_COMP_IDX hs k" and ?e = "\<lparr>entry_key = k, entry_value = v\<rparr>"
  let ?b = "(entries hs ! ?idx)[j := ?e]"
  have b: "bin_ok (entries hs ! ?idx)" by (rule bin_of_key [OF ok])
  then have len: "length (entries hs ! ?idx) = 8" by (simp add: bin_ok_def)
  have P: "bin_ok ?b" "bin_map ?b = (bin_map (entries hs ! ?idx))(k \<mapsto> v)"
    by (rule bin_put [OF b j not_special_nonzero [OF k] _ old]; rule u; assumption)+
  have keys: "\<not> IS_SPECIAL_KEY (entry_key (?b ! i)) \<and> HASH_COMP_IDX hs (entry_key (?b ! i)) = ?idx"
    if "i < 8" "entry_key (?b ! i) \<noteq> 0" for i
    using that len bin_keys [OF ok that(1), of k] k by (cases "i = j") (simp_all add: nth_list_update)
  have e: "h_seed hs' = h_seed hs" "h_size hs' = h_size hs" "entries hs' = (entries hs)[?idx := ?b]"
    by (simp_all add: hs' set_entry_def)
  note R = replace_bin [OF ok hash_idx_bound [OF ok] P(1) keys e]
  have "hash_map hs' = (hash_map hs)(k \<mapsto> v)"
  proof (rule ext)
    fix x
    have "hash_map hs' x = (if HASH_COMP_IDX hs x = ?idx \<and> \<not> IS_SPECIAL_KEY x then bin_map ?b x else hash_map hs x)"
      by (rule fun_cong [OF R(1)])
    also have "\<dots> = ((hash_map hs)(k \<mapsto> v)) x"
      unfolding P(2) using k by (auto simp: hash_map_def)
    finally show "hash_map hs' x = ((hash_map hs)(k \<mapsto> v)) x" .
  qed
  moreover from this have "h_count hs' = of_nat (card (dom (hash_map hs')))"
    using hash_okD(2) [OF ok] unfolding c hs' by (simp add: card_dom_put del: dom_fun_upd split: if_splits)
  ultimately show ?thesis using R(2) by blast
qed

lemma table_clear:
  assumes ok: "hash_ok hs" and k: "\<not> IS_SPECIAL_KEY k" and j: "j < 8"
    and kj: "entry_key (entries hs ! HASH_COMP_IDX hs k ! j) = k"
    and hs': "hs' = (set_entry hs (HASH_COMP_IDX hs k) j
      ((entries hs ! HASH_COMP_IDX hs k ! j)\<lparr>entry_key := 0\<rparr>))\<lparr>h_count := h_count hs - 1\<rparr>"
  shows "hash_ok hs' \<and> hash_map hs' = (hash_map hs)(k := None)"
proof -
  let ?idx = "HASH_COMP_IDX hs k"
  let ?b = "(entries hs ! ?idx)[j := (entries hs ! ?idx ! j)\<lparr>entry_key := 0\<rparr>]"
  have b: "bin_ok (entries hs ! ?idx)" by (rule bin_of_key [OF ok])
  then have len: "length (entries hs ! ?idx) = 8" by (simp add: bin_ok_def)
  note P = bin_clear [OF b j kj not_special_nonzero [OF k]]
  have keys: "\<not> IS_SPECIAL_KEY (entry_key (?b ! i)) \<and> HASH_COMP_IDX hs (entry_key (?b ! i)) = ?idx"
    if "i < 8" "entry_key (?b ! i) \<noteq> 0" for i
    using that len bin_keys [OF ok that(1), of k] by (cases "i = j") (simp_all add: nth_list_update)
  have e: "h_seed hs' = h_seed hs" "h_size hs' = h_size hs" "entries hs' = (entries hs)[?idx := ?b]"
    by (simp_all add: hs' set_entry_def)
  note R = replace_bin [OF ok hash_idx_bound [OF ok] P(1) keys e]
  have "hash_map hs' = (hash_map hs)(k := None)"
  proof (rule ext)
    fix x
    have "hash_map hs' x = (if HASH_COMP_IDX hs x = ?idx \<and> \<not> IS_SPECIAL_KEY x then bin_map ?b x else hash_map hs x)"
      by (rule fun_cong [OF R(1)])
    also have "\<dots> = ((hash_map hs)(k := None)) x"
      unfolding P(2) using k by (auto simp: hash_map_def)
    finally show "hash_map hs' x = ((hash_map hs)(k := None)) x" .
  qed
  moreover have "hash_map hs k \<noteq> None"
    using bin_map_None [OF not_special_nonzero [OF k], of "entries hs ! ?idx"] k j kj by (auto simp: hash_map_def)
  note C = card_dom_remove(1,2) [of "hash_map hs" k, OF this]
  have "h_count hs' = of_nat (card (dom ((hash_map hs)(k := None))))"
    using hash_okD(2) [OF ok] C unfolding C(1) hs' by (simp add: of_nat_diff Suc_leI)
  ultimately show ?thesis using R(2) by simp
qed

section \<open>Insertion, lookup and deletion\<close>

lemma hash_map_find:
  "\<not> IS_SPECIAL_KEY k \<Longrightarrow> hash_map hs k =
    map_option (\<lambda>j. entry_value (entries hs ! HASH_COMP_IDX hs k ! j)) (bin_find (entries hs ! HASH_COMP_IDX hs k) k)"
  by (simp add: hash_map_def bin_map_def)

lemma set_entry_twice: "set_entry (set_entry hs i j e) i j e' = set_entry hs i j e'"
  by (cases "i < length (entries hs)") (simp_all add: set_entry_def list_update_beyond)

lemma set_entry_nth: "i < length (entries hs) \<Longrightarrow> j < length (entries hs ! i) \<Longrightarrow> entries (set_entry hs i j e) ! i ! j = e"
  by (simp add: set_entry_def)

lemma nocheck_simp:
  assumes ok: "hash_ok hs"
  shows "hash_insert_nocheck hs k v = hash_insert_nocheck_nosafe hs k v"
proof (cases "first_idx 8 (\<lambda>j. entry_key (entries hs ! HASH_COMP_IDX hs k ! j) = 0)")
  case (Some j)
  let ?i = "HASH_COMP_IDX hs k"
  have l: "?i < length (entries hs)" "j < length (entries hs ! ?i)"
    using hash_idx_bound [OF ok, of k] hash_okD(1) [OF ok] bin_of_key [OF ok, of k] Some
    by (simp_all add: bin_ok_def first_idx_Some)
  have l': "?i < length (entries (set_entry hs ?i j e))" "j < length (entries (set_entry hs ?i j e) ! ?i)" for e
    using l by (simp_all add: set_entry_def)
  show ?thesis
    using Some unfolding hash_insert_nocheck_def hash_insert_nocheck_nosafe_def Let_def
    by (simp add: set_entry_nth [OF l] set_entry_nth [OF l'] set_entry_twice)
      (cases hs, cases "entries hs ! ?i ! j", simp add: set_entry_def)
qed (simp add: hash_insert_nocheck_def hash_insert_nocheck_nosafe_def)

lemma insert_nocheck_ok:
  assumes ok: "hash_ok hs" and k: "\<not> IS_SPECIAL_KEY k" and fresh: "hash_map hs k = None"
    and eq: "hash_insert_nocheck_nosafe hs k v = (hs', st)"
  shows "(st = 0 \<and> hash_ok hs' \<and> hash_map hs' = (hash_map hs)(k \<mapsto> v)) \<or>
    (st = 2 \<and> hs' = hs \<and> (\<forall>j < 8. entry_key (entries hs ! HASH_COMP_IDX hs k ! j) \<noteq> 0))"
proof (cases "first_idx 8 (\<lambda>j. entry_key (entries hs ! HASH_COMP_IDX hs k ! j) = 0)")
  case None
  then have "hs' = hs" "st = 2" using eq by (simp_all add: hash_insert_nocheck_nosafe_def)
  with None show ?thesis by (simp add: first_idx_None)
next
  case (Some j)
  then have j: "j < 8" "entry_key (entries hs ! HASH_COMP_IDX hs k ! j) = 0" by (simp_all add: first_idx_Some)
  have nk: "entry_key (entries hs ! HASH_COMP_IDX hs k ! i) \<noteq> k" if "i < 8" for i
    using fresh k that bin_find_None [of "entries hs ! HASH_COMP_IDX hs k" k] by (simp add: hash_map_find)
  have "hash_ok hs' \<and> hash_map hs' = (hash_map hs)(k \<mapsto> v)"
  proof (rule table_put [OF ok k j(1)])
    show "i = j" if "i < 8" "entry_key (entries hs ! HASH_COMP_IDX hs k ! i) = k" for i
      using nk [OF that(1)] that(2) by simp
    show "hs' = (set_entry hs (HASH_COMP_IDX hs k) j \<lparr>entry_key = k, entry_value = v\<rparr>)\<lparr>h_count := h_count hs + 1\<rparr>"
      using eq Some by (cases hs) (auto simp: hash_insert_nocheck_nosafe_def set_entry_def Let_def)
  qed (use j fresh in simp_all)
  then show ?thesis using eq Some by (simp add: hash_insert_nocheck_nosafe_def)
qed

text \<open>What the scan of \<open>hash_modify\<close> finds, besides the choice of a key to exchange.\<close>

lemma find_map_index: "find P (map f xs) = map_option f (find (\<lambda>x. P (f x)) xs)"
  by (induction xs) auto

lemma first_idx_shift:
  "first_idx (Suc n) P = (if P 0 then Some 0 else map_option Suc (first_idx n (\<lambda>i. P (Suc i))))"
  unfolding first_idx_def by (simp add: upt_conv_Cons map_Suc_upt [symmetric] find_map_index del: upt_Suc)

lemma scan_bin_Cons:
  obtains mc' im' where "scan_bin sk k n (e # es) mc av im =
    (if entry_key e = k then Found n
     else scan_bin sk k (Suc n) es mc' (if entry_key e = 0 \<and> av = None then Some n else av) im')"
  by (rule that, simp only: scan_bin.simps Let_def Suc_eq_plus1)

lemma scan_bin_no_pick: "scan_bin sk k n es mc av None = Scanned av' im' \<Longrightarrow> mc \<le> 0 \<Longrightarrow> im' = None"
  by (induction es arbitrary: n av) (auto simp: Let_def split: if_splits)

lemma scan_bin_found:
  "scan_bin sk k n es mc av im = Found j \<Longrightarrow> n \<le> j \<and> j < n + length es \<and> entry_key (es ! (j - n)) = k"
proof (induction es arbitrary: n mc av im)
  case (Cons e es)
  obtain mc' im' where e: "scan_bin sk k n (e # es) mc av im =
    (if entry_key e = k then Found n
     else scan_bin sk k (Suc n) es mc' (if entry_key e = 0 \<and> av = None then Some n else av) im')"
    by (rule scan_bin_Cons)
  show ?case
  proof (cases "entry_key e = k")
    case False
    with Cons.prems e have "scan_bin sk k (Suc n) es mc' (if entry_key e = 0 \<and> av = None then Some n else av) im' = Found j"
      by simp
    from Cons.IH [OF this] show ?thesis by (auto simp: nth_Cons' Suc_diff_le)
  qed (use Cons.prems e in simp)
qed simp

lemma scan_bin_scanned:
  "scan_bin sk k n es mc av im = Scanned av' im' \<Longrightarrow> (\<forall>j < length es. entry_key (es ! j) \<noteq> k) \<and>
    av' = (case av of Some a \<Rightarrow> Some a | None \<Rightarrow>
      map_option (\<lambda>j. n + j) (first_idx (length es) (\<lambda>j. entry_key (es ! j) = 0)))"
proof (induction es arbitrary: n mc av im)
  case Nil
  then show ?case by (auto simp: first_idx_def split: option.split)
next
  case (Cons e es)
  obtain mc' im'' where e: "scan_bin sk k n (e # es) mc av im =
    (if entry_key e = k then Found n
     else scan_bin sk k (Suc n) es mc' (if entry_key e = 0 \<and> av = None then Some n else av) im'')"
    by (rule scan_bin_Cons)
  with Cons.prems have k: "entry_key e \<noteq> k"
    and s: "scan_bin sk k (Suc n) es mc' (if entry_key e = 0 \<and> av = None then Some n else av) im'' = Scanned av' im'"
    by (auto split: if_splits)
  have "entry_key ((e # es) ! j) \<noteq> k" if "j < length (e # es)" for j
    using Cons.IH [OF s] k that by (cases j) auto
  moreover have "av' = (case av of Some a \<Rightarrow> Some a | None \<Rightarrow>
      map_option (\<lambda>j. n + j) (first_idx (length (e # es)) (\<lambda>j. entry_key ((e # es) ! j) = 0)))"
    using conjunct2 [OF Cons.IH [OF s]] fun_eq_iff [of "(+) (Suc n)" "\<lambda>x. Suc (n + x)"]
    by (cases av) (auto simp: first_idx_shift option.map_comp comp_def)
  ultimately show ?case by blast
qed

text \<open>\<open>hash_insert\<close> replaces in place, takes a free slot, or reports a full bin.\<close>

lemma hash_insert_ok:
  assumes ok: "hash_ok (hash ind)" and k: "\<not> IS_SPECIAL_KEY k"
    and eq: "hash_modify ind k v INSERT = (ind', freq, st)"
  shows "(st = 0 \<and> hash_ok (hash ind') \<and> hash_map (hash ind') = (hash_map (hash ind))(k \<mapsto> v) \<and>
      ind' = ind\<lparr>hash := hash ind'\<rparr>) \<or>
    (st = 2 \<and> ind' = ind \<and> hash_map (hash ind) k = None \<and>
      (\<forall>j < 8. entry_key (entries (hash ind) ! HASH_COMP_IDX (hash ind) k ! j) \<noteq> 0))"
proof -
  let ?hs = "hash ind" and ?idx = "HASH_COMP_IDX (hash ind) k"
  let ?b = "entries ?hs ! ?idx"
  have b: "bin_ok ?b" by (rule bin_of_key [OF ok])
  then have t: "take 8 ?b = ?b" and len: "length ?b = 8" by (simp_all add: bin_ok_def)
  have ind: "ind\<lparr>cm := cm ind\<rparr> = ind" by simp
  show ?thesis
  proof (cases "scan_bin (cm ind) k 0 ?b 0 None None")
    case (Found j)
    with scan_bin_found [OF this] len have j: "j < 8" "entry_key (?b ! j) = k" by simp_all
    have m: "hash_map ?hs k \<noteq> None"
      using bin_map_None [OF not_special_nonzero [OF k], of ?b] j k by (auto simp: hash_map_def)
    have u: "\<And>i. i < 8 \<Longrightarrow> entry_key (?b ! i) = k \<Longrightarrow> i = j"
      using bin_okD [OF b j(1)] j(2) not_special_nonzero [OF k] by simp
    have e: "(?b ! j)\<lparr>entry_value := v\<rparr> = \<lparr>entry_key = k, entry_value = v\<rparr>" using j(2) by (cases "?b ! j") simp
    have hs': "ind' = ind\<lparr>hash := set_entry ?hs ?idx j \<lparr>entry_key = k, entry_value = v\<rparr>\<rparr>" "st = 0"
      using eq Found e unfolding hash_modify_def hash_idx_agree Let_def by (simp_all add: t ind)
    have "hash_ok (hash ind') \<and> hash_map (hash ind') = (hash_map ?hs)(k \<mapsto> v)"
      by (rule table_put [OF ok k j(1) u, where c = "h_count ?hs"]) (use j m in \<open>simp_all add: hs' set_entry_def\<close>)
    then show ?thesis using hs' by simp
  next
    case (Scanned av im)
    note S = scan_bin_scanned [OF this]
    then have nk: "\<And>i. i < 8 \<Longrightarrow> entry_key (?b ! i) \<noteq> k" and av: "av = first_idx 8 (\<lambda>j. entry_key (?b ! j) = 0)"
      using len fun_eq_iff [of "(+) (0 :: nat)" "\<lambda>j. j"] by (simp_all add: option.map_ident)
    have m: "hash_map ?hs k = None" using bin_map_None [OF not_special_nonzero [OF k], of ?b] nk k by (simp add: hash_map_def)
    show ?thesis
    proof (cases av)
      case None
      have "im = None"
        using scan_bin_no_pick [OF Scanned] by simp
      then show ?thesis using eq Scanned None m av unfolding hash_modify_def hash_idx_agree Let_def
        by (simp add: t ind first_idx_None)
    next
      case (Some j)
      then have j: "j < 8" "entry_key (?b ! j) = 0" using av by (simp_all add: first_idx_Some)
      have u: "\<And>i. i < 8 \<Longrightarrow> entry_key (?b ! i) = k \<Longrightarrow> i = j" using nk by blast
      have hs': "ind' = ind\<lparr>hash := (set_entry ?hs ?idx j \<lparr>entry_key = k, entry_value = v\<rparr>)\<lparr>h_count := h_count ?hs + 1\<rparr>\<rparr>" "st = 0"
        using eq Scanned Some unfolding hash_modify_def hash_idx_agree Let_def by (simp_all add: t ind)
      have "hash_ok (hash ind') \<and> hash_map (hash ind') = (hash_map ?hs)(k \<mapsto> v)"
        by (rule table_put [OF ok k j(1) u, where c = "h_count ?hs + 1"]) (use j m in \<open>simp_all add: hs'\<close>)
      then show ?thesis using hs' by simp
    qed
  qed
qed

lemma hash_query_ok:
  assumes k: "\<not> IS_SPECIAL_KEY k"
    and eq: "hash_search ind k True HASH_QUERY = (ind', freq, res, found)"
  shows "res = hash_map (hash ind) k \<and> found = (res \<noteq> None) \<and> (\<exists>s. ind' = ind\<lparr>cm := s\<rparr>) \<and>
    freq = Some (snd (countmin_inc_explicit (cm ind) k (Some (MurmurHash3_x64_128 (key_bytes k) 8 (h_seed (hash ind))))))"
proof -
  obtain s f where c: "countmin_inc_explicit (cm ind) k (Some (MurmurHash3_x64_128 (key_bytes k) 8 (h_seed (hash ind)))) = (s, f)"
    by (rule prod.exhaust)
  from eq show ?thesis
    unfolding hash_search_def Let_def
    by (auto simp: c hash_idx_agree hash_map_find [OF k] bin_find_def split: option.splits)
qed

lemma hash_delete_ok:
  assumes ok: "hash_ok (hash ind)" and k: "\<not> IS_SPECIAL_KEY k"
    and eq: "hash_search ind k False HASH_DELETE = (ind', freq, res, found)"
  shows "found = (hash_map (hash ind) k \<noteq> None) \<and> hash_ok (hash ind') \<and>
    hash_map (hash ind') = (hash_map (hash ind))(k := None) \<and> ind' = ind\<lparr>hash := hash ind'\<rparr>"
proof -
  let ?hs = "hash ind" and ?idx = "HASH_COMP_IDX (hash ind) k"
  show ?thesis
  proof (cases "bin_find (entries ?hs ! ?idx) k")
    case None
    then have "ind' = ind" "found = False" "hash_map ?hs k = None"
      using eq by (simp_all add: hash_search_def Let_def hash_idx_agree bin_find_def hash_map_find [OF k])
    then show ?thesis using ok by (simp add: fun_upd_idem)
  next
    case (Some j)
    note j = bin_findD [OF Some]
    have hs': "hash ind' = (set_entry ?hs ?idx j ((entries ?hs ! ?idx ! j)\<lparr>entry_key := 0\<rparr>))\<lparr>h_count := h_count ?hs - 1\<rparr>"
      "ind' = ind\<lparr>hash := hash ind'\<rparr>" "found = True"
      using eq Some by (auto simp: hash_search_def Let_def hash_idx_agree bin_find_def)
    have "hash_map ?hs k \<noteq> None" using Some by (simp add: hash_map_find [OF k])
    then show ?thesis using table_clear [OF ok k _ _ hs'(1)] j hs'(2,3) by simp
  qed
qed

section \<open>Doubling the table\<close>

lemma level_bit:
  assumes "h_size hs = 2 ^ n"
  shows "HASH_LEVEL hs k \<longleftrightarrow> bit (MurmurHash3_x64_64 (key_bytes k) 8 (h_seed hs)) n"
  by (simp add: HASH_LEVEL_def assms and_exp_eq_0_iff_not_bit)

lemma mod_double: "(x :: nat) mod 2 ^ Suc n = (if bit x n then 2 ^ n + x mod 2 ^ n else x mod 2 ^ n)"
  using take_bit_Suc_from_most [of n x] by (simp add: take_bit_eq_mod)

text \<open>One entry at a time: the keys seen so far are split by their level, the others are still in
  the lower bin.\<close>

definition split_inv :: "hash_sys \<Rightarrow> entry list \<Rightarrow> nat \<Rightarrow> entry list \<times> entry list \<times> nat \<Rightarrow> bool" where
  "split_inv hs b n = (\<lambda>(low, up, k). k \<le> n \<and> length low = 8 \<and> length up = 8 \<and>
    (\<forall>i < 8. low ! i = (if i < n \<and> entry_key (b ! i) \<noteq> 0 \<and> HASH_LEVEL hs (entry_key (b ! i))
      then (b ! i)\<lparr>entry_key := 0\<rparr> else b ! i)) \<and>
    (\<forall>i < 8. k \<le> i \<longrightarrow> entry_key (up ! i) = 0) \<and>
    (\<forall>i < k. \<exists>j < n. up ! i = b ! j \<and> entry_key (b ! j) \<noteq> 0 \<and> HASH_LEVEL hs (entry_key (b ! j))) \<and>
    (\<forall>j < n. entry_key (b ! j) \<noteq> 0 \<longrightarrow> HASH_LEVEL hs (entry_key (b ! j)) \<longrightarrow> (\<exists>i < k. up ! i = b ! j)) \<and>
    (\<forall>i < k. \<forall>i' < k. entry_key (up ! i) = entry_key (up ! i') \<longrightarrow> i = i'))"

lemma split_step:
  assumes b: "bin_ok b" and inv: "split_inv hs b n s" and n: "n < 8"
  shows "split_inv hs b (Suc n) (expand_step hs n s)"
proof -
  obtain low up k where s: "s = (low, up, k)" by (rule prod_cases3)
  from inv have I: "k \<le> n" "length low = 8" "length up = 8"
    "\<And>i. i < 8 \<Longrightarrow> low ! i = (if i < n \<and> entry_key (b ! i) \<noteq> 0 \<and> HASH_LEVEL hs (entry_key (b ! i))
      then (b ! i)\<lparr>entry_key := 0\<rparr> else b ! i)"
    "\<And>i. i < 8 \<Longrightarrow> k \<le> i \<Longrightarrow> entry_key (up ! i) = 0"
    "\<And>i. i < k \<Longrightarrow> \<exists>j < n. up ! i = b ! j \<and> entry_key (b ! j) \<noteq> 0 \<and> HASH_LEVEL hs (entry_key (b ! j))"
    "\<And>j. j < n \<Longrightarrow> entry_key (b ! j) \<noteq> 0 \<Longrightarrow> HASH_LEVEL hs (entry_key (b ! j)) \<Longrightarrow> \<exists>i < k. up ! i = b ! j"
    "\<And>i i'. i < k \<Longrightarrow> i' < k \<Longrightarrow> entry_key (up ! i) = entry_key (up ! i') \<Longrightarrow> i = i'"
    unfolding split_inv_def s by simp_all
  have ln: "low ! n = b ! n" using I(4) [OF n] by simp
  show ?thesis
  proof (cases "entry_key (b ! n) \<noteq> 0 \<and> HASH_LEVEL hs (entry_key (b ! n))")
    case False
    then have e: "expand_step hs n s = s" by (auto simp: expand_step_def s ln Let_def)
    have "low ! i = (if i < Suc n \<and> entry_key (b ! i) \<noteq> 0 \<and> HASH_LEVEL hs (entry_key (b ! i))
      then (b ! i)\<lparr>entry_key := 0\<rparr> else b ! i)" if "i < 8" for i
      using I(4) [OF that] False by (cases "i = n") (auto simp: less_Suc_eq)
    moreover have "\<exists>j < Suc n. up ! i = b ! j \<and> entry_key (b ! j) \<noteq> 0 \<and> HASH_LEVEL hs (entry_key (b ! j))" if "i < k" for i
      using I(6) [OF that] less_SucI by blast
    moreover have "\<exists>i < k. up ! i = b ! j" if "j < Suc n" "entry_key (b ! j) \<noteq> 0" "HASH_LEVEL hs (entry_key (b ! j))" for j
      using I(7) [of j] that False by (auto simp: less_Suc_eq)
    ultimately show ?thesis using I(1,2,3,5,8) unfolding e unfolding s split_inv_def by simp
  next
    case True
    let ?low = "low[n := (b ! n)\<lparr>entry_key := 0\<rparr>]" and ?up = "up[k := b ! n]"
    have e: "expand_step hs n s = (?low, ?up, k + 1)" using True by (simp add: expand_step_def s ln Let_def)
    have k: "k < 8" using I(1) n by simp
    have low: "?low ! i = (if i < Suc n \<and> entry_key (b ! i) \<noteq> 0 \<and> HASH_LEVEL hs (entry_key (b ! i))
      then (b ! i)\<lparr>entry_key := 0\<rparr> else b ! i)" if "i < 8" for i
      using I(4) [OF that] True that I(2) by (cases "i = n") (auto simp: less_Suc_eq)
    have up: "?up ! i = (if i = k then b ! n else up ! i)" if "i < 8" for i
      using that I(3) by (simp add: nth_list_update)
    have z: "entry_key (?up ! i) = 0" if "i < 8" "k + 1 \<le> i" for i using I(5) [of i] that up [of i] by simp
    have src: "\<exists>j < Suc n. ?up ! i = b ! j \<and> entry_key (b ! j) \<noteq> 0 \<and> HASH_LEVEL hs (entry_key (b ! j))"
      if "i < k + 1" for i
    proof (cases "i = k")
      case False
      then have "i < k" using that by simp
      from I(6) [OF this] up [of i] False k this show ?thesis by (auto intro: less_SucI)
    qed (use True up [OF k] in auto)
    have tgt: "\<exists>i < k + 1. ?up ! i = b ! j" if j: "j < Suc n" "entry_key (b ! j) \<noteq> 0" "HASH_LEVEL hs (entry_key (b ! j))" for j
    proof (cases "j = n")
      case True
      then show ?thesis using up [OF k] by (intro exI [of _ k]) simp
    next
      case False
      then obtain i where "i < k" "up ! i = b ! j" using I(7) [of j] j by auto
      then show ?thesis using up [of i] k by (intro exI [of _ i]) simp
    qed
    have new: "entry_key (up ! i) \<noteq> entry_key (b ! n)" if i: "i < k" for i
    proof
      assume a: "entry_key (up ! i) = entry_key (b ! n)"
      obtain j where "j < n" "up ! i = b ! j" using I(6) [OF i] by blast
      with a True bin_okD [OF b n, of j] n show False by simp
    qed
    have inj: "i = i'" if "i < k + 1" "i' < k + 1" "entry_key (?up ! i) = entry_key (?up ! i')" for i i'
      using that up [of i] up [of i'] k new [of i] new [of i'] I(8) [of i i'] by (auto simp: less_Suc_eq split: if_splits)
    show ?thesis unfolding e split_inv_def
      using I(1-3) low z src tgt inj by simp
  qed
qed

lemma expand_bin_inv:
  assumes b: "bin_ok b"
  shows "split_inv hs b 8 (expand_bin hs b)"
proof -
  have "split_inv hs b n (fold (expand_step hs) [0..<n] (b, replicate 8 empty_entry, 0))" if "n \<le> 8" for n
    using that
  proof (induction n)
    case 0
    show ?case using b by (simp add: split_inv_def bin_ok_def empty_entry_def)
  next
    case (Suc n)
    then show ?case using split_step [OF b, of hs n] by simp
  qed
  from this [of 8] show ?thesis by (simp add: expand_bin_def)
qed

lemma expand_bin_ok:
  assumes b: "bin_ok b" and eq: "expand_bin hs b = (low, up, m)"
  shows "bin_ok low" "bin_ok up"
    "\<And>k. bin_map low k = (if HASH_LEVEL hs k then None else bin_map b k)"
    "\<And>k. bin_map up k = (if HASH_LEVEL hs k then bin_map b k else None)"
    "\<And>i. i < 8 \<Longrightarrow> entry_key (low ! i) \<noteq> 0 \<Longrightarrow> low ! i = b ! i \<and> \<not> HASH_LEVEL hs (entry_key (low ! i))"
    "\<And>i. i < 8 \<Longrightarrow> entry_key (up ! i) \<noteq> 0 \<Longrightarrow> HASH_LEVEL hs (entry_key (up ! i)) \<and> (\<exists>j < 8. up ! i = b ! j)"
proof -
  from expand_bin_inv [OF b, of hs] have I: "m \<le> 8" "length low = 8" "length up = 8"
    "\<And>i. i < 8 \<Longrightarrow> low ! i = (if entry_key (b ! i) \<noteq> 0 \<and> HASH_LEVEL hs (entry_key (b ! i))
      then (b ! i)\<lparr>entry_key := 0\<rparr> else b ! i)"
    "\<And>i. i < 8 \<Longrightarrow> m \<le> i \<Longrightarrow> entry_key (up ! i) = 0"
    "\<And>i. i < m \<Longrightarrow> \<exists>j < 8. up ! i = b ! j \<and> entry_key (b ! j) \<noteq> 0 \<and> HASH_LEVEL hs (entry_key (b ! j))"
    "\<And>j. j < 8 \<Longrightarrow> entry_key (b ! j) \<noteq> 0 \<Longrightarrow> HASH_LEVEL hs (entry_key (b ! j)) \<Longrightarrow> \<exists>i < m. up ! i = b ! j"
    "\<And>i i'. i < m \<Longrightarrow> i' < m \<Longrightarrow> entry_key (up ! i) = entry_key (up ! i') \<Longrightarrow> i = i'"
    unfolding split_inv_def eq by simp_all
  show lowk: "low ! i = b ! i \<and> \<not> HASH_LEVEL hs (entry_key (low ! i))" if "i < 8" "entry_key (low ! i) \<noteq> 0" for i
    using I(4) [OF that(1)] that(2) by (auto split: if_splits)
  have upm: "i < m" if "i < 8" "entry_key (up ! i) \<noteq> 0" for i using I(5) [of i] that by (meson not_le)
  show upk: "HASH_LEVEL hs (entry_key (up ! i)) \<and> (\<exists>j < 8. up ! i = b ! j)" if "i < 8" "entry_key (up ! i) \<noteq> 0" for i
    using I(6) [OF upm [OF that]] by auto
  have "i' = i" if "i < 8" "i' < 8" "entry_key (low ! i) \<noteq> 0" "entry_key (low ! i') = entry_key (low ! i)" for i i'
    using lowk [of i] lowk [of i'] that bin_okD [OF b, of i i'] by simp
  then show lok: "bin_ok low" unfolding bin_ok_def using I(2) by blast
  have "i' = i" if "i < 8" "i' < 8" "entry_key (up ! i) \<noteq> 0" "entry_key (up ! i') = entry_key (up ! i)" for i i'
    using that upm [of i] upm [of i'] I(8) [of i' i] by simp
  then show uok: "bin_ok up" unfolding bin_ok_def using I(3) by blast
  have low: "bin_map low = (\<lambda>k. if HASH_LEVEL hs k then None else bin_map b k)"
  proof (rule bin_ext)
    fix k v assume k: "k \<noteq> (0 :: u64)"
    have "(\<exists>i < 8. entry_key (low ! i) = k \<and> entry_value (low ! i) = v) \<longleftrightarrow>
        \<not> HASH_LEVEL hs k \<and> (\<exists>i < 8. entry_key (b ! i) = k \<and> entry_value (b ! i) = v)"
    proof
      assume "\<exists>i < 8. entry_key (low ! i) = k \<and> entry_value (low ! i) = v"
      then obtain i where i: "i < 8" "entry_key (low ! i) = k" "entry_value (low ! i) = v" by blast
      then show "\<not> HASH_LEVEL hs k \<and> (\<exists>i < 8. entry_key (b ! i) = k \<and> entry_value (b ! i) = v)"
        using lowk [of i] k by auto
    next
      assume "\<not> HASH_LEVEL hs k \<and> (\<exists>i < 8. entry_key (b ! i) = k \<and> entry_value (b ! i) = v)"
      then obtain i where i: "\<not> HASH_LEVEL hs k" "i < 8" "entry_key (b ! i) = k" "entry_value (b ! i) = v" by blast
      then show "\<exists>i < 8. entry_key (low ! i) = k \<and> entry_value (low ! i) = v" using I(4) [of i] by auto
    qed
    then show "bin_map low k = Some v \<longleftrightarrow> (if HASH_LEVEL hs k then None else bin_map b k) = Some v"
      using bin_map_Some [OF lok k, of v] bin_map_Some [OF b k, of v] by auto
  qed (simp add: bin_map_def)
  then show "bin_map low k = (if HASH_LEVEL hs k then None else bin_map b k)" for k by simp
  have up: "bin_map up = (\<lambda>k. if HASH_LEVEL hs k then bin_map b k else None)"
  proof (rule bin_ext)
    fix k v assume k: "k \<noteq> (0 :: u64)"
    have "(\<exists>i < 8. entry_key (up ! i) = k \<and> entry_value (up ! i) = v) \<longleftrightarrow>
        HASH_LEVEL hs k \<and> (\<exists>i < 8. entry_key (b ! i) = k \<and> entry_value (b ! i) = v)"
    proof
      assume "\<exists>i < 8. entry_key (up ! i) = k \<and> entry_value (up ! i) = v"
      then obtain i where i: "i < 8" "entry_key (up ! i) = k" "entry_value (up ! i) = v" by blast
      then show "HASH_LEVEL hs k \<and> (\<exists>i < 8. entry_key (b ! i) = k \<and> entry_value (b ! i) = v)"
        using upk [of i] k by auto
    next
      assume "HASH_LEVEL hs k \<and> (\<exists>i < 8. entry_key (b ! i) = k \<and> entry_value (b ! i) = v)"
      then obtain j where j: "HASH_LEVEL hs k" "j < 8" "entry_key (b ! j) = k" "entry_value (b ! j) = v" by blast
      then obtain i where "i < m" "up ! i = b ! j" using I(7) [of j] k by auto
      then show "\<exists>i < 8. entry_key (up ! i) = k \<and> entry_value (up ! i) = v" using j I(1) by (intro exI [of _ i]) auto
    qed
    then show "bin_map up k = Some v \<longleftrightarrow> (if HASH_LEVEL hs k then bin_map b k else None) = Some v"
      using bin_map_Some [OF uok k, of v] bin_map_Some [OF b k, of v] by auto
  qed (simp add: bin_map_def)
  then show "bin_map up k = (if HASH_LEVEL hs k then bin_map b k else None)" for k by simp
qed

lemma expand_idx:
  assumes "n < 63" "h_size hs = 2 ^ n" "h_size hs' = 2 ^ Suc n" "h_seed hs' = h_seed hs"
  shows "HASH_COMP_IDX hs' k = HASH_COMP_IDX hs k + (if HASH_LEVEL hs k then 2 ^ n else 0)"
proof -
  let ?h = "MurmurHash3_x64_64 (key_bytes k) 8 (h_seed hs)"
  have "HASH_COMP_IDX hs' k = unat ?h mod 2 ^ Suc n"
    using assms HASH_IDX_mod [of "Suc n" hs' k] by simp
  also have "\<dots> = unat ?h mod 2 ^ n + (if bit (unat ?h) n then 2 ^ n else 0)" by (simp only: mod_double) simp
  also have "bit (unat ?h) n = HASH_LEVEL hs k" by (simp add: level_bit [OF assms(2)] bit_unsigned_iff)
  also have "unat ?h mod 2 ^ n = HASH_COMP_IDX hs k" using assms HASH_IDX_mod [of n hs k] by simp
  finally show ?thesis .
qed

lemma hash_construct_double:
  assumes "h_size hs = 2 ^ n" "n < 63" "h_seed hs \<noteq> 0" "hash_construct alloc rnd (h_size hs * 2) (h_seed hs) = Some nh"
  shows "nh = \<lparr>h_seed = h_seed hs, h_size = 2 ^ Suc n, h_count = 0,
    entries = replicate (2 ^ Suc n) (replicate 8 empty_entry)\<rparr>"
proof -
  have "unat (h_size hs * 2) = 2 ^ Suc n" using unat_pow2 [of "Suc n"] assms(1,2) by (simp add: mult.commute)
  then show ?thesis using assms by (auto simp: hash_construct_def split: if_splits)
qed

lemma hash_expand_copy_ok:
  assumes ok: "hash_ok hs" and n: "h_size hs = 2 ^ n" "n < 63" and seed: "h_seed hs \<noteq> 0"
    and eq: "hash_expand_copy alloc rnd hs = Some hs'"
  shows "hash_ok hs' \<and> hash_map hs' = hash_map hs \<and> h_size hs' = 2 ^ Suc n \<and> h_seed hs' = h_seed hs \<and>
    h_count hs' = h_count hs"
proof -
  let ?low = "\<lambda>i. fst (expand_bin hs (entries hs ! i))" and ?up = "\<lambda>i. fst (snd (expand_bin hs (entries hs ! i)))"
  have un: "unat (h_size hs) = 2 ^ n" using n unat_pow2 [of n] by simp
  have len: "length (entries hs) = 2 ^ n" using hash_okD(1) [OF ok] un by simp
  obtain nh where nh: "hash_construct alloc rnd (h_size hs * 2) (h_seed hs) = Some nh"
    using eq by (auto simp: hash_expand_copy_def split: option.splits)
  note c = hash_construct_double [OF n seed nh]
  have hs': "h_seed hs' = h_seed hs" "h_size hs' = 2 ^ Suc n" "h_count hs' = h_count hs"
    and en: "entries hs' = map fst (map (expand_bin hs) (entries hs)) @ map (fst \<circ> snd) (map (expand_bin hs) (entries hs))"
    using eq nh c by (auto simp: hash_expand_copy_def Let_def)
  have un': "unat (h_size hs') = 2 ^ Suc n" using hs'(2) unat_pow2 [of "Suc n"] n(2) by simp
  have ent: "entries hs' ! i = (if i < 2 ^ n then ?low i else ?up (i - 2 ^ n))" if "i < 2 ^ Suc n" for i
    using that len by (auto simp: en nth_append)
  note idx = expand_idx [OF n(2,1) hs'(2,1)]
  have B: "bin_ok (?low i)" "bin_ok (?up i)"
    "\<And>k. bin_map (?low i) k = (if HASH_LEVEL hs k then None else bin_map (entries hs ! i) k)"
    "\<And>k. bin_map (?up i) k = (if HASH_LEVEL hs k then bin_map (entries hs ! i) k else None)"
    "\<And>j. j < 8 \<Longrightarrow> entry_key (?low i ! j) \<noteq> 0 \<Longrightarrow> ?low i ! j = entries hs ! i ! j \<and> \<not> HASH_LEVEL hs (entry_key (?low i ! j))"
    "\<And>j. j < 8 \<Longrightarrow> entry_key (?up i ! j) \<noteq> 0 \<Longrightarrow>
      HASH_LEVEL hs (entry_key (?up i ! j)) \<and> (\<exists>j' < 8. ?up i ! j = entries hs ! i ! j')" if "i < 2 ^ n" for i
  proof -
    have b: "bin_ok (entries hs ! i)" using hash_okD(3) [OF ok] that un by simp
    obtain low up m where e: "expand_bin hs (entries hs ! i) = (low, up, m)" by (rule prod_cases3)
    note E = expand_bin_ok [OF b e]
    show "bin_ok (?low i)" "bin_ok (?up i)"
      "\<And>k. bin_map (?low i) k = (if HASH_LEVEL hs k then None else bin_map (entries hs ! i) k)"
      "\<And>k. bin_map (?up i) k = (if HASH_LEVEL hs k then bin_map (entries hs ! i) k else None)"
      using E(1-4) by (simp_all add: e)
    show "?low i ! j = entries hs ! i ! j \<and> \<not> HASH_LEVEL hs (entry_key (?low i ! j))" if "j < 8" "entry_key (?low i ! j) \<noteq> 0" for j
      using E(5) [OF that(1)] that(2) unfolding e fst_conv by blast
    show "HASH_LEVEL hs (entry_key (?up i ! j)) \<and> (\<exists>j' < 8. ?up i ! j = entries hs ! i ! j')"
      if "j < 8" "entry_key (?up i ! j) \<noteq> 0" for j
      using E(6) [OF that(1)] that(2) unfolding e fst_conv snd_conv by blast
  qed
  have ib: "HASH_COMP_IDX hs k < 2 ^ n" for k using hash_idx_bound [OF ok, of k] un by simp
  have m: "hash_map hs' = hash_map hs"
  proof (rule ext)
    fix k
    show "hash_map hs' k = hash_map hs k"
      using ent [of "HASH_COMP_IDX hs' k"] ib [of k] B(3,4) [OF ib [of k]]
      by (cases "HASH_LEVEL hs k") (simp_all add: hash_map_def idx)
  qed
  have bins: "bin_ok (entries hs' ! i)" if "i < unat (h_size hs')" for i
    using that B(1) [of i] B(2) [of "i - 2 ^ n"] unfolding un' by (simp add: ent)
  have keys: "\<not> IS_SPECIAL_KEY (entry_key (entries hs' ! i ! j)) \<and> HASH_COMP_IDX hs' (entry_key (entries hs' ! i ! j)) = i"
    if i: "i < unat (h_size hs')" and j: "j < 8" "entry_key (entries hs' ! i ! j) \<noteq> 0" for i j
  proof (cases "i < 2 ^ n")
    case True
    then have e: "entries hs' ! i = ?low i" using ent i unfolding un' by simp
    from B(5) [OF True j(1)] j(2) have l: "?low i ! j = entries hs ! i ! j" "\<not> HASH_LEVEL hs (entry_key (?low i ! j))"
      unfolding e by blast+
    have "\<not> IS_SPECIAL_KEY (entry_key (entries hs ! i ! j)) \<and> HASH_COMP_IDX hs (entry_key (entries hs ! i ! j)) = i"
      using hash_okD(4) [OF ok _ j(1), of i] True un j(2) e l(1) by simp
    then show ?thesis using l by (simp add: e idx)
  next
    case False
    let ?i = "i - 2 ^ n"
    have lt: "?i < 2 ^ n" using False i unfolding un' by simp
    have e: "entries hs' ! i = ?up ?i" using ent i False unfolding un' by simp
    from B(6) [OF lt j(1)] j(2) e obtain j' where l: "HASH_LEVEL hs (entry_key (?up ?i ! j))" "j' < 8"
      "?up ?i ! j = entries hs ! ?i ! j'" by auto
    have "\<not> IS_SPECIAL_KEY (entry_key (entries hs ! ?i ! j')) \<and> HASH_COMP_IDX hs (entry_key (entries hs ! ?i ! j')) = ?i"
      using hash_okD(4) [OF ok _ l(2), of ?i] lt un j(2) e l(3) by simp
    then show ?thesis using l False by (simp add: e idx)
  qed
  have "length (entries hs') = unat (h_size hs')" using len un' by (simp add: en)
  moreover have "\<exists>n < 64. h_size hs' = 2 ^ n" using hs'(2) n(2) by (intro exI [of _ "Suc n"]) simp
  moreover have "h_count hs' = of_nat (card (dom (hash_map hs')))" using hash_okD(2) [OF ok] hs'(3) m by simp
  ultimately have "hash_ok hs'" unfolding hash_ok_def using bins keys by blast
  then show ?thesis using m hs' by simp
qed

section \<open>Doubling by reinserting\<close>

definition slots :: "nat \<Rightarrow> (nat \<times> nat) list" where
  "slots n = List.product [0..<n] [0..<8]"

lemma concat_slots:
  assumes "\<And>i. i < length bs \<Longrightarrow> length (bs ! i) = 8"
  shows "concat bs = map (\<lambda>(i, j). bs ! i ! j) (slots (length bs))"
proof -
  have "map (\<lambda>(i, j). bs ! i ! j) (slots (length bs)) = concat (map (\<lambda>i. map (\<lambda>j. bs ! i ! j) [0..<8]) [0..<length bs])"
    by (simp add: slots_def product_concat_map map_concat comp_def)
  also have "map (\<lambda>i. map (\<lambda>j. bs ! i ! j) [0..<8]) [0..<length bs] = map (\<lambda>i. bs ! i) [0..<length bs]"
    using assms map_nth [of "bs ! i" for i] by (intro map_cong refl) (metis atLeastLessThan_iff set_upt)
  also have "\<dots> = bs" by (rule map_nth)
  finally show ?thesis ..
qed

lemma slot_key_unique:
  assumes ok: "hash_ok hs" and a: "i < unat (h_size hs)" "j < 8" and b: "i' < unat (h_size hs)" "j' < 8"
    and k: "entry_key (entries hs ! i ! j) = k" "entry_key (entries hs ! i' ! j') = k" "k \<noteq> 0"
  shows "i = i' \<and> j = j'"
proof -
  have "HASH_COMP_IDX hs k = i" "HASH_COMP_IDX hs k = i'"
    using hash_okD(4) [OF ok a] hash_okD(4) [OF ok b] k by simp_all
  then have "i = i'" by simp
  then show ?thesis using bin_okD [OF hash_okD(3) [OF ok a(1)] b(2) a(2)] k by simp
qed

lemma slot_value:
  assumes ok: "hash_ok hs" and a: "i < unat (h_size hs)" "j < 8" and k: "entry_key (entries hs ! i ! j) = k" "k \<noteq> 0"
  shows "hash_map hs k = Some (entry_value (entries hs ! i ! j))" "HASH_COMP_IDX hs k = i" "\<not> IS_SPECIAL_KEY k"
proof -
  show i: "HASH_COMP_IDX hs k = i" "\<not> IS_SPECIAL_KEY k" using hash_okD(4) [OF ok a] k by simp_all
  show "hash_map hs k = Some (entry_value (entries hs ! i ! j))"
    using bin_map_Some [OF hash_okD(3) [OF ok a(1)] k(2)] a k(1) i by (auto simp: hash_map_def)
qed

lemma room_for_reinsert:
  assumes ok: "hash_ok hs" and ok': "hash_ok hs'" and n: "n < 63" "h_size hs = 2 ^ n" "h_size hs' = 2 ^ Suc n" "h_seed hs' = h_seed hs"
    and sub: "\<And>x. hash_map hs' x \<noteq> None \<Longrightarrow> hash_map hs x \<noteq> None"
    and k: "\<not> IS_SPECIAL_KEY k" "hash_map hs k \<noteq> None" "hash_map hs' k = None"
  shows "\<exists>j < 8. entry_key (entries hs' ! HASH_COMP_IDX hs' k ! j) = 0"
proof (rule ccontr)
  let ?b' = "entries hs' ! HASH_COMP_IDX hs' k" and ?b = "entries hs ! HASH_COMP_IDX hs k"
  assume "\<not> ?thesis"
  then have full: "\<And>j. j < 8 \<Longrightarrow> entry_key (?b' ! j) \<noteq> 0" by blast
  have b': "bin_ok ?b'" and b: "bin_ok ?b" by (rule bin_of_key [OF ok'], rule bin_of_key [OF ok])
  then have len: "length ?b' = 8" "length ?b = 8" by (simp_all add: bin_ok_def)
  have "inj_on (\<lambda>j. entry_key (?b' ! j)) {..<8}"
  proof (rule inj_onI)
    fix i j assume "i \<in> {..<8}" "j \<in> {..<8}" "entry_key (?b' ! i) = entry_key (?b' ! j)"
    then show "i = j" using bin_okD [OF b', of j i] full [of j] by simp
  qed
  then have c8: "card ((\<lambda>j. entry_key (?b' ! j)) ` {..<8}) = 8" by (simp add: card_image)
  have sub': "(\<lambda>j. entry_key (?b' ! j)) ` {..<8} \<subseteq> (\<lambda>j. entry_key (?b ! j)) ` {..<8} - {k}"
  proof (intro subsetI)
    fix x assume "x \<in> (\<lambda>j. entry_key (?b' ! j)) ` {..<8}"
    then obtain j where j: "j < 8" "entry_key (?b' ! j) = x" by auto
    have x0: "x \<noteq> 0" using full j by blast
    note S = slot_value [OF ok' hash_idx_bound [OF ok'] j x0]
    have "hash_map hs x \<noteq> None" using sub S(1) by blast
    then obtain i where "i < 8" "entry_key (entries hs ! HASH_COMP_IDX hs x ! i) = x"
      using S(3) bin_map_None [OF x0, of "entries hs ! HASH_COMP_IDX hs x"] by (auto simp: hash_map_def)
    moreover have "HASH_COMP_IDX hs x = HASH_COMP_IDX hs k"
    proof -
      have lt: "HASH_COMP_IDX hs y < 2 ^ n" for y using hash_idx_bound [OF ok, of y] n unat_pow2 [of n] by simp
      have "HASH_COMP_IDX hs' y mod 2 ^ n = HASH_COMP_IDX hs y" for y
        using lt [of y] by (simp add: expand_idx [OF n])
      then show ?thesis using S(2) by metis
    qed
    moreover have "x \<noteq> k" using S(1) k(3) by auto
    ultimately show "x \<in> (\<lambda>j. entry_key (?b ! j)) ` {..<8} - {k}" by auto
  qed
  obtain i where i: "i < 8" "entry_key (?b ! i) = k"
    using k bin_map_None [OF not_special_nonzero [OF k(1)], of ?b] by (auto simp: hash_map_def)
  have kin: "k \<in> (\<lambda>j. entry_key (?b ! j)) ` {..<8}" by (rule image_eqI [of _ _ i]) (use i in simp_all)
  have "card ((\<lambda>j. entry_key (?b ! j)) ` {..<8} - {k}) < card ((\<lambda>j. entry_key (?b ! j)) ` {..<8})"
    using kin by (intro card_Diff1_less) simp_all
  also have "\<dots> \<le> 8" using card_image_le [of "{..<8}" "\<lambda>j. entry_key (?b ! j)"] by simp
  finally show False using card_mono [OF _ sub'] c8 by simp
qed

lemma reinsert_slots:
  assumes ok: "hash_ok hs" and n: "n < 63" "h_size hs = 2 ^ n" and nh: "hash_ok nh" "h_size nh = 2 ^ Suc n"
    "h_seed nh = h_seed hs" "hash_map nh = Map.empty"
    and f: "f = (\<lambda>(i, j) nh. if entry_key (entries hs ! i ! j) \<noteq> 0
      then fst (hash_insert_nocheck_nosafe nh (entry_key (entries hs ! i ! j)) (entry_value (entries hs ! i ! j))) else nh)"
  shows "distinct ps \<Longrightarrow> set ps \<subseteq> {..<2 ^ n} \<times> {..<8} \<Longrightarrow>
    hash_ok (fold f ps nh) \<and> h_size (fold f ps nh) = 2 ^ Suc n \<and> h_seed (fold f ps nh) = h_seed hs \<and>
    (\<forall>k. hash_map (fold f ps nh) k =
      (if k \<in> (\<lambda>(i, j). entry_key (entries hs ! i ! j)) ` set ps then hash_map hs k else None))"
proof (induction ps rule: rev_induct)
  case (snoc p ps)
  obtain i j where p: "p = (i, j)" by (rule prod.exhaust)
  let ?e = "entries hs ! i ! j" and ?F = "fold f ps nh"
  let ?k = "entry_key ?e" and ?keys = "\<lambda>ps. (\<lambda>(i, j). entry_key (entries hs ! i ! j)) ` set ps"
  from snoc have IH: "hash_ok ?F" "h_size ?F = 2 ^ Suc n" "h_seed ?F = h_seed hs"
    "\<And>k. hash_map ?F k = (if k \<in> ?keys ps then hash_map hs k else None)" by simp_all
  have un: "unat (h_size hs) = 2 ^ n" using n unat_pow2 [of n] by simp
  have ij: "i < unat (h_size hs)" "j < 8" using snoc.prems(2) un by (simp_all add: p)
  have fp: "fold f (ps @ [p]) nh = f p ?F" by simp
  have ins: "?keys (ps @ [p]) = insert ?k (?keys ps)" by (auto simp: p)
  show ?case
  proof (cases "?k = 0")
    case True
    have "hash_map hs 0 = None" by (simp add: hash_map_def IS_SPECIAL_KEY_iff)
    then show ?thesis using IH True unfolding fp ins by (simp add: f p)
  next
    case False
    note V = slot_value [OF ok ij refl False]
    have fresh: "?k \<notin> ?keys ps"
    proof
      assume "?k \<in> ?keys ps"
      then obtain i' j' where ps: "(i', j') \<in> set ps" "entry_key (entries hs ! i' ! j') = ?k" by auto
      then have "i' < unat (h_size hs)" "j' < 8" using snoc.prems(2) un by auto
      from slot_key_unique [OF ok ij this refl ps(2) False] ps(1) snoc.prems(1) show False by (simp add: p)
    qed
    then have none: "hash_map ?F ?k = None" using IH(4) by simp
    have sub: "\<And>x. hash_map ?F x \<noteq> None \<Longrightarrow> hash_map hs x \<noteq> None" unfolding IH(4) by (simp split: if_splits)
    have "hash_map hs ?k \<noteq> None" using V(1) by simp
    then have "\<exists>j < 8. entry_key (entries ?F ! HASH_COMP_IDX ?F ?k ! j) = 0"
      using room_for_reinsert [OF ok IH(1) n IH(2,3), of ?k] sub V(3) none by blast
    then obtain hs' where r: "hash_insert_nocheck_nosafe ?F ?k (entry_value ?e) = (hs', 0)" "hash_ok hs'"
      "hash_map hs' = (hash_map ?F)(?k \<mapsto> entry_value ?e)"
      using insert_nocheck_ok [OF IH(1) V(3) none] by (metis prod.exhaust)
    have e: "f p ?F = hs'" using False r(1) by (simp add: f p)
    have "h_size hs' = h_size ?F" "h_seed hs' = h_seed ?F"
      using r(1) by (auto simp: hash_insert_nocheck_nosafe_def Let_def set_entry_def split: option.splits)
    then show ?thesis unfolding fp e ins using IH r V(1) fresh by (auto simp: p)
  qed
qed (use nh in simp)

lemma hash_construct_ok:
  assumes "hash_construct alloc rnd sz seed = Some hs" "sz = 2 ^ n" "n < 64"
  shows "hash_ok hs" "hash_map hs = Map.empty"
proof -
  have un: "unat sz = 2 ^ n" using assms(2) unat_pow2 [OF assms(3)] by simp
  have hs: "h_size hs = sz" "h_count hs = 0" "entries hs = replicate (2 ^ n) (replicate 8 empty_entry)"
    using assms(1) un by (auto simp: hash_construct_def split: if_splits)
  have idx: "HASH_COMP_IDX hs k < 2 ^ n" for k using HASH_IDX_mod [of n hs k] assms(2,3) hs(1) by simp
  show m: "hash_map hs = Map.empty"
    using idx by (auto simp: fun_eq_iff hash_map_def bin_map_def bin_find_None hs(3) empty_entry_def)
  have "bin_ok (replicate 8 empty_entry)" by (simp add: bin_ok_def empty_entry_def)
  then show "hash_ok hs"
    unfolding hash_ok_def using assms(2,3) m un by (auto simp: hs empty_entry_def)
qed

lemma hash_expand_reinsert_ok:
  assumes ok: "hash_ok hs" and n: "h_size hs = 2 ^ n" "n < 63" and seed: "h_seed hs \<noteq> 0"
    and eq: "hash_expand_reinsert alloc rnd hs = Some hs'"
  shows "hash_ok hs' \<and> hash_map hs' = hash_map hs \<and> h_size hs' = 2 ^ Suc n \<and> h_seed hs' = h_seed hs"
proof -
  obtain nh where nh: "hash_construct alloc rnd (h_size hs * 2) (h_seed hs) = Some nh"
    using eq by (auto simp: hash_expand_reinsert_def split: option.splits)
  have N: "h_size nh = 2 ^ Suc n" "h_seed nh = h_seed hs" using hash_construct_double [OF n seed nh] by simp_all
  have "hash_ok nh" "hash_map nh = Map.empty"
    using hash_construct_ok [OF nh, of "Suc n"] n by (simp_all add: mult.commute)
  note N = this N
  define f where "f = (\<lambda>(i, j) nh. if entry_key (entries hs ! i ! j) \<noteq> 0
      then fst (hash_insert_nocheck_nosafe nh (entry_key (entries hs ! i ! j)) (entry_value (entries hs ! i ! j))) else nh)"
  let ?ps = "slots (2 ^ n)"
  have un: "unat (h_size hs) = 2 ^ n" using n unat_pow2 [of n] by simp
  have len: "length (entries hs) = 2 ^ n" using hash_okD(1) [OF ok] un by simp
  have "length (entries hs ! i) = 8" if "i < length (entries hs)" for i
    using hash_okD(3) [OF ok, of i] that len un by (simp add: bin_ok_def)
  from concat_slots [of "entries hs", OF this]
  have "concat (entries hs) = map (\<lambda>(i, j). entries hs ! i ! j) ?ps" by (simp only: len)
  then have hs': "hs' = fold f ?ps nh"
    using eq nh by (simp add: hash_expand_reinsert_def f_def fold_map comp_def case_prod_unfold)
  have set: "set ?ps = {..<2 ^ n} \<times> {..<8}" "distinct ?ps"
    by (auto simp: slots_def distinct_product)
  note R = reinsert_slots [OF ok n(2,1) N(1,3,4,2) f_def set(2)]
  have "hash_map hs' k = hash_map hs k" for k
  proof (cases "k \<in> (\<lambda>(i, j). entry_key (entries hs ! i ! j)) ` set ?ps")
    case False
    have "hash_map hs k = None"
    proof (cases "IS_SPECIAL_KEY k")
      case sp: False
      have "(HASH_COMP_IDX hs k, j) \<in> set ?ps" if "j < 8" for j
        using that hash_idx_bound [OF ok, of k] un set(1) by simp
      then have "entry_key (entries hs ! HASH_COMP_IDX hs k ! j) \<noteq> k" if "j < 8" for j
        using False that by force
      then show ?thesis using bin_map_None [OF not_special_nonzero [OF sp]] by (simp add: hash_map_def)
    qed (simp add: hash_map_def)
    then show ?thesis using R set False unfolding hs' by simp
  qed (use R set in \<open>simp add: hs'\<close>)
  then show ?thesis using R set unfolding hs' by (simp add: fun_eq_iff)
qed

end
