(* ===== verification/Float_Correct.thy ===== *)
theory Float_Correct
  imports ART_Path Hash_Correct
begin

text \<open>
  The float keeps the map of the index: the fields of its packed argument, the tree after each of its
  four outcomes, and \<open>art_search\<close> and \<open>art_update\<close> against the map.
\<close>

section \<open>The packed argument\<close>

lemma nat_bit_high: "\<not> bit (i :: nat) n" if "i < 2 ^ k" "k \<le> n"
proof -
  have "i < 2 ^ n" using that power_increasing [of k n "2 :: nat"] by linarith
  then show ?thesis by (simp add: bit_iff_odd)
qed

lemma int_bit_high: "\<not> bit (f :: int) n" if "0 \<le> f" "f < 2 ^ k" "k \<le> n"
proof -
  have "f < 2 ^ n" using that power_increasing [of k n "2 :: int"] by linarith
  with that show ?thesis by (simp add: bit_iff_odd)
qed

lemma PACK_INFO_fields:
  assumes "0 \<le> freq" "freq < 2 ^ 31" "i < 256" "d < 256" "dp < 256"
  shows "info_freq (PACK_INFO freq i d dp) = freq" "info_i (PACK_INFO freq i d dp) = i"
    "info_depth (PACK_INFO freq i d dp) = d" "info_parent (PACK_INFO freq i d dp) = dp"
proof -
  note fhi = int_bit_high [OF assms(1), of 31]
  have hl: "n < 8" if "bit x n" "x < 256" for x n :: nat
    using nat_bit_high [of x 8 n] that by (cases "n < 8") simp_all
  have fl: "n < 31" if "bit freq n" for n using fhi [OF assms(2), of n] that by (cases "n < 31") simp_all
  have b: "bit (PACK_INFO freq i d dp) n \<longleftrightarrow> n < 64 \<and>
      (bit freq n \<or> 32 \<le> n \<and> bit i (n - 32) \<or> 40 \<le> n \<and> bit d (n - 40) \<or> 48 \<le> n \<and> bit dp (n - 48))" for n
    by (auto simp: PACK_INFO_def bit_simps)
  have m: "(0xff :: u64) = mask 8" "(0xffffffff :: u64) = mask 32" by (simp_all add: mask_eq_exp_minus_1)
  have "PACK_INFO freq i d dp AND 0xffffffff = of_int freq"
    unfolding m by (intro bit_word_eqI) (use fl in \<open>force simp: bit_simps b\<close>)
  moreover have "sint (of_int freq :: u32) = freq"
    using assms(1,2) by (simp add: signed_of_int signed_take_bit_int_eq_self)
  moreover have "ucast (of_int freq :: u64) = (of_int freq :: u32)"
    by (intro bit_word_eqI) (auto simp: bit_simps)
  ultimately show "info_freq (PACK_INFO freq i d dp) = freq" by (simp add: info_freq_def)
  have u: "unat (of_nat x :: u64) = x" if "x < 256" for x using that by (simp add: unat_of_nat take_bit_nat_eq_self)
  have "drop_bit 32 (PACK_INFO freq i d dp) AND 0xff = of_nat i"
    unfolding m by (intro bit_word_eqI) (use assms(2,3) in \<open>fastforce simp: bit_simps b dest: fl hl\<close>)
  then show "info_i (PACK_INFO freq i d dp) = i" using u assms(3) by (simp add: info_i_def)
  have "drop_bit 40 (PACK_INFO freq i d dp) AND 0xff = of_nat d"
    unfolding m by (intro bit_word_eqI) (use assms(2,3,4) in \<open>fastforce simp: bit_simps b dest: fl hl\<close>)
  then show "info_depth (PACK_INFO freq i d dp) = d" using u assms(4) by (simp add: info_depth_def)
  have "drop_bit 48 (PACK_INFO freq i d dp) AND 0xff = of_nat dp"
    unfolding m by (intro bit_word_eqI) (use assms(2,3,4,5) in \<open>fastforce simp: bit_simps b dest: fl hl\<close>)
  then show "info_parent (PACK_INFO freq i d dp) = dp" using u assms(5) by (simp add: info_parent_def)
qed

section \<open>Writing a key into a node\<close>

lemma clear_in_node:
  assumes ok: "art_ok p (Inner h ch)" and k: "buffer_find h k = Some i" "\<not> IS_SPECIAL_KEY k"
  shows "art_ok p (Inner (set_buffer_key h i EMPTY_FLAG) ch)"
    "node_map (length p) (Inner (set_buffer_key h i EMPTY_FLAG) ch) = (node_map (length p) (Inner h ch))(k := None)"
proof -
  note C = inner_clear [OF ok [unfolded art_ok_inner], of i k] and B = buffer_findD [OF k(1)]
  have pre: "prefix_of (set_buffer_key h i 0) = prefix_of h" by (simp add: set_buffer_key_def)
  show ok': "art_ok p (Inner (set_buffer_key h i 0) ch)" using C(1) B k(2) by (simp add: art_ok_inner pre)
  show "node_map (length p) (Inner (set_buffer_key h i 0) ch) = (node_map (length p) (Inner h ch))(k := None)"
    unfolding node_map_inner [OF ok'] node_map_inner [OF ok] pre using C(2) B k(2) by simp
qed

lemma clear_buffered:
  assumes "art_ok p (Inner h ch)" "buffer_find h k = Some i" "\<not> IS_SPECIAL_KEY k"
  shows "buffered (Inner (set_buffer_key h i EMPTY_FLAG) ch) + 1 = buffered (Inner h ch)"
  using buffered_set [of h i "(buffer h ! i)\<lparr>entry_key := 0\<rparr>" ch] buffer_findD [OF assms(2)] not_special_nonzero [OF assms(3)]
    inner_okD(1) [OF assms(1) [unfolded art_ok_inner]]
  by (simp add: set_buffer_key_def taken_def del: buffered.simps)

lemma put_in_node:
  assumes "art_ok p (Inner h ch)" "\<not> IS_SPECIAL_KEY k" "matches (p @ prefix_of h) k"
    "node_map (length p) (Inner h ch) k = None" "i < 3" "entry_key (buffer h ! i) = 0"
  shows "art_ok p (Inner (set_buffer h i \<lparr>entry_key = k, entry_value = v\<rparr>) ch)"
    "node_map (length p) (Inner (set_buffer h i \<lparr>entry_key = k, entry_value = v\<rparr>) ch) = (node_map (length p) (Inner h ch))(k \<mapsto> v)"
  using insert_buffer_new [OF assms, of v] by (simp_all add: inserted_def)

lemma set_after_clear: "set_buffer (set_buffer_key h i k) i e = set_buffer h i e"
  by (simp add: set_buffer_key_def set_buffer_def)

text \<open>Exchanging the key in a slot: the old key goes, the new one comes.\<close>

lemma exchange_in_node:
  assumes ok: "art_ok p (Inner h ch)" and o: "i < 3" "entry_key (buffer h ! i) = k'" "\<not> IS_SPECIAL_KEY k'"
    and k: "\<not> IS_SPECIAL_KEY k" "matches (p @ prefix_of h) k" "node_map (length p) (Inner h ch) k = None"
  shows "art_ok p (Inner (set_buffer h i \<lparr>entry_key = k, entry_value = v\<rparr>) ch)"
    "node_map (length p) (Inner (set_buffer h i \<lparr>entry_key = k, entry_value = v\<rparr>) ch) =
      (node_map (length p) (Inner h ch))(k' := None, k \<mapsto> v)"
proof -
  note D = inner_okD [OF ok [unfolded art_ok_inner]]
  have f: "buffer_find h k' = Some i" using buffer_find_unique [OF D(4) o(1,2)] o(3) by simp
  note C = clear_in_node [OF ok f o(3)]
  have "length (buffer h) = 3" using D(1) by (simp add: hdr_ok_def)
  then have e: "entry_key (buffer (set_buffer_key h i 0) ! i) = 0" "prefix_of (set_buffer_key h i 0) = prefix_of h"
    using o(1) by (simp_all add: set_buffer_key_def)
  have n: "node_map (length p) (Inner (set_buffer_key h i 0) ch) k = None" using C(2) k(3) by simp
  note P = put_in_node [OF C(1) k(1) _ n o(1) e(1), of v, unfolded e(2) set_after_clear C(2), OF k(2)]
  show "art_ok p (Inner (set_buffer h i \<lparr>entry_key = k, entry_value = v\<rparr>) ch)" by (rule P(1))
  show "node_map (length p) (Inner (set_buffer h i \<lparr>entry_key = k, entry_value = v\<rparr>) ch) =
      (node_map (length p) (Inner h ch))(k' := None, k \<mapsto> v)" by (rule P(2))
qed

text \<open>What a buffer slot holds, the node maps.\<close>

lemma slot_in_map:
  assumes ok: "art_ok p (Inner h ch)" and i: "i < 3" "entry_key (buffer h ! i) = k" "\<not> IS_SPECIAL_KEY k"
  shows "node_map (length p) (Inner h ch) k = Some (entry_value (buffer h ! i))" "matches (p @ prefix_of h) k"
    "buffer_find h k = Some i"
proof -
  note D = inner_okD [OF ok [unfolded art_ok_inner]]
  show f: "buffer_find h k = Some i" using buffer_find_unique [OF D(4) i(1,2)] i(3) by simp
  have b: "buf_map h k = Some (entry_value (buffer h ! i))" using f i(3) by (simp add: buf_map_def)
  then show "node_map (length p) (Inner h ch) k = Some (entry_value (buffer h ! i))"
    using node_map_inner [OF ok] by (simp add: inner_map_def)
  show "matches (p @ prefix_of h) k" using buf_map_matches [OF D(4), of k] b by simp
qed

section \<open>A node and its parent\<close>

text \<open>Emptying the slot of a key in a child, seen from the parent.\<close>

lemma clear_below:
  assumes ok: "art_ok p (Inner h ch)" and c: "find_child h ch b = Some i'" "child_at ch i' = Some (Inner hc chc)"
    and k: "buffer_find hc k = Some i" "\<not> IS_SPECIAL_KEY k"
  shows "art_ok p (Inner h (set_child ch i' (Some (Inner (set_buffer_key hc i EMPTY_FLAG) chc))))"
    "node_map (length p) (Inner h (set_child ch i' (Some (Inner (set_buffer_key hc i EMPTY_FLAG) chc)))) =
      (node_map (length p) (Inner h ch))(k := None)"
    "matches (p @ prefix_of h @ [b]) k" "matches (p @ prefix_of h @ [b] @ prefix_of hc) k" "buf_map h k = None"
    "node_map (length p) (Inner h ch) k = Some (entry_value (buffer hc ! i))"
proof -
  note C = child_ok [OF ok c] and B = buffer_findD [OF k(1)]
  have S: "node_map (length p + partial_len h + 1) (Inner hc chc) k = Some (entry_value (buffer hc ! i))"
    "matches (p @ prefix_of h @ [b] @ prefix_of hc) k"
    using slot_in_map [OF C(1) conjunct1 [OF B] conjunct2 [OF B] k(2)] C(2) by simp_all
  note N = child_node_map [OF ok c S(1)] and L = clear_in_node [OF C(1) k]
  show "matches (p @ prefix_of h @ [b]) k" "buf_map h k = None"
    "node_map (length p) (Inner h ch) k = Some (entry_value (buffer hc ! i))" using N by simp_all
  show "matches (p @ prefix_of h @ [b] @ prefix_of hc) k" by (rule S(2))
  note U = child_upd [OF ok c L(1) L(2) [unfolded C(2)] N(2,3)]
  show "art_ok p (Inner h (set_child ch i' (Some (Inner (set_buffer_key hc i EMPTY_FLAG) chc))))"
    "node_map (length p) (Inner h (set_child ch i' (Some (Inner (set_buffer_key hc i EMPTY_FLAG) chc)))) =
      (node_map (length p) (Inner h ch))(k := None)" by (rule U(1), rule U(2))
qed

text \<open>The parent after \<open>float_up\<close>: into an empty slot, or in the place of the key \<open>k'\<close>.\<close>

definition upped :: "art_hdr \<Rightarrow> art_node children \<Rightarrow> nat \<Rightarrow> nat \<Rightarrow> art_hdr \<Rightarrow> art_node children \<Rightarrow> nat \<Rightarrow> u64 \<Rightarrow> u64 \<Rightarrow> art_node" where
  "upped h ch j i' hc chc i k v = Inner (set_buffer h j \<lparr>entry_key = k, entry_value = v\<rparr>)
     (set_child ch i' (Some (Inner (set_buffer_key hc i EMPTY_FLAG) chc)))"

lemma upped_buffered:
  assumes ok: "art_ok p (Inner h ch)" and c: "find_child h ch b = Some i'" "child_at ch i' = Some (Inner hc chc)"
    and k: "buffer_find hc k = Some i" "\<not> IS_SPECIAL_KEY k" and j: "j < 3"
  shows "buffered (upped h ch j i' hc chc i k v) + taken (buffer h ! j) = buffered (Inner h ch)"
proof -
  note D = inner_okD [OF ok [unfolded art_ok_inner]]
  let ?m = "Inner (set_buffer_key hc i EMPTY_FLAG) chc"
  have "buffered ?m + 1 = buffered (Inner hc chc)" by (rule clear_buffered [OF child_ok(1) [OF ok c] k])
  then show ?thesis
    using buffered_set_child [OF D(2) c(1), of ?m] not_special_nonzero [OF k(2)] c(2)
      buffered_set [OF D(1) j, of "\<lparr>entry_key = k, entry_value = v\<rparr>" "set_child ch i' (Some ?m)"]
    by (simp add: upped_def taken_def del: buffered.simps)
qed

lemma swap_buffered:
  assumes ok: "art_ok p (Inner h ch)" and c: "find_child h ch b = Some i'" "child_at ch i' = Some (Inner hc chc)"
    and k: "buffer_find hc k = Some i" "\<not> IS_SPECIAL_KEY k"
    and j: "j < 3" "entry_key (buffer h ! j) = k'" "\<not> IS_SPECIAL_KEY k'"
  shows "buffered (Inner (set_buffer h j \<lparr>entry_key = k, entry_value = v\<rparr>)
      (set_child ch i' (Some (Inner (set_buffer hc i \<lparr>entry_key = k', entry_value = v'\<rparr>) chc)))) = buffered (Inner h ch)"
proof -
  note D = inner_okD [OF ok [unfolded art_ok_inner]] and B = buffer_findD [OF k(1)]
  note hc = inner_okD(1) [OF child_ok(1) [OF ok c, unfolded art_ok_inner]]
  let ?m = "Inner (set_buffer hc i \<lparr>entry_key = k', entry_value = v'\<rparr>) chc"
  have t: "taken (buffer hc ! i) = 1" "taken (buffer h ! j) = 1" "taken \<lparr>entry_key = k, entry_value = v\<rparr> = 1"
    "taken \<lparr>entry_key = k', entry_value = v'\<rparr> = 1"
    using B j(2) not_special_nonzero [OF k(2)] not_special_nonzero [OF j(3)] by (simp_all add: taken_def)
  have "buffered ?m = buffered (Inner hc chc)"
    using buffered_set [OF hc conjunct1 [OF B], of "\<lparr>entry_key = k', entry_value = v'\<rparr>" chc] t by (simp del: buffered.simps)
  then show ?thesis
    using buffered_set_child [OF D(2) c(1), of ?m] c(2) t
      buffered_set [OF D(1) j(1), of "\<lparr>entry_key = k, entry_value = v\<rparr>" "set_child ch i' (Some ?m)"]
    by (simp del: buffered.simps)
qed

text \<open>Only buffers change: the nodes keep their children.\<close>

lemma filled_below:
  assumes ok: "art_ok p (Inner h ch)" and c: "find_child h ch b = Some i'" "child_at ch i' = Some (Inner hc chc)"
    and f: "filled (Inner h ch)"
  shows "filled (Inner (set_buffer h j e) (set_child ch i' (Some (Inner (set_buffer hc i e') chc))))"
    "filled (upped h ch j i' hc chc i k v)"
proof -
  note C = child_ok(3) [OF ok c]
  have "filled (Inner h (set_child ch i' (Some (Inner (set_buffer hc i e') chc))))" for e'
    using filled_child [OF f C] by (intro filled_set_child [OF ok c(1) C f]) simp
  then show "filled (Inner (set_buffer h j e) (set_child ch i' (Some (Inner (set_buffer hc i e') chc))))"
    "filled (upped h ch j i' hc chc i k v)" by (simp_all add: upped_def set_buffer_key_def)
qed

lemma float_free:
  assumes ok: "art_ok p (Inner h ch)" and c: "find_child h ch b = Some i'" "child_at ch i' = Some (Inner hc chc)"
    and k: "buffer_find hc k = Some i" "\<not> IS_SPECIAL_KEY k" and j: "j < 3" "entry_key (buffer h ! j) = 0"
  shows "art_ok p (upped h ch j i' hc chc i k v)"
    "node_map (length p) (upped h ch j i' hc chc i k v) = (node_map (length p) (Inner h ch))(k \<mapsto> v)"
proof -
  note L = clear_below [OF ok c k]
  have m: "matches (p @ prefix_of h) k" using matches_appendD [of "p @ prefix_of h" "[b]" k] L(3) by simp
  note P = put_in_node [OF L(1) k(2) m _ j, of v]
  show "art_ok p (upped h ch j i' hc chc i k v)" unfolding upped_def using L(2) by (intro P(1)) simp
  show "node_map (length p) (upped h ch j i' hc chc i k v) = (node_map (length p) (Inner h ch))(k \<mapsto> v)"
    unfolding upped_def using P(2) L(2) by simp
qed

lemma float_displace:
  assumes ok: "art_ok p (Inner h ch)" and c: "find_child h ch b = Some i'" "child_at ch i' = Some (Inner hc chc)"
    and k: "buffer_find hc k = Some i" "\<not> IS_SPECIAL_KEY k"
    and j: "j < 3" "entry_key (buffer h ! j) = k'" "\<not> IS_SPECIAL_KEY k'"
  shows "art_ok p (upped h ch j i' hc chc i k v)"
    "node_map (length p) (upped h ch j i' hc chc i k v) = (node_map (length p) (Inner h ch))(k' := None, k \<mapsto> v)"
    "k' \<noteq> k" "node_map (length p) (Inner h ch) k' = Some (entry_value (buffer h ! j))" "matches (p @ prefix_of h) k'"
proof -
  note L = clear_below [OF ok c k] and S = slot_in_map [OF ok j]
  have "buf_map h k' \<noteq> None" using S(3) j(3) by (simp add: buf_map_def)
  then show ne: "k' \<noteq> k" using L(5) by auto
  have m: "matches (p @ prefix_of h) k" using matches_appendD [of "p @ prefix_of h" "[b]" k] L(3) by simp
  note P = exchange_in_node [OF L(1) j k(2) m, of v]
  show "art_ok p (upped h ch j i' hc chc i k v)" unfolding upped_def using L(2) by (intro P(1)) simp
  show "node_map (length p) (upped h ch j i' hc chc i k v) = (node_map (length p) (Inner h ch))(k' := None, k \<mapsto> v)"
    unfolding upped_def using P(2) L(2) ne by (simp add: fun_upd_twist)
  show "node_map (length p) (Inner h ch) k' = Some (entry_value (buffer h ! j))" "matches (p @ prefix_of h) k'"
    using S by simp_all
qed

lemma float_swap:
  assumes ok: "art_ok p (Inner h ch)" and c: "find_child h ch b = Some i'" "child_at ch i' = Some (Inner hc chc)"
    and k: "buffer_find hc k = Some i" "\<not> IS_SPECIAL_KEY k"
    and j: "j < 3" "entry_key (buffer h ! j) = k'" "\<not> IS_SPECIAL_KEY k'"
    and m: "matches (p @ prefix_of h @ [b] @ prefix_of hc) k'"
  shows "art_ok p (Inner (set_buffer h j \<lparr>entry_key = k, entry_value = v\<rparr>)
      (set_child ch i' (Some (Inner (set_buffer hc i \<lparr>entry_key = k', entry_value = entry_value (buffer h ! j)\<rparr>) chc))))"
    "node_map (length p) (Inner (set_buffer h j \<lparr>entry_key = k, entry_value = v\<rparr>)
      (set_child ch i' (Some (Inner (set_buffer hc i \<lparr>entry_key = k', entry_value = entry_value (buffer h ! j)\<rparr>) chc)))) =
      (node_map (length p) (Inner h ch))(k \<mapsto> v)"
proof -
  let ?h = "set_buffer h j \<lparr>entry_key = k, entry_value = v\<rparr>" and ?hc = "set_buffer_key hc i EMPTY_FLAG"
  let ?old = "entry_value (buffer h ! j)" and ?q = "p @ prefix_of h @ [b]"
  note D = float_displace(1,2) [OF ok c k j, of v] float_displace(3-5) [OF ok c k j]
  note W = inner_okD [OF ok [unfolded art_ok_inner]]
  have c': "find_child ?h (set_child ch i' (Some (Inner ?hc chc))) b = Some i'"
    "child_at (set_child ch i' (Some (Inner ?hc chc))) i' = Some (Inner ?hc chc)"
    using find_child_set [OF W(2) c(1), of "Inner ?hc chc"] by simp_all
  note ok' = D(1) [unfolded upped_def]
  note C = child_ok [OF ok' c'] and W' = inner_okD [OF ok' [unfolded art_ok_inner]]
  have i3: "i < 3" and hc: "hdr_ok hc" and e: "entry_key (buffer ?hc ! i) = 0"
  proof -
    show "i < 3" using buffer_findD [OF k(1)] by simp
    show "hdr_ok hc" using inner_okD(1) [OF child_ok(1) [OF ok c, unfolded art_ok_inner]] .
    with \<open>i < 3\<close> show "entry_key (buffer ?hc ! i) = 0" by (simp add: set_buffer_key_def hdr_ok_def)
  qed
  have n: "node_map (length p) (Inner ?h (set_child ch i' (Some (Inner ?hc chc)))) k' = None"
    using D(2,3) by (simp add: upped_def)
  have mb: "matches ?q k'" using matches_appendD [of ?q "prefix_of hc" k'] m by simp
  have bn: "buf_map ?h k' = None"
    using n node_map_inner [OF ok'] by (simp add: inner_map_def split: option.splits)
  have cn: "node_map (length ?q) (Inner ?hc chc) k' = None"
    using child_node_map(1) [OF ok' c', of k'] n C(2)
    by (cases "node_map (length ?q) (Inner ?hc chc) k'") auto
  have pre: "prefix_of ?hc = prefix_of hc" by (simp add: set_buffer_key_def)
  have okc: "art_ok ?q (Inner ?hc chc)" using C(1) by simp
  have mc: "matches (?q @ prefix_of ?hc) k'" using m pre by simp
  note P = put_in_node [OF okc j(3) mc cn i3 e, of ?old, unfolded set_after_clear]
  have lq: "length ?q = length p + partial_len ?h + 1" using W(1) by simp
  note U = child_upd [OF ok' c' _ _ _ bn, of "Inner (set_buffer hc i \<lparr>entry_key = k', entry_value = ?old\<rparr>) chc" "Some ?old"]
  have "art_ok p (Inner ?h (set_child (set_child ch i' (Some (Inner ?hc chc))) i'
      (Some (Inner (set_buffer hc i \<lparr>entry_key = k', entry_value = ?old\<rparr>) chc))))"
    using P mb lq by (intro U(1)) simp_all
  then show "art_ok p (Inner ?h (set_child ch i' (Some (Inner (set_buffer hc i \<lparr>entry_key = k', entry_value = ?old\<rparr>) chc))))"
    by simp
  have "node_map (length p) (Inner ?h (set_child (set_child ch i' (Some (Inner ?hc chc))) i'
      (Some (Inner (set_buffer hc i \<lparr>entry_key = k', entry_value = ?old\<rparr>) chc)))) =
      (node_map (length p) (Inner ?h (set_child ch i' (Some (Inner ?hc chc)))))(k' \<mapsto> ?old)"
    using P mb lq by (intro U(2)) simp_all
  also have "... = (node_map (length p) (Inner h ch))(k \<mapsto> v)"
    using D(2-4) by (auto simp: upped_def fun_eq_iff)
  finally show "node_map (length p) (Inner ?h (set_child ch i' (Some (Inner (set_buffer hc i \<lparr>entry_key = k', entry_value = ?old\<rparr>) chc)))) =
      (node_map (length p) (Inner h ch))(k \<mapsto> v)" by simp
qed

section \<open>The scan of the parent's buffer\<close>

lemma float_scan_Free:
  "float_scan sk key freq d dp j0 es = Free j \<Longrightarrow> j0 \<le> j \<and> j < j0 + length es \<and> entry_key (es ! (j - j0)) = 0"
proof (induction es arbitrary: j0)
  case (Cons e es)
  show ?case
  proof (cases "entry_key e = 0")
    case False
    with Cons.prems have "float_scan sk key freq d dp (j0 + 1) es = Free j"
      by (simp add: Let_def split: if_splits)
    with Cons.IH [of "j0 + 1"] show ?thesis by (auto simp: nth_Cons')
  qed (use Cons.prems in \<open>simp split: if_splits\<close>)
qed simp

lemma float_scan_Lru:
  "float_scan sk key freq d dp j0 es = Lru j k \<Longrightarrow>
    j0 \<le> j \<and> j < j0 + length es \<and> entry_key (es ! (j - j0)) = k \<and> \<not> IS_SPECIAL_KEY k"
proof (induction es arbitrary: j0)
  case (Cons e es)
  show ?case
  proof (cases "float_scan sk key freq d dp (j0 + 1) es = Lru j k")
    case True
    with Cons.IH [of "j0 + 1"] show ?thesis by (auto simp: nth_Cons')
  next
    case False
    with Cons.prems show ?thesis by (simp add: Let_def IS_SPECIAL_KEY_iff split: if_splits)
  qed
qed simp

lemma memcmp_range_iff:
  assumes "hi \<le> 8"
  shows "memcmp_range a b lo hi = 0 \<longleftrightarrow> (\<forall>n. lo \<le> n \<and> n < hi \<longrightarrow> key_byte a n = key_byte b n)"
proof -
  have "memcmp_range a b lo hi = 0 \<longleftrightarrow>
      (\<forall>m < hi - lo. key_byte a (lo + m) = key_byte b (lo + m))"
    using assms unfolding memcmp_range_def by (subst memcmp_eq_0) (auto simp: list_eq_iff_nth_eq)
  also have "... \<longleftrightarrow> (\<forall>n. lo \<le> n \<and> n < hi \<longrightarrow> key_byte a n = key_byte b n)"
    by (auto simp: less_diff_conv add.commute) (metis le_add_diff_inverse less_diff_conv add.commute)
  finally show ?thesis .
qed

lemma matches_extend:
  assumes m: "matches p k'" "matches (p @ r) k" and eq: "memcmp_range k k' (length p) (length (p @ r)) = 0"
  shows "matches (p @ r) k'"
proof -
  have l: "length (p @ r) \<le> 8" using matches_length [OF m(2)] .
  then have lp: "length p \<le> 8" by simp
  have "key_byte k' n = (p @ r) ! n" if n: "n < length (p @ r)" for n
  proof (cases "n < length p")
    case True
    then show ?thesis using m(1) matches_iff [OF lp, of k'] by (simp add: nth_append)
  next
    case False
    then have "key_byte k' n = key_byte k n" using eq n unfolding memcmp_range_iff [OF l] by simp
    then show ?thesis using m(2) n matches_iff [OF l, of k] by simp
  qed
  then show ?thesis unfolding matches_iff [OF l] by blast
qed

section \<open>The stores of the float\<close>

lemma store_at:
  "node_at r path = Some (Inner h ch) \<Longrightarrow> store_entry r path j e = put_at r path (Some (Inner (set_buffer h j e) ch))"
  "node_at r path = Some (Inner h ch) \<Longrightarrow> store_key r path j k = put_at r path (Some (Inner (set_buffer_key h j k) ch))"
  "node_at r path = Some (Inner h ch) \<Longrightarrow> store_value r path j v = put_at r path (Some (Inner (set_buffer_value h j v) ch))"
  by (simp_all add: store_entry_def store_key_def store_value_def set_buffer_key_def set_buffer_value_def)

text \<open>The same one level down, after the node at \<open>path\<close> was replaced.\<close>

lemma store_below:
  assumes r: "node_at r path = Some n" and c: "child_at ch i' = Some (Inner hc chc)"
  shows "store_entry (put_at r path (Some (Inner h ch))) (path @ [i']) i e =
      put_at r path (Some (Inner h (set_child ch i' (Some (Inner (set_buffer hc i e) chc)))))"
    "store_key (put_at r path (Some (Inner h ch))) (path @ [i']) i k =
      put_at r path (Some (Inner h (set_child ch i' (Some (Inner (set_buffer_key hc i k) chc)))))"
  using assms
  by (simp_all add: store_entry_def store_key_def put_at_append node_at_append node_at_put put_at_twice set_buffer_key_def)

lemma float_up_at:
  assumes "node_at r path = Some (Inner h ch)" "child_at ch i' = Some (Inner hc chc)"
  shows "float_up r (path @ [i']) i j k v = put_at r path (Some (upped h ch j i' hc chc i k v))"
  unfolding float_up_def butlast_snoc store_at(1) [OF assms(1)] upped_def by (rule store_below(2) [OF assms])

section \<open>Reinsertion of the displaced key\<close>

lemma float_reinsert:
  assumes ok: "art_ok p (Inner h ch)" and c: "find_child h ch b = Some i'" "child_at ch i' = Some (Inner hc chc)"
    and k: "buffer_find hc k = Some i" "\<not> IS_SPECIAL_KEY k"
    and j: "j < 3" "entry_key (buffer h ! j) = k'" "\<not> IS_SPECIAL_KEY k'"
    and u: "upped h ch j i' hc chc i k v = Inner h' ch'"
    and safe: "buffer_slot h' \<noteq> None \<or> partial_len h = 0 \<and> mem_safe k' (length p + partial_len h) (Some (Inner h' ch'))"
  shows "\<exists>m old f. recursive_insert (Some (Inner h' ch')) k' (KEY_LEN + MEM_TYPE) (entry_value (buffer h ! j))
      (length p + partial_len h) False = (Some m, old, f) \<and> art_ok p m \<and>
    node_map (length p) m = (node_map (length p) (Inner h ch))(k \<mapsto> v) \<and>
    buffered m + 1 = buffered (Inner h ch) + of_bool (odd f) \<and> (filled (Inner h ch) \<longrightarrow> filled m)"
proof -
  let ?old = "entry_value (buffer h ! j)" and ?d = "length p + partial_len h"
  note D = float_displace(1,2) [OF ok c k j, of v, unfolded u] float_displace(3-5) [OF ok c k j]
  have pre: "prefix_of h' = prefix_of h" using u by (auto simp: upped_def)
  have n: "node_map (length p) (Inner h' ch') k' = None" using D(2,3) by simp
  obtain x old f where r: "recursive_insert (Some (Inner h' ch')) k' 9 ?old ?d False = (x, old, f)" by (rule prod_cases3)
  have "inserted p (Inner h' ch') k' ?old (x, old, f) \<and> buffered_opt x = buffered (Inner h' ch') + of_bool (odd f) \<and>
    (filled (Inner h' ch') \<longrightarrow> filled_opt x)"
  proof (cases "buffer_slot h'")
    case None
    with safe have z: "partial_len h = 0" and s: "mem_safe k' (length p + partial_len h) (Some (Inner h' ch'))" by blast+
    note s = s [unfolded z add_0_right]
    have mp: "matches p k'" using matches_appendD [of p "prefix_of h" k'] D(5) by simp
    have r': "recursive_insert (Some (Inner h' ch')) k' (8 + 1) ?old (length p) False = (x, old, f)" using r z by simp
    show ?thesis
      using recursive_insert_ok [OF D(1) mp j(3), of 1 False ?old] insert_buffered [OF D(1) mp j(3) _ r'] insert_filled [OF D(1) mp j(3) _ r'] s n
      unfolding r' by (simp add: insert_safe_def del: mem_safe.simps buffered.simps)
  next
    case (Some s)
    have "buf_map h' k' = None" using n node_map_inner [OF D(1)] by (simp add: inner_map_def split: option.splits)
    then have "buffer_find h' k' = None" using j(3) by (simp add: buf_map_def)
    then have e: "(x, old, f) = (Some (Inner (set_buffer h' s \<lparr>entry_key = k', entry_value = ?old\<rparr>) ch'), None, 1)"
      using Some unfolding r [symmetric] by simp
    have s: "s < 3" "entry_key (buffer h' ! s) = 0" using buffer_slotD [OF Some] by simp_all
    have "buffered (Inner (set_buffer h' s \<lparr>entry_key = k', entry_value = ?old\<rparr>) ch') = buffered (Inner h' ch') + 1"
      using buffered_set [OF inner_okD(1) [OF D(1) [unfolded art_ok_inner]] s(1)] s(2) not_special_nonzero [OF j(3)]
      by (simp add: taken_def del: buffered.simps)
    then show ?thesis
      using insert_buffer_new [OF D(1) j(3) _ n, of s ?old] D(5) s pre e by (simp del: buffered.simps)
  qed
  then obtain m where m: "x = Some m" "art_ok p m"
    "node_map (length p) m = (node_map (length p) (Inner h' ch'))(k' \<mapsto> ?old)"
    and b: "buffered m = buffered (Inner h' ch') + of_bool (odd f)" "filled (Inner h' ch') \<longrightarrow> filled m" by (auto simp: inserted_def)
  have "node_map (length p) m = (node_map (length p) (Inner h ch))(k \<mapsto> v)"
    unfolding m(3) D(2) using D(3,4) by (auto simp: fun_eq_iff)
  moreover have "filled (Inner h ch) \<longrightarrow> filled m" using filled_below(2) [OF ok c] b(2) u by metis
  moreover have "buffered m + 1 = buffered (Inner h ch) + of_bool (odd f)"
    using b(1) upped_buffered [OF ok c k j(1), of v] j(2) not_special_nonzero [OF j(3)]
    by (simp add: u taken_def del: buffered.simps)
  ultimately show ?thesis using m r
    by (intro exI [of _ m] exI [of _ old] exI [of _ f]) (simp del: buffered.simps recursive_insert.simps)
qed

section \<open>The float\<close>

text \<open>Where the float reports 0 it did nothing.\<close>

lemma float_none: "art_float ind key info path uv = (ind', st) \<Longrightarrow> st = 0 \<Longrightarrow> ind' = ind"
  by (auto simp: art_float_def Let_def simp del: recursive_insert.simps split: if_splits prod.splits float_pick.splits)

definition float_value :: "entry \<Rightarrow> u64 option \<Rightarrow> u64" where
  "float_value e uv = (case uv of None \<Rightarrow> entry_value e | Some v \<Rightarrow> v)"

text \<open>When the insertion of a displaced key below its node does not lose it: the buffer of the parent has a
  further empty slot, or the parent has no prefix, which the insertion with \<open>depth_parent\<close> as the depth
  would match a second time.\<close>

fun reinsert_ok :: "u64 \<Rightarrow> nat \<Rightarrow> art_node option \<Rightarrow> bool" where
  "reinsert_ok k' dp (Some (Inner h ch)) \<longleftrightarrow>
    buffer_slot h \<noteq> None \<or> partial_len h = 0 \<and> mem_safe k' dp (Some (Inner h ch))"
| "reinsert_ok k' dp n \<longleftrightarrow> False"

definition float_safe :: "index_sys \<Rightarrow> u64 \<Rightarrow> u64 \<Rightarrow> nat list \<Rightarrow> u64 \<Rightarrow> bool" where
  "float_safe ind key info path v \<longleftrightarrow> path = [] \<or>
    (case float_scan (cm ind) key (info_freq info) (info_depth info) (info_parent info) 0
        (take BUF_LEN (buffer_of (node_at (root (tree ind)) (butlast path)))) of
       Lru j k' \<Rightarrow> memcmp_range key k' (info_parent info) (info_depth info) = 0 \<or>
         reinsert_ok k' (info_parent info) (node_at (float_up (root (tree ind)) path (info_i info) j key v) (butlast path))
     | _ \<Rightarrow> True)"

text \<open>Everything the float needs to know about the place of a key.\<close>

definition float_place :: "art_node \<Rightarrow> u64 \<Rightarrow> nat list \<Rightarrow> nat \<Rightarrow> nat \<Rightarrow> nat \<Rightarrow> bool" where
  "float_place n key path i d dp \<longleftrightarrow> (\<exists>q h ch. reaches [] n path q (Inner h ch) \<and> buffer_find h key = Some i \<and>
     d = length q + partial_len h \<and> (path \<noteq> [] \<longrightarrow> length q = dp + 1))"

lemma art_find_place:
  assumes "art_ok [] n" "art_find (Some n) key = Some loc" "loc_hit loc = InBuffer i e"
  shows "float_place n key (loc_path loc) i (loc_depth loc) (loc_depth_parent loc)"
    "e = buffer_of (node_at (Some n) (loc_path loc)) ! i" "loc_depth loc < 8" "loc_depth_parent loc < 8" "i < 3"
proof -
  from art_walk_reaches [of "[]" n key "[]" 0 loc] assms obtain q m where
    r: "reaches [] n (loc_path loc) q m" "hit_at key q m loc"
    "if loc_path loc = [] then loc_depth_parent loc = 0 else length q = loc_depth_parent loc + 1"
    by (auto simp: art_find_def)
  with assms(3) obtain h ch where m: "m = Inner h ch" "buffer_find h key = Some i" "e = buffer h ! i"
    "loc_depth loc = length q + partial_len h" by (cases m) auto
  show "float_place n key (loc_path loc) i (loc_depth loc) (loc_depth_parent loc)"
    using r m unfolding float_place_def by (metis (full_types))
  show "e = buffer_of (node_at (Some n) (loc_path loc)) ! i" using reaches_node_at [OF r(1)] m by simp
  have "art_ok q m" by (rule reaches_ok [OF r(1) assms(1)])
  then have l: "length q + partial_len h < 8" unfolding m(1) by (auto elim: ok_innerE)
  then show "loc_depth loc < 8" using m(4) by simp
  show "loc_depth_parent loc < 8" using l r(3) by (simp split: if_splits)
  show "i < 3" using buffer_findD [OF m(2)] by simp
qed

lemma float_parent:
  assumes "float_place n key path i d dp" "path \<noteq> []" "art_ok [] n"
  obtains par i' p h ch b hc chc where "path = par @ [i']" "reaches [] n par p (Inner h ch)" "art_ok p (Inner h ch)"
    "find_child h ch b = Some i'" "child_at ch i' = Some (Inner hc chc)" "buffer_find hc key = Some i"
    "dp = length (p @ prefix_of h)" "d = length (p @ prefix_of h @ [b] @ prefix_of hc)" "length p + partial_len h = dp"
proof -
  from assms(1) obtain q hc chc where P: "reaches [] n path q (Inner hc chc)" "buffer_find hc key = Some i"
    "d = length q + partial_len hc" "path \<noteq> [] \<longrightarrow> length q = dp + 1" by (auto simp: float_place_def)
  obtain par i' where path: "path = par @ [i']" using assms(2) by (cases path rule: rev_exhaust) auto
  from reaches_snocD [OF P(1) [unfolded path]] obtain p h ch b where
    R: "reaches [] n par p (Inner h ch)" "find_child h ch b = Some i'" "child_at ch i' = Some (Inner hc chc)"
      "q = p @ prefix_of h @ [b]" by blast
  have ok: "art_ok p (Inner h ch)" by (rule reaches_ok [OF R(1) assms(3)])
  have "hdr_ok h" "hdr_ok hc"
    using inner_okD(1) [OF ok [unfolded art_ok_inner]] inner_okD(1) [OF child_ok(1) [OF ok R(2,3), unfolded art_ok_inner]] .
  with that [OF path R(1) ok R(2,3) P(2)] P(3,4) path R(4) show thesis by simp
qed

text \<open>The tree after a float below the root: the key has its new place and value, nothing else changes.\<close>

lemma replace_parent:
  assumes r: "reaches [] n par p (Inner h ch)" "art_ok [] n"
    and m: "art_ok p m" "node_map (length p) m = (node_map (length p) (Inner h ch))(key \<mapsto> v)"
      "node_map (length p) (Inner h ch) key = Some w"
  shows "\<exists>n'. put_at (Some n) par (Some m) = Some n' \<and> art_ok [] n' \<and> node_map 0 n' = (node_map 0 n)(key \<mapsto> v) \<and>
      buffered n' + buffered (Inner h ch) = buffered n + buffered m \<and>
      ((filled (Inner h ch) \<longrightarrow> filled m) \<longrightarrow> filled n \<longrightarrow> filled n')"
    "node_map 0 n key = Some w"
proof -
  show "node_map 0 n key = Some w" using reaches_map [OF r m(3)] by simp
  have "node_map (length p) (Inner h ch) key \<noteq> None \<or> node_map (length []) n key = None \<and> matches p key"
    using m(3) by simp
  from replace_upd [OF r m(1,2) this]
  obtain n' where n': "put_at (Some n) par (Some m) = Some n'" "art_ok [] n'" "node_map 0 n' = (node_map 0 n)(key \<mapsto> v)" by auto
  with put_buffered [OF r n'(1)] put_filled [OF r n'(1)] reaches_filled [OF r]
  show "\<exists>n'. put_at (Some n) par (Some m) = Some n' \<and> art_ok [] n' \<and> node_map 0 n' = (node_map 0 n)(key \<mapsto> v) \<and>
      buffered n' + buffered (Inner h ch) = buffered n + buffered m \<and>
      ((filled (Inner h ch) \<longrightarrow> filled m) \<longrightarrow> filled n \<longrightarrow> filled n')" by blast
qed

lemma float_delta:
  assumes "b' + 1 = b + of_bool (odd f)"
  shows "of_nat b' = of_nat b + (of_int (int (f mod 2) - 1) :: u64)"
proof -
  have "int b' = int b + (int (f mod 2) - 1)" using assms by (cases "odd f") (simp_all add: odd_iff_mod_2_eq_one)
  then have "(of_int (int b') :: u64) = of_int (int b + (int (f mod 2) - 1))" by (rule arg_cong)
  then show ?thesis by simp
qed

lemma float_below_root:
  assumes ok: "art_ok [] n" "root (tree ind) = Some n" and key: "\<not> IS_SPECIAL_KEY key"
    and place: "float_place n key path i d dp" "path \<noteq> []" "d < 8" "dp < 8"
    and freq: "0 \<le> freq" "freq < 2 ^ 31" and v: "v = float_value (buffer_of (node_at (Some n) path) ! i) uv"
    and safe: "float_safe ind key (PACK_INFO freq i d dp) path v"
    and eq: "art_float ind key (PACK_INFO freq i d dp) path uv = (ind', st)" "st \<noteq> 0"
  shows "\<exists>n'. root (tree ind') = Some n' \<and> art_ok [] n' \<and> node_map 0 n' = (node_map 0 n)(key \<mapsto> v) \<and>
      tree_size (tree ind') = tree_size (tree ind) \<and> ind' = ind\<lparr>tree := tree ind'\<rparr> \<and> st \<noteq> 1 \<and>
      buffer_count (tree ind') - of_nat (buffered n') = buffer_count (tree ind) - of_nat (buffered n) \<and> (filled n \<longrightarrow> filled n')"
    "node_map 0 n key \<noteq> None"
proof -
  from place(1,2) ok(1) obtain par i' p h ch b hc chc where
    P: "path = par @ [i']" "reaches [] n par p (Inner h ch)" "art_ok p (Inner h ch)"
      "find_child h ch b = Some i'" "child_at ch i' = Some (Inner hc chc)" "buffer_find hc key = Some i"
    and D: "dp = length (p @ prefix_of h)" "d = length (p @ prefix_of h @ [b] @ prefix_of hc)"
      "length p + partial_len h = dp"
    by (rule float_parent)
  have i3: "i < 3" using buffer_findD [OF P(6)] by simp
  note I = PACK_INFO_fields [OF freq, of i d dp]
  have I: "info_freq (PACK_INFO freq i d dp) = freq" "info_i (PACK_INFO freq i d dp) = i"
    "info_depth (PACK_INFO freq i d dp) = d" "info_parent (PACK_INFO freq i d dp) = dp"
    using I place(3,4) i3 by simp_all
  note B = clear_below [OF P(3-6) key]
  note N = reaches_node_at [OF P(2)]
  have NC: "node_at (Some n) path = Some (Inner hc chc)" unfolding P(1) by (simp add: node_at_append N P(5))
  have val: "(case uv of None \<Rightarrow> entry_value (buffer_of (node_at (Some n) path) ! i) | Some v \<Rightarrow> v) = v"
    using v by (simp add: float_value_def)
  have h3: "take 3 (buffer h) = buffer h" "length (buffer h) = 3"
    using inner_okD(1) [OF P(3) [unfolded art_ok_inner]] by (simp_all add: hdr_ok_def)
  let ?sc = "float_scan (cm ind) key freq d dp 0 (buffer h)"
  have F: "art_float ind key (PACK_INFO freq i d dp) path uv = (case ?sc of
      Free j \<Rightarrow> (ind\<lparr>tree := (tree ind)\<lparr>root := put_at (Some n) par (Some (upped h ch j i' hc chc i key v))\<rparr>\<rparr>, 2)
    | Lru j k' \<Rightarrow>
        if memcmp_range key k' dp d \<noteq> 0 then
          (case recursive_insert (Some (upped h ch j i' hc chc i key v)) k' 9 (entry_value (buffer h ! j)) dp False of (m, old, f) \<Rightarrow>
            (ind\<lparr>tree := (tree ind)\<lparr>root := put_at (Some n) par m, buffer_count := buffer_count (tree ind) + of_int (int (f mod 2) - 1)\<rparr>\<rparr>, 3))
        else (ind\<lparr>tree := (tree ind)\<lparr>root := put_at (Some n) par (Some (Inner (set_buffer h j \<lparr>entry_key = key, entry_value = v\<rparr>)
      (set_child ch i' (Some (Inner (set_buffer hc i \<lparr>entry_key = k', entry_value = entry_value (buffer h ! j)\<rparr>) chc)))))\<rparr>\<rparr>, 4)
    | Nothing \<Rightarrow> (ind, 0))"
    unfolding art_float_def Let_def I ok(2) val
    by (cases ?sc) (simp_all add: P(1) N h3 float_up_at [OF N P(5)] store_at(1) [OF N] store_below(1) [OF N P(5)]
      node_at_put put_at_twice split: prod.splits)
  show "node_map 0 n key \<noteq> None" using reaches_map [OF P(2) ok(1) B(6)] by simp
  note fin = replace_parent(1) [OF P(2) ok(1) _ _ B(6), of _ v]
  show "\<exists>n'. root (tree ind') = Some n' \<and> art_ok [] n' \<and> node_map 0 n' = (node_map 0 n)(key \<mapsto> v) \<and>
      tree_size (tree ind') = tree_size (tree ind) \<and> ind' = ind\<lparr>tree := tree ind'\<rparr> \<and> st \<noteq> 1 \<and>
      buffer_count (tree ind') - of_nat (buffered n') = buffer_count (tree ind) - of_nat (buffered n) \<and> (filled n \<longrightarrow> filled n')"
  proof (cases ?sc)
    case (Free j)
    then have j: "j < 3" "entry_key (buffer h ! j) = 0" using float_scan_Free [OF Free] h3 by simp_all
    have "buffered (upped h ch j i' hc chc i key v) = buffered (Inner h ch)"
      using upped_buffered [OF P(3-6) key j(1), of v] j(2) by (simp add: taken_def del: buffered.simps)
    with fin [OF float_free [OF P(3-6) key j, of v]] filled_below(2) [OF P(3-5)] eq(1) show ?thesis unfolding F Free by auto
  next
    case (Lru j k')
    then have j: "j < 3" "entry_key (buffer h ! j) = k'" "\<not> IS_SPECIAL_KEY k'"
      using float_scan_Lru [OF Lru] h3 by simp_all
    show ?thesis
    proof (cases "memcmp_range key k' dp d = 0")
      case True
      have "matches (p @ prefix_of h) k'" by (rule float_displace(5) [OF P(3-6) key j])
      from matches_extend [OF this, of "[b] @ prefix_of hc" key] B(4) True D(1,2)
      have "matches (p @ prefix_of h @ [b] @ prefix_of hc) k'" by simp
      note S = float_swap [OF P(3-6) key j this, of v] swap_buffered [OF P(3-6) key j, of v "entry_value (buffer h ! j)"]
      from fin [OF S(1,2)] S(3) filled_below(1) [OF P(3-5)] eq(1) True show ?thesis
        unfolding F Lru by (auto simp del: buffered.simps)
    next
      case False
      obtain h' ch' where u: "upped h ch j i' hc chc i key v = Inner h' ch'" by (simp add: upped_def)
      have "reinsert_ok k' dp (Some (Inner h' ch'))"
        using safe Lru False place(2) unfolding float_safe_def I ok(2) P(1)
        by (simp add: N h3 float_up_at [OF N P(5)] node_at_put u del: reinsert_ok.simps)
      then have "buffer_slot h' \<noteq> None \<or> partial_len h = 0 \<and> mem_safe k' (length p + partial_len h) (Some (Inner h' ch'))"
        using u by (auto simp: D(3) upped_def simp del: mem_safe.simps)
      from float_reinsert [OF P(3-6) key j u this] obtain m old f where
        m: "recursive_insert (Some (Inner h' ch')) k' 9 (entry_value (buffer h ! j)) dp False = (Some m, old, f)"
        and M: "art_ok p m" "node_map (length p) m = (node_map (length p) (Inner h ch))(key \<mapsto> v)"
          "buffered m + 1 = buffered (Inner h ch) + of_bool (odd f)" "filled (Inner h ch) \<longrightarrow> filled m"
        unfolding D(3) by auto
      obtain n' where n': "put_at (Some n) par (Some m) = Some n'" "art_ok [] n'" "node_map 0 n' = (node_map 0 n)(key \<mapsto> v)"
        "buffered n' + buffered (Inner h ch) = buffered n + buffered m" "filled n \<longrightarrow> filled n'"
        using fin [OF M(1,2)] M(4) by blast
      have "buffered n' + 1 = buffered n + of_bool (odd f)" using M(3) n'(4) by (simp del: buffered.simps)
      then have "of_nat (buffered n') = of_nat (buffered n) + (of_int (int (f mod 2) - 1) :: u64)"
        by (rule float_delta)
      with n' eq(1) False show ?thesis unfolding F Lru float_pick.case u m by auto
    qed
  next
    case Nothing
    with F eq show ?thesis by simp
  qed
qed

section \<open>The index\<close>

text \<open>The map of the index below its reserved keys: the table is asked first. A key is in the table and in
  the tree at once only if \<open>exclusive\<close> fails.\<close>

definition core_ok :: "index_sys \<Rightarrow> bool" where
  "core_ok ind \<longleftrightarrow> hash_ok (hash ind) \<and> tree_ok (tree ind)"

definition core_map :: "index_sys \<Rightarrow> u64 \<Rightarrow> u64 option" where
  "core_map ind = art_map (tree ind) ++ hash_map (hash ind)"

definition exclusive :: "index_sys \<Rightarrow> bool" where
  "exclusive ind \<longleftrightarrow> (\<forall>k. hash_map (hash ind) k = None \<or> art_map (tree ind) k = None)"

text \<open>\<open>same_rest\<close>: the reserved keys and the sketch are the same.\<close>

definition same_rest :: "index_sys \<Rightarrow> index_sys \<Rightarrow> bool" where
  "same_rest ind' ind \<longleftrightarrow> has_special_key ind' = has_special_key ind \<and> special_key_val ind' = special_key_val ind \<and> cm ind' = cm ind"

lemma core_mapI:
  assumes "hash_map (hash ind') = hash_map (hash ind)" "art_map (tree ind') = (art_map (tree ind))(k \<mapsto> v)"
    "hash_map (hash ind) k = None"
  shows "core_map ind' = (core_map ind)(k \<mapsto> v)" "exclusive ind \<Longrightarrow> exclusive ind'"
  using assms by (auto simp: core_map_def exclusive_def fun_eq_iff map_add_def split: option.splits)

lemma core_map_move:
  assumes "hash_map (hash ind') = (hash_map (hash ind))(k \<mapsto> v)" "art_map (tree ind') = (art_map (tree ind))(k := None)"
  shows "core_map ind' = (core_map ind)(k \<mapsto> v)" "exclusive ind \<Longrightarrow> exclusive ind'"
  using assms by (auto simp: core_map_def exclusive_def fun_eq_iff map_add_def split: option.splits)

lemma tree_onlyD: "ind' = ind\<lparr>tree := t\<rparr> \<Longrightarrow> hash ind' = hash ind" "ind' = ind\<lparr>tree := t\<rparr> \<Longrightarrow> same_rest ind' ind"
  by (simp_all add: same_rest_def)

lemma tree_ok_same:
  "tree_ok t \<Longrightarrow> opt_ok [] (root t') \<Longrightarrow> art_map t' = (art_map t)(k \<mapsto> v) \<Longrightarrow> art_map t k \<noteq> None \<Longrightarrow>
    tree_size t' = tree_size t \<Longrightarrow>
    buffer_count t' - of_nat (buffered_opt (root t')) = buffer_count t - of_nat (buffered_opt (root t)) \<Longrightarrow>
    filled_opt (root t') \<Longrightarrow> tree_ok t'"
  by (simp add: tree_ok_def card_dom_put del: dom_fun_upd)

lemma tree_ok_remove:
  assumes "tree_ok t" "opt_ok [] (root t')" "art_map t' = (art_map t)(k := None)" "art_map t k \<noteq> None"
    "tree_size t' = tree_size t - 1"
    "buffer_count t' - of_nat (buffered_opt (root t')) = buffer_count t - of_nat (buffered_opt (root t))"
    "filled_opt (root t')"
  shows "tree_ok t'"
proof -
  have "of_nat (card (dom (art_map t)) - 1) = (of_nat (card (dom (art_map t))) - 1 :: u64)"
    using card_dom_remove(2) [of "art_map t" k] assms(4) by (simp add: of_nat_diff Suc_leI)
  with assms card_dom_remove(1) [of "art_map t" k] show ?thesis by (simp add: tree_ok_def del: dom_fun_upd)
qed

lemma float_ok:
  assumes ok: "core_ok ind" and key: "\<not> IS_SPECIAL_KEY key"
    and loc: "art_find (root (tree ind)) key = Some loc" "loc_hit loc = InBuffer i e"
    and fresh: "hash_map (hash ind) key = None" and freq: "0 \<le> freq" "freq < 2 ^ 31"
    and info: "info = PACK_INFO freq i (loc_depth loc) (loc_depth_parent loc)" and v: "v = float_value e uv"
    and safe: "float_safe ind key info (loc_path loc) v"
    and eq: "art_float ind key info (loc_path loc) uv = (ind', st)" "st \<noteq> 0"
  shows "core_ok ind' \<and> core_map ind' = (core_map ind)(key \<mapsto> v) \<and> (exclusive ind \<longrightarrow> exclusive ind') \<and> same_rest ind' ind"
proof -
  from loc(1) obtain n where n: "root (tree ind) = Some n" by (cases "root (tree ind)") (auto simp: art_find_def)
  have okn: "art_ok [] n" and hok: "hash_ok (hash ind)" and sz: "tree_size (tree ind) = of_nat (card (dom (node_map 0 n)))"
    using ok n by (auto simp: core_ok_def tree_ok_def art_map_def)
  have am: "art_map (tree ind) = node_map 0 n" using n by (simp add: art_map_def)
  note P = art_find_place [OF okn loc(1) [unfolded n] loc(2)]
  show ?thesis
  proof (cases "loc_path loc = []")
    case False
    note F = float_below_root [OF okn n key P(1) False P(3,4) freq, of v uv ind' st]
    have v': "v = float_value (buffer_of (node_at (Some n) (loc_path loc)) ! i) uv" using v P(2) by simp
    obtain n' where n': "root (tree ind') = Some n'" "art_ok [] n'" "node_map 0 n' = (node_map 0 n)(key \<mapsto> v)"
      "tree_size (tree ind') = tree_size (tree ind)" "ind' = ind\<lparr>tree := tree ind'\<rparr>"
      "buffer_count (tree ind') - of_nat (buffered n') = buffer_count (tree ind) - of_nat (buffered n)" "filled n \<longrightarrow> filled n'"
      using F(1) [OF v' safe [unfolded info] eq(1) [unfolded info] eq(2)] by blast
    have old: "node_map 0 n key \<noteq> None" using F(2) [OF v' safe [unfolded info] eq(1) [unfolded info] eq(2)] .
    have rest: "hash ind' = hash ind" "same_rest ind' ind" using tree_onlyD [OF n'(5)] by simp_all
    have am': "art_map (tree ind') = (art_map (tree ind))(key \<mapsto> v)" using n' am by (simp add: art_map_def)
    have "tree_ok (tree ind')"
      by (rule tree_ok_same [of "tree ind" _ key v]) (use ok n n' old am am' in \<open>simp_all add: core_ok_def, simp add: tree_ok_def\<close>)
    with hok rest core_mapI [of ind' ind, OF _ am' fresh] show ?thesis by (simp add: core_ok_def)
  next
    case True
    then obtain h ch where R: "reaches [] n [] [] (Inner h ch)" "n = Inner h ch" "buffer_find h key = Some i"
      using P(1) by (auto simp: float_place_def elim: reaches_NilE)
    note I = PACK_INFO_fields(2) [OF freq, of i "loc_depth loc" "loc_depth_parent loc"]
    have I: "info_i info = i" using I P(3-5) info by simp
    note C = clear_in_node [OF okn [unfolded R(2)] R(3) key]
    have v': "v = (case uv of None \<Rightarrow> entry_value (buffer_of (node_at (root (tree ind)) []) ! i) | Some v \<Rightarrow> v)"
      using v P(2) n True by (cases uv) (simp_all add: float_value_def)
    obtain hs st' where h: "hash_insert_nocheck (hash ind) key v = (hs, st')" by (rule prod.exhaust)
    note H = insert_nocheck_ok [OF hok key fresh h [unfolded nocheck_simp [OF hok]]]
    have E: "st' = 0" "ind' = ind\<lparr>hash := hs, tree := (tree ind)\<lparr>root := store_key (root (tree ind)) [] i EMPTY_FLAG,
        buffer_count := buffer_count (tree ind) - 1, tree_size := tree_size (tree ind) - 1\<rparr>\<rparr>"
      using eq h unfolding True art_float_def Let_def I v' [symmetric] by (auto split: if_splits)
    have S: "store_key (root (tree ind)) [] i EMPTY_FLAG = Some (Inner (set_buffer_key h i 0) ch)"
      using store_at(2) [of "root (tree ind)" "[]" h ch i 0] n R(2) by simp
    have T: "root (tree ind') = Some (Inner (set_buffer_key h i 0) ch)" "tree_size (tree ind') = tree_size (tree ind) - 1"
      "hash ind' = hs" "same_rest ind' ind" using E S by (simp_all add: same_rest_def)
    have "buffered (Inner (set_buffer_key h i 0) ch) + 1 = buffered (Inner h ch)"
      by (rule clear_buffered [OF okn [unfolded R(2)] R(3) key])
    then have "of_nat (buffered (Inner h ch)) = (of_nat (buffered (Inner (set_buffer_key h i 0) ch)) + 1 :: u64)"
      by (metis of_nat_add of_nat_1)
    then have bal: "buffer_count (tree ind') - of_nat (buffered_opt (root (tree ind'))) =
        buffer_count (tree ind) - of_nat (buffered_opt (root (tree ind)))" using E S n R(2) by (simp del: buffered.simps)
    have fil: "filled_opt (root (tree ind'))" using ok T(1) n R(2) by (simp add: core_ok_def tree_ok_def)
    have am': "art_map (tree ind') = (art_map (tree ind))(key := None)"
      using C(2) T(1) am R(2) by (simp add: art_map_def)
    have old: "art_map (tree ind) key \<noteq> None"
      using slot_in_map(1) [OF okn [unfolded R(2)], of i key] buffer_findD [OF R(3)] key am R(2) by simp
    have "tree_ok (tree ind')"
      by (rule tree_ok_remove [of "tree ind" _ key]) (use ok T C(1) old am' bal fil in \<open>simp_all add: core_ok_def\<close>)
    then show ?thesis using H E(1) T(3,4) core_map_move [OF _ am'] by (simp add: core_ok_def)
  qed
qed

end
