(* ===== verification/Shape.thy ===== *)
theory Shape
  imports Float_Correct
begin

text \<open>
  The shape of a tree, which is all of it but the buffers: what the compaction leaves alone while it walks
  the tree, and the effect of inserting a key that is already in a buffer below.
\<close>

section \<open>Shape\<close>

primrec shape :: "art_node \<Rightarrow> art_node" where
  "shape (Leaf e) = Leaf e"
| "shape (Inner h ch) = Inner (h\<lparr>buffer := []\<rparr>) (map_children shape ch)"

lemma slot_map: "slot (map (map_option f) cs) i = map_option f (slot cs i)"
  by (simp add: slot_def)

lemma child_at_map [simp]: "child_at (map_children f ch) i = map_option f (child_at ch i)"
  by (cases ch) (simp_all add: child_at_def slot_map)

lemma find_child_map [simp]: "find_child h (map_children f ch) = find_child h ch"
  by (cases ch) (simp_all add: slot_map fun_eq_iff)

lemma find_child_buffer [simp]: "find_child (h\<lparr>buffer := b\<rparr>) ch = find_child h ch"
  by (cases ch) (simp_all add: fun_eq_iff)

lemma set_child_map [simp]: "map_children f (set_child ch i x) = set_child (map_children f ch) i (map_option f x)"
  by (cases ch) (simp_all add: map_update)

lemma set_child_same [simp]: "set_child ch i (child_at ch i) = ch"
  by (cases ch) (simp_all add: child_at_def slot_def list_update_beyond)

lemma node_at_shape: "map_option shape (node_at r path) = node_at (map_option shape r) path"
  by (induction r path rule: node_at.induct) simp_all

lemma put_at_shape: "map_option shape (put_at r path x) = put_at (map_option shape r) path (map_option shape x)"
  by (induction r path x rule: put_at.induct) simp_all

lemma put_at_same: "put_at r path (node_at r path) = r"
  by (induction r path rule: node_at.induct) simp_all

lemma shape_set_buffer [simp]: "shape (Inner (set_buffer h i e) ch) = shape (Inner h ch)"
  by (simp add: set_buffer_def)

lemma with_slot_shape: "map_option shape (with_slot i e n) = map_option shape n"
  by (cases "(i, e, n)" rule: with_slot.cases) (simp_all del: shape.simps)

lemma store_entry_shape [simp]: "map_option shape (store_entry r path i e) = map_option shape r"
  unfolding store_entry_def put_at_shape with_slot_shape node_at_shape by (rule put_at_same)

lemma store_key_shape [simp]: "map_option shape (store_key r path i k) = map_option shape r"
  by (simp add: store_key_def)

text \<open>Trees of the same shape have the same numbers of children.\<close>

lemma child_map_shape: "child_map (h\<lparr>buffer := b\<rparr>) (map_children f ch) c = map_option f (child_map h ch c)"
  by (cases "find_child h ch c") (simp_all add: child_map_def)

lemma filled_shape: "filled (shape n) = filled n"
proof (induction n rule: measure_induct_rule [of size])
  case (less n)
  show ?case
  proof (cases n)
    case (Inner h ch)
    have "dom (child_map (h\<lparr>buffer := []\<rparr>) (map_children shape ch)) = dom (child_map h ch)"
      by (auto simp: dom_def child_map_shape)
    then have en: "enough (h\<lparr>buffer := []\<rparr>) (map_children shape ch) = enough h ch"
      by (cases ch) (simp_all add: enough_def kids_def)
    have kid: "filled (shape c) = filled c" if "child_map h ch b = Some c" for b c
      using less [of c] size_child_map [OF that] Inner by simp
    have "(\<forall>c n. map_option shape (child_map h ch c) = Some n \<longrightarrow> filled n) \<longleftrightarrow>
        (\<forall>c n. child_map h ch c = Some n \<longrightarrow> filled (shape n))" by auto
    also have "\<dots> \<longleftrightarrow> (\<forall>c n. child_map h ch c = Some n \<longrightarrow> filled n)" using kid by blast
    finally have "(\<forall>c n. map_option shape (child_map h ch c) = Some n \<longrightarrow> filled n) \<longleftrightarrow>
        (\<forall>c n. child_map h ch c = Some n \<longrightarrow> filled n)" .
    with en show ?thesis by (simp add: Inner filled_inner child_map_shape)
  qed simp
qed

lemma filled_same_shape: "map_option shape n = map_option shape n' \<Longrightarrow> filled_opt n = filled_opt n'"
  by (cases n; cases n') (simp_all, metis filled_shape)

text \<open>Paths lead to the same places in trees of the same shape.\<close>

lemma shape_Inner:
  assumes "shape n = shape (Inner h ch)"
  obtains h' ch' where "n = Inner h' ch'" "map_children shape ch' = map_children shape ch"
    "find_child h' ch' = find_child h ch" "prefix_of h' = prefix_of h"
proof (cases n)
  case (Leaf e)
  with assms show thesis by simp
next
  case (Inner h' ch')
  with assms have hd: "h'\<lparr>buffer := []\<rparr> = h\<lparr>buffer := []\<rparr>" and c: "map_children shape ch' = map_children shape ch" by simp_all
  have "find_child h' ch' = find_child (h'\<lparr>buffer := []\<rparr>) (map_children shape ch')" by simp
  also have "... = find_child h ch" unfolding hd c by simp
  finally have f: "find_child h' ch' = find_child h ch" .
  have "prefix_of (h'\<lparr>buffer := []\<rparr>) = prefix_of (h\<lparr>buffer := []\<rparr>)" by (simp only: hd)
  then have "prefix_of h' = prefix_of h" by (simp add: prefix_of_def)
  with that [OF Inner c f] show thesis .
qed

lemma reaches_shape:
  "reaches p n path q m \<Longrightarrow> shape n' = shape n \<Longrightarrow> \<exists>m'. reaches p n' path q m' \<and> shape m' = shape m"
proof (induction arbitrary: n' rule: reaches.induct)
  case (here p n)
  then show ?case using reaches.here by blast
next
  case (down h ch b i c p path q m)
  from down.prems obtain h' ch' where n': "n' = Inner h' ch'" "map_children shape ch' = map_children shape ch"
    "find_child h' ch' = find_child h ch" "prefix_of h' = prefix_of h" by (rule shape_Inner)
  have "map_option shape (child_at ch' i) = map_option shape (child_at ch i)"
    using child_at_map [of shape ch' i] child_at_map [of shape ch i] by (simp only: n'(2))
  then obtain c' where c': "child_at ch' i = Some c'" "shape c' = shape c" using down.hyps(2) by auto
  obtain m' where m': "reaches (p @ prefix_of h @ [b]) c' path q m'" "shape m' = shape m" using down.IH [OF c'(2)] by blast
  have "reaches p (Inner h' ch') (i # path) q m'"
    by (rule reaches.down [of h' ch' b i c']) (use down.hyps n' c' m' in simp_all)
  with m' n' show ?case by blast
qed

section \<open>Inserting a key that is in a buffer below\<close>

lemma store_key_Cons:
  "store_key (Some (Inner h ch)) (j # path) i k = Some (Inner h (set_child ch j (store_key (child_at ch j) path i k)))"
  by (simp add: store_key_def store_entry_def)

lemma prefix_matched:
  assumes ok: "art_ok p (Inner h ch)" and m: "matches (p @ prefix_of h) k"
  shows "prefix_mismatch h ch k 8 (length p) = partial_len h"
proof -
  note D = inner_okD [OF ok [unfolded art_ok_inner]]
  have pl: "partial_len h \<le> 8" "length p + partial_len h \<le> 8" using D(1,3) by (simp_all add: hdr_ok_def)
  have "check_prefix h k 8 (length p) = min 8 (partial_len h)"
    using check_prefix_iff [OF D(1) pl(2)] matches_appendD [OF m] m by simp
  with pl(1) show ?thesis by (simp add: prefix_mismatch_check)
qed

text \<open>The insertion stops at the first node on the way with an empty buffer slot, or finds the key. After the
  key's old slot is cleared the tree maps what it did.\<close>

definition lifted :: "u8 list \<Rightarrow> art_node \<Rightarrow> nat list \<Rightarrow> nat \<Rightarrow> art_node option \<times> u64 option \<times> nat \<Rightarrow> bool" where
  "lifted p n path i r \<longleftrightarrow> (case r of (m, old, flag) \<Rightarrow>
     if old \<noteq> None then m = Some n \<and> flag = 2
     else flag = 1 \<and> map_option shape m = Some (shape n) \<and>
       (\<exists>n'. store_key m path i 0 = Some n' \<and> art_ok p n' \<and> node_map (length p) n' = node_map (length p) n \<and>
         buffered n' = buffered n))"

lemma lift_node:
  "reaches p n path q m \<Longrightarrow> m = Inner h ch \<Longrightarrow> art_ok p n \<Longrightarrow> buffer_find h k = Some i \<Longrightarrow> \<not> IS_SPECIAL_KEY k \<Longrightarrow>
    lifted p n path i (recursive_insert (Some n) k (KEY_LEN + MEM_TYPE) (entry_value (buffer h ! i)) (length p) False)"
proof (induction rule: reaches.induct)
  case (here p n)
  then show ?case by (simp add: lifted_def Let_def)
next
  case (down h0 ch0 b j c p path q m)
  let ?v = "entry_value (buffer h ! i)" and ?d = "length p + partial_len h0" and ?e = "\<lparr>entry_key = k, entry_value = entry_value (buffer h ! i)\<rparr>"
  note ok = down.prems(2) and key = down.prems(4) and m = down.prems(1)
  note D = inner_okD [OF ok [unfolded art_ok_inner]] and C = child_ok [OF ok down.hyps(1,2)]
  have okm: "art_ok q (Inner h ch)" using reaches_ok [OF down.hyps(3) C(1)] m by simp
  note B = buffer_findD [OF down.prems(3)]
  note S = slot_in_map(1) [OF okm conjunct1 [OF B] conjunct2 [OF B] key]
  have nc: "node_map (?d + 1) c k = Some ?v" using reaches_map [OF down.hyps(3) C(1), of k ?v] S C(2) m by simp
  note N = child_node_map [OF ok down.hyps(1,2) nc]
  have bf: "buffer_find h0 k = None" using N(3) key by (simp add: buf_map_def)
  have mq: "matches (p @ prefix_of h0) k" "key_byte k ?d = b"
    using matches_snoc [OF D(3), of b k] N(2) D(1) by simp_all
  have st: "recursive_insert (Some (Inner h0 ch0)) k (KEY_LEN + MEM_TYPE) ?v (length p) False =
      (case buffer_slot h0 of
         Some s \<Rightarrow> (Some (Inner (set_buffer h0 s ?e) ch0), None, 1)
       | None \<Rightarrow> (case recursive_insert (Some c) k (KEY_LEN + MEM_TYPE) ?v (?d + 1) False of (n', old, flag) \<Rightarrow>
                   (Some (Inner h0 (set_child ch0 j n')), old, flag)))"
    using bf down.hyps(1,2) prefix_matched [OF ok mq(1)] mq(2)
    by (cases "partial_len h0 = 0") (simp_all add: Let_def split: option.split)
  show ?case
  proof (cases "buffer_slot h0")
    case (Some s)
    note L = clear_in_node [OF okm down.prems(3) key]
    have old: "node_map (length q) (Inner h ch) k \<noteq> None" using S by simp
    obtain c' where c': "put_at (Some c) path (Some (Inner (set_buffer_key h i 0) ch)) = Some c'"
        "art_ok (p @ prefix_of h0 @ [b]) c'" "node_map (?d + 1) c' = (node_map (?d + 1) c)(k := None)"
      using replace_upd [OF down.hyps(3) C(1) L(1), of k None] L(2) old C(2) m by auto
    have sk: "store_key (Some c) path i 0 = Some c'"
      using store_at(2) [of "Some c" path h ch i 0] reaches_node_at [OF down.hyps(3)] m c'(1) by simp
    note U = child_upd [OF ok down.hyps(1,2) c'(2,3) N(2,3)]
    have z: "s < 3" "entry_key (buffer h0 ! s) = 0" using buffer_slotD [OF Some] by simp_all
    note P = put_in_node [OF U(1) key mq(1) _ z, of ?v]
    have "node_map (length p) (Inner h0 (set_child ch0 j (Some c'))) k = None" using U(2) by simp
    note P = P [OF this]
    have "buffered c' + 1 = buffered c"
      using put_buffered [OF down.hyps(3) C(1) c'(1)] clear_buffered [OF okm down.prems(3) key] m by (simp del: buffered.simps)
    then have "buffered (Inner h0 (set_child ch0 j (Some c'))) + 1 = buffered (Inner h0 ch0)"
      using buffered_set_child [OF D(2) down.hyps(1), of c'] down.hyps(2) by (simp del: buffered.simps)
    then have b: "buffered (Inner (set_buffer h0 s ?e) (set_child ch0 j (Some c'))) = buffered (Inner h0 ch0)"
      using buffered_set [OF D(1) z(1), of ?e "set_child ch0 j (Some c')"] z(2) not_special_nonzero [OF key]
      by (simp add: taken_def del: buffered.simps)
    have "(node_map (length p) (Inner h0 ch0))(k := None, k \<mapsto> ?v) = node_map (length p) (Inner h0 ch0)"
      using N(1) by (simp add: fun_upd_idem)
    with P U(2) b show ?thesis unfolding st Some
      by (simp add: lifted_def store_key_Cons down.hyps(2) sk del: shape.simps buffered.simps)
  next
    case None
    obtain n' old flag where r: "recursive_insert (Some c) k (KEY_LEN + MEM_TYPE) ?v (?d + 1) False = (n', old, flag)" by (rule prod_cases3)
    have l: "lifted (p @ prefix_of h0 @ [b]) c path i (n', old, flag)"
      using down.IH [OF m C(1) down.prems(3) key] unfolding C(2) r .
    show ?thesis
    proof (cases "old = None")
      case False
      with l have "n' = child_at ch0 j" "flag = 2" using down.hyps(2) by (simp_all add: lifted_def)
      with False show ?thesis unfolding st None option.case r prod.case by (simp add: lifted_def)
    next
      case True
      with l obtain c' where c': "flag = 1" "map_option shape n' = Some (shape c)" "store_key n' path i 0 = Some c'"
        "art_ok (p @ prefix_of h0 @ [b]) c'" "node_map (?d + 1) c' = node_map (?d + 1) c"
        "buffered c' = buffered c"
        unfolding lifted_def C(2) by auto
      have b: "buffered (Inner h0 (set_child ch0 j (Some c'))) = buffered (Inner h0 ch0)"
        using buffered_set_child [OF D(2) down.hyps(1), of c'] down.hyps(2) c'(6) by (simp del: buffered.simps)
      have same: "node_map (?d + 1) c' = (node_map (?d + 1) c)(k := Some ?v)" using c'(5) nc by (simp add: fun_upd_idem)
      note U = child_upd [OF ok down.hyps(1,2) c'(4) same N(2,3)]
      have "(node_map (length p) (Inner h0 ch0))(k \<mapsto> ?v) = node_map (length p) (Inner h0 ch0)"
        using N(1) by (simp add: fun_upd_idem)
      moreover obtain x where x: "n' = Some x" "shape x = shape c" using c'(2) by auto
      moreover have "set_child (map_children shape ch0) j (Some (shape c)) = map_children shape ch0"
        using set_child_same [of "map_children shape ch0" j] down.hyps(2) by simp
      ultimately show ?thesis using U True c'(1,2,3) b unfolding st None option.case r prod.case
        by (simp add: lifted_def store_key_Cons child_at_set down.hyps(2) del: buffered.simps)
    qed
  qed
qed

end
