(* ===== verification/Hash_Laws.thy ===== *)
theory Hash_Laws
  imports Hash_Correct
begin

text \<open>
  The hash table as a store, by interpretation of the store contract, and the properties of its
  operations.
\<close>

section \<open>The table as a store\<close>

definition hash_put :: "u64 \<Rightarrow> u64 \<Rightarrow> index_sys \<Rightarrow> index_sys" where
  "hash_put k v ind = fst (hash_modify ind k v INSERT)"

definition hash_del :: "u64 \<Rightarrow> index_sys \<Rightarrow> index_sys" where
  "hash_del k ind = fst (hash_search ind k False HASH_DELETE)"

text \<open>The bin of the key has the key or an empty slot.\<close>

definition hash_room :: "index_sys \<Rightarrow> u64 \<Rightarrow> bool" where
  "hash_room ind k \<longleftrightarrow> (\<exists>j \<in> set [0..<8].
    entry_key (entries (hash ind) ! HASH_COMP_IDX (hash ind) k ! j) = 0 \<or>
    entry_key (entries (hash ind) ! HASH_COMP_IDX (hash ind) k ! j) = k)"

lemma hash_room_status:
  assumes "hash_ok (hash ind)" "\<not> IS_SPECIAL_KEY k" "hash_modify ind k v INSERT = (ind', freq, st)"
  shows "st = (if hash_room ind k then 0 else HASH_BIN_FULL)"
proof -
  let ?b = "entries (hash ind) ! HASH_COMP_IDX (hash ind) k"
  have r: "hash_room ind k \<longleftrightarrow> (\<exists>j < 8. entry_key (?b ! j) = 0) \<or> hash_map (hash ind) k \<noteq> None"
    using bin_map_None [OF not_special_nonzero [OF assms(2)], of ?b] assms(2)
    by (auto simp: hash_room_def hash_map_def)
  show ?thesis
  proof (cases "st = 0")
    case False
    then show ?thesis using hash_insert_ok [OF assms] r by auto
  next
    case True
    have "hash_room ind k"
    proof (rule ccontr)
      assume n: "\<not> hash_room ind k"
      have b: "bin_ok ?b" by (rule bin_of_key [OF assms(1)])
      then have t: "take 8 ?b = ?b" "length ?b = 8" by (simp_all add: bin_ok_def)
      have "hash_map (hash ind) k = None" using n r by blast
      then have nk: "\<And>j. j < 8 \<Longrightarrow> entry_key (?b ! j) \<noteq> k"
        using bin_map_None [OF not_special_nonzero [OF assms(2)], of ?b] assms(2) by (simp add: hash_map_def)
      show False
      proof (cases "scan_bin (cm ind) k 0 ?b 0 None None")
        case (Found j)
        then show False using scan_bin_found [OF Found] nk [of j] t(2) by simp
      next
        case (Scanned av im)
        have im: "im = None" using scan_bin_no_pick [OF Scanned] by simp
        have "first_idx 8 (\<lambda>j. entry_key (?b ! j) = 0) = None" using n r by (simp add: first_idx_None)
        then have "av = None" using scan_bin_scanned [OF Scanned] t(2) by simp
        then show False using assms(3) True Scanned im
          unfolding hash_modify_def hash_idx_agree Let_def by (simp add: t)
      qed
    qed
    with True show ?thesis by simp
  qed
qed

interpretation table: kv_store "\<lambda>ind :: index_sys. hash_ok (hash ind)" "\<lambda>ind. hash_map (hash ind)" hash_put hash_del "\<lambda>ind k v. hash_room ind k" "\<lambda>_ _. True"
proof
  fix ind :: index_sys and k v
  assume a: "hash_ok (hash ind)" "\<not> IS_SPECIAL_KEY k" "hash_room ind k"
  obtain ind' freq st where e: "hash_modify ind k v INSERT = (ind', freq, st)" by (rule prod_cases3)
  have "st = 0" using hash_room_status [OF a(1,2) e] a(3) by simp
  then show "hash_ok (hash (hash_put k v ind)) \<and> hash_map (hash (hash_put k v ind)) = (hash_map (hash ind))(k \<mapsto> v)"
    using hash_insert_ok [OF a(1,2) e] by (simp add: hash_put_def e)
next
  fix ind :: index_sys and k
  assume a: "hash_ok (hash ind)" "\<not> IS_SPECIAL_KEY k"
  obtain ind' freq res found where e: "hash_search ind k False HASH_DELETE = (ind', freq, res, found)" by (rule prod_cases4)
  show "hash_ok (hash (hash_del k ind)) \<and> hash_map (hash (hash_del k ind)) = (hash_map (hash ind))(k := None)"
    using hash_delete_ok [OF a e] by (simp add: hash_del_def e)
qed

section \<open>Properties\<close>

definition sample_index :: index_sys where
  "sample_index = \<lparr>has_special_key = [0, 0], special_key_val = [0, 0], cm = sample_sketch,
    hash = \<lparr>h_seed = 42, h_size = 2, h_count = 0, entries = replicate 2 (replicate 8 empty_entry)\<rparr>,
    tree = art_tree_init\<rparr>"

lemma sample_index_ok: "hash_ok (hash sample_index)" "hash_map (hash sample_index) = Map.empty"
proof -
  have "hash_construct (\<lambda>_. True) 0 2 42 = Some (hash sample_index)"
    by (simp add: hash_construct_def sample_index_def)
  from hash_construct_ok [OF this, of 1]
  show "hash_ok (hash sample_index)" "hash_map (hash sample_index) = Map.empty" by simp_all
qed

text \<open>C19. \<open>hash_insert\<close> on a well-formed table, every outcome: when the bin of the key has the key or
  an empty slot, the key maps to the value, no other key changes and 0 is returned; otherwise
  \<open>HASH_BIN_FULL\<close> is returned and nothing changes. The rest of the index is never touched.\<close>

theorem hash_insert_outcomes:
  assumes "hash_ok (hash ind)" "\<not> IS_SPECIAL_KEY k" "hash_modify ind k v INSERT = (ind', freq, st)"
  shows "(if hash_room ind k
      then st = 0 \<and> hash_ok (hash ind') \<and> hash_map (hash ind') = (hash_map (hash ind))(k \<mapsto> v)
      else st = HASH_BIN_FULL \<and> hash ind' = hash ind) \<and>
    tree ind' = tree ind \<and> cm ind' = cm ind"
proof -
  have "ind' = ind\<lparr>hash := hash ind'\<rparr> \<or> ind' = ind" using hash_insert_ok [OF assms] by blast
  then have "tree ind' = tree (ind\<lparr>hash := hash ind'\<rparr>) \<and> cm ind' = cm (ind\<lparr>hash := hash ind'\<rparr>) \<or> ind' = ind" by metis
  then show ?thesis using hash_insert_ok [OF assms] hash_room_status [OF assms] by auto
qed

theorem hash_insert_outcomes_witness:
  "hash_map (hash (fst (hash_modify sample_index 77 5 INSERT))) 77 = Some 5"
proof -
  obtain ind' freq st where e: "hash_modify sample_index 77 5 INSERT = (ind', freq, st)" by (rule prod_cases3)
  have "hash_room sample_index 77" by code_simp
  with hash_insert_outcomes [OF sample_index_ok(1) _ e] show ?thesis by (simp add: e IS_SPECIAL_KEY_iff)
qed

text \<open>C20. \<open>hash_query\<close> returns the value of the key, reports whether it is there, counts the access and
  changes nothing but the sketch; \<open>hash_delete\<close> reports whether the key was there and removes it.\<close>

theorem hash_search_correct:
  assumes "hash_ok (hash ind)" "\<not> IS_SPECIAL_KEY k"
    and "hash_search ind k True HASH_QUERY = (ind1, f1, res, found)"
    and "hash_search ind k False HASH_DELETE = (ind2, f2, res2, gone)"
  shows "res = hash_map (hash ind) k \<and> found = (hash_map (hash ind) k \<noteq> None) \<and> hash ind1 = hash ind \<and> tree ind1 = tree ind \<and>
    gone = found \<and> hash_ok (hash ind2) \<and> hash_map (hash ind2) = (hash_map (hash ind))(k := None)"
  using hash_query_ok [OF assms(2,3)] hash_delete_ok [OF assms(1,2,4)] by auto

theorem hash_search_correct_witness:
  "\<exists>ind1 f1 res found. hash_search (hash_put 77 5 sample_index) 77 True HASH_QUERY = (ind1, f1, res, found) \<and>
    res = Some 5 \<and> found"
proof -
  let ?ind = "hash_put 77 5 sample_index"
  have "hash_room sample_index 77" by code_simp
  then have P: "hash_ok (hash ?ind)" "hash_map (hash ?ind) 77 = Some 5"
    using table.put [OF sample_index_ok(1), of 77 5] by (simp_all add: IS_SPECIAL_KEY_iff)
  obtain ind1 f1 res found where e: "hash_search ?ind 77 True HASH_QUERY = (ind1, f1, res, found)" by (rule prod_cases4)
  obtain ind2 f2 res2 del where d: "hash_search ?ind 77 False HASH_DELETE = (ind2, f2, res2, del)" by (rule prod_cases4)
  from hash_search_correct [OF P(1) _ e d] P(2) have "res = Some 5 \<and> found" by (simp add: IS_SPECIAL_KEY_iff)
  with e show ?thesis by blast
qed

text \<open>C21. Doubling by copying keeps every key with its value and the count, in a well-formed table of
  twice the size, when the seed of the table is not 0.\<close>

theorem hash_expand_copy_keeps:
  assumes "hash_ok hs" "h_size hs = 2 ^ n" "n < 63" "h_seed hs \<noteq> 0" "hash_expand_copy alloc rnd hs = Some hs'"
  shows "hash_ok hs' \<and> hash_map hs' = hash_map hs \<and> h_size hs' = 2 ^ Suc n \<and> h_count hs' = h_count hs"
  using hash_expand_copy_ok [OF assms] by simp

theorem hash_expand_copy_keeps_witness:
  "\<exists>hs'. hash_expand_copy (\<lambda>_. True) 0 (hash (hash_put 77 5 sample_index)) = Some hs' \<and> hash_map hs' 77 = Some 5"
proof -
  let ?ind = "hash_put 77 5 sample_index"
  have "hash_room sample_index 77" by code_simp
  then have P: "hash_ok (hash ?ind)" "hash_map (hash ?ind) 77 = Some 5"
    using table.put [OF sample_index_ok(1), of 77 5] by (simp_all add: IS_SPECIAL_KEY_iff)
  have s: "h_size (hash ?ind) = 2 ^ 1" "h_seed (hash ?ind) \<noteq> 0" by code_simp+
  have "hash_expand_copy (\<lambda>_. True) 0 (hash ?ind) \<noteq> None" by (simp add: hash_expand_copy_def hash_construct_def Let_def)
  then obtain hs' where "hash_expand_copy (\<lambda>_. True) 0 (hash ?ind) = Some hs'" by blast
  with hash_expand_copy_keeps [OF P(1) s(1) _ s(2) this] P(2) show ?thesis by simp
qed

text \<open>C22. The two ways to double a table give tables with the same size and the same lookup:
  reinserting never meets a full bin, so it loses nothing although it ignores the status.\<close>

theorem hash_expand_equivalent:
  assumes "hash_ok hs" "h_size hs = 2 ^ n" "n < 63" "h_seed hs \<noteq> 0"
    and "hash_expand_copy alloc rnd hs = Some hs1" "hash_expand_reinsert alloc rnd hs = Some hs2"
  shows "hash_map hs1 = hash_map hs2 \<and> h_size hs1 = h_size hs2 \<and> h_count hs1 = h_count hs2"
proof -
  have 1: "hash_ok hs1 \<and> hash_map hs1 = hash_map hs \<and> h_size hs1 = 2 ^ Suc n" using hash_expand_copy_ok [OF assms(1-5)] by simp
  have 2: "hash_ok hs2 \<and> hash_map hs2 = hash_map hs \<and> h_size hs2 = 2 ^ Suc n"
    using hash_expand_reinsert_ok [OF assms(1-4,6)] by simp
  show ?thesis using 1 2 hash_okD(2) [of hs1] hash_okD(2) [of hs2] by simp
qed

theorem hash_expand_equivalent_witness:
  "\<exists>hs1 hs2. hash_expand_copy (\<lambda>_. True) 0 (hash sample_index) = Some hs1 \<and>
    hash_expand_reinsert (\<lambda>_. True) 0 (hash sample_index) = Some hs2 \<and> hash_map hs1 = hash_map hs2"
proof -
  have s: "h_size (hash sample_index) = 2 ^ 1" "h_seed (hash sample_index) \<noteq> 0" by code_simp+
  have "hash_expand_copy (\<lambda>_. True) 0 (hash sample_index) \<noteq> None" "hash_expand_reinsert (\<lambda>_. True) 0 (hash sample_index) \<noteq> None"
    by (simp_all add: hash_expand_copy_def hash_expand_reinsert_def hash_construct_def Let_def)
  then obtain hs1 hs2 where "hash_expand_copy (\<lambda>_. True) 0 (hash sample_index) = Some hs1"
    "hash_expand_reinsert (\<lambda>_. True) 0 (hash sample_index) = Some hs2" by blast
  with hash_expand_equivalent [OF sample_index_ok(1) s(1) _ s(2) this] show ?thesis by auto
qed

text \<open>\<open>load_factor\<close> of a table whose bins are all full is 64, not 1: the bin capacity multiplies
  instead of dividing. A table holding an eighth of an entry per bin already counts as fully loaded.\<close>

theorem load_factor_scaled:
  assumes "h_size hs \<noteq> 0" "unat (h_count hs) = unat (h_size hs) * BIN_CAPACITY"
  shows "load_factor hs = 64"
  using assms by (simp add: load_factor_def unsigned_eq_0_iff)

theorem load_factor_scaled_witness:
  "load_factor \<lparr>h_seed = 1, h_size = 4, h_count = 32, entries = []\<rparr> = 64"
  by (rule load_factor_scaled) simp_all

end
