(* ===== verification/Float_Laws.thy ===== *)
theory Float_Laws
  imports Float_Correct Hash_Laws
begin

text \<open>
  \<open>art_search\<close> and \<open>art_update\<close>, whose hit in a buffer floats the key, against the map of the index, and
  the input on which a float loses a key.
\<close>

section \<open>Places of a key\<close>

definition search_safe :: "index_sys \<Rightarrow> u64 \<Rightarrow> int \<Rightarrow> u64 option \<Rightarrow> bool" where
  "search_safe ind key freq uv \<longleftrightarrow>
    (case art_find (root (tree ind)) key of
       Some loc \<Rightarrow> (case loc_hit loc of
           InBuffer i e \<Rightarrow> float_safe ind key (PACK_INFO freq i (loc_depth loc) (loc_depth_parent loc)) (loc_path loc) (float_value e uv)
         | InLeaf l \<Rightarrow> True)
     | None \<Rightarrow> True)"

lemma art_find_map: "\<not> IS_SPECIAL_KEY key \<Longrightarrow>
    art_map t key = map_option (hit_value \<circ> loc_hit) (art_find (root t) key)"
  by (cases "root t") (simp_all add: art_find_lookup art_map_def node_map_def)

lemma art_find_hit:
  assumes "art_ok [] n" "art_find (Some n) key = Some loc"
  obtains q m where "reaches [] n (loc_path loc) q m" "hit_at key q m loc" "art_ok q m"
  using art_walk_reaches [of "[]" n key "[]" 0 loc] assms reaches_ok that by (force simp: art_find_def)

text \<open>Writing a value where the key was found: a leaf, or a buffer slot when nothing floats.\<close>

lemma put_value_ok:
  assumes ok: "tree_ok t" "root t = Some n" and key: "\<not> IS_SPECIAL_KEY key"
    and r: "reaches [] n path q m" "art_ok q m"
    and m': "art_ok q m'" "node_map (length q) m' = (node_map (length q) m)(key \<mapsto> v)" "node_map (length q) m key \<noteq> None"
      "buffered m' = buffered m" "filled m \<Longrightarrow> filled m'"
  shows "tree_ok (t\<lparr>root := put_at (Some n) path (Some m')\<rparr>) \<and>
    art_map (t\<lparr>root := put_at (Some n) path (Some m')\<rparr>) = (art_map t)(key \<mapsto> v)"
proof -
  have okn: "art_ok [] n" using ok by (simp add: tree_ok_def)
  obtain w where w: "node_map (length q) m key = Some w" using m'(3) by blast
  have old: "art_map t key \<noteq> None" using reaches_map [OF r(1) okn w] ok(2) by (simp add: art_map_def)
  obtain n' where n': "put_at (Some n) path (Some m') = Some n'" "art_ok [] n'" "node_map 0 n' = (node_map 0 n)(key \<mapsto> v)"
    using replace_upd [OF r(1) okn m'(1,2)] m'(3) by auto
  have am: "art_map (t\<lparr>root := put_at (Some n) path (Some m')\<rparr>) = (art_map t)(key \<mapsto> v)"
    using n' ok(2) by (simp add: art_map_def)
  have "buffered n' = buffered n" using put_buffered [OF r(1) okn n'(1)] m'(4) by simp
  moreover have "filled n" using ok by (simp add: tree_ok_def)
  then have "filled n'" using put_filled [OF r(1) okn n'(1)] reaches_filled [OF r(1) okn] m'(5) by simp
  ultimately show ?thesis using tree_ok_same [OF ok(1) _ am old] am n' ok(2) by simp
qed

lemma core_upd:
  assumes "core_ok ind" "tree_ok t \<and> art_map t = (art_map (tree ind))(key \<mapsto> v)" "hash_map (hash ind) key = None"
  shows "core_ok (ind\<lparr>tree := t\<rparr>) \<and> core_map (ind\<lparr>tree := t\<rparr>) = (core_map ind)(key \<mapsto> v) \<and>
    (exclusive ind \<longrightarrow> exclusive (ind\<lparr>tree := t\<rparr>)) \<and> same_rest (ind\<lparr>tree := t\<rparr>) ind"
  using assms core_mapI [of "ind\<lparr>tree := t\<rparr>" ind key v] by (simp add: core_ok_def same_rest_def)

section \<open>Search\<close>

lemma core_map_triv: "core_map ind k = Some v \<Longrightarrow> (core_map ind)(k \<mapsto> v) = core_map ind"
  by (simp add: fun_upd_idem)

lemma art_search_ok:
  assumes ok: "core_ok ind" and key: "\<not> IS_SPECIAL_KEY key" "hash_map (hash ind) key = None"
    and freq: "0 \<le> freq" "freq < 2 ^ 31" and safe: "search_safe ind key freq None"
    and eq: "art_search ind key freq = (ind', res)"
  shows "res = art_map (tree ind) key \<and> core_ok ind' \<and> core_map ind' = core_map ind \<and>
    (exclusive ind \<longrightarrow> exclusive ind') \<and> same_rest ind' ind"
proof (cases "art_find (root (tree ind)) key")
  case None
  then show ?thesis using eq ok art_find_map [OF key(1), of "tree ind"] by (simp add: art_search_def same_rest_def)
next
  case (Some loc)
  have m: "art_map (tree ind) key = Some (hit_value (loc_hit loc))"
    using art_find_map [OF key(1), of "tree ind"] Some by simp
  show ?thesis
  proof (cases "loc_hit loc")
    case (InLeaf l)
    then show ?thesis using eq ok m Some by (simp add: art_search_def same_rest_def)
  next
    case (InBuffer i e)
    let ?info = "PACK_INFO freq i (loc_depth loc) (loc_depth_parent loc)"
    obtain ind1 st where f: "art_float ind key ?info (loc_path loc) None = (ind1, st)" by (rule prod.exhaust)
    then have r: "ind' = ind1" "res = Some (entry_value e)" using eq Some InBuffer by (simp_all add: art_search_def)
    have cm: "core_map ind key = Some (entry_value e)" using m InBuffer key(2) by (simp add: core_map_def map_add_def)
    have s: "float_safe ind key ?info (loc_path loc) (float_value e None)"
      using safe Some InBuffer by (simp add: search_safe_def)
    show ?thesis
    proof (cases "st = 0")
      case True
      have "ind1 = ind" by (rule float_none [OF f True])
      then show ?thesis using ok m InBuffer r by (simp add: same_rest_def)
    next
      case False
      show ?thesis
        using float_ok [OF ok key(1) Some InBuffer key(2) freq refl refl s f False] m InBuffer r core_map_triv [OF cm]
        by (simp add: float_value_def)
    qed
  qed
qed

section \<open>Update\<close>

lemma leaf_value_ok:
  assumes "art_ok q (Leaf l)" "entry_key l = key"
  shows "art_ok q (Leaf (l\<lparr>entry_value := v\<rparr>))"
    "node_map (length q) (Leaf (l\<lparr>entry_value := v\<rparr>)) = (node_map (length q) (Leaf l))(key \<mapsto> v)"
proof -
  show ok: "art_ok q (Leaf (l\<lparr>entry_value := v\<rparr>))" using assms(1) by (auto elim!: ok_leafE intro: ok_leaf)
  show "node_map (length q) (Leaf (l\<lparr>entry_value := v\<rparr>)) = (node_map (length q) (Leaf l))(key \<mapsto> v)"
    using node_map_leaf [OF ok, of "length q"] node_map_leaf [OF assms(1), of "length q"] assms(2) by simp
qed

lemma buffered_leaf: "buffered (Leaf l) = buffered (Leaf l')"
  by simp

lemma buffered_value:
  assumes "art_ok q (Inner h ch)" "buffer_find h key = Some i" "\<not> IS_SPECIAL_KEY key"
  shows "buffered (Inner (set_buffer_value h i v) ch) = buffered (Inner h ch)"
  using buffered_set [of h i "(buffer h ! i)\<lparr>entry_value := v\<rparr>" ch] buffer_findD [OF assms(2)]
    inner_okD(1) [OF assms(1) [unfolded art_ok_inner]]
  by (simp add: set_buffer_value_def taken_def del: buffered.simps)

lemma art_update_ok:
  assumes ok: "core_ok ind" and key: "\<not> IS_SPECIAL_KEY key" "hash_map (hash ind) key = None"
    and freq: "0 \<le> freq" "freq < 2 ^ 31" and safe: "search_safe ind key freq (Some v)"
    and eq: "art_update ind key freq v = (ind', found)"
  shows "core_ok ind' \<and>
    core_map ind' = (if art_map (tree ind) key = None then core_map ind else (core_map ind)(key \<mapsto> v)) \<and>
    (exclusive ind \<longrightarrow> exclusive ind') \<and> same_rest ind' ind \<and>
    (found \<longrightarrow> art_map (tree ind) key \<noteq> None) \<and> (art_map (tree ind) key \<notin> {None, Some 0} \<longrightarrow> found)"
proof (cases "art_find (root (tree ind)) key")
  case None
  then show ?thesis using eq ok art_find_map [OF key(1), of "tree ind"] by (simp add: art_update_def same_rest_def)
next
  case (Some loc)
  then obtain n where n: "root (tree ind) = Some n" by (cases "root (tree ind)") (auto simp: art_find_def)
  have tok: "tree_ok (tree ind)" and okn: "art_ok [] n" using ok n by (auto simp: core_ok_def tree_ok_def)
  have m: "art_map (tree ind) key = Some (hit_value (loc_hit loc))"
    using art_find_map [OF key(1), of "tree ind"] Some by simp
  obtain q x where R: "reaches [] n (loc_path loc) q x" "hit_at key q x loc" "art_ok q x"
    by (rule art_find_hit [OF okn Some [unfolded n]])
  have N: "node_at (Some n) (loc_path loc) = Some x" by (rule reaches_node_at [OF R(1)])
  show ?thesis
  proof (cases "loc_hit loc")
    case (InLeaf l)
    with R(2) have x: "x = Leaf l" "entry_key l = key" by (cases x; auto)+
    note L = leaf_value_ok [OF R(3) [unfolded x(1)] x(2), of v]
    have "node_map (length q) (Leaf l) key \<noteq> None" using node_map_leaf [OF R(3) [unfolded x(1)], of "length q"] x(2) by simp
    note W = core_upd [OF ok put_value_ok [OF tok n key(1) R(1) [unfolded x(1)] R(3) [unfolded x(1)] L this buffered_leaf filled_simps(1)] key(2)]
    have "ind' = ind\<lparr>tree := (tree ind)\<lparr>root := put_at (Some n) (loc_path loc) (Some (Leaf (l\<lparr>entry_value := v\<rparr>)))\<rparr>\<rparr>"
      "found = (entry_value l \<noteq> 0)" using eq Some InLeaf by (auto simp: art_update_def Let_def n N x(1))
    then show ?thesis using W m InLeaf by simp
  next
    case (InBuffer i e)
    let ?info = "PACK_INFO freq i (loc_depth loc) (loc_depth_parent loc)"
    obtain ind1 st where f: "art_float ind key ?info (loc_path loc) (Some v) = (ind1, st)" by (rule prod.exhaust)
    have fnd: found using eq Some InBuffer f by (auto simp: art_update_def Let_def split: if_splits)
    have "core_ok ind' \<and> core_map ind' = (core_map ind)(key \<mapsto> v) \<and> (exclusive ind \<longrightarrow> exclusive ind') \<and> same_rest ind' ind"
    proof (cases "st = 0")
      case False
      have s: "float_safe ind key ?info (loc_path loc) (float_value e (Some v))"
        using safe Some InBuffer by (simp add: search_safe_def)
      show ?thesis using float_ok [OF ok key(1) Some InBuffer key(2) freq refl refl s f False] eq Some InBuffer f False
        by (simp add: art_update_def Let_def float_value_def)
    next
      case True
      from R(2) InBuffer obtain h ch where x: "x = Inner h ch" "buffer_find h key = Some i" by (cases x) auto
      obtain m' where u: "Some m' = Some (Inner (set_buffer_value h i v) ch)" by blast
      have I: "art_ok q m'" "node_map (length q) m' = (node_map (length q) (Inner h ch))(key \<mapsto> v)"
        using insert_buffer_replace [OF R(3) [unfolded x(1)] key(1) x(2), of v] u by (simp_all add: inserted_def)
      have k: "node_map (length q) (Inner h ch) key \<noteq> None"
        using slot_in_map(1) [OF R(3) [unfolded x(1)], of i key] buffer_findD [OF x(2)] key(1) by simp
      have b: "buffered m' = buffered (Inner h ch)"
        using buffered_value [OF R(3) [unfolded x(1)] x(2) key(1), of v] u by simp
      have fl: "filled (Inner h ch) \<Longrightarrow> filled m'" using u by simp
      note W = core_upd [OF ok put_value_ok [OF tok n key(1) R(1) [unfolded x(1)] R(3) [unfolded x(1)] I k b fl] key(2)]
      have "ind' = ind\<lparr>tree := (tree ind)\<lparr>root := put_at (Some n) (loc_path loc) (Some m')\<rparr>\<rparr>"
        using eq Some InBuffer f True u by (simp add: art_update_def Let_def n store_at(3) [OF N [unfolded x(1)]])
      then show ?thesis using W by simp
    qed
    then show ?thesis using m InBuffer fnd by simp
  qed
qed

section \<open>Sample indexes\<close>

text \<open>Trees built by \<open>art_insert_no_replace\<close> with memory-type keys, whose buffers fill from the root.\<close>

definition art_new :: "u64 \<Rightarrow> u64 \<Rightarrow> art_tree \<Rightarrow> art_tree" where
  "art_new k v t = fst (art_insert_no_replace t k (KEY_LEN + MEM_TYPE) v)"

fun news_ok :: "(u64 \<times> u64) list \<Rightarrow> art_tree \<Rightarrow> bool" where
  "news_ok [] t \<longleftrightarrow> True"
| "news_ok ((k, v) # kvs) t \<longleftrightarrow> \<not> IS_SPECIAL_KEY k \<and> art_map t k = None \<and> mem_safe k 0 (root t) \<and> news_ok kvs (art_new k v t)"

lemma news_tree_ok: "tree_ok t \<Longrightarrow> news_ok kvs t \<Longrightarrow> tree_ok (fold (\<lambda>(k, v). art_new k v) kvs t)"
proof (induction kvs arbitrary: t)
  case (Cons kv kvs)
  obtain k v where kv: "kv = (k, v)" by (rule prod.exhaust)
  obtain t' old where e: "art_insert_with False t k (8 + 1) v = (t', old)" by (rule prod.exhaust)
  have "tree_ok t'"
    using insert_with_ok [OF Cons.prems(1) _ _ _ e] Cons.prems(2) kv by (simp add: tree_insert_safe_def)
  with Cons show ?case using e kv by (simp add: art_new_def art_insert_no_replace_def)
qed simp

definition index_of :: "(u64 \<times> u64) list \<Rightarrow> index_sys" where
  "index_of kvs = sample_index\<lparr>tree := fold (\<lambda>(k, v). art_new k v) kvs art_tree_init\<rparr>"

lemma index_of_ok:
  assumes "news_ok kvs art_tree_init"
  shows "core_ok (index_of kvs)" "hash_map (hash (index_of kvs)) = Map.empty" "exclusive (index_of kvs)"
  using news_tree_ok [OF tree_ok_init(1) assms] sample_index_ok
  by (simp_all add: core_ok_def index_of_def exclusive_def)

text \<open>Three keys in the buffer of the root, the key 0x0316 in the buffer of a child; the same with a prefix
  above the root's branch.\<close>

abbreviation (input) deep_keys :: "(u64 \<times> u64) list" where
  "deep_keys \<equiv> [(0x11, 1), (0x12, 2), (0x13, 3), (0x14, 4), (0x15, 5), (0x0116, 6), (0x0216, 7), (0x0316, 8)]"

lemma deep_keys_ok: "news_ok deep_keys art_tree_init"
  by code_simp

abbreviation (input) prefixed_keys :: "(u64 \<times> u64) list" where
  "prefixed_keys \<equiv> [(0x1105, 1), (0x1205, 2), (0x1305, 3), (0x1405, 4), (0x1505, 5), (0x011605, 6), (0x021605, 7), (0x031605, 8)]"

section \<open>Properties\<close>

text \<open>\<open>art_search\<close> for a key that is not in the table: it returns what the tree maps the key to, and
  although a hit in a buffer moves the key to the table, to the parent's buffer, or makes it change
  places with another key, the map of the whole index stays the same, no key gets into both parts and the
  structures stay well formed. The displaced key must not be reinserted below a parent with a prefix.\<close>

theorem art_search_keeps_map:
  assumes "core_ok ind" "\<not> IS_SPECIAL_KEY key" "hash_map (hash ind) key = None" "0 \<le> freq" "freq < 2 ^ 31"
    and "search_safe ind key freq None" "art_search ind key freq = (ind', res)"
  shows "res = art_map (tree ind) key \<and> core_ok ind' \<and> core_map ind' = core_map ind \<and> (exclusive ind \<longrightarrow> exclusive ind')"
  using art_search_ok [OF assms] by blast

theorem art_search_keeps_map_witness:
  "core_map (fst (art_search (index_of deep_keys) 0x0316 1)) = core_map (index_of deep_keys) \<and>
    snd (art_search (index_of deep_keys) 0x0316 1) = art_map (tree (index_of deep_keys)) 0x0316"
proof -
  note I = index_of_ok [OF deep_keys_ok]
  have "search_safe (index_of deep_keys) 0x0316 1 None" by code_simp
  moreover obtain ind' res where e: "art_search (index_of deep_keys) 0x0316 1 = (ind', res)" by (rule prod.exhaust)
  ultimately show ?thesis
    using art_search_keeps_map [OF I(1) _ _ _ _ _ e] I(2) by (simp add: e IS_SPECIAL_KEY_iff)
qed

text \<open>\<open>art_update\<close> for a key that is not in the table sets the value of a key the tree has, wherever the
  float takes it, and does nothing otherwise; the returned pointer is \<open>NULL\<close> for a key the tree does not have,
  and is not \<open>NULL\<close> for one with an old value other than 0.\<close>

theorem art_update_sets:
  assumes "core_ok ind" "\<not> IS_SPECIAL_KEY key" "hash_map (hash ind) key = None" "0 \<le> freq" "freq < 2 ^ 31"
    and "search_safe ind key freq (Some v)" "art_update ind key freq v = (ind', found)"
  shows "core_ok ind' \<and> (exclusive ind \<longrightarrow> exclusive ind') \<and>
    core_map ind' = (if art_map (tree ind) key = None then core_map ind else (core_map ind)(key \<mapsto> v)) \<and>
    (found \<longrightarrow> art_map (tree ind) key \<noteq> None) \<and> (art_map (tree ind) key \<notin> {None, Some 0} \<longrightarrow> found)"
  using art_update_ok [OF assms] by blast

theorem art_update_sets_witness:
  "core_map (fst (art_update (index_of deep_keys) 0x0316 1 9)) 0x0316 = Some 9"
proof -
  note I = index_of_ok [OF deep_keys_ok]
  have "search_safe (index_of deep_keys) 0x0316 1 (Some 9)" by code_simp
  moreover have "art_map (tree (index_of deep_keys)) 0x0316 = Some 8" by code_simp
  moreover obtain ind' found where e: "art_update (index_of deep_keys) 0x0316 1 9 = (ind', found)" by (rule prod.exhaust)
  ultimately show ?thesis
    using art_update_sets [OF I(1) _ _ _ _ _ e] I(2) by (simp add: e IS_SPECIAL_KEY_iff)
qed

text \<open>A key lost by a search: when the parent has a prefix, the key that the float displaces from its
  buffer is inserted with the depth after that prefix, the prefix is compared with the wrong bytes, and
  the key ends up where no search goes. Here a search for 0x031605 loses 0x1505.\<close>

theorem art_float_reinsert_loses:
  "core_map (index_of prefixed_keys) 0x1505 = Some 5 \<and>
    snd (art_search (index_of prefixed_keys) 0x031605 1) = Some 8 \<and>
    core_map (fst (art_search (index_of prefixed_keys) 0x031605 1)) 0x1505 = None"
  by code_simp

end
