(* ===== verification/Queue.thy ===== *)
theory Queue
  imports Prelude
begin

text \<open>
  \<open>src/queue.c\<close>: the growing ring buffer of pointers that index compaction walks the tree
  with. The state is the \<open>queue\<close> struct with its 32-bit indices as natural numbers, every
  sum and difference that the C code computes in \<open>uint32_t\<close> reduced modulo \<open>2 ^ 32\<close>; the
  cells are pointers, \<open>None\<close> for \<open>NULL\<close>. A write outside the allocated cells is the
  result \<open>None\<close> of \<open>queue_push\<close>.
\<close>

record 'a queue =
  q_size :: nat
  q_front :: nat
  q_back :: nat
  q_data :: "'a option list"

section \<open>Operations\<close>

text \<open>Allocation is a parameter: \<open>alloc n\<close> tells whether \<open>calloc\<close> of \<open>n\<close> cells succeeds.\<close>

definition queue_construct :: "(nat \<Rightarrow> bool) \<Rightarrow> nat \<Rightarrow> 'a queue option" where
  "queue_construct alloc n =
    (if alloc n then Some \<lparr>q_size = n, q_front = 0, q_back = 0, q_data = replicate n None\<rparr> else None)"

definition queue_empty :: "'a queue \<Rightarrow> bool" where
  "queue_empty q \<longleftrightarrow> q_back q = q_front q"

definition queue_full :: "'a queue \<Rightarrow> bool" where
  "queue_full q \<longleftrightarrow> w32 (q_back q + 1) = q_front q \<or> (q_back q = w32 (q_size q + 2 ^ 32 - 1) \<and> q_front q = 0)"

definition queue_expand :: "'a queue \<Rightarrow> 'a queue" where
  "queue_expand q =
    (let new_data = replicate (w32 (q_size q * 2)) None;
         new_data = memcpy_at 0 (q_size q - q_front q) (drop (q_front q) (q_data q)) new_data;
         new_data = (if q_back q < q_front q
                     then memcpy_at (q_size q - q_front q) (q_back q) (q_data q) new_data else new_data)
     in q\<lparr>q_front := 0, q_back := w32 (q_size q + 2 ^ 32 - 1), q_size := w32 (q_size q * 2), q_data := new_data\<rparr>)"

definition queue_push :: "'a queue \<Rightarrow> 'a option \<Rightarrow> 'a queue option" where
  "queue_push q d =
    (let q = (if queue_full q then queue_expand q else q)
     in if q_back q < length (q_data q)
        then Some (q\<lparr>q_data := (q_data q)[q_back q := d],
                     q_back := (if w32 (q_back q + 1) = q_size q then 0 else w32 (q_back q + 1))\<rparr>)
        else None)"

definition queue_front :: "'a queue \<Rightarrow> 'a option" where
  "queue_front q = (if queue_empty q then None else q_data q ! q_front q)"

definition queue_pop :: "'a queue \<Rightarrow> 'a option \<times> 'a queue" where
  "queue_pop q =
    (if queue_empty q then (None, q)
     else (q_data q ! q_front q,
           q\<lparr>q_front := (if w32 (q_front q + 1) = q_size q then 0 else w32 (q_front q + 1))\<rparr>))"

section \<open>Contents and invariant\<close>

definition queue_list :: "'a queue \<Rightarrow> 'a option list" where
  "queue_list q =
    (if q_front q \<le> q_back q then drop (q_front q) (take (q_back q) (q_data q))
     else drop (q_front q) (q_data q) @ take (q_back q) (q_data q))"

definition queue_inv :: "'a queue \<Rightarrow> bool" where
  "queue_inv q \<longleftrightarrow> length (q_data q) = q_size q \<and> q_front q < q_size q \<and> q_back q < q_size q \<and> q_size q < 2 ^ 32"

lemma queue_construct_inv:
  assumes "queue_construct alloc n = Some q" "0 < n" "n < 2 ^ 32"
  shows "queue_inv q \<and> queue_list q = []"
  using assms by (auto simp: queue_construct_def queue_inv_def queue_list_def split: if_splits)

lemma queue_empty_iff: "queue_inv q \<Longrightarrow> queue_empty q \<longleftrightarrow> queue_list q = []"
  by (auto simp: queue_empty_def queue_list_def queue_inv_def)

lemma queue_full_iff:
  assumes "queue_inv q"
  shows "queue_full q \<longleftrightarrow> q_back q + 1 = q_front q \<or> (q_back q = q_size q - 1 \<and> q_front q = 0)"
proof -
  from assms have "w32 (q_back q + 1) = q_back q + 1" "w32 (q_size q + 2 ^ 32 - 1) = q_size q - 1"
    by (auto simp: queue_inv_def w32_def mod_if)
  then show ?thesis by (simp add: queue_full_def)
qed

lemma queue_full_length:
  "queue_inv q \<Longrightarrow> queue_full q \<Longrightarrow> length (queue_list q) = q_size q - 1"
  by (auto simp: queue_full_iff queue_list_def queue_inv_def)

lemma queue_expand_ok:
  assumes inv: "queue_inv q" and full: "queue_full q" and room: "q_size q < 2 ^ 31"
  shows "queue_inv (queue_expand q)" "queue_list (queue_expand q) = queue_list q"
    "\<not> queue_full (queue_expand q)"
proof -
  have s: "w32 (q_size q * 2) = q_size q * 2" "w32 (q_size q + 2 ^ 32 - 1) = q_size q - 1"
    using inv room by (auto simp: queue_inv_def w32_def mod_if)
  show inv': "queue_inv (queue_expand q)"
    using inv room s by (auto simp: queue_expand_def Let_def queue_inv_def memcpy_at_def)
  show "queue_list (queue_expand q) = queue_list q"
  proof (cases "q_back q < q_front q")
    case True
    with full inv have b: "q_back q + 1 = q_front q" by (auto simp: queue_full_iff)
    then have "q_front q - Suc 0 = q_back q" by simp
    with b True inv s show ?thesis
      by (auto simp: queue_expand_def Let_def queue_inv_def memcpy_at_def queue_list_def)
  next
    case False
    with full inv have b: "q_back q = q_size q - 1" "q_front q = 0" by (auto simp: queue_full_iff queue_inv_def)
    with False inv s show ?thesis
      by (auto simp: queue_expand_def Let_def queue_inv_def memcpy_at_def queue_list_def take_append)
  qed
  show "\<not> queue_full (queue_expand q)"
    using inv' inv s by (auto simp: queue_full_iff queue_expand_def Let_def queue_inv_def)
qed

lemma queue_push_not_full:
  assumes inv: "queue_inv q" and "\<not> queue_full q"
  shows "\<exists>q'. queue_push q d = Some q' \<and> queue_inv q' \<and> queue_list q' = queue_list q @ [d]"
proof -
  from inv have w: "w32 (q_back q + 1) = q_back q + 1" by (auto simp: queue_inv_def)
  have nf: "q_back q + 1 \<noteq> q_front q" "q_back q = q_size q - 1 \<Longrightarrow> q_front q \<noteq> 0"
    using assms by (auto simp: queue_full_iff)
  let ?q = "q\<lparr>q_data := (q_data q)[q_back q := d], q_back := (if q_back q + 1 = q_size q then 0 else q_back q + 1)\<rparr>"
  have "queue_push q d = Some ?q"
    using assms w by (simp add: queue_push_def Let_def queue_inv_def)
  moreover have "queue_inv ?q" using inv by (auto simp: queue_inv_def)
  moreover have "queue_list ?q = queue_list q @ [d]"
  proof (cases "q_front q \<le> q_back q")
    case True
    have "take (Suc (q_back q)) ((q_data q)[q_back q := d]) = take (q_back q) (q_data q) @ [d]"
      using inv by (simp add: take_Suc_conv_app_nth queue_inv_def)
    with True inv nf show ?thesis
      by (auto simp: queue_list_def queue_inv_def)
  next
    case False
    with inv nf show ?thesis
      by (auto simp: queue_list_def queue_inv_def take_Suc_conv_app_nth)
  qed
  ultimately show ?thesis by blast
qed

lemma queue_push_ok:
  assumes inv: "queue_inv q" and room: "length (queue_list q) < 2 ^ 31 - 1"
  shows "\<exists>q'. queue_push q d = Some q' \<and> queue_inv q' \<and> queue_list q' = queue_list q @ [d]"
proof (cases "queue_full q")
  case True
  with inv room have "q_size q < 2 ^ 31" by (auto simp: queue_full_length)
  note e = queue_expand_ok [OF inv True this]
  have "queue_push q d = queue_push (queue_expand q) d"
    using True e(3) by (simp add: queue_push_def)
  with queue_push_not_full [OF e(1,3), of d] e(2) show ?thesis by simp
next
  case False
  with inv show ?thesis by (rule queue_push_not_full)
qed

lemma queue_pop_ok:
  assumes inv: "queue_inv q" and ne: "queue_list q = x # xs"
  shows "fst (queue_pop q) = x \<and> queue_inv (snd (queue_pop q)) \<and> queue_list (snd (queue_pop q)) = xs"
proof -
  from inv have w: "w32 (q_front q + 1) = q_front q + 1" by (auto simp: queue_inv_def)
  from inv ne have nb: "q_back q \<noteq> q_front q" by (auto simp: queue_inv_def queue_list_def)
  have hd: "q_data q ! q_front q = x" and tl: "queue_list (snd (queue_pop q)) = xs"
  proof -
    have "queue_list q = q_data q ! q_front q # queue_list (snd (queue_pop q))"
      using inv nb w unfolding queue_list_def queue_inv_def queue_pop_def queue_empty_def
      by (auto simp: Cons_nth_drop_Suc [symmetric] take_Cons' drop_Cons')
    with ne show "q_data q ! q_front q = x" "queue_list (snd (queue_pop q)) = xs" by simp_all
  qed
  moreover have "queue_inv (snd (queue_pop q))" using inv nb w
    by (auto simp: queue_pop_def queue_empty_def queue_inv_def)
  ultimately show ?thesis using nb by (simp add: queue_pop_def queue_empty_def)
qed

section \<open>The FIFO contract\<close>

text \<open>What compaction relies on: pushes append as long as fewer than \<open>cap\<close> elements are
  queued, pops take from the front, and both keep the invariant.\<close>

fun push_all :: "('q \<Rightarrow> 'd \<Rightarrow> 'q option) \<Rightarrow> 'q \<Rightarrow> 'd list \<Rightarrow> 'q option" where
  "push_all push q [] = Some q"
| "push_all push q (d # ds) = (case push q d of None \<Rightarrow> None | Some q' \<Rightarrow> push_all push q' ds)"

fun pop_many :: "('q \<Rightarrow> 'd \<times> 'q) \<Rightarrow> nat \<Rightarrow> 'q \<Rightarrow> 'd list \<times> 'q" where
  "pop_many pop 0 q = ([], q)"
| "pop_many pop (Suc n) q = (let (d, q') = pop q; (ds, q'') = pop_many pop n q' in (d # ds, q''))"

locale fifo =
  fixes inv :: "'q \<Rightarrow> bool"
    and content :: "'q \<Rightarrow> 'd list"
    and push :: "'q \<Rightarrow> 'd \<Rightarrow> 'q option"
    and pop :: "'q \<Rightarrow> 'd \<times> 'q"
    and is_empty :: "'q \<Rightarrow> bool"
    and cap :: nat
  assumes push_spec: "inv q \<Longrightarrow> length (content q) < cap \<Longrightarrow>
      \<exists>q'. push q d = Some q' \<and> inv q' \<and> content q' = content q @ [d]"
    and pop_spec: "inv q \<Longrightarrow> content q = x # xs \<Longrightarrow>
      fst (pop q) = x \<and> inv (snd (pop q)) \<and> content (snd (pop q)) = xs"
    and empty_spec: "inv q \<Longrightarrow> is_empty q \<longleftrightarrow> content q = []"
begin

lemma push_all_spec:
  "inv q \<Longrightarrow> length (content q) + length ds \<le> cap \<Longrightarrow>
    \<exists>q'. push_all push q ds = Some q' \<and> inv q' \<and> content q' = content q @ ds"
proof (induction ds arbitrary: q)
  case (Cons d ds)
  then have "length (content q) < cap" by simp
  from push_spec [OF Cons.prems(1) this, of d]
  obtain q1 where q1: "push q d = Some q1" "inv q1" "content q1 = content q @ [d]" by blast
  with Cons.IH [of q1] Cons.prems show ?case by auto
qed simp

lemma pop_many_spec:
  "inv q \<Longrightarrow> content q = xs @ ys \<Longrightarrow>
    fst (pop_many pop (length xs) q) = xs \<and> inv (snd (pop_many pop (length xs) q)) \<and>
    content (snd (pop_many pop (length xs) q)) = ys"
proof (induction xs arbitrary: q)
  case (Cons x xs)
  then have "fst (pop q) = x \<and> inv (snd (pop q)) \<and> content (snd (pop q)) = xs @ ys"
    by (intro pop_spec) auto
  with Cons.IH [of "snd (pop q)"] show ?case by (simp add: split_beta)
qed simp

lemma fifo_roundtrip:
  assumes "inv q" "content q = []" "length ds \<le> cap"
  shows "\<exists>q'. push_all push q ds = Some q' \<and> fst (pop_many pop (length ds) q') = ds \<and>
    is_empty (snd (pop_many pop (length ds) q'))"
proof -
  from push_all_spec [of q ds] assms
  obtain q' where q': "push_all push q ds = Some q'" "inv q'" "content q' = ds" by auto
  with pop_many_spec [of q' ds "[]"] empty_spec show ?thesis by auto
qed

end

interpretation ring: fifo queue_inv queue_list queue_push queue_pop queue_empty "2 ^ 31 - 1"
proof (unfold_locales, goal_cases)
  case (1 q d) then show ?case by (rule queue_push_ok)
next
  case (2 q x xs) then show ?case by (rule queue_pop_ok)
next
  case (3 q) then show ?case by (rule queue_empty_iff)
qed

section \<open>Properties of the queue\<close>

text \<open>C34. Refinement of the ring buffer to a FIFO list: with fewer than \<open>2 ^ 31 - 1\<close> elements
  queued, \<open>queue_push\<close> succeeds (expanding the buffer when it is full, wherever its indices have
  wrapped to), appends the pushed pointer to the contents and keeps the index invariant.\<close>

theorem queue_push_appends:
  assumes "queue_inv q" "length (queue_list q) < 2 ^ 31 - 1"
  shows "\<exists>q'. queue_push q d = Some q' \<and> queue_inv q' \<and> queue_list q' = queue_list q @ [d]"
  using assms by (rule ring.push_spec)

definition wrapped_queue :: "nat queue" where
  "wrapped_queue = \<lparr>q_size = 4, q_front = 3, q_back = 2, q_data = [Some 11, Some 12, None, Some 10]\<rparr>"

theorem queue_push_appends_witness:
  "queue_full wrapped_queue \<and>
   (\<exists>q'. queue_push wrapped_queue (Some 13) = Some q' \<and> queue_list q' = [Some 10, Some 11, Some 12, Some 13])"
proof -
  have "queue_inv wrapped_queue" "length (queue_list wrapped_queue) < 2 ^ 31 - 1"
    by (simp_all add: queue_inv_def queue_list_def wrapped_queue_def)
  from queue_push_appends [OF this, of "Some 13"] show ?thesis
    by (auto simp: queue_list_def wrapped_queue_def queue_full_def w32_def)
qed

text \<open>Round trip: everything pushed into a freshly constructed queue of non-zero size comes
  out again in the same order, and the queue is empty afterwards.\<close>

theorem queue_roundtrip:
  assumes "queue_construct alloc n = Some q" "0 < n" "n < 2 ^ 32" "length ds < 2 ^ 31"
  shows "\<exists>q'. push_all queue_push q ds = Some q' \<and>
    fst (pop_many queue_pop (length ds) q') = ds \<and> queue_empty (snd (pop_many queue_pop (length ds) q'))"
  using queue_construct_inv [OF assms(1-3)] assms(4) by (intro ring.fifo_roundtrip) auto

theorem queue_roundtrip_witness:
  "\<exists>q'. push_all queue_push \<lparr>q_size = 1, q_front = 0, q_back = 0, q_data = [None]\<rparr> [Some 7, None, Some (9::nat)] = Some q' \<and>
    fst (pop_many queue_pop (length [Some 7, None, Some (9::nat)]) q') = [Some 7, None, Some 9]"
proof -
  have c: "queue_construct (\<lambda>n. True) 1 =
      Some \<lparr>q_size = 1, q_front = 0, q_back = 0, q_data = [None :: nat option]\<rparr>"
    by (simp add: queue_construct_def)
  have n: "(0::nat) < 1" "(1::nat) < 2 ^ 32" "length [Some 7, None, Some (9::nat)] < 2 ^ 31"
    by simp_all
  from queue_roundtrip [OF c n] show ?thesis by metis
qed

text \<open>A queue constructed with size 0 (which \<open>calloc\<close> may grant) takes no element: it does
  not count as full, so the first push writes to cell 0 of an empty allocation.\<close>

theorem queue_size_zero_overflow:
  "\<exists>q. queue_construct (\<lambda>_. True) 0 = Some q \<and> \<not> queue_full q \<and> (\<forall>d::nat option. queue_push q d = None)"
  by (simp add: queue_construct_def queue_full_def queue_push_def w32_def)

end
