(* ===== verification/Hetero.thy ===== *)
theory Hetero
  imports Float_Laws Queue
begin

text \<open>
  The whole index, \<open>src/hetero.c\<close>: construction, the five operations, and the compaction that fills the
  table from the tree's buffers and lifts what is left towards the root. \<open>hash_expand\<close> is the function
  pointer of \<open>hash.h\<close>, a parameter here; \<open>None\<close> is undefined behaviour: a \<open>NULL\<close> pointer read after a
  failed allocation, or a queue without cells written.
\<close>

section \<open>Construction\<close>

text \<open>The seed goes to \<open>uint32_t\<close> parameters, the number of bins to the width of the sketch.\<close>

definition index_construct :: "(nat \<Rightarrow> bool) \<Rightarrow> u32 \<Rightarrow> u32 \<Rightarrow> u64 \<Rightarrow> u64 \<Rightarrow> index_sys option" where
  "index_construct alloc rnd rnd' hash_size seed =
    (if \<not> alloc 56 then None
     else case hash_construct alloc rnd hash_size (ucast seed) of
       None \<Rightarrow> None
     | Some hs \<Rightarrow>
         if \<not> alloc 24 then None
         else (case sketch_construct alloc rnd' (ucast hash_size) 6 (h_seed hs) COUNT_MIN of
             None \<Rightarrow> None
           | Some sk \<Rightarrow> Some \<lparr>has_special_key = [0, 0], special_key_val = [0, 0], cm = sk, hash = hs, tree = art_tree_init\<rparr>))"

section \<open>Compaction\<close>

text \<open>\<open>n\<close> of the walk is the path from the root to the node. Every branch below keeps the children of
  all nodes as they are, so a path stays the place of the pointer the code holds. The exception is a pointer that
  \<open>memmove\<close> has left behind in a children array: in the code it is a second pointer to a node (or to freed memory), here it leads to
  a copy. \<open>compact_safe\<close> excludes such arrays.\<close>

definition clear_buffer :: "nat list \<Rightarrow> nat \<Rightarrow> index_sys \<Rightarrow> index_sys" where
  "clear_buffer path i ind = ind\<lparr>tree := (tree ind)\<lparr>root := store_key (root (tree ind)) path i 0,
     buffer_count := buffer_count (tree ind) - 1, tree_size := tree_size (tree ind) - 1\<rparr>\<rparr>"

text \<open>The insertion of a buffered key from the root; the slot is cleared unless the key was found.\<close>

definition compact_lift :: "nat list \<Rightarrow> nat \<Rightarrow> entry \<Rightarrow> index_sys \<Rightarrow> index_sys" where
  "compact_lift path i e ind =
    (let (t, old) = art_insert_no_replace (tree ind) (entry_key e) (KEY_LEN + MEM_TYPE) (entry_value e);
         ind = ind\<lparr>tree := t\<rparr>
     in if old = None then clear_buffer path i ind else ind)"

text \<open>One buffer slot, with \<open>consecutive_failure\<close>.\<close>

definition compact_slot :: "rat \<Rightarrow> nat list \<Rightarrow> nat \<Rightarrow> index_sys \<times> nat \<Rightarrow> index_sys \<times> nat" where
  "compact_slot max_load_factor path i = (\<lambda>(ind, cf).
    let e = buffer_of (node_at (root (tree ind)) path) ! i
    in if IS_SPECIAL_KEY (entry_key e) then (ind, cf)
       else if cf < 3 \<and> load_factor_below (hash ind) max_load_factor then
         (case hash_insert_nocheck (hash ind) (entry_key e) (entry_value e) of (hs, st) \<Rightarrow>
            let ind = ind\<lparr>hash := hs\<rparr>
            in if st = 0 then (clear_buffer path i ind, 0) else (compact_lift path i e ind, cf + 1))
       else (compact_lift path i e ind, cf))"

definition compact_node :: "rat \<Rightarrow> nat list \<Rightarrow> index_sys \<Rightarrow> nat \<Rightarrow> index_sys \<times> nat" where
  "compact_node max_load_factor path ind cf = fold (compact_slot max_load_factor path) [0..<BUF_LEN] (ind, cf)"

fun n_children :: "'n children \<Rightarrow> nat" where
  "n_children (Node4 keys cs) = 4"
| "n_children (Node16 keys cs) = 16"
| "n_children (Node48 keys cs) = 48"
| "n_children (Node256 cs) = 256"

fun is_inner :: "art_node option \<Rightarrow> bool" where
  "is_inner (Some (Inner h ch)) = True"
| "is_inner n = False"

text \<open>The loop over all cells of the array of children, whatever \<open>num_children\<close> is.\<close>

fun push_children :: "art_node children \<Rightarrow> nat list \<Rightarrow> nat list \<Rightarrow> nat list queue \<Rightarrow> nat list queue option" where
  "push_children ch path [] q = Some q"
| "push_children ch path (k # ks) q =
    (if is_inner (child_at ch k) then Option.bind (queue_push q (Some (path @ [k]))) (push_children ch path ks)
     else push_children ch path ks q)"

partial_function (option) compact_loop :: "rat \<Rightarrow> nat list queue \<Rightarrow> index_sys \<Rightarrow> nat \<Rightarrow> index_sys option" where
  "compact_loop max_load_factor q ind cf =
    (if queue_empty q then Some ind
     else case queue_pop q of
       (None, q) \<Rightarrow> None
     | (Some path, q) \<Rightarrow>
         (case node_at (root (tree ind)) path of
            None \<Rightarrow> None
          | Some (Leaf l) \<Rightarrow> compact_loop max_load_factor q ind cf
          | Some (Inner h ch) \<Rightarrow>
              (case compact_node max_load_factor path ind cf of (ind, cf) \<Rightarrow>
                 if buffer_count (tree ind) = 0 then Some ind
                 else Option.bind (push_children ch path [0..<n_children ch] q)
                   (\<lambda>q. compact_loop max_load_factor q ind cf))))"

declare compact_loop.simps [code]

definition index_compact :: "(nat \<Rightarrow> bool) \<Rightarrow> index_sys \<Rightarrow> rat \<Rightarrow> index_sys option" where
  "index_compact alloc ind max_load_factor =
    Option.bind (queue_construct alloc (unat (ucast (drop_bit 4 (h_size (hash ind))) :: u32)))
      (\<lambda>q. Option.bind (queue_push q (if root (tree ind) = None then None else Some []))
        (\<lambda>q. compact_loop max_load_factor q ind 0))"

definition index_expand ::
  "(nat \<Rightarrow> bool) \<Rightarrow> (hash_sys \<Rightarrow> hash_sys option) \<Rightarrow> index_sys \<Rightarrow> index_sys option" where
  "index_expand alloc hash_expand ind =
    Option.bind (hash_expand (hash ind)) (\<lambda>hs. index_compact alloc (ind\<lparr>hash := hs\<rparr>) (4 / 5))"

section \<open>Operations\<close>

definition store_special :: "u64 \<Rightarrow> u64 \<Rightarrow> index_sys \<Rightarrow> index_sys" where
  "store_special key v ind = ind\<lparr>special_key_val := (special_key_val ind)[unat key := v],
     has_special_key := (has_special_key ind)[unat key := 1]\<rparr>"

text \<open>The \<open>REINSERT\<close> loop: whether the key went into the table.\<close>

partial_function (option) index_reinsert ::
  "(nat \<Rightarrow> bool) \<Rightarrow> (hash_sys \<Rightarrow> hash_sys option) \<Rightarrow> index_sys \<Rightarrow> u64 \<Rightarrow> u64 \<Rightarrow> (index_sys \<times> bool) option" where
  "index_reinsert alloc hash_expand ind key v =
    (case hash_modify ind key v INSERT of (ind, freq, st) \<Rightarrow>
       if st = 0 then Some (ind, True)
       else if h_count (hash ind) * 5 < tree_size (tree ind) then
         Option.bind (hash_expand (hash ind)) (\<lambda>hs.
           Option.bind (index_compact alloc (ind\<lparr>hash := hs, cm := countmin_clear (cm ind)\<rparr>) (4 / 5)) (\<lambda>ind.
             index_reinsert alloc hash_expand ind key v))
       else Some (ind, False))"

declare index_reinsert.simps [code]

definition index_insert ::
  "(nat \<Rightarrow> bool) \<Rightarrow> (hash_sys \<Rightarrow> hash_sys option) \<Rightarrow> index_sys \<Rightarrow> u64 \<Rightarrow> u64 \<Rightarrow> nat \<Rightarrow> (index_sys \<times> int) option" where
  "index_insert alloc hash_expand ind key v storage_type =
    (let tree_insert = (\<lambda>ind. let (t, old) = art_insert_no_replace (tree ind) key (storage_type OR KEY_LEN) v
                              in Some (ind\<lparr>tree := t\<rparr>, if old \<noteq> None then 1 else 0))
     in if IS_SPECIAL_KEY key then Some (store_special key v ind, 0)
        else if storage_type = MEM_TYPE then
          Option.bind (index_reinsert alloc hash_expand ind key v)
            (\<lambda>(ind, inserted). if inserted then Some (ind, 0) else tree_insert ind)
        else tree_insert ind)"

text \<open>The index afterwards and \<open>*query_result\<close>, \<open>None\<close> where 1 is returned.\<close>

definition index_query :: "index_sys \<Rightarrow> u64 \<Rightarrow> index_sys \<times> u64 option" where
  "index_query ind key =
    (if IS_SPECIAL_KEY key then
       (ind, if has_special_key ind ! unat key \<noteq> 0 then Some (special_key_val ind ! unat key) else None)
     else case hash_search ind key True HASH_QUERY of
       (ind, freq, res, found) \<Rightarrow>
         if found then (ind, res)
         else art_search ind key (case freq of Some f \<Rightarrow> f | None \<Rightarrow> 0))"

definition index_update :: "index_sys \<Rightarrow> u64 \<Rightarrow> u64 \<Rightarrow> index_sys \<times> int" where
  "index_update ind key v =
    (if IS_SPECIAL_KEY key then (store_special key v ind, 0)
     else case hash_modify ind key v STRICT_UPDATE of
       (ind, freq, st) \<Rightarrow>
         if st = ELEMENT_NOT_FOUND then
           (case art_update ind key (case freq of Some f \<Rightarrow> f | None \<Rightarrow> 0) v of
              (ind, found) \<Rightarrow> (ind, if found then 0 else 1))
         else (ind, 0))"

text \<open>A compare-and-swap from 1 to 0 clears a reserved key.\<close>

definition index_delete :: "(nat \<Rightarrow> bool) \<Rightarrow> index_sys \<Rightarrow> u64 \<Rightarrow> (index_sys \<times> int) option" where
  "index_delete alloc ind key =
    (if IS_SPECIAL_KEY key then
       Some (if has_special_key ind ! unat key = 1
         then (ind\<lparr>has_special_key := (has_special_key ind)[unat key := 0]\<rparr>, 0) else (ind, 1))
     else case hash_search ind key False HASH_DELETE of
       (ind, freq, res, found) \<Rightarrow>
         if \<not> found then
           (case art_delete (tree ind) key KEY_LEN of
              (t, old) \<Rightarrow> Some (ind\<lparr>tree := t\<rparr>, if old = None then 1 else 0))
         else if load_factor_below (hash ind) (6 / 10) \<and> buffer_count (tree ind) \<noteq> 0 then
           map_option (\<lambda>ind. (ind, 0)) (index_compact alloc ind (7 / 8))
         else Some (ind, 0))"

definition index_size :: "index_sys \<Rightarrow> u64" where
  "index_size ind = h_count (hash ind) + tree_size (tree ind) +
    ucast (has_special_key ind ! 0) + ucast (has_special_key ind ! 1)"

end
