(* ===== verification/Compact_Correct.thy ===== *)
theory Compact_Correct
  imports Shape Hetero
begin

text \<open>
  \<open>index_compact\<close> keeps the map of the index and returns: each step on a buffer slot keeps the invariant of
  the walk, and the queue of paths gets smaller in the sizes of the subtrees it still has to visit.
\<close>

section \<open>One slot\<close>

definition cinv :: "art_node \<Rightarrow> index_sys \<Rightarrow> bool" where
  "cinv S ind \<longleftrightarrow> core_ok ind \<and> exclusive ind \<and> map_option shape (root (tree ind)) = Some S"

definition kept :: "index_sys \<Rightarrow> index_sys \<Rightarrow> bool" where
  "kept ind' ind \<longleftrightarrow> core_map ind' = core_map ind \<and> same_rest ind' ind \<and>
     h_size (hash ind') = h_size (hash ind) \<and> h_seed (hash ind') = h_seed (hash ind)"

lemma nocheck_geometry:
  "hash_insert_nocheck_nosafe hs k v = (hs', st) \<Longrightarrow> h_size hs' = h_size hs \<and> h_seed hs' = h_seed hs"
  by (auto simp: hash_insert_nocheck_nosafe_def set_entry_def Let_def split: option.splits)

lemma kept_refl [simp]: "kept ind ind"
  by (simp add: kept_def same_rest_def)

lemma kept_trans: "kept c b \<Longrightarrow> kept b a \<Longrightarrow> kept c a"
  by (simp add: kept_def same_rest_def)

lemma kept_eqI:
  "hash ind' = hash ind \<Longrightarrow> art_map (tree ind') = art_map (tree ind) \<Longrightarrow> same_rest ind' ind \<Longrightarrow>
    kept ind' ind \<and> exclusive ind' = exclusive ind"
  by (simp add: kept_def core_map_def exclusive_def)

text \<open>A slot the walk is at: the node it belongs to, its entry, and what the index has of its key.\<close>

definition at_slot :: "index_sys \<Rightarrow> nat list \<Rightarrow> nat \<Rightarrow> art_node \<Rightarrow> u8 list \<Rightarrow> art_hdr \<Rightarrow> art_node children \<Rightarrow> bool" where
  "at_slot ind path i n q h ch \<longleftrightarrow> root (tree ind) = Some n \<and> reaches [] n path q (Inner h ch) \<and> i < 3 \<and>
     \<not> IS_SPECIAL_KEY (entry_key (buffer h ! i))"

lemma at_slotD:
  assumes "at_slot ind path i n q h ch" "cinv S ind"
  shows "root (tree ind) = Some n" "reaches [] n path q (Inner h ch)" "i < 3" "\<not> IS_SPECIAL_KEY (entry_key (buffer h ! i))"
    "art_ok [] n" "art_ok q (Inner h ch)" "buffer_find h (entry_key (buffer h ! i)) = Some i"
    "art_map (tree ind) (entry_key (buffer h ! i)) = Some (entry_value (buffer h ! i))"
    "node_map (length q) (Inner h ch) (entry_key (buffer h ! i)) = Some (entry_value (buffer h ! i))"
    "hash_map (hash ind) (entry_key (buffer h ! i)) = None"
    "core_map ind (entry_key (buffer h ! i)) = Some (entry_value (buffer h ! i))"
proof -
  show r: "root (tree ind) = Some n" "reaches [] n path q (Inner h ch)" and i: "i < 3" "\<not> IS_SPECIAL_KEY (entry_key (buffer h ! i))"
    using assms(1) by (simp_all add: at_slot_def)
  show ok: "art_ok [] n" using assms(2) r(1) by (simp add: cinv_def core_ok_def tree_ok_def)
  show okm: "art_ok q (Inner h ch)" by (rule reaches_ok [OF r(2) ok])
  note S = slot_in_map [OF okm i(1) refl i(2)]
  show "buffer_find h (entry_key (buffer h ! i)) = Some i"
    "node_map (length q) (Inner h ch) (entry_key (buffer h ! i)) = Some (entry_value (buffer h ! i))" using S by simp_all
  show am: "art_map (tree ind) (entry_key (buffer h ! i)) = Some (entry_value (buffer h ! i))"
    using reaches_map [OF r(2) ok S(1)] r(1) by (simp add: art_map_def)
  then show hm: "hash_map (hash ind) (entry_key (buffer h ! i)) = None"
    using assms(2) unfolding cinv_def exclusive_def by (metis option.distinct(1))
  show "core_map ind (entry_key (buffer h ! i)) = Some (entry_value (buffer h ! i))"
    using am hm by (simp add: core_map_def map_add_def)
qed

lemma compact_lift_ok:
  assumes s: "at_slot ind path i n q h ch" and inv: "cinv S ind"
  shows "cinv S (compact_lift path i (buffer h ! i) ind) \<and> kept (compact_lift path i (buffer h ! i) ind) ind"
proof -
  let ?k = "entry_key (buffer h ! i)" and ?v = "entry_value (buffer h ! i)"
  note A = at_slotD [OF s inv]
  obtain m old flag where r: "recursive_insert (Some n) ?k (KEY_LEN + MEM_TYPE) ?v 0 False = (m, old, flag)" by (rule prod_cases3)
  have l: "lifted [] n path i (m, old, flag)" using lift_node [OF A(2) refl A(5) A(7) A(4)] r by simp
  have ins: "art_insert_no_replace (tree ind) ?k (KEY_LEN + MEM_TYPE) ?v =
      (let in_buffer = odd flag; flag = (if in_buffer then flag - 1 else flag)
       in ((tree ind)\<lparr>root := m, buffer_count := (if in_buffer then buffer_count (tree ind) + 1 else buffer_count (tree ind)),
            tree_size := (if flag = 0 then tree_size (tree ind) + 1 else tree_size (tree ind))\<rparr>, old))"
    unfolding art_insert_no_replace_def art_insert_with_def A(1) r by (simp add: Let_def)
  show ?thesis
  proof (cases "old = None")
    case False
    then obtain w where w: "old = Some w" by blast
    then have "m = Some n" "flag = 2" using l by (simp_all add: lifted_def)
    then have "compact_lift path i (buffer h ! i) ind = ind"
      using w A(1) unfolding compact_lift_def ins by (simp add: Let_def)
    with inv show ?thesis by simp
  next
    case True
    then obtain n' where n': "flag = 1" "map_option shape m = Some (shape n)" "store_key m path i 0 = Some n'" "art_ok [] n'"
      "node_map 0 n' = node_map 0 n" "buffered n' = buffered n" using l by (auto simp: lifted_def)
    let ?ind = "compact_lift path i (buffer h ! i) ind"
    have e: "?ind = ind\<lparr>tree := (tree ind)\<lparr>root := Some n'\<rparr>\<rparr>"
      using True n'(1,3) unfolding compact_lift_def ins by (simp add: Let_def clear_buffer_def)
    have am: "art_map (tree ?ind) = art_map (tree ind)" using n'(5) A(1) e by (simp add: art_map_def)
    have rest: "hash ?ind = hash ind" "same_rest ?ind ind" using e by (simp_all add: same_rest_def)
    have "map_option shape (Some n') = Some (shape n)" using n'(2) unfolding n'(3) [symmetric] store_key_shape .
    then have sh: "map_option shape (root (tree ?ind)) = Some S" using inv A(1) e by (simp add: cinv_def)
    have "map_option shape (root (tree ind)) = Some S" using inv unfolding cinv_def by blast
    note filled_same_shape [OF trans [OF sh this [symmetric]]]
    then have tok: "tree_ok (tree ?ind)" using inv n'(4,6) A(1) am e by (simp add: cinv_def core_ok_def tree_ok_def)
    from kept_eqI [OF rest(1) am rest(2)] tok sh rest(1) inv show ?thesis by (simp add: cinv_def core_ok_def)
  qed
qed

lemma compact_fill_ok:
  assumes s: "at_slot ind path i n q h ch" and inv: "cinv S ind"
    and f: "hash_insert_nocheck (hash ind) (entry_key (buffer h ! i)) (entry_value (buffer h ! i)) = (hs, 0)"
  shows "cinv S (clear_buffer path i (ind\<lparr>hash := hs\<rparr>)) \<and> kept (clear_buffer path i (ind\<lparr>hash := hs\<rparr>)) ind"
proof -
  let ?k = "entry_key (buffer h ! i)" and ?v = "entry_value (buffer h ! i)"
  let ?ind = "clear_buffer path i (ind\<lparr>hash := hs\<rparr>)"
  note A = at_slotD [OF s inv]
  have hok: "hash_ok (hash ind)" and tok: "tree_ok (tree ind)" using inv by (simp_all add: cinv_def core_ok_def)
  note H = insert_nocheck_ok [OF hok A(4,10) f [unfolded nocheck_simp [OF hok]]]
  note C = clear_in_node [OF A(6,7,4)]
  obtain n' where n': "put_at (Some n) path (Some (Inner (set_buffer_key h i 0) ch)) = Some n'" "art_ok [] n'"
    "node_map 0 n' = (node_map 0 n)(?k := None)"
    using replace_upd [OF A(2,5) C(1), of ?k None] C(2) A(9) by auto
  have sk: "store_key (Some n) path i 0 = Some n'" using store_at(2) [OF reaches_node_at [OF A(2)], of i 0] n'(1) by simp
  have e: "?ind = ind\<lparr>hash := hs, tree := (tree ind)\<lparr>root := Some n', buffer_count := buffer_count (tree ind) - 1,
      tree_size := tree_size (tree ind) - 1\<rparr>\<rparr>" using sk A(1) by (simp add: clear_buffer_def)
  have am: "art_map (tree ?ind) = (art_map (tree ind))(?k := None)" using n'(3) A(1) e by (simp add: art_map_def)
  have "buffered n' + 1 = buffered n" using put_buffered [OF A(2,5) n'(1)] clear_buffered [OF A(6,7,4)] by simp
  then have "of_nat (buffered n) = (of_nat (buffered n') + 1 :: u64)" by (metis of_nat_add of_nat_1)
  moreover have sh: "map_option shape (Some n') = Some S"
    using inv A(1) unfolding sk [symmetric] store_key_shape cinv_def by simp
  have rs: "map_option shape (root (tree ind)) = Some S" using inv unfolding cinv_def by blast
  have "filled n'" using tok filled_same_shape [OF trans [OF sh rs [symmetric]]] by (simp add: tree_ok_def)
  ultimately have t: "tree_ok (tree ?ind)" by (intro tree_ok_remove [OF tok _ am]) (use n'(2) A(1,8) e in simp_all)
  have hm: "hash_map (hash ?ind) = (hash_map (hash ind))(?k \<mapsto> ?v)" "hash_ok (hash ?ind)" using H e by simp_all
  note M = core_map_move [OF hm(1) am]
  have cm: "core_map ?ind = core_map ind" using M(1) A(11) by (simp add: fun_upd_idem)
  from sh t hm M(2) cm inv e nocheck_geometry [OF f [unfolded nocheck_simp [OF hok]]] show ?thesis by (simp add: cinv_def kept_def core_ok_def same_rest_def)
qed

text \<open>A place of the walk, by the shape of the tree it started with.\<close>

definition place :: "art_node \<Rightarrow> nat list \<Rightarrow> bool" where
  "place S path \<longleftrightarrow> (\<exists>q h ch. reaches [] S path q (Inner h ch))"

lemma place_node:
  assumes "place S path" "cinv S ind" "shape S = S"
  obtains n q h ch where "root (tree ind) = Some n" "reaches [] n path q (Inner h ch)"
    "node_at (root (tree ind)) path = Some (Inner h ch)" "node_at (Some S) path = Some (shape (Inner h ch))"
proof -
  obtain n where n: "root (tree ind) = Some n" "shape n = S" using assms(2) by (auto simp: cinv_def)
  obtain q h ch where r: "reaches [] S path q (Inner h ch)" using assms(1) by (auto simp: place_def)
  obtain m where m: "reaches [] n path q m" "shape m = shape (Inner h ch)"
    using reaches_shape [OF r, of n] n(2) assms(3) by auto
  obtain h' ch' where m': "m = Inner h' ch'" by (rule shape_Inner [OF m(2)])
  have "node_at (Some S) path = map_option shape (node_at (Some n) path)" using node_at_shape [of "Some n" path] n(2) by simp
  then have "node_at (Some S) path = Some (shape (Inner h' ch'))" using reaches_node_at [OF m(1)] m' by simp
  with that [OF n(1) m(1) [unfolded m']] reaches_node_at [OF m(1)] n(1) m' show thesis by simp
qed

lemma compact_slot_ok:
  assumes pl: "place S path" "i < 3" "shape S = S" and inv: "cinv S ind" and eq: "compact_slot mlf path i (ind, cf) = (ind', cf')"
  shows "cinv S ind' \<and> kept ind' ind"
proof -
  obtain n q h ch where P: "root (tree ind) = Some n" "reaches [] n path q (Inner h ch)"
    "node_at (root (tree ind)) path = Some (Inner h ch)" "node_at (Some S) path = Some (shape (Inner h ch))"
    by (rule place_node [OF pl(1) inv pl(3)])
  show ?thesis
  proof (cases "IS_SPECIAL_KEY (entry_key (buffer h ! i))")
    case True
    then show ?thesis using eq inv P(3) by (simp add: compact_slot_def)
  next
    case False
    then have s: "at_slot ind path i n q h ch" using P pl(2) by (simp add: at_slot_def)
    obtain hs st where f: "hash_insert_nocheck (hash ind) (entry_key (buffer h ! i)) (entry_value (buffer h ! i)) = (hs, st)"
      by (rule prod.exhaust)
    have hok: "hash_ok (hash ind)" using inv by (simp add: cinv_def core_ok_def)
    note A = at_slotD [OF s inv]
    have un: "ind\<lparr>hash := hs\<rparr> = ind" if "st \<noteq> 0"
      using insert_nocheck_ok [OF hok A(4,10) f [unfolded nocheck_simp [OF hok]]] that by auto
    from eq False f have "ind' = clear_buffer path i (ind\<lparr>hash := hs\<rparr>) \<and> st = 0 \<or> ind' = compact_lift path i (buffer h ! i) ind"
      using un P(3) unfolding compact_slot_def Let_def by (auto split: if_splits)
    then show ?thesis using compact_lift_ok [OF s inv] compact_fill_ok [OF s inv, of hs] f by auto
  qed
qed

lemma compact_node_ok:
  assumes pl: "place S path" "shape S = S" and inv: "cinv S ind" and eq: "compact_node mlf path ind cf = (ind', cf')"
  shows "cinv S ind' \<and> kept ind' ind"
proof -
  have "cinv S (fst (fold (compact_slot mlf path) is (ind, cf))) \<and> kept (fst (fold (compact_slot mlf path) is (ind, cf))) ind"
    if "set is \<subseteq> {0..<3}" "cinv S ind" for "is" ind cf
    using that
  proof (induction "is" arbitrary: ind cf)
    case (Cons i js)
    obtain ind1 cf1 where e: "compact_slot mlf path i (ind, cf) = (ind1, cf1)" by (rule prod.exhaust)
    have "cinv S ind1 \<and> kept ind1 ind" by (rule compact_slot_ok [OF pl(1) _ pl(2) Cons.prems(2) e]) (use Cons.prems in simp)
    with Cons.IH [of ind1 cf1] Cons.prems e kept_trans show ?case by auto
  qed simp
  from this [of "[0..<3]" ind cf] inv eq show ?thesis by (simp add: compact_node_def)
qed

section \<open>The walk\<close>

text \<open>\<open>stale_free\<close>: every inner node in a children array is a child, so that the walk, which reads the whole
  array, meets no pointer that a removal left behind.\<close>

definition owned :: "art_hdr \<Rightarrow> 'n children \<Rightarrow> nat \<Rightarrow> bool" where
  "owned h ch k \<longleftrightarrow> (\<exists>b \<in> set (map of_nat [0..<256]). find_child h ch b = Some k)"

function stale_free :: "art_node \<Rightarrow> bool" where
  "stale_free (Leaf e) \<longleftrightarrow> True"
| "stale_free (Inner h ch) \<longleftrightarrow> length (child_array ch) = n_children ch \<and>
    (\<forall>k \<in> set [0..<n_children ch]. case child_at ch k of None \<Rightarrow> True
       | Some n \<Rightarrow> stale_free n \<and> (is_inner (Some n) \<longrightarrow> owned h ch k))"
  by pat_completeness auto
termination by (relation "measure size") (auto dest: size_child_at)

lemma n_children_map [simp]: "n_children (map_children f ch) = n_children ch"
  by (cases ch) simp_all

lemma child_array_map [simp]: "child_array (map_children f ch) = map (map_option f) (child_array ch)"
  by (cases ch) simp_all

lemma is_inner_shape [simp]: "is_inner (Some (shape n)) = is_inner (Some n)"
  by (cases n) simp_all

lemma stale_free_shape: "stale_free (shape n) = stale_free n"
proof (induction n rule: stale_free.induct)
  case (2 h ch)
  have o: "owned (h\<lparr>buffer := []\<rparr>) (map_children shape ch) k = owned h ch k" for k by (simp add: owned_def)
  have "(case map_option shape (child_at ch k) of None \<Rightarrow> True
       | Some n \<Rightarrow> stale_free n \<and> (is_inner (Some n) \<longrightarrow> owned h ch k)) \<longleftrightarrow>
      (case child_at ch k of None \<Rightarrow> True | Some n \<Rightarrow> stale_free n \<and> (is_inner (Some n) \<longrightarrow> owned h ch k))"
    if "k \<in> set [0..<n_children ch]" for k
    using 2 [OF that] by (cases "child_at ch k") simp_all
  then show ?case unfolding shape.simps stale_free.simps child_at_map o n_children_map child_array_map length_map by blast
qed simp

lemma shape_shape [simp]: "shape (shape n) = shape n"
  by (induction n) (auto simp: children.map_comp intro!: children.map_cong)

lemma stale_free_child:
  assumes "stale_free (Inner h ch)" "child_at ch k = Some c"
  shows "stale_free c" "is_inner (Some c) \<Longrightarrow> \<exists>b. find_child h ch b = Some k"
proof -
  have "k \<in> set [0..<n_children ch]" using assms by (auto simp: child_at_def dest: slot_SomeD)
  with assms have "case child_at ch k of None \<Rightarrow> True | Some n \<Rightarrow> stale_free n \<and> (is_inner (Some n) \<longrightarrow> owned h ch k)"
    unfolding stale_free.simps by blast
  with assms(2) show "stale_free c" "is_inner (Some c) \<Longrightarrow> \<exists>b. find_child h ch b = Some k"
    by (auto simp: owned_def)
qed

lemma stale_free_reaches: "reaches p n path q m \<Longrightarrow> stale_free n \<Longrightarrow> stale_free m"
  by (induction rule: reaches.induct) (use stale_free_child(1) in blast)+

lemma reaches_snocI:
  "reaches p n path q (Inner h ch) \<Longrightarrow> find_child h ch b = Some k \<Longrightarrow> child_at ch k = Some c \<Longrightarrow>
    reaches p n (path @ [k]) (q @ prefix_of h @ [b]) c"
proof (induction p n path q "Inner h ch" rule: reaches.induct)
  case (here p)
  then show ?case using reaches.down reaches.here by fastforce
qed (use reaches.down in fastforce)

text \<open>What is left to visit.\<close>

definition todo :: "art_node \<Rightarrow> nat list option list \<Rightarrow> nat" where
  "todo S ps = sum_list (map (\<lambda>p. case p of None \<Rightarrow> 0 | Some path \<Rightarrow> node_size (node_at (Some S) path)) ps)"

lemma sum_slots: "sum_list (map (\<lambda>k. node_size (slot cs k)) [0..<n]) \<le> size_list (size_option size) cs"
proof (induction cs arbitrary: n)
  case Nil
  then show ?case by (induction n) (simp_all add: slot_def node_size_def)
next
  case (Cons c cs)
  show ?case
  proof (cases n)
    case (Suc m)
    have "map (\<lambda>k. node_size (slot (c # cs) k)) [0..<Suc m] = node_size c # map (\<lambda>k. node_size (slot cs k)) [0..<m]"
      by (simp add: upt_conv_Cons map_Suc_upt [symmetric] slot_def del: upt_Suc)
    moreover have "node_size c \<le> size_option size c" by (cases c) (simp_all add: node_size_def)
    ultimately show ?thesis using Cons.IH [of m] Suc by simp
  qed simp
qed

lemma sum_children: "sum_list (map (\<lambda>k. node_size (child_at ch k)) [0..<n]) < size (Inner h ch)"
proof -
  have "sum_list (map (\<lambda>k. node_size (slot (child_array ch) k)) [0..<n]) \<le> size_list (size_option size) (child_array ch)"
    by (rule sum_slots)
  moreover have "size_list (size_option size) (child_array ch) < size (Inner h ch)" by (cases ch) simp_all
  ultimately show ?thesis by (simp add: child_at_def)
qed

lemma sum_filter_le: "sum_list (map f (filter P xs)) \<le> sum_list (map f xs)" for f :: "'a \<Rightarrow> nat"
  by (induction xs) auto

lemma push_children_ok:
  "queue_inv q \<Longrightarrow> length (queue_list q) + length (filter (\<lambda>k. is_inner (child_at ch k)) ks) < 2 ^ 31 \<Longrightarrow>
    \<exists>q'. push_children ch path ks q = Some q' \<and> queue_inv q' \<and>
      queue_list q' = queue_list q @ map (\<lambda>k. Some (path @ [k])) (filter (\<lambda>k. is_inner (child_at ch k)) ks)"
proof (induction ks arbitrary: q)
  case (Cons k ks)
  show ?case
  proof (cases "is_inner (child_at ch k)")
    case True
    then obtain q1 where q1: "queue_push q (Some (path @ [k])) = Some q1" "queue_inv q1"
      "queue_list q1 = queue_list q @ [Some (path @ [k])]"
      using queue_push_ok [OF Cons.prems(1), of "Some (path @ [k])"] Cons.prems(2) by auto
    with Cons.IH [OF q1(2)] Cons.prems(2) True show ?thesis by auto
  qed (use Cons in simp)
qed simp

lemma todo_simps [simp]:
  "todo S [] = 0" "todo S (Some path # ps) = node_size (node_at (Some S) path) + todo S ps" "todo S (ps @ ps') = todo S ps + todo S ps'"
  by (simp_all add: todo_def)

lemma length_le_todo: "(\<And>x. x \<in> set ps \<Longrightarrow> \<exists>path. x = Some path \<and> place S path) \<Longrightarrow> length ps \<le> todo S ps"
proof (induction ps)
  case (Cons x ps)
  from Cons.prems [of x] obtain path where x: "x = Some path" "place S path" by auto
  then have "1 \<le> node_size (node_at (Some S) path)" by (auto simp: place_def node_size_def dest!: reaches_node_at)
  with Cons x(1) show ?case by simp
qed simp

lemma compact_loop_ok:
  assumes S: "shape S = S" "stale_free S"
  shows "queue_inv q \<Longrightarrow> (\<And>x. x \<in> set (queue_list q) \<Longrightarrow> \<exists>path. x = Some path \<and> place S path) \<Longrightarrow>
    todo S (queue_list q) < 2 ^ 31 \<Longrightarrow> cinv S ind \<Longrightarrow>
    \<exists>ind'. compact_loop mlf q ind cf = Some ind' \<and> cinv S ind' \<and> kept ind' ind"
proof (induction "todo S (queue_list q)" arbitrary: q ind cf rule: less_induct)
  case less
  show ?case
  proof (cases "queue_list q")
    case Nil
    then show ?thesis using less.prems queue_empty_iff [OF less.prems(1)] by (subst compact_loop.simps) simp
  next
    case (Cons x ps)
    obtain path where x: "x = Some path" "place S path" using less.prems(2) [of x] Cons by auto
    obtain q1 where q1: "queue_pop q = (Some path, q1)" "queue_inv q1" "queue_list q1 = ps"
      using queue_pop_ok [OF less.prems(1) Cons] x(1) by (cases "queue_pop q") auto
    have ne: "\<not> queue_empty q" using queue_empty_iff [OF less.prems(1)] Cons by simp
    obtain n p h ch where P: "root (tree ind) = Some n" "reaches [] n path p (Inner h ch)"
      "node_at (root (tree ind)) path = Some (Inner h ch)" "node_at (Some S) path = Some (shape (Inner h ch))"
      by (rule place_node [OF x(2) less.prems(4) S(1)])
    obtain ind1 cf1 where c: "compact_node mlf path ind cf = (ind1, cf1)" by (rule prod.exhaust)
    note N = compact_node_ok [OF x(2) S(1) less.prems(4) c]
    have step: "compact_loop mlf q ind cf = (if buffer_count (tree ind1) = 0 then Some ind1
        else Option.bind (push_children ch path [0..<n_children ch] q1) (\<lambda>q. compact_loop mlf q ind1 cf1))"
      by (subst compact_loop.simps) (simp add: ne q1(1) P(3) c)
    show ?thesis
    proof (cases "buffer_count (tree ind1) = 0")
      case True
      then show ?thesis using N step by simp
    next
      case False
      let ?ch = "map_children shape ch" and ?ks = "filter (\<lambda>k. is_inner (child_at ch k)) [0..<n_children ch]"
      let ?new = "map (\<lambda>k. Some (path @ [k])) ?ks"
      obtain Q hs chs where R: "reaches [] S path Q (Inner hs chs)" using x(2) by (auto simp: place_def)
      with P(4) reaches_node_at [OF R] have chs: "chs = ?ch" by simp
      have sf: "stale_free (Inner hs chs)" by (rule stale_free_reaches [OF R S(2)])
      have new: "place S (path @ [k])" if k: "k \<in> set ?ks" for k
      proof -
        from k obtain h' ch' where "child_at ch k = Some (Inner h' ch')" by (cases "child_at ch k" rule: is_inner.cases) auto
        then have ck: "child_at chs k = Some (shape (Inner h' ch'))" by (simp add: chs)
        then obtain b where "find_child hs chs b = Some k" using stale_free_child(2) [OF sf ck] by (metis is_inner.simps(1) is_inner_shape)
        from reaches_snocI [OF R this ck] show ?thesis unfolding place_def shape.simps by blast
      qed
      have sz: "todo S ?new < node_size (node_at (Some S) path)"
      proof -
        have "todo S ?new = sum_list (map (\<lambda>k. node_size (child_at chs k)) ?ks)"
          using reaches_node_at [OF R] by (simp add: todo_def node_at_append comp_def)
        also have "... \<le> sum_list (map (\<lambda>k. node_size (child_at chs k)) [0..<n_children ch])" by (rule sum_filter_le)
        also have "... < size (Inner hs chs)" by (rule sum_children)
        finally show ?thesis using reaches_node_at [OF R] by (simp add: node_size_def)
      qed
      have lt: "todo S (ps @ ?new) < todo S (queue_list q)" using sz Cons x(1) by simp
      have pl: "\<exists>path. y = Some path \<and> place S path" if "y \<in> set (ps @ ?new)" for y
        using that less.prems(2) [of y] new Cons by auto
      have "length (ps @ ?new) < 2 ^ 31" 
        using length_le_todo [of "ps @ ?new" S] pl lt less.prems(3) by (meson le_less_trans less_trans)
      then obtain q2 where q2: "push_children ch path [0..<n_children ch] q1 = Some q2" "queue_inv q2" "queue_list q2 = ps @ ?new"
        using push_children_ok [OF q1(2), of ch "[0..<n_children ch]" path] q1(3) by auto
      from less.hyps [of q2 ind1 cf1] q2 lt pl N less.prems(3)
      obtain ind' where "compact_loop mlf q2 ind1 cf1 = Some ind'" "cinv S ind'" "kept ind' ind1" by auto
      with step False q2(1) N kept_trans show ?thesis by auto
    qed
  qed
qed

section \<open>Compaction\<close>

text \<open>When compaction is defined: the queue gets its cells, there is a root, no children array holds a stale
  inner node, and there are fewer than \<open>2 ^ 31\<close> nodes.\<close>

definition compact_safe :: "(nat \<Rightarrow> bool) \<Rightarrow> index_sys \<Rightarrow> bool" where
  "compact_safe alloc ind \<longleftrightarrow> (let n = unat (ucast (drop_bit 4 (h_size (hash ind))) :: u32) in n \<noteq> 0 \<and> alloc n) \<and>
     (case root (tree ind) of None \<Rightarrow> False | Some n \<Rightarrow> stale_free n \<and> size n < 2 ^ 31)"

lemma size_shape: "size (shape n) = size n"
proof (induction n)
  case (Inner h ch)
  have "size_option size (map_option shape x) = size_option size x"
    if "\<And>y. Some y \<in> set cs \<Longrightarrow> size (shape y) = size y" "x \<in> set cs" for x and cs :: "art_node option list"
    using that by (cases x) auto
  with Inner show ?case
    by (cases ch) (auto simp: size_list_conv_sum_list comp_def intro!: arg_cong [of _ _ sum_list] map_cong)
qed simp

lemma index_compact_ok:
  assumes ok: "core_ok ind" "exclusive ind" and safe: "compact_safe alloc ind"
  shows "\<exists>ind'. index_compact alloc ind mlf = Some ind' \<and> core_ok ind' \<and> exclusive ind' \<and> kept ind' ind \<and>
    map_option shape (root (tree ind')) = map_option shape (root (tree ind))"
proof -
  let ?n = "unat (ucast (drop_bit 4 (h_size (hash ind))) :: u32)"
  obtain n where n: "root (tree ind) = Some n" "stale_free n" "size n < 2 ^ 31"
    using safe by (auto simp: compact_safe_def split: option.splits)
  have c: "cinv (shape n) ind" using ok n(1) by (simp add: cinv_def)
  have a: "?n \<noteq> 0" "alloc ?n" using safe unfolding compact_safe_def Let_def by blast+
  have lt: "?n < 2 ^ 32" using unsigned_less [of "ucast (drop_bit 4 (h_size (hash ind))) :: u32"] by simp
  obtain q0 :: "nat list queue" where q0: "queue_construct alloc ?n = Some q0" using a(2) by (simp add: queue_construct_def)
  have "queue_inv q0 \<and> queue_list q0 = []" by (rule queue_construct_inv [OF q0 _ lt]) (use a in simp)
  then obtain q1 where q1: "queue_push q0 (Some []) = Some q1" "queue_inv q1" "queue_list q1 = [Some []]"
    using queue_push_ok [of q0 "Some []"] by auto
  have e: "index_compact alloc ind mlf = compact_loop mlf q1 ind 0" using q0 q1(1) n(1) by (simp add: index_compact_def)
  show ?thesis
  proof (cases n)
    case (Leaf l)
    obtain q2 where q2: "queue_pop q1 = (Some [], q2)" "queue_inv q2" "queue_list q2 = []"
      using queue_pop_ok [OF q1(2,3)] by (cases "queue_pop q1") auto
    have "compact_loop mlf q2 ind 0 = Some ind"
      using queue_empty_iff [OF q2(2)] q2(3) by (subst compact_loop.simps) simp
    then have "index_compact alloc ind mlf = Some ind"
      unfolding e using queue_empty_iff [OF q1(2)] q1(3) q2(1) n(1) Leaf by (subst compact_loop.simps) simp
    with ok show ?thesis by simp
  next
    case (Inner h ch)
    have "place (shape n) []" 
      unfolding Inner shape.simps place_def using reaches.here by blast
    with compact_loop_ok [of "shape n" q1 ind mlf 0] n q1 c show ?thesis
      unfolding e by (auto simp: stale_free_shape size_shape node_size_def cinv_def simp del: shape.simps)
  qed
qed

end
