(* ===== verification/Index_Correct.thy ===== *)
theory Index_Correct
  imports Compact_Correct
begin

text \<open>
  The operations of \<open>hetero.c\<close> against the map of the index: the invariant of the whole index, what
  \<open>hash_update\<close> does, the contract of the \<open>hash_expand\<close> pointer and the \<open>REINSERT\<close> loop.
\<close>

section \<open>Invariant and map\<close>

definition index_map :: "index_sys \<Rightarrow> u64 \<Rightarrow> u64 option" where
  "index_map ind k = (if IS_SPECIAL_KEY k then
     (if has_special_key ind ! unat k \<noteq> 0 then Some (special_key_val ind ! unat k) else None) else core_map ind k)"

definition specials_ok :: "index_sys \<Rightarrow> bool" where
  "specials_ok ind \<longleftrightarrow> length (has_special_key ind) = 2 \<and> length (special_key_val ind) = 2 \<and> set (has_special_key ind) \<subseteq> {0, 1}"

definition index_ok :: "index_sys \<Rightarrow> bool" where
  "index_ok ind \<longleftrightarrow> core_ok ind \<and> exclusive ind \<and> specials_ok ind"

text \<open>The same reserved keys, which is all the operations below share besides the map.\<close>

definition same_specials :: "index_sys \<Rightarrow> index_sys \<Rightarrow> bool" where
  "same_specials ind' ind \<longleftrightarrow> has_special_key ind' = has_special_key ind \<and> special_key_val ind' = special_key_val ind"

lemma same_rest_specials: "same_rest ind' ind \<Longrightarrow> same_specials ind' ind"
  by (simp add: same_rest_def same_specials_def)

lemma core_special: "IS_SPECIAL_KEY k \<Longrightarrow> core_map ind k = None"
  by (cases "root (tree ind)") (simp_all add: core_map_def hash_map_def art_map_def node_map_def map_add_def)

lemma index_map_same:
  assumes "core_map ind' = core_map ind" "same_specials ind' ind"
  shows "index_map ind' = index_map ind"
  using assms by (simp add: index_map_def same_specials_def fun_eq_iff)

lemma index_map_upd:
  assumes "core_map ind' = (core_map ind)(k := x)" "same_specials ind' ind" "\<not> IS_SPECIAL_KEY k"
  shows "index_map ind' = (index_map ind)(k := x)"
  using assms by (auto simp: index_map_def same_specials_def fun_eq_iff)

lemma index_ok_specials: "index_ok ind \<Longrightarrow> core_ok ind' \<Longrightarrow> exclusive ind' \<Longrightarrow> same_specials ind' ind \<Longrightarrow> index_ok ind'"
  by (simp add: index_ok_def specials_ok_def same_specials_def)

lemma store_special_ok:
  assumes "index_ok ind" "IS_SPECIAL_KEY k"
  shows "index_ok (store_special k v ind)" "index_map (store_special k v ind) = (index_map ind)(k \<mapsto> v)"
proof -
  have k: "unat k < 2" using assms(2) by (auto simp: IS_SPECIAL_KEY_iff)
  have un: "unat k' = unat k \<longleftrightarrow> k' = k" for k' by (rule word_unat_eq_iff [symmetric])
  have c: "core_map (store_special k v ind) = core_map ind" "exclusive (store_special k v ind) = exclusive ind"
    "core_ok (store_special k v ind) = core_ok ind"
    by (simp_all add: store_special_def core_map_def exclusive_def core_ok_def)
  have "set ((has_special_key ind)[unat k := 1]) \<subseteq> {0, 1}"
    using assms(1) set_update_subset_insert [of "has_special_key ind" "unat k" 1]
    unfolding index_ok_def specials_ok_def by blast
  then show "index_ok (store_special k v ind)"
    using assms(1) c by (simp add: index_ok_def specials_ok_def store_special_def)
  show "index_map (store_special k v ind) = (index_map ind)(k \<mapsto> v)"
  proof (rule ext)
    fix k'
    show "index_map (store_special k v ind) k' = ((index_map ind)(k \<mapsto> v)) k'"
    proof (cases "IS_SPECIAL_KEY k'")
      case True
      then have "unat k' < 2" by (auto simp: IS_SPECIAL_KEY_iff)
      with True k assms un [of k'] show ?thesis
        by (cases "k' = k") (auto simp: index_map_def store_special_def index_ok_def specials_ok_def nth_list_update)
    next
      case False
      then show ?thesis using assms(2) c by (auto simp: index_map_def)
    qed
  qed
qed

section \<open>hash_update\<close>

lemma hash_update_ok:
  assumes ok: "hash_ok (hash ind)" and k: "\<not> IS_SPECIAL_KEY k"
    and eq: "hash_modify ind k v STRICT_UPDATE = (ind', freq, st)"
  shows "if hash_map (hash ind) k = None then st = ELEMENT_NOT_FOUND \<and> (\<exists>s f. ind' = ind\<lparr>cm := s\<rparr> \<and> freq = Some f)
    else st = 0 \<and> hash_ok (hash ind') \<and> hash_map (hash ind') = (hash_map (hash ind))(k \<mapsto> v) \<and>
      tree ind' = tree ind \<and> same_specials ind' ind"
proof -
  let ?hs = "hash ind" and ?idx = "HASH_COMP_IDX (hash ind) k"
  let ?b = "entries ?hs ! ?idx"
  obtain s f where c: "countmin_inc_explicit (cm ind) k (Some (MurmurHash3_x64_128 (key_bytes k) 8 (h_seed ?hs))) = (s, f)"
    by (rule prod.exhaust)
  have b: "bin_ok ?b" by (rule bin_of_key [OF ok])
  then have t: "take 8 ?b = ?b" and len: "length ?b = 8" by (simp_all add: bin_ok_def)
  have r: "hash_modify ind k v STRICT_UPDATE = (case scan_bin s k 0 ?b f None None of
      Found j \<Rightarrow> (ind\<lparr>cm := s, hash := set_entry ?hs ?idx j ((?b ! j)\<lparr>entry_value := v\<rparr>)\<rparr>, Some f, 0)
    | Scanned av im \<Rightarrow> (ind\<lparr>cm := s\<rparr>, Some f, ELEMENT_NOT_FOUND))"
    unfolding hash_modify_def hash_idx_agree Let_def by (simp add: c t split: scan.split)
  show ?thesis
  proof (cases "scan_bin s k 0 ?b f None None")
    case (Found j)
    with scan_bin_found [OF this] len have j: "j < 8" "entry_key (?b ! j) = k" by simp_all
    have m: "hash_map ?hs k \<noteq> None"
      using bin_map_None [OF not_special_nonzero [OF k], of ?b] j k by (auto simp: hash_map_def)
    have u: "\<And>i. i < 8 \<Longrightarrow> entry_key (?b ! i) = k \<Longrightarrow> i = j"
      using bin_okD [OF b j(1)] j(2) not_special_nonzero [OF k] by simp
    have e: "(?b ! j)\<lparr>entry_value := v\<rparr> = \<lparr>entry_key = k, entry_value = v\<rparr>" using j(2) by (cases "?b ! j") simp
    have h: "hash ind' = set_entry ?hs ?idx j \<lparr>entry_key = k, entry_value = v\<rparr>" "st = 0" "tree ind' = tree ind" "same_specials ind' ind"
      using eq unfolding r Found by (auto simp: same_specials_def e)
    have "hash_ok (hash ind') \<and> hash_map (hash ind') = (hash_map ?hs)(k \<mapsto> v)"
      by (rule table_put [OF ok k j(1) u, where c = "h_count ?hs"]) (use j m in \<open>simp_all add: h set_entry_def\<close>)
    then show ?thesis using h m by simp
  next
    case (Scanned av im)
    then have "hash_map ?hs k = None"
      using scan_bin_scanned [OF Scanned] len bin_map_None [OF not_special_nonzero [OF k], of ?b] k by (simp add: hash_map_def)
    then show ?thesis using eq unfolding r Scanned by auto
  qed
qed

section \<open>The expansion pointer\<close>

text \<open>What \<open>index_insert\<close> and \<open>index_expand\<close> need of \<open>hash_expand\<close>: a table of twice the size with the same map.\<close>

locale hash_grower =
  fixes grow :: "hash_sys \<Rightarrow> hash_sys option"
  assumes grow: "hash_ok hs \<Longrightarrow> h_size hs = 2 ^ n \<Longrightarrow> n < 63 \<Longrightarrow> h_seed hs \<noteq> 0 \<Longrightarrow>
    \<exists>hs'. grow hs = Some hs' \<and> hash_ok hs' \<and> hash_map hs' = hash_map hs \<and> h_size hs' = 2 ^ Suc n \<and> h_seed hs' = h_seed hs"

text \<open>The keys of the index that share the bin of a key in a table of \<open>2 ^ m\<close> bins.\<close>

definition hash_slot :: "u32 \<Rightarrow> nat \<Rightarrow> u64 \<Rightarrow> nat" where
  "hash_slot seed m k = unat (MurmurHash3_x64_64 (key_bytes k) KEY_LEN seed) mod 2 ^ m"

definition crowd :: "index_sys \<Rightarrow> nat \<Rightarrow> u64 \<Rightarrow> u64 set" where
  "crowd ind m k = {k' \<in> dom (core_map ind). hash_slot (h_seed (hash ind)) m k' = hash_slot (h_seed (hash ind)) m k}"

lemma HASH_COMP_IDX_slot: "h_size hs = 2 ^ n \<Longrightarrow> n < 64 \<Longrightarrow> HASH_COMP_IDX hs k = hash_slot (h_seed hs) n k"
  using HASH_IDX_mod [of n hs k] by (simp add: hash_slot_def)

text \<open>A bin that has no room for a key holds eight keys of its crowd.\<close>

lemma no_room_crowd:
  assumes ok: "hash_ok (hash ind)" and n: "h_size (hash ind) = 2 ^ n" "n < 64" and k: "\<not> IS_SPECIAL_KEY k"
    and full: "\<not> hash_room ind k"
  shows "8 \<le> card (crowd ind n k)"
proof -
  let ?hs = "hash ind" and ?idx = "HASH_COMP_IDX (hash ind) k"
  let ?b = "entries ?hs ! ?idx"
  have nz: "entry_key (?b ! j) \<noteq> 0" if "j < 8" for j using full that by (auto simp: hash_room_def)
  have idx: "?idx < unat (h_size ?hs)" by (rule hash_idx_bound [OF ok])
  have b: "bin_ok ?b" by (rule bin_of_key [OF ok])
  have inj: "inj_on (\<lambda>j. entry_key (?b ! j)) {0..<8}"
    using bin_okD [OF b] nz by (auto intro!: inj_onI)
  have "(\<lambda>j. entry_key (?b ! j)) ` {0..<8} \<subseteq> crowd ind n k"
  proof (rule image_subsetI)
    fix j :: nat
    assume "j \<in> {0..<8}"
    then have j: "j < 8" by simp
    have B: "\<not> IS_SPECIAL_KEY (entry_key (?b ! j))" "HASH_COMP_IDX ?hs (entry_key (?b ! j)) = ?idx"
      using hash_okD(4) [OF ok idx j nz [OF j]] by simp_all
    have "bin_map ?b (entry_key (?b ! j)) \<noteq> None" using bin_map_None [OF nz [OF j], of ?b] j by blast
    then have "hash_map ?hs (entry_key (?b ! j)) \<noteq> None" using B by (simp add: hash_map_def)
    then have "core_map ind (entry_key (?b ! j)) \<noteq> None" by (auto simp: core_map_def map_add_def)
    then show "entry_key (?b ! j) \<in> crowd ind n k"
      using B(2) HASH_COMP_IDX_slot [OF n] by (auto simp: crowd_def)
  qed
  moreover have "finite (crowd ind n k)" by simp
  ultimately have "card ((\<lambda>j. entry_key (?b ! j)) ` {0..<8}) \<le> card (crowd ind n k)" by (intro card_mono)
  then show ?thesis by (simp add: card_image [OF inj])
qed

section \<open>The REINSERT loop\<close>

text \<open>Trees the compaction can walk.\<close>

definition tree_small :: "index_sys \<Rightarrow> bool" where
  "tree_small ind \<longleftrightarrow> (case root (tree ind) of None \<Rightarrow> True | Some n \<Rightarrow> stale_free n \<and> size n < 2 ^ 31)"

lemma queue_cells:
  assumes "4 \<le> n" "n \<le> 35"
  shows "unat (ucast (drop_bit 4 (2 ^ n :: u64)) :: u32) \<noteq> 0"
proof -
  have "bit (ucast (drop_bit 4 (2 ^ n :: u64)) :: u32) (n - 4)"
    using assms by (simp add: bit_simps)
  moreover have "unat w \<noteq> 0" if "bit w j" for w :: u32 and j using that by (auto simp: unsigned_eq_0_iff)
  ultimately show ?thesis by blast
qed

lemma compact_safe_pow:
  assumes "h_size (hash ind) = 2 ^ n" "4 \<le> n" "n \<le> 35" "tree_small ind" "root (tree ind) \<noteq> None"
  shows "compact_safe (\<lambda>_. True) ind"
  using queue_cells [OF assms(2,3)] assms unfolding compact_safe_def Let_def tree_small_def by (auto split: option.splits)

lemma tree_small_shape:
  assumes "map_option shape (root (tree ind')) = map_option shape (root (tree ind))" "tree_small ind"
  shows "tree_small ind'"
proof (cases "root (tree ind)")
  case (Some n)
  with assms(1) obtain n' where "root (tree ind') = Some n'" "shape n' = shape n" by auto
  with Some assms(2) stale_free_shape size_shape show ?thesis unfolding tree_small_def by (metis option.simps(5))
qed (use assms in \<open>simp add: tree_small_def\<close>)

lemma tree_size_root: "tree_ok t \<Longrightarrow> tree_size t \<noteq> 0 \<Longrightarrow> root t \<noteq> None"
  by (cases "root t") (simp_all add: tree_ok_def art_map_def)

lemma hash_onlyD:
  "ind' = ind\<lparr>hash := h\<rparr> \<Longrightarrow> tree ind' = tree ind" "ind' = ind\<lparr>hash := h\<rparr> \<Longrightarrow> same_specials ind' ind"
  by (simp_all add: same_specials_def)

lemma room_inserts:
  assumes ok: "core_ok ind" "exclusive ind" and k: "\<not> IS_SPECIAL_KEY k" "art_map (tree ind) k = None"
    and eq: "hash_modify ind k v INSERT = (ind', freq, st)"
  shows "if hash_room ind k then st = 0 \<and> core_ok ind' \<and> exclusive ind' \<and> same_specials ind' ind \<and>
      core_map ind' = (core_map ind)(k \<mapsto> v) \<and> tree ind' = tree ind
    else st \<noteq> 0 \<and> ind' = ind \<and> core_map ind k = None"
proof -
  have hok: "hash_ok (hash ind)" using ok(1) by (simp add: core_ok_def)
  note H = hash_insert_ok [OF hok k(1) eq] and R = hash_room_status [OF hok k(1) eq]
  show ?thesis
  proof (cases "hash_room ind k")
    case True
    with H R have h: "hash_ok (hash ind')" "hash_map (hash ind') = (hash_map (hash ind))(k \<mapsto> v)" and e: "ind' = ind\<lparr>hash := hash ind'\<rparr>"
      by auto
    note t = hash_onlyD [OF e]
    have "art_map (tree ind') = (art_map (tree ind))(k := None)" using t k(2) by (simp add: fun_upd_idem)
    from core_map_move [OF h(2) this] show ?thesis using True R h ok t by (simp add: core_ok_def)
  next
    case False
    with H R have "ind' = ind" "hash_map (hash ind) k = None" by auto
    then show ?thesis using False R k(2) by (simp add: core_map_def map_add_def)
  qed
qed

text \<open>When the loop ends: there is room, the tree is not much larger than the table, or at some size up to
  \<open>2 ^ 35\<close> bins fewer than eight keys of the index share the bin of the key.\<close>

definition growth_ends :: "index_sys \<Rightarrow> u64 \<Rightarrow> bool" where
  "growth_ends ind k \<longleftrightarrow> hash_room ind k \<or> \<not> h_count (hash ind) * 5 < tree_size (tree ind) \<or>
     (\<exists>n \<ge> 4. \<exists>m \<le> 35. n \<le> m \<and> h_size (hash ind) = 2 ^ n \<and> h_seed (hash ind) \<noteq> 0 \<and> tree_small ind \<and> card (crowd ind m k) < 8)"

definition reinserted :: "index_sys \<Rightarrow> u64 \<Rightarrow> u64 \<Rightarrow> (index_sys \<times> bool) option \<Rightarrow> bool" where
  "reinserted ind k v r \<longleftrightarrow> (\<exists>ind' inserted. r = Some (ind', inserted) \<and> core_ok ind' \<and> exclusive ind' \<and> same_specials ind' ind \<and>
     (if inserted then core_map ind' = (core_map ind)(k \<mapsto> v) else core_map ind' = core_map ind \<and> core_map ind k = None))"

lemma reinserted_from:
  "core_map b = core_map a \<Longrightarrow> same_specials b a \<Longrightarrow> reinserted b k v r \<Longrightarrow> reinserted a k v r"
  by (simp only: reinserted_def same_specials_def)

context hash_grower
begin

lemma reinsert_now:
  assumes ok: "core_ok ind" "exclusive ind" and k: "\<not> IS_SPECIAL_KEY k" "art_map (tree ind) k = None"
    and now: "hash_room ind k \<or> \<not> h_count (hash ind) * 5 < tree_size (tree ind)"
  shows "reinserted ind k v (index_reinsert alloc grow ind k v)"
proof -
  obtain ind1 freq st where e: "hash_modify ind k v INSERT = (ind1, freq, st)" by (rule prod_cases3)
  note R = room_inserts [OF ok k e]
  show ?thesis
    using R now ok unfolding reinserted_def by (subst index_reinsert.simps) (auto simp: e same_specials_def split: if_splits)
qed

lemma reinsert_grows:
  "core_ok ind \<Longrightarrow> exclusive ind \<Longrightarrow> \<not> IS_SPECIAL_KEY k \<Longrightarrow> art_map (tree ind) k = None \<Longrightarrow> tree_small ind \<Longrightarrow>
    h_size (hash ind) = 2 ^ n \<Longrightarrow> h_seed (hash ind) \<noteq> 0 \<Longrightarrow> 4 \<le> n \<Longrightarrow> n \<le> m \<Longrightarrow> m \<le> 35 \<Longrightarrow> card (crowd ind m k) < 8 \<Longrightarrow>
    reinserted ind k v (index_reinsert (\<lambda>_. True) grow ind k v)"
proof (induction "m - n" arbitrary: ind n rule: less_induct)
  case less
  show ?case
  proof (cases "hash_room ind k \<or> \<not> h_count (hash ind) * 5 < tree_size (tree ind)")
    case True
    then show ?thesis using reinsert_now less.prems by blast
  next
    case False
    obtain ind1 freq st where e: "hash_modify ind k v INSERT = (ind1, freq, st)" by (rule prod_cases3)
    have R: "st \<noteq> 0" "ind1 = ind" "core_map ind k = None"
      using room_inserts [OF less.prems(1-4) e] False by simp_all
    have hok: "hash_ok (hash ind)" and tok: "tree_ok (tree ind)" using less.prems(1) by (simp_all add: core_ok_def)
    have lt: "n < m"
    proof (rule ccontr)
      assume "\<not> n < m"
      then have "n = m" using less.prems(9) by simp
      then show False using no_room_crowd [OF hok less.prems(6) _ less.prems(3)] False less.prems(10,11) by simp
    qed
    obtain hs where hs: "grow (hash ind) = Some hs" "hash_ok hs" "hash_map hs = hash_map (hash ind)" "h_size hs = 2 ^ Suc n"
      "h_seed hs = h_seed (hash ind)" using grow [OF hok less.prems(6) _ less.prems(7)] lt less.prems(10) by auto
    let ?ind = "ind\<lparr>hash := hs, cm := countmin_clear (cm ind)\<rparr>"
    have c: "core_ok ?ind" "exclusive ?ind" "core_map ?ind = core_map ind" "tree_small ?ind"
      using hs tok less.prems(2,5) by (simp_all add: core_ok_def exclusive_def core_map_def tree_small_def)
    have "tree_size (tree ind) \<noteq> 0" using False by auto
    then have "root (tree ?ind) \<noteq> None" using tree_size_root [OF tok] by simp
    then have "compact_safe (\<lambda>_. True) ?ind"
      using compact_safe_pow [of ?ind "Suc n"] hs(4) less.prems(8,10) lt c(4) by simp
    from index_compact_ok [OF c(1,2) this, of "4 / 5"] obtain ind2 where
      i2: "index_compact (\<lambda>_. True) ?ind (4 / 5) = Some ind2" "core_ok ind2" "exclusive ind2" "kept ind2 ?ind"
      and sh: "map_option shape (root (tree ind2)) = map_option shape (root (tree ?ind))" by blast
    have cm: "core_map ind2 = core_map ind" and ss: "same_specials ind2 ind"
      and geo: "h_size (hash ind2) = 2 ^ Suc n" "h_seed (hash ind2) = h_seed (hash ind)"
      using i2(4) c(3) hs by (simp_all add: kept_def same_rest_def same_specials_def)
    have am: "art_map (tree ind2) k = None" using R(3) cm by (metis core_map_def map_add_None)
    have cr: "crowd ind2 m k = crowd ind m k" by (simp add: crowd_def cm geo)
    have step: "index_reinsert (\<lambda>_. True) grow ind k v = index_reinsert (\<lambda>_. True) grow ind2 k v"
      using R False hs(1) i2(1) by (subst index_reinsert.simps) (simp add: e)
    have "reinserted ind2 k v (index_reinsert (\<lambda>_. True) grow ind2 k v)"
      by (rule less.hyps [OF _ i2(2,3) less.prems(3) am tree_small_shape [OF sh c(4)] geo(1) _ _ _ less.prems(10)])
        (use lt less.prems(7,8,11) in \<open>simp_all only: geo cr\<close>, simp_all)
    then show ?thesis unfolding step by (rule reinserted_from [OF cm ss])
  qed
qed

lemma index_reinsert_ok:
  assumes "core_ok ind" "exclusive ind" "\<not> IS_SPECIAL_KEY k" "art_map (tree ind) k = None" "growth_ends ind k"
  shows "reinserted ind k v (index_reinsert (\<lambda>_. True) grow ind k v)"
  using reinsert_now [OF assms(1-4)] reinsert_grows [OF assms(1-4)] assms(5) unfolding growth_ends_def by blast

lemma grown_ok:
  assumes ok: "index_ok ind" and n: "h_size (hash ind) = 2 ^ n" "3 \<le> n" "n < 35" and seed: "h_seed (hash ind) \<noteq> 0"
    and t: "tree_small ind" "root (tree ind) \<noteq> None"
  obtains hs where "grow (hash ind) = Some hs" "h_size hs = 2 ^ Suc n" "core_ok (ind\<lparr>hash := hs\<rparr>)" "exclusive (ind\<lparr>hash := hs\<rparr>)"
    "core_map (ind\<lparr>hash := hs\<rparr>) = core_map ind" "compact_safe (\<lambda>_. True) (ind\<lparr>hash := hs\<rparr>)"
proof -
  have hok: "hash_ok (hash ind)" using ok by (simp add: index_ok_def core_ok_def)
  obtain hs where hs: "grow (hash ind) = Some hs" "hash_ok hs" "hash_map hs = hash_map (hash ind)" "h_size hs = 2 ^ Suc n"
    using grow [OF hok n(1) _ seed] n(3) by auto
  let ?ind = "ind\<lparr>hash := hs\<rparr>"
  have c: "core_ok ?ind" "exclusive ?ind" "core_map ?ind = core_map ind" "tree_small ?ind"
    using hs ok t by (simp_all add: index_ok_def core_ok_def exclusive_def core_map_def tree_small_def)
  have "compact_safe (\<lambda>_. True) ?ind" using compact_safe_pow [of ?ind "Suc n"] hs(4) n c(4) t(2) by simp
  with that hs c show thesis by blast
qed

lemma index_expand_ok:
  assumes ok: "index_ok ind" and n: "h_size (hash ind) = 2 ^ n" "3 \<le> n" "n < 35" and seed: "h_seed (hash ind) \<noteq> 0"
    and t: "tree_small ind" "root (tree ind) \<noteq> None"
  shows "\<exists>ind'. index_expand (\<lambda>_. True) grow ind = Some ind' \<and> index_ok ind' \<and> index_map ind' = index_map ind \<and>
    h_size (hash ind') = 2 ^ Suc n"
proof -
  obtain hs where hs: "grow (hash ind) = Some hs" "h_size hs = 2 ^ Suc n" "core_ok (ind\<lparr>hash := hs\<rparr>)" "exclusive (ind\<lparr>hash := hs\<rparr>)"
    "core_map (ind\<lparr>hash := hs\<rparr>) = core_map ind" "compact_safe (\<lambda>_. True) (ind\<lparr>hash := hs\<rparr>)" by (rule grown_ok [OF assms])
  from index_compact_ok [OF hs(3,4,6), of "4 / 5"] obtain ind' where
    i: "index_compact (\<lambda>_. True) (ind\<lparr>hash := hs\<rparr>) (4 / 5) = Some ind'" "core_ok ind'" "exclusive ind'" "kept ind' (ind\<lparr>hash := hs\<rparr>)"
    by blast
  have m: "core_map ind' = core_map ind" "same_specials ind' ind" "h_size (hash ind') = 2 ^ Suc n"
    using i(4) hs(2,5) by (simp_all add: kept_def same_rest_def same_specials_def)
  then show ?thesis
    using i hs(1) index_ok_specials [OF ok i(2,3) m(2)] index_map_same [OF m(1,2)] by (simp add: index_expand_def)
qed

end

interpretation copying: hash_grower "hash_expand_copy (\<lambda>_. True) rnd" for rnd
proof
  fix hs n
  assume a: "hash_ok hs" "h_size hs = 2 ^ n" "n < 63" "h_seed hs \<noteq> 0"
  have "hash_expand_copy (\<lambda>_. True) rnd hs \<noteq> None" by (simp add: hash_expand_copy_def hash_construct_def Let_def)
  then obtain hs' where e: "hash_expand_copy (\<lambda>_. True) rnd hs = Some hs'" by blast
  with hash_expand_copy_ok [OF a e] show "\<exists>hs'. hash_expand_copy (\<lambda>_. True) rnd hs = Some hs' \<and> hash_ok hs' \<and>
      hash_map hs' = hash_map hs \<and> h_size hs' = 2 ^ Suc n \<and> h_seed hs' = h_seed hs" by blast
qed

interpretation reinserting: hash_grower "hash_expand_reinsert (\<lambda>_. True) rnd" for rnd
proof
  fix hs n
  assume a: "hash_ok hs" "h_size hs = 2 ^ n" "n < 63" "h_seed hs \<noteq> 0"
  have "hash_expand_reinsert (\<lambda>_. True) rnd hs \<noteq> None" by (simp add: hash_expand_reinsert_def hash_construct_def Let_def)
  then obtain hs' where e: "hash_expand_reinsert (\<lambda>_. True) rnd hs = Some hs'" by blast
  with hash_expand_reinsert_ok [OF a e] show "\<exists>hs'. hash_expand_reinsert (\<lambda>_. True) rnd hs = Some hs' \<and> hash_ok hs' \<and>
      hash_map hs' = hash_map hs \<and> h_size hs' = 2 ^ Suc n \<and> h_seed hs' = h_seed hs" by blast
qed

end
