(* ===== verification/Index_Laws.thy ===== *)
theory Index_Laws
  imports Index_Correct
begin

text \<open>
  The properties of the whole index: every operation of \<open>hetero.c\<close> against the map of the index, the
  index as a key-value store, and the input on which a deleted key comes back.
\<close>

section \<open>Insertion\<close>

definition insert_ready :: "(hash_sys \<Rightarrow> hash_sys option) \<Rightarrow> index_sys \<Rightarrow> u64 \<Rightarrow> u64 \<Rightarrow> nat \<Rightarrow> bool" where
  "insert_ready grow ind k v storage \<longleftrightarrow> IS_SPECIAL_KEY k \<or>
     art_map (tree ind) k = None \<and>
     (if storage = MEM_TYPE then growth_ends ind k \<and>
        (case index_reinsert (\<lambda>_. True) grow ind k v of Some (ind1, False) \<Rightarrow> mem_safe k 0 (root (tree ind1)) | _ \<Rightarrow> True)
      else hash_map (hash ind) k = None)"

lemma tree_insert_ok:
  assumes ok: "core_ok ind" "exclusive ind" and k: "\<not> IS_SPECIAL_KEY k" "core_map ind k = None" and st: "storage < 8"
    and safe: "storage = MEM_TYPE \<longrightarrow> mem_safe k 0 (root (tree ind))"
    and eq: "art_insert_no_replace (tree ind) k (KEY_LEN + storage) v = (t, old)"
  shows "old = None \<and> core_ok (ind\<lparr>tree := t\<rparr>) \<and> exclusive (ind\<lparr>tree := t\<rparr>) \<and>
    core_map (ind\<lparr>tree := t\<rparr>) = (core_map ind)(k \<mapsto> v)"
proof -
  have n: "art_map (tree ind) k = None" "hash_map (hash ind) k = None"
    using k(2) by (simp_all add: core_map_def map_add_None)
  have tok: "tree_ok (tree ind)" using ok(1) by (simp add: core_ok_def)
  have I: "tree_ok t \<and> art_map t = (art_map (tree ind))(k \<mapsto> v) \<and> old = None"
    using insert_with_ok [OF tok k(1) st, of False v t old] safe eq n(1)
    by (simp add: art_insert_no_replace_def tree_insert_safe_def)
  then show ?thesis using core_upd [OF ok(1) _ n(2), of t v] ok(2) by blast
qed

text \<open>What both insertions do with a key for the tree, and after the loop over the table. Storage types below 8
  are the ones that the three low bits of \<open>key_len\<close> can hold next to \<open>KEY_LEN\<close>.\<close>

lemma or_KEY_LEN:
  assumes "st < KEY_LEN"
  shows "st OR KEY_LEN = KEY_LEN + st"
proof -
  have "st \<in> {0, 1, 2, 3, 4, 5, 6, 7}" using assms by auto
  then show ?thesis by auto
qed

definition tree_insert :: "u64 \<Rightarrow> u64 \<Rightarrow> nat \<Rightarrow> index_sys \<Rightarrow> (index_sys \<times> int) option" where
  "tree_insert k v storage ind = (let (t, old) = art_insert_no_replace (tree ind) k (storage OR KEY_LEN) v
     in Some (ind\<lparr>tree := t\<rparr>, if old \<noteq> None then 1 else 0))"

definition inserted_ok :: "index_sys \<Rightarrow> u64 \<Rightarrow> u64 \<Rightarrow> (index_sys \<times> int) option \<Rightarrow> bool" where
  "inserted_ok ind k v r \<longleftrightarrow> (\<exists>ind'. r = Some (ind', 0) \<and> index_ok ind' \<and> index_map ind' = (index_map ind)(k \<mapsto> v))"

lemma tree_branch:
  assumes ok: "index_ok ind" and k: "\<not> IS_SPECIAL_KEY k" and st: "storage < 8"
    and i: "core_ok ind1" "exclusive ind1" "core_map ind1 = core_map ind" "core_map ind k = None" "same_specials ind1 ind"
    and safe: "storage = MEM_TYPE \<longrightarrow> mem_safe k 0 (root (tree ind1))"
  shows "inserted_ok ind k v (tree_insert k v storage ind1)"
proof -
  obtain t old where e: "art_insert_no_replace (tree ind1) k (KEY_LEN + storage) v = (t, old)" by (rule prod.exhaust)
  then have e': "art_insert_no_replace (tree ind1) k (storage OR KEY_LEN) v = (t, old)" using st by (simp add: or_KEY_LEN)
  have n: "core_map ind1 k = None" using i(3,4) by simp
  note I = tree_insert_ok [OF i(1,2) k n st safe e]
  have ss: "same_specials (ind1\<lparr>tree := t\<rparr>) ind" using i(5) by (simp add: same_specials_def)
  have "index_map (ind1\<lparr>tree := t\<rparr>) = (index_map ind)(k \<mapsto> v)" "index_ok (ind1\<lparr>tree := t\<rparr>)"
    using I index_map_upd [OF _ ss k] index_ok_specials [OF ok _ _ ss] i(3) by simp_all
  then show ?thesis using I by (simp add: inserted_ok_def tree_insert_def e')
qed

lemma after_reinsert:
  assumes ok: "index_ok ind" and k: "\<not> IS_SPECIAL_KEY k" and r: "reinserted ind k v r"
    and safe: "case r of Some (ind1, False) \<Rightarrow> mem_safe k 0 (root (tree ind1)) | _ \<Rightarrow> True"
  shows "inserted_ok ind k v (Option.bind r (\<lambda>(ind, inserted). if inserted then Some (ind, 0) else tree_insert k v MEM_TYPE ind))"
proof -
  obtain ind1 inserted where r: "r = Some (ind1, inserted)" "core_ok ind1" "exclusive ind1" "same_specials ind1 ind"
    "if inserted then core_map ind1 = (core_map ind)(k \<mapsto> v) else core_map ind1 = core_map ind \<and> core_map ind k = None"
    using r unfolding reinserted_def by blast
  show ?thesis
  proof (cases inserted)
    case True
    then have m: "core_map ind1 = (core_map ind)(k \<mapsto> v)" using r(5) by simp
    show ?thesis using index_map_upd [OF m r(4) k] index_ok_specials [OF ok r(2,3,4)] r(1) True by (simp add: inserted_ok_def)
  next
    case False
    have "storage = MEM_TYPE \<longrightarrow> mem_safe k 0 (root (tree ind1))" for storage :: nat using safe r(1) False by simp
    then show ?thesis using tree_branch [OF ok k _ r(2,3), of MEM_TYPE v] r False by simp
  qed
qed

lemma index_insert_mem: "\<not> IS_SPECIAL_KEY k \<Longrightarrow> index_insert alloc grow ind k v MEM_TYPE =
    Option.bind (index_reinsert alloc grow ind k v)
      (\<lambda>(ind, inserted). if inserted then Some (ind, 0) else tree_insert k v MEM_TYPE ind)"
  unfolding index_insert_def tree_insert_def [abs_def] Let_def by simp

context hash_grower
begin

lemma index_insert_ok:
  assumes ok: "index_ok ind" and st: "storage < 8" and ready: "insert_ready grow ind k v storage"
  shows "inserted_ok ind k v (index_insert (\<lambda>_. True) grow ind k v storage)"
proof (cases "IS_SPECIAL_KEY k")
  case True
  then show ?thesis using store_special_ok [OF ok True, of v] by (simp add: index_insert_def inserted_ok_def)
next
  case k: False
  have c: "core_ok ind" "exclusive ind" using ok by (simp_all add: index_ok_def)
  have am: "art_map (tree ind) k = None" using ready k by (simp add: insert_ready_def)
  show ?thesis
  proof (cases "storage = MEM_TYPE")
    case False
    then have "core_map ind k = None" using ready k am by (simp add: insert_ready_def core_map_def map_add_def)
    from tree_branch [OF ok k st c refl this, of v] show ?thesis
      using False k by (simp add: index_insert_def same_specials_def tree_insert_def)
  next
    case True
    have R: "reinserted ind k v (index_reinsert (\<lambda>_. True) grow ind k v)"
      using index_reinsert_ok [OF c k am] ready k True by (simp add: insert_ready_def)
    have "inserted_ok ind k v (index_insert (\<lambda>_. True) grow ind k v MEM_TYPE)"
      unfolding index_insert_mem [OF k]
      by (rule after_reinsert [OF ok k R]) (use ready k True in \<open>simp add: insert_ready_def\<close>)
    with True show ?thesis by simp
  qed
qed

end

section \<open>Deletion\<close>

definition delete_ready :: "(nat \<Rightarrow> bool) \<Rightarrow> index_sys \<Rightarrow> u64 \<Rightarrow> bool" where
  "delete_ready alloc ind k \<longleftrightarrow> IS_SPECIAL_KEY k \<or>
     (if hash_map (hash ind) k = None then tree_del_safe (tree ind) k
      else buffer_count (tree ind) \<noteq> 0 \<longrightarrow> compact_safe alloc ind)"

lemma hash_delete_geometry:
  "hash_search ind k False HASH_DELETE = (ind', freq, res, found) \<Longrightarrow>
    h_size (hash ind') = h_size (hash ind) \<and> tree ind' = tree ind"
  unfolding hash_search_def by (auto simp: set_entry_def Let_def split: option.splits)

lemma core_map_delete:
  assumes "hash_map (hash ind') = (hash_map (hash ind))(k := None)" "art_map (tree ind') = (art_map (tree ind))(k := None)"
  shows "core_map ind' = (core_map ind)(k := None)" "exclusive ind \<Longrightarrow> exclusive ind'"
  using assms by (auto simp: core_map_def exclusive_def fun_eq_iff map_add_def split: option.splits)

definition deleted_ok :: "index_sys \<Rightarrow> u64 \<Rightarrow> (index_sys \<times> int) option \<Rightarrow> bool" where
  "deleted_ok ind k r \<longleftrightarrow> (\<exists>ind'. r = Some (ind', if index_map ind k = None then 1 else 0) \<and> index_ok ind' \<and>
    index_map ind' = (index_map ind)(k := None))"

text \<open>After \<open>hash_delete\<close>: the key was not in the table, or it was.\<close>

lemma delete_from_tree:
  assumes ok: "index_ok ind" and k: "\<not> IS_SPECIAL_KEY k" "hash_map (hash ind) k = None" "tree_del_safe (tree ind) k"
    and e: "hash_search ind k False HASH_DELETE = (ind1, freq, res, found)"
  shows "\<not> found" "deleted_ok ind k (case art_delete (tree ind1) k KEY_LEN of
      (t, old) \<Rightarrow> Some (ind1\<lparr>tree := t\<rparr>, if old = None then 1 else 0))"
proof -
  have c: "core_ok ind" "exclusive ind" using ok by (simp_all add: index_ok_def)
  have hok: "hash_ok (hash ind)" and tok: "tree_ok (tree ind)" using c(1) by (simp_all add: core_ok_def)
  note H = hash_delete_ok [OF hok k(1) e]
  show "\<not> found" using H k(2) by simp
  have "ind1 = ind\<lparr>hash := hash ind1\<rparr>" using H by blast
  note h1 = hash_onlyD [OF this]
  obtain t old where d: "art_delete (tree ind) k KEY_LEN = (t, old)" by (rule prod.exhaust)
  note D = delete_ok [OF tok k(1,3) d]
  let ?ind = "ind1\<lparr>tree := t\<rparr>"
  have m: "core_map ?ind = (core_map ind)(k := None)" "exclusive ?ind"
    using core_map_delete [of ?ind ind k] H D c(2) by simp_all
  have ss: "same_specials ?ind ind" using h1 by (simp add: same_specials_def)
  have "core_map ind k = old" using D k(2) by (simp add: core_map_def map_add_def)
  then have "index_map ind k = old" using k(1) by (simp add: index_map_def)
  then show "deleted_ok ind k (case art_delete (tree ind1) k KEY_LEN of
      (t, old) \<Rightarrow> Some (ind1\<lparr>tree := t\<rparr>, if old = None then 1 else 0))"
    using index_map_upd [OF m(1) ss k(1)] index_ok_specials [OF ok _ m(2) ss] H D d h1(1)
    by (simp add: core_ok_def deleted_ok_def)
qed

lemma delete_from_table:
  assumes ok: "index_ok ind" and k: "\<not> IS_SPECIAL_KEY k" "hash_map (hash ind) k \<noteq> None"
    and e: "hash_search ind k False HASH_DELETE = (ind1, freq, res, found)"
  shows "found" "core_ok ind1" "exclusive ind1" "deleted_ok ind k (Some (ind1, 0))"
    "core_ok ind2 \<Longrightarrow> exclusive ind2 \<Longrightarrow> kept ind2 ind1 \<Longrightarrow> deleted_ok ind k (Some (ind2, 0))"
proof -
  have c: "core_ok ind" "exclusive ind" using ok by (simp_all add: index_ok_def)
  have hok: "hash_ok (hash ind)" and tok: "tree_ok (tree ind)" using c(1) by (simp_all add: core_ok_def)
  note H = hash_delete_ok [OF hok k(1) e]
  have "ind1 = ind\<lparr>hash := hash ind1\<rparr>" using H by blast
  note h1 = hash_onlyD [OF this]
  have am: "art_map (tree ind) k = None" using c(2) k(2) by (metis exclusive_def)
  have m: "core_map ind1 = (core_map ind)(k := None)" "exclusive ind1"
    using core_map_delete [of ind1 ind k] H h1 am c(2) by (simp_all add: fun_upd_idem)
  show f: found and x: "exclusive ind1" and c1: "core_ok ind1" using k(2) H m h1 tok by (simp_all add: core_ok_def)
  have im: "index_map ind k \<noteq> None" using k by (auto simp: index_map_def core_map_def map_add_def split: option.split)
  show "deleted_ok ind k (Some (ind1, 0))"
    using im index_map_upd [OF m(1) h1(2) k(1)] index_ok_specials [OF ok c1 x h1(2)] by (auto simp: deleted_ok_def)
  show "deleted_ok ind k (Some (ind2, 0))" if i: "core_ok ind2" "exclusive ind2" "kept ind2 ind1"
  proof -
    have m2: "core_map ind2 = (core_map ind)(k := None)" "same_specials ind2 ind"
      using i(3) m(1) h1(2) by (simp_all add: kept_def same_rest_def same_specials_def)
    show ?thesis
      using im index_map_upd [OF m2 k(1)] index_ok_specials [OF ok i(1,2) m2(2)] by (auto simp: deleted_ok_def)
  qed
qed

lemma index_delete_ok:
  assumes ok: "index_ok ind" and k: "\<not> IS_SPECIAL_KEY k" and ready: "delete_ready alloc ind k"
  shows "deleted_ok ind k (index_delete alloc ind k)"
proof -
  obtain ind1 freq res found where e: "hash_search ind k False HASH_DELETE = (ind1, freq, res, found)" by (rule prod_cases4)
  show ?thesis
  proof (cases "hash_map (hash ind) k = None")
    case True
    then show ?thesis using delete_from_tree [OF ok k True _ e] ready k e by (simp add: index_delete_def delete_ready_def)
  next
    case False
    note T = delete_from_table [OF ok k False e]
    show ?thesis
    proof (cases "load_factor_below (hash ind1) (6 / 10) \<and> buffer_count (tree ind1) \<noteq> 0")
      case True
      then have "compact_safe alloc ind1"
        using ready k False hash_delete_geometry [OF e] by (simp add: delete_ready_def compact_safe_def)
      from index_compact_ok [OF T(2,3) this, of "7 / 8"] show ?thesis using T(1,5) k e True by (auto simp: index_delete_def)
    qed (use T(1,4) k e in \<open>auto simp: index_delete_def\<close>)
  qed
qed

lemma special_delete_ok:
  assumes ok: "index_ok ind" and k: "IS_SPECIAL_KEY k"
  shows "deleted_ok ind k (index_delete alloc ind k)"
proof -
  have s: "length (has_special_key ind) = 2" "set (has_special_key ind) \<subseteq> {0, 1}"
    using ok by (simp_all add: index_ok_def specials_ok_def)
  have u: "unat k < 2" using k by (auto simp: IS_SPECIAL_KEY_iff)
  then have "has_special_key ind ! unat k \<in> set (has_special_key ind)" using s(1) by simp
  then have b: "has_special_key ind ! unat k = 0 \<or> has_special_key ind ! unat k = 1" using s(2) by blast
  show ?thesis
  proof (cases "has_special_key ind ! unat k = 1")
    case False
    then have "index_map ind k = None" "index_delete alloc ind k = Some (ind, 1)"
      using k b by (simp_all add: index_map_def index_delete_def)
    then show ?thesis using ok by (auto simp: fun_upd_idem deleted_ok_def)
  next
    case True
    let ?ind = "ind\<lparr>has_special_key := (has_special_key ind)[unat k := 0]\<rparr>"
    have "set ((has_special_key ind)[unat k := 0]) \<subseteq> {0, 1}"
      using s(2) set_update_subset_insert [of "has_special_key ind" "unat k" 0] by blast
    then have "index_ok ?ind"
      using ok by (simp add: index_ok_def core_ok_def exclusive_def specials_ok_def)
    moreover have "index_map ?ind x = ((index_map ind)(k := None)) x" for x
    proof (cases "x = k")
      case False
      then have "unat x \<noteq> unat k" by (simp add: word_unat_eq_iff [symmetric])
      then show ?thesis using False by (simp add: index_map_def core_map_def nth_list_update)
    qed (use k u s(1) in \<open>simp add: index_map_def\<close>)
    ultimately show ?thesis using k True by (auto simp: deleted_ok_def index_delete_def index_map_def fun_eq_iff)
  qed
qed

section \<open>Query and update\<close>

text \<open>The frequency that the sketch reports is a non-negative \<open>int\<close>, and a float that the search starts does
  not reinsert below a prefix.\<close>

definition query_ready :: "index_sys \<Rightarrow> u64 \<Rightarrow> bool" where
  "query_ready ind k \<longleftrightarrow> IS_SPECIAL_KEY k \<or>
     (case hash_search ind k True HASH_QUERY of (ind', freq, res, found) \<Rightarrow>
        found \<or> (case freq of None \<Rightarrow> False | Some f \<Rightarrow> 0 \<le> f \<and> search_safe ind' k f None))"

definition update_ready :: "index_sys \<Rightarrow> u64 \<Rightarrow> u64 \<Rightarrow> bool" where
  "update_ready ind k v \<longleftrightarrow> IS_SPECIAL_KEY k \<or>
     (case hash_modify ind k v STRICT_UPDATE of (ind', freq, st) \<Rightarrow>
        st = 0 \<or> (case freq of None \<Rightarrow> False | Some f \<Rightarrow> 0 \<le> f \<and> f < 2 ^ 31 \<and> search_safe ind' k f (Some v)))"

lemma inc_bound: "snd (countmin_inc_explicit sk k e) < 2 ^ 31"
proof -
  have "sint (w :: u32) < 2 ^ 31" for w using sint_lt [of w] by simp
  then show ?thesis by (simp add: countmin_inc_explicit_def split: prod.split)
qed

lemma cm_only: "core_ok (ind\<lparr>cm := s\<rparr>) = core_ok ind" "core_map (ind\<lparr>cm := s\<rparr>) = core_map ind"
  "exclusive (ind\<lparr>cm := s\<rparr>) = exclusive ind" "same_specials (ind\<lparr>cm := s\<rparr>) ind"
  by (simp_all add: core_ok_def core_map_def exclusive_def same_specials_def)

lemma same_specials_trans: "same_specials c b \<Longrightarrow> same_specials b a \<Longrightarrow> same_specials c a"
  by (simp add: same_specials_def)

lemma index_query_ok:
  assumes ok: "index_ok ind" and ready: "query_ready ind k" and eq: "index_query ind k = (ind', res)"
  shows "res = index_map ind k \<and> index_ok ind' \<and> index_map ind' = index_map ind"
proof (cases "IS_SPECIAL_KEY k")
  case True
  then show ?thesis using eq ok by (auto simp: index_query_def index_map_def)
next
  case k: False
  have c: "core_ok ind" "exclusive ind" using ok by (simp_all add: index_ok_def)
  obtain ind1 freq r found where e: "hash_search ind k True HASH_QUERY = (ind1, freq, r, found)" by (rule prod_cases4)
  obtain s f where Q: "r = hash_map (hash ind) k" "found = (r \<noteq> None)" "ind1 = ind\<lparr>cm := s\<rparr>" "freq = Some f" "f < 2 ^ 31"
    using hash_query_ok [OF k e] inc_bound by (metis (no_types, lifting))
  have im: "index_map ind k = core_map ind k" using k by (simp add: index_map_def)
  note C = cm_only [where ind = ind and s = s]
  show ?thesis
  proof (cases found)
    case True
    then obtain w where w: "r = Some w" using Q(2) by blast
    then have "core_map ind k = r" using Q(1) by (simp add: core_map_def map_add_def)
    moreover have "ind' = ind1" "res = r" using eq k e True by (simp_all add: index_query_def)
    ultimately show ?thesis
      using im Q(3) C index_ok_specials [OF ok] index_map_same [OF C(2,4)] c by simp
  next
    case False
    have s: "0 \<le> f" "search_safe ind1 k f None" using ready k e False Q(4) by (simp_all add: query_ready_def)
    have a: "art_search ind1 k f = (ind', res)" using eq k e False Q(4) by (simp add: index_query_def)
    have fresh: "hash_map (hash ind1) k = None" using Q False by simp
    have c1: "core_ok ind1" using c(1) C(1) Q(3) by simp
    note A = art_search_ok [OF c1 k fresh s(1) Q(5) s(2) a]
    have m: "core_map ind' = core_map ind" and ss: "same_specials ind' ind"
      using A C(2) Q(3) same_specials_trans [OF same_rest_specials C(4)] by simp_all
    have "core_map ind k = res" using A C(2) Q(3) fresh by (metis core_map_def map_add_dom_app_simps(3) domIff)
    then show ?thesis
      using A im c(2) C(3) Q(3) index_ok_specials [OF ok _ _ ss] index_map_same [OF m ss] by simp
  qed
qed

lemma index_update_ok:
  assumes ok: "index_ok ind" and ready: "update_ready ind k v" and eq: "index_update ind k v = (ind', r)"
  shows "index_ok ind' \<and>
    index_map ind' = (if IS_SPECIAL_KEY k \<or> index_map ind k \<noteq> None then (index_map ind)(k \<mapsto> v) else index_map ind) \<and>
    (r = 0 \<longrightarrow> IS_SPECIAL_KEY k \<or> index_map ind k \<noteq> None) \<and> (index_map ind k \<notin> {None, Some 0} \<longrightarrow> r = 0)"
proof (cases "IS_SPECIAL_KEY k")
  case True
  then show ?thesis using eq store_special_ok [OF ok True, of v] by (auto simp: index_update_def)
next
  case k: False
  have c: "core_ok ind" "exclusive ind" using ok by (simp_all add: index_ok_def)
  have hok: "hash_ok (hash ind)" using c(1) by (simp add: core_ok_def)
  have im: "index_map ind k = core_map ind k" using k by (simp add: index_map_def)
  obtain ind1 freq st where e: "hash_modify ind k v STRICT_UPDATE = (ind1, freq, st)" by (rule prod_cases3)
  note H = hash_update_ok [OF hok k e]
  show ?thesis
  proof (cases "hash_map (hash ind) k")
    case (Some w)
    then have h: "st = 0" "hash_ok (hash ind1)" "hash_map (hash ind1) = (hash_map (hash ind))(k \<mapsto> v)" "tree ind1 = tree ind"
      "same_specials ind1 ind" using H by simp_all
    have "art_map (tree ind) k = None" using c(2) Some by (metis exclusive_def option.distinct(1))
    then have am: "art_map (tree ind1) = (art_map (tree ind))(k := None)" using h(4) by (simp add: fun_upd_idem)
    note M = core_map_move [OF h(3) am]
    have "ind' = ind1" "r = 0" using eq k e h(1) by (simp_all add: index_update_def)
    moreover have "core_map ind k \<noteq> None" using Some by (simp add: core_map_def map_add_def)
    ultimately show ?thesis
      using k im M(2) c h index_map_upd [OF M(1) h(5) k] index_ok_specials [OF ok _ _ h(5)] by (simp add: core_ok_def)
  next
    case None
    then obtain s f where h: "st = ELEMENT_NOT_FOUND" "ind1 = ind\<lparr>cm := s\<rparr>" "freq = Some f" using H by auto
    have s: "0 \<le> f" "f < 2 ^ 31" "search_safe ind1 k f (Some v)" using ready k e h by (simp_all add: update_ready_def)
    obtain found where a: "art_update ind1 k f v = (ind', found)" "r = (if found then 0 else 1)"
      using eq k e h by (auto simp: index_update_def split: prod.splits)
    note C = cm_only [where ind = ind and s = s]
    have c1: "core_ok ind1" "hash_map (hash ind1) k = None" "exclusive ind1" "core_map ind1 = core_map ind" "tree ind1 = tree ind"
      using c C(1,2,3) h(2) None by simp_all
    note A = art_update_ok [OF c1(1) k c1(2) s(1,2,3) a(1)]
    have ss: "same_specials ind' ind" using A C(4) h(2) same_specials_trans [OF same_rest_specials] by blast
    have am: "core_map ind k = art_map (tree ind) k" using None by (simp add: core_map_def map_add_def)
    have m: "core_map ind' = (if core_map ind k = None then core_map ind else (core_map ind)(k \<mapsto> v))"
      using A c1(4,5) am by simp
    have iok: "index_ok ind'" using A c1(3) index_ok_specials [OF ok _ _ ss] by blast
    show ?thesis
    proof (cases "core_map ind k = None")
      case True
      then show ?thesis using A a(2) am c1(5) iok im k m index_map_same [OF _ ss] by auto
    next
      case False
      then show ?thesis using A a(2) am c1(5) iok im k m index_map_upd [OF _ ss k] by auto
    qed
  qed
qed

section \<open>Size and construction\<close>

lemma card_specials:
  fixes f :: "nat \<Rightarrow> u8"
  assumes "f 0 \<in> {0, 1}" "f 1 \<in> {0, 1}"
  shows "of_nat (card {k :: u64. IS_SPECIAL_KEY k \<and> f (unat k) \<noteq> 0}) = (ucast (f 0) + ucast (f 1) :: u64)"
proof -
  have "{k :: u64. IS_SPECIAL_KEY k \<and> f (unat k) \<noteq> 0} =
      (if f 0 \<noteq> 0 then {0} else {}) \<union> (if f 1 \<noteq> 0 then {1} else {})"
    by (auto simp: IS_SPECIAL_KEY_iff)
  with assms show ?thesis by (auto simp: card_insert_if)
qed

lemma index_size_ok:
  assumes ok: "index_ok ind"
  shows "index_size ind = of_nat (card (dom (index_map ind)))"
proof -
  let ?S = "{k :: u64. IS_SPECIAL_KEY k \<and> has_special_key ind ! unat k \<noteq> 0}"
  have s: "length (has_special_key ind) = 2" "set (has_special_key ind) \<subseteq> {0, 1}"
    using ok by (simp_all add: index_ok_def specials_ok_def)
  have f: "has_special_key ind ! 0 \<in> {0, 1}" "has_special_key ind ! 1 \<in> {0, 1}"
    by (rule subsetD [OF s(2)], simp add: s(1))+
  have "dom (index_map ind) = dom (core_map ind) \<union> ?S"
    using core_special [of _ ind] by (auto simp: index_map_def split: if_splits)
  then have d: "dom (index_map ind) = dom (hash_map (hash ind)) \<union> dom (art_map (tree ind)) \<union> ?S"
    by (simp add: core_map_def)
  have hk: "k \<in> dom (hash_map (hash ind)) \<union> dom (art_map (tree ind)) \<Longrightarrow> \<not> IS_SPECIAL_KEY k" for k
    using core_special [of k ind] by (auto simp: core_map_def map_add_def split: option.splits)
  have "card (dom (index_map ind)) = card (dom (hash_map (hash ind))) + card (dom (art_map (tree ind))) + card ?S"
    unfolding d
  proof (subst card_Un_disjoint)
    show "(dom (hash_map (hash ind)) \<union> dom (art_map (tree ind))) \<inter> ?S = {}" using hk by blast
    have "dom (hash_map (hash ind)) \<inter> dom (art_map (tree ind)) = {}"
    proof (rule Int_emptyI)
      fix x
      assume "x \<in> dom (hash_map (hash ind))" "x \<in> dom (art_map (tree ind))"
      moreover have "hash_map (hash ind) x = None \<or> art_map (tree ind) x = None"
        using ok by (simp add: index_ok_def exclusive_def)
      ultimately show False by auto
    qed
    then show "card (dom (hash_map (hash ind)) \<union> dom (art_map (tree ind))) + card ?S =
        card (dom (hash_map (hash ind))) + card (dom (art_map (tree ind))) + card ?S" by (simp add: card_Un_disjoint)
  qed simp_all
  then show ?thesis
    using ok hash_okD(2) [of "hash ind"] card_specials [OF f]
    by (simp add: index_size_def index_ok_def core_ok_def tree_ok_def)
qed

lemma index_construct_ok:
  assumes "index_construct alloc rnd rnd' sz seed = Some ind" "sz = 2 ^ n" "n < 64"
  shows "index_ok ind" "index_map ind = Map.empty"
proof -
  obtain hs sk where h: "hash_construct alloc rnd sz (ucast seed) = Some hs"
    "ind = \<lparr>has_special_key = [0, 0], special_key_val = [0, 0], cm = sk, hash = hs, tree = art_tree_init\<rparr>"
    using assms(1) by (auto simp: index_construct_def split: if_splits option.splits)
  note H = hash_construct_ok [OF h(1) assms(2,3)]
  show "index_ok ind" using H tree_ok_init h(2) by (simp add: index_ok_def core_ok_def exclusive_def specials_ok_def)
  show "index_map ind = Map.empty"
  proof (rule ext)
    fix k
    show "index_map ind k = Map.empty k"
    proof (cases "IS_SPECIAL_KEY k")
      case True
      then have "unat k = 0 \<or> unat k = 1" by (auto simp: IS_SPECIAL_KEY_iff)
      with True h(2) show ?thesis by (auto simp: index_map_def)
    qed (use H tree_ok_init h(2) in \<open>simp add: index_map_def core_map_def\<close>)
  qed
qed

text \<open>The sketch takes the number of bins as its width and refuses six rows that use more than 128 bits.\<close>

lemma index_construct_bound:
  assumes "n < 32"
  shows "index_construct (\<lambda>_. True) rnd rnd' (2 ^ n) seed \<noteq> None \<longleftrightarrow> n \<le> 21"
proof -
  have w: "ucast (2 ^ n :: u64) = (2 ^ n :: u32)" by (rule bit_word_eqI) (auto simp: bit_simps)
  have p: "(2 ^ n :: u32) AND (2 ^ n - 1) = 0"
    by (rule bit_word_eqI) (auto simp: bit_simps mask_eq_exp_minus_1 [symmetric])
  have c: "ctz32 (2 ^ n) = n" using assms by (intro ctz32_least) (auto simp: bit_simps)
  have "\<not> of_nat n * 6 > (128 :: u32) \<longleftrightarrow> n \<le> 21"
  proof -
    have "unat (of_nat n * 6 :: u32) = n * 6"
      using assms by (simp add: unat_word_ariths unat_of_nat take_bit_nat_eq_self)
    then show ?thesis by (simp add: word_less_nat_alt) arith
  qed
  then show ?thesis
    by (simp add: index_construct_def hash_construct_def sketch_construct_def w p c Let_def) blast
qed

section \<open>Compaction\<close>

lemma compact_call_ok:
  assumes "index_ok ind" "compact_safe alloc ind"
  shows "\<exists>ind'. index_compact alloc ind mlf = Some ind' \<and> index_ok ind' \<and> index_map ind' = index_map ind"
proof -
  have c: "core_ok ind" "exclusive ind" using assms(1) by (simp_all add: index_ok_def)
  from index_compact_ok [OF c assms(2)] obtain ind' where
    i: "index_compact alloc ind mlf = Some ind'" "core_ok ind'" "exclusive ind'" "kept ind' ind" by blast
  then have "core_map ind' = core_map ind" "same_specials ind' ind" by (simp_all add: kept_def same_rest_specials)
  with i index_ok_specials [OF assms(1) i(2,3)] index_map_same show ?thesis by blast
qed

section \<open>The index as a store\<close>

definition index_put :: "u64 \<Rightarrow> u64 \<Rightarrow> index_sys \<Rightarrow> index_sys" where
  "index_put k v ind = (case index_insert (\<lambda>_. True) (hash_expand_copy (\<lambda>_. True) 0) ind k v MEM_TYPE of
     Some (ind', r) \<Rightarrow> ind' | None \<Rightarrow> ind)"

definition index_del :: "u64 \<Rightarrow> index_sys \<Rightarrow> index_sys" where
  "index_del k ind = (case index_delete (\<lambda>_. True) ind k of Some (ind', r) \<Rightarrow> ind' | None \<Rightarrow> ind)"

definition put_ready :: "index_sys \<Rightarrow> u64 \<Rightarrow> u64 \<Rightarrow> bool" where
  "put_ready ind k v \<longleftrightarrow> insert_ready (hash_expand_copy (\<lambda>_. True) 0) ind k v MEM_TYPE"

definition del_ready :: "index_sys \<Rightarrow> u64 \<Rightarrow> bool" where
  "del_ready ind k \<longleftrightarrow> delete_ready (\<lambda>_. True) ind k"

interpretation idx: kv_store index_ok index_map index_put index_del put_ready del_ready
proof
  fix ind k v
  assume "index_ok ind" "\<not> IS_SPECIAL_KEY k" "put_ready ind k v"
  then show "index_ok (index_put k v ind) \<and> index_map (index_put k v ind) = (index_map ind)(k \<mapsto> v)"
    using copying.index_insert_ok [of ind MEM_TYPE 0 k v] by (auto simp: index_put_def put_ready_def inserted_ok_def)
next
  fix ind k
  assume "index_ok ind" "\<not> IS_SPECIAL_KEY k" "del_ready ind k"
  then have "index_ok ind" "\<not> IS_SPECIAL_KEY k" "delete_ready (\<lambda>_. True) ind k" by (simp_all add: del_ready_def)
  then show "index_ok (index_del k ind) \<and> index_map (index_del k ind) = (index_map ind)(k := None)"
    using index_delete_ok [of ind k "\<lambda>_. True"] by (auto simp: index_del_def deleted_ok_def)
qed

section \<open>A key inserted twice\<close>

text \<open>\<open>hash_insert\<close> does not look into the tree: afterwards table and tree may both have the key.\<close>

definition doubled :: "index_sys \<Rightarrow> u64 \<Rightarrow> u64 \<Rightarrow> index_sys \<Rightarrow> bool" where
  "doubled ind k v ind1 \<longleftrightarrow> ind1 = ind\<lparr>hash := hash ind1\<rparr> \<and> hash_ok (hash ind1) \<and> h_size (hash ind1) = h_size (hash ind) \<and>
    hash_map (hash ind1) = (hash_map (hash ind))(k \<mapsto> v)"

lemma hash_insert_geometry: "hash_modify ind k v INSERT = (ind', freq, st) \<Longrightarrow> h_size (hash ind') = h_size (hash ind)"
  unfolding hash_modify_def by (auto simp: set_entry_def Let_def split: if_splits option.splits prod.splits scan.splits)

lemma insert_doubles:
  assumes "index_ok ind" "\<not> IS_SPECIAL_KEY k" "hash_room ind k"
  obtains ind1 where "index_insert alloc grow ind k v MEM_TYPE = Some (ind1, 0)" "doubled ind k v ind1"
proof -
  have hok: "hash_ok (hash ind)" using assms(1) by (simp add: index_ok_def core_ok_def)
  obtain ind1 freq st where e: "hash_modify ind k v INSERT = (ind1, freq, st)" by (rule prod_cases3)
  have st: "st = 0" using hash_room_status [OF hok assms(2) e] assms(3) by simp
  have "index_reinsert alloc grow ind k v = Some (ind1, True)" by (subst index_reinsert.simps) (simp add: e st)
  then have "index_insert alloc grow ind k v MEM_TYPE = Some (ind1, 0)" using assms(2) by (simp add: index_insert_def)
  moreover have "doubled ind k v ind1"
    using hash_insert_ok [OF hok assms(2) e] hash_insert_geometry [OF e] st by (auto simp: doubled_def)
  ultimately show thesis by (rule that)
qed

lemma doubled_map:
  assumes "doubled ind k v ind1" "\<not> IS_SPECIAL_KEY k"
  shows "index_map ind1 = (index_map ind)(k \<mapsto> v)"
proof -
  have "ind1 = ind\<lparr>hash := hash ind1\<rparr>" and m: "hash_map (hash ind1) = (hash_map (hash ind))(k \<mapsto> v)"
    using assms(1) by (simp_all add: doubled_def)
  note h = hash_onlyD [OF this(1)]
  have "core_map ind1 = (core_map ind)(k \<mapsto> v)" using m h(1) by (simp add: core_map_def)
  then show ?thesis using h(2) assms(2) by (rule index_map_upd)
qed

lemma index_map_tree:
  assumes "index_ok ind" "\<not> IS_SPECIAL_KEY k" "art_map (tree ind) k = Some w"
  shows "index_map ind k = Some w" "hash_map (hash ind) k = None"
proof -
  show "hash_map (hash ind) k = None" using assms(1,3) by (metis exclusive_def index_ok_def option.distinct(1))
  then show "index_map ind k = Some w" using assms(2,3) by (simp add: index_map_def core_map_def map_add_def)
qed

text \<open>\<open>hash_delete\<close> finds the copy in the table, and the tree keeps the key.\<close>

lemma delete_undoubles:
  assumes "index_ok ind" "\<not> IS_SPECIAL_KEY k" "art_map (tree ind) k = Some w" "buffer_count (tree ind) \<noteq> 0 \<longrightarrow> compact_safe alloc ind"
    and "doubled ind k v ind1"
  obtains ind2 where "index_delete alloc ind1 k = Some (ind2, 0)" "index_ok ind2" "index_map ind2 = index_map ind"
proof -
  have D: "ind1 = ind\<lparr>hash := hash ind1\<rparr>" "hash_ok (hash ind1)" "h_size (hash ind1) = h_size (hash ind)"
    "hash_map (hash ind1) = (hash_map (hash ind))(k \<mapsto> v)" using assms(5) by (simp_all add: doubled_def)
  obtain ind2 freq res found where e: "hash_search ind1 k False HASH_DELETE = (ind2, freq, res, found)" by (rule prod_cases4)
  note H = hash_delete_ok [OF D(2) assms(2) e] and G = hash_delete_geometry [OF e] and h1 = hash_onlyD [OF D(1)]
  have f: found using H D(4) by simp
  have hm: "hash_map (hash ind2) = hash_map (hash ind)"
    using H D(4) index_map_tree(2) [OF assms(1-3)] by (simp add: fun_upd_idem)
  have t: "tree ind2 = tree ind" using G h1(1) by simp
  have "ind2 = ind1\<lparr>hash := hash ind2\<rparr>" using H by blast
  from hash_onlyD(2) [OF this] have ss: "same_specials ind2 ind" using h1(2) by (rule same_specials_trans)
  have "core_map ind2 = core_map ind" "exclusive ind2" "core_ok ind2"
    using assms(1) H hm t by (simp_all add: core_map_def exclusive_def core_ok_def index_ok_def)
  then have i2: "index_ok ind2" "index_map ind2 = index_map ind"
    using index_ok_specials [OF assms(1) _ _ ss] index_map_same [OF _ ss] by blast+
  show thesis
  proof (cases "load_factor_below (hash ind2) (6 / 10) \<and> buffer_count (tree ind2) \<noteq> 0")
    case True
    then have "compact_safe alloc ind2" using assms(4) D(3) G t by (simp add: compact_safe_def)
    from compact_call_ok [OF i2(1) this, of "7 / 8"] show thesis using that assms(2) e f i2(2) True by (auto simp: index_delete_def)
  qed (use that [of ind2] assms(2) e f i2 in \<open>auto simp: index_delete_def\<close>)
qed

section \<open>Sample indexes\<close>

text \<open>A table of 16 empty bins over a tree with the given keys.\<close>

definition wide_index :: "(u64 \<times> u64) list \<Rightarrow> index_sys" where
  "wide_index kvs = (index_of kvs)\<lparr>hash := \<lparr>h_seed = 42, h_size = 16, h_count = 0,
     entries = replicate 16 (replicate 8 empty_entry)\<rparr>\<rparr>"

lemma wide_index_ok:
  assumes "news_ok kvs art_tree_init"
  shows "index_ok (wide_index kvs)" "core_map (wide_index kvs) = art_map (tree (index_of kvs))" "hash_map (hash (wide_index kvs)) = Map.empty"
proof -
  have "hash_construct (\<lambda>_. True) 0 16 42 = Some (hash (wide_index kvs))"
    by (simp add: hash_construct_def wide_index_def)
  note H = hash_construct_ok [OF this, of 4, simplified]
  have t: "tree (wide_index kvs) = tree (index_of kvs)" "has_special_key (wide_index kvs) = [0, 0]" "special_key_val (wide_index kvs) = [0, 0]"
    by (simp_all add: wide_index_def index_of_def sample_index_def)
  show "index_ok (wide_index kvs)"
    using index_of_ok(1) [OF assms] H t by (simp add: index_ok_def core_ok_def exclusive_def specials_ok_def)
  show "core_map (wide_index kvs) = art_map (tree (index_of kvs))" "hash_map (hash (wide_index kvs)) = Map.empty"
    using H t by (simp_all add: core_map_def)
qed

lemma wide_compact_safe: "compact_safe (\<lambda>_. True) (wide_index deep_keys)"
proof -
  have "case root (tree (wide_index deep_keys)) of None \<Rightarrow> False | Some n \<Rightarrow> stale_free n \<and> size n \<le> 100" by code_simp
  moreover have "unat (ucast (drop_bit 4 (h_size (hash (wide_index deep_keys)))) :: u32) = 1" by code_simp
  ultimately show ?thesis by (auto simp: compact_safe_def split: option.splits)
qed

lemma deep_index_value: "index_map (wide_index deep_keys) 0x0316 = Some 8"
  by code_simp

section \<open>Properties\<close>

fun index_op :: "kv_op \<Rightarrow> index_sys \<Rightarrow> index_sys" where
  "index_op (Put k v) ind = index_put k v ind"
| "index_op (Del k) ind = index_del k ind"

fun index_ops_ready :: "kv_op list \<Rightarrow> index_sys \<Rightarrow> bool" where
  "index_ops_ready [] ind \<longleftrightarrow> True"
| "index_ops_ready (Put k v # xs) ind \<longleftrightarrow> \<not> IS_SPECIAL_KEY k \<and>
    put_ready ind k v \<and> index_ops_ready xs (index_op (Put k v) ind)"
| "index_ops_ready (Del k # xs) ind \<longleftrightarrow>
    \<not> IS_SPECIAL_KEY k \<and> del_ready ind k \<and> index_ops_ready xs (index_op (Del k) ind)"

lemma index_op_do_op: "index_op x ind = idx.do_op x ind"
  by (cases x) simp_all

lemma index_ops_ready_run: "index_ops_ready xs ind = idx.run_safe xs ind"
  by (induction xs ind rule: index_ops_ready.induct) (simp_all add: index_op_do_op)

text \<open>Refinement of the whole index: after any sequence of \<open>index_insert\<close> and \<open>index_delete\<close> calls, each within
  its conditions where it happens, the index has the map of a plain map on which the same sequence was
  run, wherever its keys are: in the table, in a buffer or in a leaf.\<close>

theorem index_ops_refine_map:
  assumes "index_ok ind" "index_ops_ready xs ind"
  shows "index_ok (fold index_op xs ind) \<and> index_map (fold index_op xs ind) = fold map_op xs (index_map ind)"
  using idx.run_refines [of ind xs] assms by (simp add: index_ops_ready_run index_op_do_op [abs_def])

lemma growth_ends_room: "hash_room ind k \<Longrightarrow> growth_ends ind k"
  by (simp add: growth_ends_def)

lemma insert_ready_room:
  assumes "hash_room ind k" "art_map (tree ind) k = None" "hash_ok (hash ind)" "\<not> IS_SPECIAL_KEY k"
  shows "insert_ready grow ind k v MEM_TYPE"
proof -
  obtain ind' freq st where e: "hash_modify ind k v INSERT = (ind', freq, st)" by (rule prod_cases3)
  have "st = 0" using hash_room_status [OF assms(3,4) e] assms(1) by simp
  then have "index_reinsert (\<lambda>_. True) grow ind k v = Some (ind', True)" by (subst index_reinsert.simps) (simp add: e)
  with assms(1,2) show ?thesis by (simp add: insert_ready_def growth_ends_room)
qed

theorem index_ops_refine_map_witness:
  "index_map (fold index_op [Put 77 5, Put 99 6, Del 77] sample_index) = fold map_op [Put 77 5, Put 99 6, Del 77] (index_map sample_index)"
proof -
  have ok: "index_ok sample_index"
    using sample_index_ok tree_ok_init
    by (simp add: index_ok_def core_ok_def exclusive_def specials_ok_def sample_index_def)
  have r: "hash_room sample_index 77" "hash_room (index_put 77 5 sample_index) 99" by code_simp+
  have t: "art_map (tree sample_index) 77 = None" "art_map (tree (index_put 77 5 sample_index)) 99 = None" by code_simp+
  have b: "buffer_count (tree (index_put 99 6 (index_put 77 5 sample_index))) = 0"
    "hash_map (hash (index_put 99 6 (index_put 77 5 sample_index))) 77 = Some 5" by code_simp+
  have i1: "put_ready sample_index 77 5"
    using insert_ready_room [OF r(1) t(1)] ok by (simp add: put_ready_def index_ok_def core_ok_def IS_SPECIAL_KEY_iff)
  have ok1: "index_ok (index_put 77 5 sample_index)" using idx.put [OF ok _ i1] by (simp add: IS_SPECIAL_KEY_iff)
  have i2: "put_ready (index_put 77 5 sample_index) 99 6"
    using insert_ready_room [OF r(2) t(2)] ok1 by (simp add: put_ready_def index_ok_def core_ok_def IS_SPECIAL_KEY_iff)
  have "index_ops_ready [Put 77 5, Put 99 6, Del 77] sample_index"
    using i1 i2 b by (simp add: IS_SPECIAL_KEY_iff del_ready_def delete_ready_def)
  with index_ops_refine_map [OF ok] show ?thesis by blast
qed

text \<open>C2. \<open>index_insert\<close> with a storage type below 8 on a well-formed index returns 0, sets exactly
  its key and keeps the index well formed, through an update in place, an empty slot of the bin, any number of doublings
  each followed by a compaction, or the tree, when \<open>insert_ready\<close> holds: the key is reserved; or the tree
  does not have it, and for the memory type the doubling ends (\<open>growth_ends\<close>: there is room in the bin, or
  the tree is not more than five times the table, or at some size up to \<open>2 ^ 35\<close> bins fewer than eight keys
  of the index share the bin of the key, and the table has at least 16 bins and a seed other than 0, the tree fewer than
  \<open>2 ^ 31\<close> nodes and no pointers left over in its children arrays) and a key that then goes into the tree
  has the prefix of the first node on its way with an empty buffer slot (\<open>mem_safe\<close>), and for another type
  the table does not have it either. That the call returns is part of the claim. Outside these conditions a key can be
  lost (\<open>art_insert_before_prefix_loses\<close>) or be there twice (\<open>index_delete_resurrects\<close>).\<close>

theorem index_insert_puts:
  assumes "index_ok ind" "storage < 8" "insert_ready grow ind k v storage"
    and "grow \<in> {hash_expand_copy (\<lambda>_. True) rnd, hash_expand_reinsert (\<lambda>_. True) rnd}"
  shows "\<exists>ind'. index_insert (\<lambda>_. True) grow ind k v storage = Some (ind', 0) \<and> index_ok ind' \<and>
    index_map ind' = (index_map ind)(k \<mapsto> v)"
  using copying.index_insert_ok [of ind storage rnd k v] reinserting.index_insert_ok [of ind storage rnd k v] assms
  unfolding inserted_ok_def by blast

theorem index_insert_puts_witness:
  "\<exists>ind'. index_insert (\<lambda>_. True) (hash_expand_copy (\<lambda>_. True) 0) sample_index 77 5 MEM_TYPE = Some (ind', 0) \<and>
    index_map ind' 77 = Some 5"
proof -
  have ok: "index_ok sample_index"
    using sample_index_ok tree_ok_init
    by (simp add: index_ok_def core_ok_def exclusive_def specials_ok_def sample_index_def)
  have "hash_room sample_index 77" "art_map (tree sample_index) 77 = None" by code_simp+
  then have "insert_ready (hash_expand_copy (\<lambda>_. True) 0) sample_index 77 5 MEM_TYPE"
    using insert_ready_room ok by (simp add: index_ok_def core_ok_def IS_SPECIAL_KEY_iff)
  from index_insert_puts [OF ok _ this, of 0] show ?thesis by auto
qed

text \<open>C3. \<open>index_query\<close> on a well-formed index answers with the map of the index, for reserved
  keys, keys in the table and keys in the tree, and what it counts and floats leaves the map as it is, when
  \<open>query_ready\<close> holds: the key is reserved or in the table; or the estimate of its frequency is not
  negative and, if the key is in a node buffer and its float displaces another key into the tree, the insertion of that
  key from the parent keeps it (\<open>float_safe\<close>). \<open>art_float_reinsert_loses\<close> shows that it can be
  lost otherwise.\<close>

theorem index_query_answers:
  assumes "index_ok ind" "query_ready ind k" "index_query ind k = (ind', res)"
  shows "res = index_map ind k \<and> index_ok ind' \<and> index_map ind' = index_map ind"
  by (rule index_query_ok [OF assms])

theorem index_query_answers_witness:
  "snd (index_query (wide_index deep_keys) 0x0316) = Some 8 \<and>
    index_map (fst (index_query (wide_index deep_keys) 0x0316)) = index_map (wide_index deep_keys)"
proof -
  note I = wide_index_ok [OF deep_keys_ok]
  have "query_ready (wide_index deep_keys) 0x0316" by code_simp
  moreover note deep_index_value
  moreover obtain ind' res where e: "index_query (wide_index deep_keys) 0x0316 = (ind', res)" by (rule prod.exhaust)
  ultimately show ?thesis using index_query_answers [OF I(1) _ e] by (simp add: e)
qed

text \<open>\<open>index_update\<close> sets the value of a key the index has, or of any reserved key, and of no other; it
  never returns 0 for a key the index does not have, and returns 0 for a key it has unless the old value
  is 0.\<close>

theorem index_update_sets:
  assumes "index_ok ind" "update_ready ind k v" "index_update ind k v = (ind', r)"
  shows "index_ok ind' \<and>
    index_map ind' = (if IS_SPECIAL_KEY k \<or> index_map ind k \<noteq> None then (index_map ind)(k \<mapsto> v) else index_map ind) \<and>
    (r = 0 \<longrightarrow> IS_SPECIAL_KEY k \<or> index_map ind k \<noteq> None) \<and> (index_map ind k \<notin> {None, Some 0} \<longrightarrow> r = 0)"
  by (rule index_update_ok [OF assms])

theorem index_update_sets_witness:
  "index_map (fst (index_update (wide_index deep_keys) 0x0316 9)) 0x0316 = Some 9 \<and> snd (index_update (wide_index deep_keys) 0x0316 9) = 0"
proof -
  note I = wide_index_ok [OF deep_keys_ok]
  have "update_ready (wide_index deep_keys) 0x0316 9" by code_simp
  moreover note deep_index_value
  moreover obtain ind' r where e: "index_update (wide_index deep_keys) 0x0316 9 = (ind', r)" by (rule prod.exhaust)
  ultimately show ?thesis using index_update_sets [OF I(1) _ e] by (simp add: e)
qed





text \<open>\<open>index_expand\<close> with either way to double the table.\<close>

theorem index_expand_keeps:
  assumes "index_ok ind" "h_size (hash ind) = 2 ^ n" "3 \<le> n" "n < 35" "h_seed (hash ind) \<noteq> 0" "tree_small ind" "root (tree ind) \<noteq> None"
    and "grow \<in> {hash_expand_copy (\<lambda>_. True) rnd, hash_expand_reinsert (\<lambda>_. True) rnd}"
  shows "\<exists>ind'. index_expand (\<lambda>_. True) grow ind = Some ind' \<and> index_ok ind' \<and> index_map ind' = index_map ind \<and>
    h_size (hash ind') = 2 ^ Suc n"
  using copying.index_expand_ok [OF assms(1-7), of rnd] reinserting.index_expand_ok [OF assms(1-7), of rnd] assms(8) by blast



text \<open>C8. \<open>index_construct\<close> with all memory granted gives an index for \<open>2 ^ n\<close> bins exactly up to \<open>n = 21\<close>: beyond, the
  Count-Min sketch of that width is refused and \<open>NULL\<close> returned. The index it gives is well formed and empty.\<close>

theorem index_construct_limit:
  assumes "n < 32"
  shows "(index_construct (\<lambda>_. True) rnd rnd' (2 ^ n) seed \<noteq> None \<longleftrightarrow> n \<le> 21) \<and>
    (index_construct (\<lambda>_. True) rnd rnd' (2 ^ n) seed = Some ind \<longrightarrow> index_ok ind \<and> index_map ind = Map.empty)"
  using index_construct_bound [OF assms] index_construct_ok [OF _ refl] assms by auto

theorem index_construct_limit_witness:
  "index_construct (\<lambda>_. True) 3 4 (2 ^ 22) 42 = None \<and> index_construct (\<lambda>_. True) 3 4 (2 ^ 4) 42 \<noteq> None"
proof -
  have "index_construct (\<lambda>_. True) 3 4 (2 ^ 22) 42 \<noteq> None \<longleftrightarrow> (22 :: nat) \<le> 21"
    "index_construct (\<lambda>_. True) 3 4 (2 ^ 4) 42 \<noteq> None \<longleftrightarrow> (4 :: nat) \<le> 21"
    by (rule conjunct1 [OF index_construct_limit], simp)+
  then show ?thesis by simp
qed

text \<open>C9. A deleted key comes back. For every key that the tree has, in every well-formed index: when the bin of the key has
  an empty slot, \<open>index_insert\<close> of the key (memory type) never looks into the tree, puts the key into the
  table a second time and succeeds; \<open>index_delete\<close> of the key then succeeds too, but removes only the copy in the
  table: the index has exactly the map it had before the insertion, and a query that loses no key by a
  float answers the old value. If the tree has buffered keys, so that the deletion may compact, its
  compaction must be within its own conditions.\<close>

theorem index_delete_resurrects:
  assumes "index_ok ind" "\<not> IS_SPECIAL_KEY k" "art_map (tree ind) k = Some w" "hash_room ind k"
    and "buffer_count (tree ind) \<noteq> 0 \<longrightarrow> compact_safe alloc ind"
  shows "\<exists>ind1 ind2. index_insert alloc grow ind k v MEM_TYPE = Some (ind1, 0) \<and> index_map ind1 = (index_map ind)(k \<mapsto> v) \<and>
    index_delete alloc ind1 k = Some (ind2, 0) \<and> index_ok ind2 \<and> index_map ind2 = index_map ind \<and> index_map ind2 k = Some w \<and>
    (query_ready ind2 k \<longrightarrow> snd (index_query ind2 k) = Some w)"
proof -
  obtain ind1 where i: "index_insert alloc grow ind k v MEM_TYPE = Some (ind1, 0)" "doubled ind k v ind1"
    by (rule insert_doubles [OF assms(1,2,4)])
  obtain ind2 where d: "index_delete alloc ind1 k = Some (ind2, 0)" "index_ok ind2" "index_map ind2 = index_map ind"
    by (rule delete_undoubles [OF assms(1-3,5) i(2)])
  have m: "index_map ind1 = (index_map ind)(k \<mapsto> v)" "index_map ind k = Some w"
    using doubled_map [OF i(2) assms(2)] assms by (simp_all add: index_map_tree)
  moreover obtain ind3 r where q: "index_query ind2 k = (ind3, r)" by (rule prod.exhaust)
  moreover have "r = Some w" if "query_ready ind2 k" using index_query_ok [OF d(2) that q] d(3) m(2) by simp
  ultimately show ?thesis using i(1) d by (intro exI [of _ ind1] exI [of _ ind2]) simp
qed

theorem index_delete_resurrects_witness:
  "\<exists>ind1 ind2. index_insert (\<lambda>_. True) (hash_expand_copy (\<lambda>_. True) 0) (wide_index deep_keys) 0x0316 9 MEM_TYPE = Some (ind1, 0) \<and>
    index_map ind1 0x0316 = Some 9 \<and> index_delete (\<lambda>_. True) ind1 0x0316 = Some (ind2, 0) \<and> index_map ind2 0x0316 = Some 8"
proof -
  have t: "art_map (tree (wide_index deep_keys)) 0x0316 = Some 8" by code_simp
  have r: "hash_room (wide_index deep_keys) 0x0316" by code_simp
  from index_delete_resurrects [OF wide_index_ok(1) [OF deep_keys_ok] _ t r, of "\<lambda>_. True" "hash_expand_copy (\<lambda>_. True) 0" 9]
  show ?thesis using wide_compact_safe by (auto simp: IS_SPECIAL_KEY_iff)
qed

end
