(* ===== verification/Buffer_Keys.thy ===== *)
theory Buffer_Keys
  imports ART_Path
begin

text \<open>
  The number of buffered keys that the structure of a tree gives is the number of keys that the search
  finds in a buffer, so the counter of a well-formed tree counts these and is 0 only when all buffers are
  empty.
\<close>

section \<open>Keys that the search finds in a buffer\<close>

fun is_buffer_hit :: "art_hit \<Rightarrow> bool" where
  "is_buffer_hit (InBuffer i e) = True"
| "is_buffer_hit (InLeaf l) = False"

definition buffer_hit :: "u64 \<Rightarrow> art_loc option \<Rightarrow> bool" where
  "buffer_hit k loc \<longleftrightarrow> \<not> IS_SPECIAL_KEY k \<and> (case loc of None \<Rightarrow> False | Some l \<Rightarrow> is_buffer_hit (loc_hit l))"

definition in_buffer :: "art_tree \<Rightarrow> u64 \<Rightarrow> bool" where
  "in_buffer t k \<longleftrightarrow> buffer_hit k (art_find (root t) k)"

lemma walk_hit:
  "map_option loc_hit (art_walk key n path d dp) = map_option loc_hit (art_walk key n path' d dp')"
proof (induction key n path d dp arbitrary: path' dp' rule: art_walk.induct)
  case (3 key h ch path d dp)
  show ?case
  proof (cases "partial_len h \<noteq> 0 \<and> check_prefix h key KEY_LEN d \<noteq> min MAX_PREFIX_LEN (partial_len h)")
    case False
    show ?thesis
    proof (cases "buffer_find h key = None \<and> find_child h ch (key_byte key (d + partial_len h)) \<noteq> None")
      case True
      then obtain i where i: "buffer_find h key = None" "find_child h ch (key_byte key (d + partial_len h)) = Some i" by blast
      show ?thesis unfolding art_walk.simps Let_def if_not_P [OF False] i option.case by (rule 3 [OF False refl i])
    qed (use False in \<open>auto simp: Let_def split: option.split\<close>)
  qed simp
qed simp_all

definition hits :: "nat \<Rightarrow> art_node \<Rightarrow> u64 \<Rightarrow> bool" where
  "hits d n k \<longleftrightarrow> buffer_hit k (art_walk k (Some n) [] d 0)"

lemma buffer_hit_walk: "buffer_hit k (art_walk k (Some n) path d dp) = hits d n k"
proof -
  have "buffer_hit k l = buffer_hit k l'" if "map_option loc_hit l = map_option loc_hit l'" for l l'
    using that by (cases l; cases l') (simp_all add: buffer_hit_def)
  from this [OF walk_hit] show ?thesis by (simp add: hits_def)
qed

lemma hits_leaf [simp]: "\<not> hits d (Leaf e) k"
  by (simp add: hits_def buffer_hit_def)

lemma hits_special: "hits d n k \<Longrightarrow> \<not> IS_SPECIAL_KEY k"
  unfolding hits_def buffer_hit_def by (rule conjunct1)

lemma hits_node_map: "hits d n k \<Longrightarrow> node_map d n k \<noteq> None"
  using art_walk_lookup [of k "Some n" "[]" d 0, symmetric]
  by (auto simp: hits_def buffer_hit_def node_map_def split: option.splits)

lemma hits_inner:
  assumes ok: "art_ok p (Inner h ch)" and q: "q = p @ prefix_of h"
  shows "hits (length p) (Inner h ch) k \<longleftrightarrow> buf_map h k \<noteq> None \<or>
    (\<exists>c. matches q k \<and> child_map h ch (key_byte k (length q)) = Some c \<and> hits (length q + 1) c k)"
proof -
  note D = inner_okD [OF ok [unfolded art_ok_inner], folded q]
  have len: "length q = length p + partial_len h" using D(1) by (simp add: q)
  have qp: "matches q k \<Longrightarrow> matches p k" using matches_appendD [of p "prefix_of h" k] by (simp add: q)
  have bm: "buf_map h k \<noteq> None \<Longrightarrow> matches q k" by (rule buf_map_matches [OF D(4)])
  have hm: "hits (length p) (Inner h ch) k \<Longrightarrow> matches p k" using hits_node_map node_map_matches [OF ok] by blast
  show ?thesis
  proof (cases "matches p k \<and> \<not> IS_SPECIAL_KEY k")
    case False
    then have "\<not> hits (length p) (Inner h ch) k" using hm hits_special by blast
    moreover have "buf_map h k \<noteq> None \<Longrightarrow> \<not> IS_SPECIAL_KEY k" by (auto simp: buf_map_def)
    then have "buf_map h k = None" using False qp bm by blast
    moreover have "\<not> (matches q k \<and> hits (length q + 1) c k)" for c using False qp hits_special by blast
    ultimately show ?thesis by blast
  next
    case True
    have cp: "check_prefix h k 8 (length p) = min 8 (partial_len h) \<longleftrightarrow> matches q k"
      unfolding q using D(1,3) True len by (intro check_prefix_iff) (simp_all add: q)
    show ?thesis
    proof (cases "matches q k")
      case False
      have "partial_len h \<noteq> 0" using False True by (cases "partial_len h = 0") (simp_all add: q prefix_of_def)
      then have "\<not> hits (length p) (Inner h ch) k" using False cp by (simp add: hits_def buffer_hit_def)
      then show ?thesis using False bm by blast
    next
      case m: True
      have "hits (length p) (Inner h ch) k \<longleftrightarrow> (case buffer_find h k of Some i \<Rightarrow> True
          | None \<Rightarrow> (case find_child h ch (key_byte k (length q)) of None \<Rightarrow> False
              | Some i \<Rightarrow> buffer_hit k (art_walk k (child_at ch i) [i] (length q + 1) (length q))))"
        using m cp True len by (auto simp: hits_def buffer_hit_def Let_def split: option.split)
      also have "... \<longleftrightarrow> buf_map h k \<noteq> None \<or>
          (\<exists>c. child_map h ch (key_byte k (length q)) = Some c \<and> hits (length q + 1) c k)"
        using True find_child_iff [OF D(2), of "key_byte k (length q)"] find_child_at [OF D(2), of "key_byte k (length q)"]
        by (auto simp: buf_map_def buffer_hit_walk split: option.split)
      finally show ?thesis using m by blast
    qed
  qed
qed

lemma card_buf_map:
  assumes "buf_ok q (buffer h)"
  shows "card (dom (buf_map h)) = used h"
proof -
  let ?I = "{i \<in> {..<3}. entry_key (buffer h ! i) \<noteq> 0}" and ?f = "\<lambda>i. entry_key (buffer h ! i)"
  have "dom (buf_map h) = ?f ` ?I"
  proof (intro equalityI subsetI)
    fix k
    assume "k \<in> dom (buf_map h)"
    then obtain i where k: "\<not> IS_SPECIAL_KEY k" "buffer_find h k = Some i" by (auto simp: buf_map_def split: if_splits)
    then have "i \<in> ?I" "k = ?f i" using buffer_findD [OF k(2)] not_special_nonzero [OF k(1)] by auto
    then show "k \<in> ?f ` ?I" by blast
  next
    fix k
    assume "k \<in> ?f ` ?I"
    then obtain i where i: "i < 3" "?f i = k" "k \<noteq> 0" by auto
    then have "\<not> IS_SPECIAL_KEY k" using assms by (auto simp: buf_ok_def)
    then show "k \<in> dom (buf_map h)" using buffer_find_unique [OF assms i] by (auto simp: buf_map_def)
  qed
  moreover have "inj_on ?f ?I" using assms by (auto simp: inj_on_def buf_ok_def)
  ultimately have "card (dom (buf_map h)) = card ?I" by (simp add: card_image)
  also have "... = used h" unfolding used_def taken_def card_eq_sum by (intro sum.mono_neutral_cong_left) auto
  finally show ?thesis .
qed

lemma buffered_card: "art_ok p n \<Longrightarrow> buffered n = card {k. hits (length p) n k}"
proof (induction p n rule: art_ok.induct)
  case (ok_inner h ch p)
  then have ok: "art_ok p (Inner h ch)" by (intro art_ok.ok_inner)
  let ?q = "p @ prefix_of h"
  note D = inner_okD [OF ok [unfolded art_ok_inner]]
  define K where "K = (\<lambda>b. case child_map h ch b of None \<Rightarrow> {} | Some c \<Rightarrow> {k. hits (length ?q + 1) c k})"
  have Kk: "matches ?q k \<and> key_byte k (length ?q) = b" if kb: "k \<in> K b" for k b
  proof -
    obtain c where c: "child_map h ch b = Some c" "hits (length ?q + 1) c k"
      using kb by (auto simp: K_def split: option.splits)
    have "matches (?q @ [b]) k" using node_map_matches [OF D(5) [OF c(1)], of k] hits_node_map [OF c(2)] by simp
    then show ?thesis unfolding matches_snoc [OF D(3)] .
  qed
  have set: "{k. hits (length p) (Inner h ch) k} = dom (buf_map h) \<union> (\<Union>b. K b)"
  proof (intro set_eqI iffI)
    fix k
    assume "k \<in> {k. hits (length p) (Inner h ch) k}"
    then show "k \<in> dom (buf_map h) \<union> (\<Union>b. K b)"
      unfolding mem_Collect_eq hits_inner [OF ok refl] by (auto simp: K_def intro: exI [of _ "key_byte k (length ?q)"])
  next
    fix k
    assume "k \<in> dom (buf_map h) \<union> (\<Union>b. K b)"
    then show "k \<in> {k. hits (length p) (Inner h ch) k}"
      unfolding mem_Collect_eq hits_inner [OF ok refl]
    proof
      assume "k \<in> (\<Union>b. K b)"
      then obtain b where b: "k \<in> K b" by blast
      with Kk [OF b] show "buf_map h k \<noteq> None \<or> (\<exists>c. matches ?q k \<and>
          child_map h ch (key_byte k (length ?q)) = Some c \<and> hits (length ?q + 1) c k)"
        by (auto simp: K_def split: option.splits)
    qed auto
  qed
  have disj: "dom (buf_map h) \<inter> (\<Union>b. K b) = {}"
  proof (intro Int_emptyI)
    fix k
    assume k: "k \<in> dom (buf_map h)" "k \<in> (\<Union>b. K b)"
    from k(2) obtain b where b: "k \<in> K b" by blast
    have "kid_map (length ?q) h ch k = None" using D(6) [of k] k(1) by blast
    moreover obtain c where "child_map h ch b = Some c" "hits (length ?q + 1) c k"
      using b by (auto simp: K_def split: option.splits)
    ultimately show False using Kk [OF b] hits_node_map by (fastforce simp: kid_map_def)
  qed
  have "card (\<Union>b. K b) = (\<Sum>b\<in>UNIV. card (K b))"
    by (rule card_UN_disjoint) (use Kk in auto)
  also have "... = over_kids buffered (child_map h ch)"
    unfolding over_kids_def
  proof (rule sum.cong [OF refl])
    fix b
    show "card (K b) = (case child_map h ch b of None \<Rightarrow> 0 | Some n \<Rightarrow> buffered n)"
      using ok_inner.IH [of b] by (auto simp: K_def split: option.split)
  qed
  finally show ?case unfolding set using disj card_buf_map [OF D(4)] by (simp add: card_Un_disjoint)
qed simp

section \<open>The buffers of the nodes\<close>

lemma buffered_child: "child_map h ch b = Some c \<Longrightarrow> buffered c \<le> buffered (Inner h ch)"
  using member_le_sum [of b UNIV "\<lambda>b. case child_map h ch b of None \<Rightarrow> 0 | Some n \<Rightarrow> buffered n"]
  by (simp add: over_kids_def)

lemma used_reached: "reaches p n path q m \<Longrightarrow> art_ok p n \<Longrightarrow> m = Inner h ch \<Longrightarrow> used h \<le> buffered n"
proof (induction rule: reaches.induct)
  case (down h' ch' b i c p path q m)
  note C = child_ok [OF down.prems(1) down.hyps(1,2)]
  from down.IH [OF C(1) down.prems(2)] buffered_child [OF C(3)] show ?case by linarith
qed simp

lemma buffered_zero:
  "art_ok p n \<Longrightarrow> buffered n = 0 \<longleftrightarrow> (\<forall>path q h ch. reaches p n path q (Inner h ch) \<longrightarrow> used h = 0)"
proof (intro iffI allI impI)
  fix path q h ch
  assume "art_ok p n" "buffered n = 0" "reaches p n path q (Inner h ch)"
  then show "used h = 0" using used_reached by fastforce
next
  show "art_ok p n \<Longrightarrow> \<forall>path q h ch. reaches p n path q (Inner h ch) \<longrightarrow> used h = 0 \<Longrightarrow> buffered n = 0"
  proof (induction p n rule: art_ok.induct)
    case (ok_inner h ch p)
    then have ok: "art_ok p (Inner h ch)" by (intro art_ok.ok_inner)
    note D = inner_okD [OF ok [unfolded art_ok_inner]]
    have "buffered c = 0" if c: "child_map h ch b = Some c" for b c
    proof -
      obtain i where i: "find_child h ch b = Some i" using c find_child_iff [OF D(2), of b] by auto
      then have ci: "child_at ch i = Some c" using find_child_at [OF D(2) i] c by simp
      have "used h' = 0" if "reaches (p @ prefix_of h @ [b]) c path q (Inner h' ch')" for path q h' ch'
        using ok_inner.prems reaches.down [OF i ci that] by blast
      with ok_inner.IH [OF c] show ?thesis by simp
    qed
    then have "over_kids buffered (child_map h ch) = 0" by (simp add: over_kids_def split: option.split)
    moreover have "used h = 0" using ok_inner.prems reaches.here by blast
    ultimately show ?case by simp
  qed simp
qed

section \<open>The counter\<close>

lemma in_buffer_special: "in_buffer t k \<Longrightarrow> \<not> IS_SPECIAL_KEY k"
  by (simp add: in_buffer_def buffer_hit_def)

lemma buffered_opt_card: "opt_ok [] (root t) \<Longrightarrow> buffered_opt (root t) = card {k. in_buffer t k}"
  using buffered_card [of "[]"]
  by (cases "root t") (simp_all add: in_buffer_def art_find_def buffer_hit_walk, simp add: buffer_hit_def)

lemma card_keys: "card {k. in_buffer t k} < 2 ^ 64"
proof -
  have "{k. in_buffer t k} \<subset> UNIV" using in_buffer_special [of t 0] by (auto simp: IS_SPECIAL_KEY_iff)
  then have "card {k. in_buffer t k} < CARD(u64)" by (intro psubset_card_mono) simp_all
  then show ?thesis by (simp add: card_word)
qed

lemma buffer_count_ok:
  assumes "tree_ok t"
  shows "unat (buffer_count t) = card {k. in_buffer t k}"
proof -
  have "buffer_count t = of_nat (card {k. in_buffer t k})"
    using assms buffered_opt_card [of t] by (simp add: tree_ok_def)
  then show ?thesis using card_keys [of t] by (simp add: unat_of_nat take_bit_nat_eq_self)
qed

lemma buffer_count_zero:
  assumes "tree_ok t" "root t = Some n"
  shows "buffer_count t = 0 \<longleftrightarrow>
    (\<forall>path q h ch. reaches [] n path q (Inner h ch) \<longrightarrow> (\<forall>i < 3. entry_key (buffer h ! i) = 0))"
proof -
  have "buffer_count t = 0 \<longleftrightarrow> buffered n = 0"
    using buffer_count_ok [OF assms(1)] buffered_opt_card [of t] assms by (simp add: tree_ok_def unat_eq_0 [symmetric])
  with buffered_zero [of "[]" n] assms show ?thesis by (simp add: tree_ok_def used_zero)
qed

end
