(* ===== verification/Call_Interface.thy ===== *)
theory Call_Interface
  imports Complex_Main Common
begin

text \<open>
  The calls of the index library, with what a caller sees of them, and the contract that a variant of the
  library meets: every call, within the conditions under which the code keeps its keys, returns, answers
  what a plain map answers and leaves an index that has the map. Sequences of calls follow.
\<close>

section \<open>Calls on a map\<close>

datatype index_call = Insert u64 u64 nat | Query u64 | Update u64 u64 | Delete u64 | Compact rat | Expand | Size

text \<open>Whether 0 was returned, the value found, or a number.\<close>

datatype answer = Status bool | Value "u64 option" | Count u64

fun map_do :: "index_call \<Rightarrow> (u64 \<Rightarrow> u64 option) \<Rightarrow> (u64 \<Rightarrow> u64 option) \<times> answer" where
  "map_do (Insert k v storage) m = (m(k \<mapsto> v), Status True)"
| "map_do (Query k) m = (m, Value (m k))"
| "map_do (Update k v) m =
    (if IS_SPECIAL_KEY k \<or> m k \<noteq> None then (m(k \<mapsto> v), Status True) else (m, Status False))"
| "map_do (Delete k) m = (m(k := None), Status (m k \<noteq> None))"
| "map_do (Compact mlf) m = (m, Status True)"
| "map_do Expand m = (m, Status True)"
| "map_do Size m = (m, Count (of_nat (card (dom m))))"

fun map_run :: "index_call list \<Rightarrow> (u64 \<Rightarrow> u64 option) \<Rightarrow> (u64 \<Rightarrow> u64 option) \<times> answer list" where
  "map_run [] m = (m, [])"
| "map_run (c # cs) m = (case map_do c m of (m, a) \<Rightarrow> apsnd ((#) a) (map_run cs m))"

section \<open>Sequences of calls\<close>

fun run_calls :: "('c \<Rightarrow> 's \<Rightarrow> ('s \<times> 'a) option) \<Rightarrow> 'c list \<Rightarrow> 's \<Rightarrow> ('s \<times> 'a list) option" where
  "run_calls f [] s = Some (s, [])"
| "run_calls f (c # cs) s = Option.bind (f c s) (\<lambda>(s, a). map_option (apsnd ((#) a)) (run_calls f cs s))"

text \<open>Every call is within its conditions in the state it meets.\<close>

fun calls_ready :: "('c \<Rightarrow> 's \<Rightarrow> ('s \<times> 'a) option) \<Rightarrow> ('c \<Rightarrow> 's \<Rightarrow> bool) \<Rightarrow> 'c list \<Rightarrow> 's \<Rightarrow> bool" where
  "calls_ready f ready [] s \<longleftrightarrow> True"
| "calls_ready f ready (c # cs) s \<longleftrightarrow> ready c s \<and>
    (case f c s of None \<Rightarrow> True | Some (s, a) \<Rightarrow> calls_ready f ready cs s)"

lemma calls_readyI:
  "ready c s \<Longrightarrow> (\<And>s' a. f c s = Some (s', a) \<Longrightarrow> calls_ready f ready cs s') \<Longrightarrow> calls_ready f ready (c # cs) s"
  by (auto split: option.split)

locale call_store =
  fixes inv :: "'s \<Rightarrow> bool"
    and look :: "'s \<Rightarrow> u64 \<Rightarrow> u64 option"
    and do_call :: "index_call \<Rightarrow> 's \<Rightarrow> ('s \<times> answer) option"
    and ready :: "index_call \<Rightarrow> 's \<Rightarrow> bool"
  assumes call: "inv s \<Longrightarrow> ready c s \<Longrightarrow>
    \<exists>s' a. do_call c s = Some (s', a) \<and> inv s' \<and> map_do c (look s) = (look s', a)"
begin

lemma run_refines:
  "inv s \<Longrightarrow> calls_ready do_call ready cs s \<Longrightarrow>
    \<exists>s' as. run_calls do_call cs s = Some (s', as) \<and> inv s' \<and> map_run cs (look s) = (look s', as)"
proof (induction cs arbitrary: s)
  case (Cons c cs)
  obtain s1 a where 1: "do_call c s = Some (s1, a)" "inv s1" "map_do c (look s) = (look s1, a)"
    using call [of s c] Cons.prems by auto
  with Cons.prems(2) have "calls_ready do_call ready cs s1" by simp
  from Cons.IH [OF 1(2) this] 1 show ?case by auto
qed simp

end

end
