(* ===== verification/Index_Calls.thy ===== *)
theory Index_Calls
  imports Index_Laws Buffer_Keys Call_Interface
begin

text \<open>
  The index as a whole meets the contract of its calls, with either way to double its table; and its counter
  of buffered keys after any sequence of calls.
\<close>

section \<open>Calls\<close>

fun index_do :: "(hash_sys \<Rightarrow> hash_sys option) \<Rightarrow> index_call \<Rightarrow> index_sys \<Rightarrow> (index_sys \<times> answer) option" where
  "index_do grow (Insert k v storage) ind =
    map_option (apsnd (\<lambda>r. Status (r = 0))) (index_insert (\<lambda>_. True) grow ind k v storage)"
| "index_do grow (Query k) ind = Some (apsnd Value (index_query ind k))"
| "index_do grow (Update k v) ind = Some (apsnd (\<lambda>r. Status (r = 0)) (index_update ind k v))"
| "index_do grow (Delete k) ind = map_option (apsnd (\<lambda>r. Status (r = 0))) (index_delete (\<lambda>_. True) ind k)"
| "index_do grow (Compact mlf) ind = map_option (\<lambda>ind'. (ind', Status True)) (index_compact (\<lambda>_. True) ind mlf)"
| "index_do grow Expand ind = map_option (\<lambda>ind'. (ind', Status True)) (index_expand (\<lambda>_. True) grow ind)"
| "index_do grow Size ind = Some (ind, Count (index_size ind))"

text \<open>The conditions under which the code keeps its keys, each where its call happens. An update must not meet
  the value 0, which \<open>art_update\<close> reads as not found.\<close>

fun call_ready :: "(hash_sys \<Rightarrow> hash_sys option) \<Rightarrow> index_call \<Rightarrow> index_sys \<Rightarrow> bool" where
  "call_ready grow (Insert k v storage) ind \<longleftrightarrow> storage < 8 \<and> insert_ready grow ind k v storage"
| "call_ready grow (Query k) ind \<longleftrightarrow> query_ready ind k"
| "call_ready grow (Update k v) ind \<longleftrightarrow> update_ready ind k v \<and> index_map ind k \<noteq> Some 0"
| "call_ready grow (Delete k) ind \<longleftrightarrow> delete_ready (\<lambda>_. True) ind k"
| "call_ready grow (Compact mlf) ind \<longleftrightarrow> compact_safe (\<lambda>_. True) ind"
| "call_ready grow Expand ind \<longleftrightarrow> (\<exists>n \<in> {3..<35}. h_size (hash ind) = 2 ^ n) \<and> h_seed (hash ind) \<noteq> 0 \<and>
    tree_small ind \<and> root (tree ind) \<noteq> None"
| "call_ready grow Size ind \<longleftrightarrow> True"

section \<open>The contract\<close>

lemma update_call_ok:
  assumes "index_ok ind" "update_ready ind k v" "index_map ind k \<noteq> Some 0" "index_update ind k v = (ind', r)"
  shows "index_ok ind' \<and> map_do (Update k v) (index_map ind) = (index_map ind', Status (r = 0))"
proof -
  have "IS_SPECIAL_KEY k \<Longrightarrow> r = 0" using assms(4) by (simp add: index_update_def)
  with index_update_ok [OF assms(1,2,4)] assms(3) show ?thesis by auto
qed

lemma delete_call_ok: "index_ok ind \<Longrightarrow> delete_ready alloc ind k \<Longrightarrow> deleted_ok ind k (index_delete alloc ind k)"
  using index_delete_ok special_delete_ok by blast

context hash_grower
begin

lemma index_do_ok:
  assumes "index_ok ind" "call_ready grow c ind"
  shows "\<exists>ind' a. index_do grow c ind = Some (ind', a) \<and> index_ok ind' \<and> map_do c (index_map ind) = (index_map ind', a)"
proof (cases c)
  case (Insert k v storage)
  then show ?thesis using index_insert_ok [of ind storage k v] assms by (auto simp: inserted_ok_def)
next
  case (Query k)
  obtain ind' res where "index_query ind k = (ind', res)" by (rule prod.exhaust)
  with index_query_ok [of ind k ind' res] Query assms show ?thesis by simp
next
  case (Update k v)
  obtain ind' r where "index_update ind k v = (ind', r)" by (rule prod.exhaust)
  with update_call_ok [of ind k v ind' r] Update assms show ?thesis by simp
next
  case (Delete k)
  then show ?thesis using delete_call_ok [of ind "\<lambda>_. True" k] assms by (auto simp: deleted_ok_def)
next
  case (Compact mlf)
  then show ?thesis using compact_call_ok [of ind "\<lambda>_. True" mlf] assms by auto
next
  case Expand
  then obtain n where "h_size (hash ind) = 2 ^ n" "3 \<le> n" "n < 35" using assms(2) by auto
  then show ?thesis using index_expand_ok [of ind n] Expand assms by auto
next
  case Size
  then show ?thesis using index_size_ok [OF assms(1)] assms(1) by simp
qed

end

interpretation copy_calls: call_store index_ok index_map "index_do (hash_expand_copy (\<lambda>_. True) rnd)"
    "call_ready (hash_expand_copy (\<lambda>_. True) rnd)" for rnd
  by unfold_locales (rule copying.index_do_ok)

interpretation reinsert_calls: call_store index_ok index_map "index_do (hash_expand_reinsert (\<lambda>_. True) rnd)"
    "call_ready (hash_expand_reinsert (\<lambda>_. True) rnd)" for rnd
  by unfold_locales (rule reinserting.index_do_ok)

lemma grow_run_ok:
  assumes "grow \<in> {hash_expand_copy (\<lambda>_. True) rnd, hash_expand_reinsert (\<lambda>_. True) rnd}"
    and "index_ok ind" "calls_ready (index_do grow) (call_ready grow) cs ind"
  shows "\<exists>ind' as. run_calls (index_do grow) cs ind = Some (ind', as) \<and> index_ok ind' \<and>
    map_run cs (index_map ind) = (index_map ind', as)"
  using copy_calls.run_refines [of ind rnd cs] reinsert_calls.run_refines [of ind rnd cs] assms by blast

lemma delete_ready_tree: "hash_map (hash ind) k = None \<Longrightarrow> tree_del_safe (tree ind) k \<Longrightarrow> delete_ready alloc ind k"
  by (simp add: delete_ready_def)

text \<open>A run on an index whose tree has three levels.\<close>

lemma deep_run:
  obtains ind' as n where "calls_ready (index_do (hash_expand_copy (\<lambda>_. True) 0)) (call_ready (hash_expand_copy (\<lambda>_. True) 0))
      [Query 0x0316, Delete 0x0316] (wide_index deep_keys)"
    "run_calls (index_do (hash_expand_copy (\<lambda>_. True) 0)) [Query 0x0316, Delete 0x0316] (wide_index deep_keys) = Some (ind', as)"
    "root (tree ind') = Some n" "buffer_count (tree ind') = 2"
proof -
  let ?g = "hash_expand_copy (\<lambda>_. True) 0" and ?cs = "[Query 0x0316, Delete 0x0316]"
  define s1 where "s1 = fst (index_query (wide_index deep_keys) 0x0316)"
  define s2 where "s2 = fst (the (index_delete (\<lambda>_. True) s1 0x0316))"
  note I = wide_index_ok [OF deep_keys_ok]
  have q: "query_ready (wide_index deep_keys) 0x0316" by code_simp
  obtain res where e: "index_query (wide_index deep_keys) 0x0316 = (s1, res)" unfolding s1_def by (metis prod.collapse)
  have "hash_map (hash s1) 0x0316 = None" "tree_del_safe (tree s1) 0x0316" unfolding s1_def by code_simp+
  then have "delete_ready (\<lambda>_. True) s1 0x0316" by (rule delete_ready_tree)
  then have c: "calls_ready (index_do ?g) (call_ready ?g) ?cs (wide_index deep_keys)"
    using q e by (intro calls_readyI) auto
  from grow_run_ok [OF _ I(1) c, of 0] obtain ind' as where r: "run_calls (index_do ?g) ?cs (wide_index deep_keys) = Some (ind', as)" by auto
  have s2: "ind' = s2" using r by (auto simp: e s2_def bind_eq_Some_conv)
  have "buffer_count (tree s2) = 2" "root (tree s2) \<noteq> None" unfolding s2_def s1_def by code_simp+
  with that [OF c r] s2 show thesis by blast
qed

section \<open>Properties\<close>

text \<open>C1. Refinement of the whole library: any sequence of insertions, queries, updates, deletions, compactions,
  expansions and questions for the size, with either way to double the table and each call within its
  conditions where it happens, returns and answers what a plain map answers, and the index has
  that map at the end.\<close>

theorem index_calls_refine_map:
  assumes "index_ok ind" "calls_ready (index_do grow) (call_ready grow) cs ind"
    and "grow \<in> {hash_expand_copy (\<lambda>_. True) rnd, hash_expand_reinsert (\<lambda>_. True) rnd}"
  shows "\<exists>ind' as. run_calls (index_do grow) cs ind = Some (ind', as) \<and> index_ok ind' \<and>
    map_run cs (index_map ind) = (index_map ind', as)"
  by (rule grow_run_ok [OF assms(3,1,2)])

theorem index_calls_refine_map_witness:
  "\<exists>ind'. run_calls (index_do (hash_expand_copy (\<lambda>_. True) 0)) [Query 0x0316, Insert 77 5 MEM_TYPE, Delete 0x0316] (wide_index deep_keys) =
      Some (ind', [Value (Some 8), Status True, Status True]) \<and> index_map ind' 77 = Some 5 \<and> index_map ind' 0x0316 = None"
proof -
  let ?g = "hash_expand_copy (\<lambda>_. True) 0" and ?cs = "[Query 0x0316, Insert 77 5 MEM_TYPE, Delete 0x0316]"
  define s1 where "s1 = fst (index_query (wide_index deep_keys) 0x0316)"
  define s2 where "s2 = fst (the (index_insert (\<lambda>_. True) ?g s1 77 5 MEM_TYPE))"
  note I = wide_index_ok [OF deep_keys_ok]
  have q: "query_ready (wide_index deep_keys) 0x0316" by code_simp
  obtain res where e: "index_query (wide_index deep_keys) 0x0316 = (s1, res)" unfolding s1_def by (metis prod.collapse)
  have "hash_ok (hash s1)" using index_query_ok [OF I(1) q e] by (simp add: index_ok_def core_ok_def)
  moreover have "hash_room s1 77" "art_map (tree s1) 77 = None" unfolding s1_def by code_simp+
  ultimately have i: "insert_ready ?g s1 77 5 MEM_TYPE" by (intro insert_ready_room) (simp_all add: IS_SPECIAL_KEY_iff)
  have "hash_map (hash s2) 0x0316 = None" "tree_del_safe (tree s2) 0x0316" unfolding s2_def s1_def by code_simp+
  then have "delete_ready (\<lambda>_. True) s2 0x0316" by (rule delete_ready_tree)
  then have "calls_ready (index_do ?g) (call_ready ?g) ?cs (wide_index deep_keys)"
    using q i e by (intro calls_readyI) (auto simp: s2_def)
  from index_calls_refine_map [OF I(1) this, of 0] obtain ind' as where
    r: "run_calls (index_do ?g) ?cs (wide_index deep_keys) = Some (ind', as)"
    and m: "map_run ?cs (index_map (wide_index deep_keys)) = (index_map ind', as)" by blast
  have "map_run ?cs (index_map (wide_index deep_keys)) =
      ((index_map (wide_index deep_keys))(77 \<mapsto> 5, 0x0316 := None), [Value (Some 8), Status True, Status True])"
    using deep_index_value by simp
  with m have "index_map ind' = (index_map (wide_index deep_keys))(77 \<mapsto> 5, 0x0316 := None)"
    "as = [Value (Some 8), Status True, Status True]" by simp_all
  with r show ?thesis by (intro exI [of _ ind']) (simp del: run_calls.simps)
qed

text \<open>C7. From a well-formed index, after any sequence of calls each within its conditions
  (\<open>calls_ready\<close>, the conditions of the refinement above), if the tree is not empty, the counter
  \<open>buffer_count\<close> of the tree is the number of keys that the search finds in a node buffer, and it is 0
  exactly if the buffers of all nodes are empty: \<open>index_delete\<close> asks it whether to compact, and
  \<open>index_compact\<close> stops its walk when it is 0, where no key is left to move. Calls outside their conditions
  can put a key into a buffer where no search finds it (\<open>art_insert_before_prefix_loses\<close>).\<close>

theorem buffer_count_counts:
  assumes "index_ok ind" "calls_ready (index_do grow) (call_ready grow) cs ind" "run_calls (index_do grow) cs ind = Some (ind', as)"
    and "grow \<in> {hash_expand_copy (\<lambda>_. True) rnd, hash_expand_reinsert (\<lambda>_. True) rnd}"
    and "root (tree ind') = Some n"
  shows "unat (buffer_count (tree ind')) = card {k. in_buffer (tree ind') k} \<and>
    (buffer_count (tree ind') = 0 \<longleftrightarrow>
      (\<forall>path q h ch. reaches [] n path q (Inner h ch) \<longrightarrow> (\<forall>i < 3. entry_key (buffer h ! i) = 0)))"
proof -
  have "tree_ok (tree ind')" using grow_run_ok [OF assms(4,1,2)] assms(3) by (auto simp: index_ok_def core_ok_def)
  then show ?thesis using buffer_count_ok buffer_count_zero assms(5) by blast
qed

theorem buffer_count_counts_witness:
  "\<exists>ind' as. run_calls (index_do (hash_expand_copy (\<lambda>_. True) 0)) [Query 0x0316, Delete 0x0316] (wide_index deep_keys) = Some (ind', as) \<and>
    card {k. in_buffer (tree ind') k} = 2"
proof -
  obtain ind' as n where r: "calls_ready (index_do (hash_expand_copy (\<lambda>_. True) 0)) (call_ready (hash_expand_copy (\<lambda>_. True) 0))
      [Query 0x0316, Delete 0x0316] (wide_index deep_keys)"
    "run_calls (index_do (hash_expand_copy (\<lambda>_. True) 0)) [Query 0x0316, Delete 0x0316] (wide_index deep_keys) = Some (ind', as)"
    "root (tree ind') = Some n" "buffer_count (tree ind') = 2" by (rule deep_run)
  from buffer_count_counts [OF wide_index_ok(1) [OF deep_keys_ok] r(1,2) _ r(3), of 0] r(2,4) show ?thesis by auto
qed

end
