(* ===== verification/ART_Order.thy ===== *)
theory ART_Order
  imports Node_Invariant
begin

text \<open>
  The order of the children of a node. \<open>add_child4\<close> and \<open>add_child16\<close> insert the new child before the first greater
  byte, the removals close the gap: the bytes of \<open>Node4\<close> and \<open>Node16\<close> stay in ascending order as long as they are
  below 128, where the signed comparison of \<open>add_child16\<close> agrees with the order of bytes.
\<close>

section \<open>Nodes in order\<close>

fun ascending :: "art_hdr \<Rightarrow> 'n children \<Rightarrow> bool" where
  "ascending h (Node4 keys cs) \<longleftrightarrow> sorted (take (nch h) keys)"
| "ascending h (Node16 keys cs) \<longleftrightarrow> sorted (take (nch h) keys)"
| "ascending h (Node48 keys cs) \<longleftrightarrow> True"
| "ascending h (Node256 cs) \<longleftrightarrow> True"

definition ascii :: "u8 \<Rightarrow> bool" where
  "ascii c \<longleftrightarrow> c < 128"

lemma sorted_insert_at:
  fixes xs :: "'a::linorder list"
  assumes "sorted xs" "idx = (case first_idx (length xs) (\<lambda>i. c < xs ! i) of Some i \<Rightarrow> i | None \<Rightarrow> length xs)"
  shows "sorted (take idx xs @ c # drop idx xs)"
proof -
  have le: "x \<le> c" if "x \<in> set (take idx xs)" for x
    using that assms(2) by (auto simp: in_set_conv_nth first_idx_None first_idx_Some not_less split: option.splits)
  have "c \<le> x" if "x \<in> set (drop idx xs)" for x
  proof -
    from that obtain j where "j < length (drop idx xs)" "x = drop idx xs ! j" by (auto simp: in_set_conv_nth)
    then have j: "idx + j < length xs" "x = xs ! (idx + j)" by simp_all
    then have "idx < length xs" by simp
    then have "c < xs ! idx" using assms(2) by (cases "first_idx (length xs) (\<lambda>i. c < xs ! i)") (auto simp: first_idx_Some)
    also have "xs ! idx \<le> x" using sorted_nth_mono [OF assms(1), of idx "idx + j"] j by simp
    finally show ?thesis by simp
  qed
  moreover have "sorted (take idx xs)" "sorted (drop idx xs)" using assms(1) by (simp_all add: sorted_wrt_take sorted_wrt_drop)
  ultimately show ?thesis using le by (auto simp: sorted_append intro: order_trans)
qed

lemma sorted_remove_at:
  fixes xs :: "'a::linorder list"
  assumes "sorted xs" "i < length xs"
  shows "sorted (take i xs @ drop (Suc i) xs)"
proof -
  have "sorted (take i xs @ xs ! i # drop (Suc i) xs)" using assms id_take_nth_drop [OF assms(2)] by simp
  then show ?thesis by (simp add: sorted_append)
qed

lemma sorted_array_insert:
  fixes keys :: "'a::linorder list"
  assumes "sorted (take n keys)" "n < length keys"
    and "idx = (case first_idx n (\<lambda>i. c < keys ! i) of Some i \<Rightarrow> i | None \<Rightarrow> n)"
  shows "sorted (take (Suc n) (array_insert n idx c keys))"
proof -
  have le: "idx \<le> n" using assms(3) by (auto simp: first_idx_Some split: option.splits)
  have l: "length (take n keys) = n" using assms(2) by simp
  have "first_idx n (\<lambda>i. c < take n keys ! i) = first_idx n (\<lambda>i. c < keys ! i)" by (intro first_idx_cong) simp
  then have "sorted (take idx (take n keys) @ c # drop idx (take n keys))"
    using sorted_insert_at [OF assms(1), of idx c] assms(3) unfolding l by simp
  then show ?thesis using le assms(2) by (simp add: take_array_insert min_absorb1)
qed

lemma sorted_array_remove:
  fixes keys :: "'a::linorder list"
  assumes "sorted (take n keys)" "i < n" "n \<le> length keys"
  shows "sorted (take (n - 1) (array_remove n i keys))"
  using sorted_remove_at [OF assms(1), of i] assms(2,3) by (simp add: take_array_remove min_absorb1 del: One_nat_def)

section \<open>Adding a child\<close>

lemma sint_ascii:
  assumes "ascii c" "ascii d"
  shows "sint c < sint d \<longleftrightarrow> c < d"
proof -
  have "sint x = uint x" if "ascii x" for x
  proof -
    have "uint x < 2 ^ 7" "- (2 ^ 7) \<le> uint x"
      using that order_trans [OF _ uint_ge_0 [of x], of "- 128"] by (simp_all add: ascii_def word_less_def)
    then show ?thesis using signed_take_bit_int_eq_self [of 7 "uint x"] by (simp add: sint_uint)
  qed
  then show ?thesis using assms by (simp add: word_less_def)
qed

lemma ascending16_add:
  assumes k: "length keys = 16" "nch h < 16" and s: "sorted (take (nch h) keys)"
    and b: "\<forall>b \<in> set (take (nch h) keys). ascii b" "ascii c" and eq: "add_child16 h keys cs c x = (h', ch')"
  shows "ascending h' ch'"
proof -
  let ?n = "nch h"
  have e: "h' = h\<lparr>num_children := num_children h + 1\<rparr>"
    "ch' = Node16 (array_insert ?n (insert_pos16 h keys c) c keys) (array_insert ?n (insert_pos16 h keys c) (Some x) cs)"
    using eq k(2) by (simp_all add: add_child16_def Let_def)
  have "sint c < sint (keys ! i) \<longleftrightarrow> c < keys ! i" if "i < ?n" for i
    using b k that nth_mem [of i "take ?n keys"] by (intro sint_ascii) simp_all
  then have "insert_pos16 h keys c = (case first_idx ?n (\<lambda>i. c < keys ! i) of Some i \<Rightarrow> i | None \<Rightarrow> ?n)"
    using k by (simp add: insert_pos16 cong: first_idx_cong)
  then have "sorted (take (Suc ?n) (array_insert ?n (insert_pos16 h keys c) c keys))"
    using k s by (intro sorted_array_insert) simp_all
  moreover have "nch h' = Suc ?n" using k(2) by (simp add: e nch_Suc)
  ultimately show ?thesis by (simp add: e(2))
qed

lemma ascending_add:
  assumes ok: "ch_ok h ch" and eq: "add_child h ch c x = (h', ch')"
    and b: "\<And>b. b \<in> dom (child_map h ch) \<Longrightarrow> ascii b" "ascii c" and s: "ascending h ch"
  shows "ascending h' ch'"
proof (cases ch)
  case (Node4 keys cs)
  let ?n = "nch h"
  from ok Node4 have l: "lin_ok 4 ?n keys cs" by simp
  then have len: "length keys = 4" "?n \<le> 4" by (simp_all add: lin_ok_def)
  have dom: "dom (child_map h ch) = set (take ?n keys)" using dom_lin_map [OF l] by (simp add: Node4 child_map4)
  show ?thesis
  proof (cases "?n < 4")
    case True
    then have e: "h' = h\<lparr>num_children := num_children h + 1\<rparr>" "nch h' = Suc ?n"
      "ch' = Node4 (array_insert ?n (insert_pos4 h keys c) c keys) (array_insert ?n (insert_pos4 h keys c) (Some x) cs)"
      using eq by (auto simp: Node4 add_child4_def Let_def nch_Suc)
    have "sorted (take (Suc ?n) (array_insert ?n (insert_pos4 h keys c) c keys))"
      using s True len by (intro sorted_array_insert) (simp_all add: Node4 insert_pos4_def)
    then show ?thesis by (simp add: e(2,3))
  next
    case False
    let ?h = "copy_header zero_hdr h" and ?ks = "memcpy ?n keys (replicate 16 0)"
    have "take ?n ?ks = take ?n keys" using len by (simp add: memcpy_def)
    then show ?thesis
      using ascending16_add [of ?ks ?h c "memcpy ?n cs (replicate 16 None)" x h' ch'] eq False s b len dom
      by (simp add: Node4 add_child4_def Let_def)
  qed
next
  case (Node16 keys cs)
  then have l: "lin_ok 16 (nch h) keys cs" using ok by simp
  show ?thesis
  proof (cases "nch h < 16")
    case True
    then show ?thesis using ascending16_add [of keys h c cs x h' ch'] eq s b l dom_lin_map [OF l]
      by (simp add: Node16 child_map_ok lin_ok_def)
  qed (use eq in \<open>auto simp: Node16 add_child16_def add_child48_def add_child256_def Let_def split: if_splits\<close>)
qed (use eq in \<open>auto simp: add_child48_def add_child256_def Let_def split: if_splits\<close>)

section \<open>Removing a child\<close>

lemma ascending_drop:
  assumes ok: "ch_ok h (Node4 keys cs)" and f: "find_child h (Node4 keys cs) c = Some pos"
    and eq: "drop_child4 h keys cs pos = (h', ks, cs')" and s: "ascending h (Node4 keys cs)"
  shows "ascending h' (Node4 ks cs')"
proof -
  from f have p: "pos < nch h" by (simp add: first_idx_Some)
  then have "nch h' = nch h - 1" using eq by (auto simp: drop_child4_def Let_def nch_pred)
  moreover have "sorted (take (nch h - 1) (array_remove (nch h) pos keys))"
    using s ok p by (intro sorted_array_remove) (simp_all add: lin_ok_def)
  ultimately show ?thesis using eq by (auto simp: drop_child4_def Let_def)
qed

lemma live_sorted: "sorted (map of_nat (live P 256) :: u8 list)"
proof -
  have "sorted (live P 256)" by (simp add: live_def sorted_wrt_filter)
  moreover have "(of_nat i :: u8) \<le> of_nat j" if "i \<le> j" "j \<in> set (live P 256)" for i j
    using that by (simp add: word_le_nat_alt live_props)
  ultimately show ?thesis by (auto simp: sorted_map intro: sorted_wrt_mono_rel [of _ "(\<le>)"])
qed

lemma shrink16_sorted:
  assumes ok: "idx_ok keys cs" and card: "card (dom (idx_map keys cs)) \<le> 16" and s: "shrink16 keys cs = (n, ks, cs')"
  shows "sorted (take n ks)"
proof -
  define L where "L = live (\<lambda>i. keys ! i \<noteq> 0) 256"
  have n: "n = card (dom (idx_map keys cs))" by (rule shrink16_ok(3) [OF ok card s])
  have "unat ` dom (idx_map keys cs) = set L"
  proof
    show "unat ` dom (idx_map keys cs) \<subseteq> set L"
      by (auto simp: L_def live_props dest: domI) (metis domI domIff idx_map_None_iff [OF ok])
    show "set L \<subseteq> unat ` dom (idx_map keys cs)"
    proof
      fix i assume "i \<in> set L"
      then have "i < 256" "keys ! unat (of_nat i :: u8) \<noteq> 0" by (simp_all add: L_def live_props)
      then show "i \<in> unat ` dom (idx_map keys cs)"
        by (intro image_eqI [of _ _ "of_nat i :: u8"]) (simp_all add: domIff idx_map_None_iff [OF ok])
    qed
  qed
  moreover have "card (unat ` dom (idx_map keys cs)) = card (dom (idx_map keys cs))"
    by (intro card_image inj_onI) (simp add: word_unat_eq_iff)
  ultimately have "length L = n" using distinct_card [OF live_props(1) [of _ 256]] n by (simp add: L_def)
  note F = shrink16_fold [of 256 keys cs n ks cs', folded L_def]
  have F: "length ks = 16" "\<And>p. p < n \<Longrightarrow> ks ! p = of_nat (L ! p)"
    using F s card n \<open>length L = n\<close> by (simp_all add: shrink16_def)
  then have e: "take n ks = map of_nat L"
    using card n \<open>length L = n\<close> by (intro nth_equalityI) simp_all
  then show ?thesis using live_sorted by (simp only: L_def)
qed

lemma ascending_remove:
  assumes ok: "ch_ok h ch" "hdr_ok h" and n4: "node_type_of ch \<noteq> NODE4" and f: "find_child h ch c = Some pos"
    and eq: "remove_child h ch c pos d = (Some (Inner h' ch'), cnt)" and s: "ascending h ch"
  shows "ascending h' ch'"
proof (cases ch)
  case (Node16 keys cs)
  then have l: "lin_ok 16 (nch h) keys cs" using ok by simp
  then have "find_child h ch c = first_idx (nch h) (\<lambda>i. keys ! i = c)"
    unfolding Node16 by (intro find_child16) (simp_all add: lin_ok_def)
  with f have p: "pos < nch h" by (simp add: first_idx_Some)
  have r: "sorted (take (nch h - 1) (array_remove (nch h) pos keys))"
    using s l p by (intro sorted_array_remove) (simp_all add: Node16 lin_ok_def)
  have len: "length (array_remove (nch h) pos keys) = 16" using l p by (simp add: lin_ok_def)
  show ?thesis
  proof (cases "num_children h - 1 = 3")
    case True
    then have "nch h - 1 = 3" using nch_pred [of h] p by simp
    then show ?thesis using eq True r len by (auto simp: Node16 remove_child16_def Let_def memcpy_def)
  next
    case False
    then show ?thesis using eq r nch_pred [of h] p by (auto simp: Node16 remove_child16_def Let_def)
  qed
next
  case (Node48 keys cs)
  let ?ks = "keys[unat c := 0]" and ?cs = "cs[unat (keys ! unat c) - 1 := None]"
  from ok Node48 have iok: "idx_ok keys cs" and cd: "nch h = card (dom (idx_map keys cs))" by simp_all
  from f have c0: "keys ! unat c \<noteq> 0" by (auto simp: Node48 Let_def unat_gt_0 split: if_splits)
  then obtain x where x: "idx_map keys cs c = Some x" using idx_map_None_iff [OF iok, of c] by auto
  note r = idx_remove [OF iok c0]
  have "0 < nch h" using card_dom_pos [of "idx_map keys cs", OF x] cd by simp
  then have cd': "card (dom (idx_map ?ks ?cs)) = nch h - 1" "unat (num_children h - 1) = nch h - 1"
    using card_dom_del [of "idx_map keys cs", OF x] cd by (simp_all add: r(2) nch_pred del: One_nat_def)
  obtain m ks cs' where sh: "shrink16 ?ks ?cs = (m, ks, cs')" by (rule prod_cases3)
  show ?thesis
  proof (cases "num_children h - 1 = 12")
    case True
    then have c12: "card (dom (idx_map ?ks ?cs)) \<le> 16" "nch h - 1 = 12" using cd' by simp_all
    then show ?thesis using eq True shrink16_sorted [OF r(1) c12(1) sh] shrink16_ok(3) [OF r(1) c12(1) sh] cd' sh
      by (auto simp: Node48 remove_child48_def Let_def)
  qed (use eq in \<open>auto simp: Node48 remove_child48_def Let_def\<close>)
qed (use n4 eq in \<open>auto simp: remove_child256_def Let_def split: if_splits prod.splits\<close>)

section \<open>The invariant\<close>

interpretation ordered: node_invariant ascending ascii
proof (unfold_locales, goal_cases)
  case (1 h ch)
  then show ?case by (auto simp: is_node4_iff)
next
  case (2 h' h ch)
  then show ?case by (cases ch) simp_all
next
  case (3 h ch i y)
  then show ?case by (cases ch) simp_all
next
  case (4 h ch c x h' ch')
  from ascending_add [OF 4(1,4-7)] show ?case .
next
  case (5 h keys cs c pos h' ks cs')
  from ascending_drop [OF 5] show ?case .
next
  case (6 h ch c pos d h' ch' cnt)
  from ascending_remove [OF 6] show ?case .
qed

end
