(* ===== verification/ART_Iter.thy ===== *)
theory ART_Iter
  imports ART_Laws Buffer_Keys ART_Order
begin

text \<open>
  Iteration over a tree: \<open>art_iter\<close> calls back for every leaf once and stops at the first non-zero result;
  the leaves are the keys that are not in node buffers, in the order of their bytes as long as these are
  below 128; \<open>art_minimum\<close> and \<open>art_maximum\<close> are the ends of that order; \<open>art_iter_prefix\<close> visits
  the leaves that have the prefix if there is one.
\<close>

section \<open>Leaves in the order of the iteration\<close>

function leaves :: "art_node option \<Rightarrow> entry list" where
  "leaves None = []"
| "leaves (Some (Leaf e)) = [e]"
| "leaves (Some (Inner h ch)) = concat (map (\<lambda>i. leaves (child_at ch i)) (child_order h ch))"
  by pat_completeness auto
termination
  by (relation "measure node_size") (simp_all add: node_size_def [of "Some _"] node_size_child)

definition visit :: "(u64 \<Rightarrow> u64 \<Rightarrow> 's \<Rightarrow> int \<times> 's) \<Rightarrow> entry list \<Rightarrow> 's \<Rightarrow> int \<times> 's" where
  "visit cb = iter_stop (\<lambda>e. cb (entry_key e) (entry_value e))"

lemma iter_stop_append:
  "iter_stop f (xs @ ys) s = (case iter_stop f xs s of (res, s') \<Rightarrow> if res \<noteq> 0 then (res, s') else iter_stop f ys s')"
  by (induction xs arbitrary: s) (auto split: prod.split)

lemma iter_stop_concat: "iter_stop f (concat xss) s = iter_stop (iter_stop f) xss s"
  by (induction xss arbitrary: s) (auto simp: iter_stop_append split: prod.split)

lemma iter_stop_map: "iter_stop f (map g xs) s = iter_stop (\<lambda>x. f (g x)) xs s"
  by (induction xs arbitrary: s) (auto split: prod.split)

lemma recursive_iter_leaves: "recursive_iter cb n s = visit cb (leaves n) s"
proof (induction cb n s rule: recursive_iter.induct)
  case (2 cb l s)
  then show ?case by (cases "cb (entry_key l) (entry_value l) s") (simp add: visit_def)
next
  case (3 cb h ch s)
  then have "recursive_iter cb (Some (Inner h ch)) s = iter_stop (\<lambda>i. visit cb (leaves (child_at ch i))) (child_order h ch) s"
    by (simp cong: iter_stop_cong)
  then show ?case by (simp add: visit_def iter_stop_concat iter_stop_map)
qed (simp add: visit_def)

fun byte_order :: "art_hdr \<Rightarrow> 'n children \<Rightarrow> u8 list" where
  "byte_order h (Node4 keys cs) = take (nch h) keys"
| "byte_order h (Node16 keys cs) = take (nch h) keys"
| "byte_order h (Node48 keys cs) = map of_nat (live (\<lambda>i. keys ! i \<noteq> 0) 256)"
| "byte_order h (Node256 cs) = map of_nat (live (\<lambda>i. slot cs i \<noteq> None) 256)"

lemma child_order_bytes:
  assumes "ch_ok h ch"
  shows "map (child_at ch) (child_order h ch) = map (child_map h ch) (byte_order h ch)"
proof (cases ch)
  case (Node4 keys cs)
  then have l: "lin_ok 4 (nch h) keys cs" using assms by simp
  then show ?thesis using lin_map_at [OF l]
    by (intro nth_equalityI) (simp_all add: Node4 child_map4 lin_ok_def slot_def)
next
  case (Node16 keys cs)
  then have l: "lin_ok 16 (nch h) keys cs" using assms by simp
  then show ?thesis using lin_map_at [OF l] assms
    by (intro nth_equalityI) (simp_all add: Node16 child_map_ok lin_ok_def slot_def)
next
  case (Node48 keys cs)
  then show ?thesis by (simp add: child_map48 idx_map_def live_def)
next
  case (Node256 cs)
  then show ?thesis by (simp add: child_map256 dir_map_def live_def)
qed

lemma of_nat_live:
  "distinct (map of_nat (live P 256) :: u8 list)" "set (map of_nat (live P 256) :: u8 list) = {c. P (unat c)}"
proof -
  have "unat (of_nat i :: u8) = i" if "i \<in> set (live P 256)" for i using that by (simp add: live_props)
  then have "inj_on (of_nat :: nat \<Rightarrow> u8) (set (live P 256))" by (metis inj_onI)
  then show "distinct (map of_nat (live P 256) :: u8 list)" by (simp add: distinct_map live_props(1))
  show "set (map of_nat (live P 256) :: u8 list) = {c. P (unat c)}"
  proof (rule set_eqI)
    fix c :: u8
    have "c \<in> of_nat ` {i. i < 256 \<and> P i} \<longleftrightarrow> P (unat c)"
      using unat_u8_lt [of c] by (auto intro: image_eqI [of _ _ "unat c"])
    then show "c \<in> set (map of_nat (live P 256)) \<longleftrightarrow> c \<in> {c. P (unat c)}" by (simp add: live_props)
  qed
qed

lemma byte_order_dom:
  assumes "ch_ok h ch"
  shows "set (byte_order h ch) = dom (child_map h ch)" "distinct (byte_order h ch)"
proof -
  have "set (byte_order h ch) = dom (child_map h ch) \<and> distinct (byte_order h ch)"
  proof (cases ch)
    case (Node4 keys cs)
    then have l: "lin_ok 4 (nch h) keys cs" using assms by simp
    then show ?thesis using dom_lin_map [OF l] by (simp add: Node4 child_map4 lin_ok_def)
  next
    case (Node16 keys cs)
    then have l: "lin_ok 16 (nch h) keys cs" using assms by simp
    then show ?thesis using dom_lin_map [OF l] assms by (simp add: Node16 child_map_ok lin_ok_def)
  next
    case (Node48 keys cs)
    then have "idx_ok keys cs" using assms by simp
    then show ?thesis using idx_map_None_iff [of keys cs] of_nat_live(1,2) by (auto simp: Node48 child_map48 dom_def)
  next
    case (Node256 cs)
    then show ?thesis using of_nat_live(1,2) by (auto simp: child_map256 dir_map_def dom_def)
  qed
  then show "set (byte_order h ch) = dom (child_map h ch)" "distinct (byte_order h ch)" by blast+
qed

lemma child_order_kid:
  assumes "ch_ok h ch" "i \<in> set (child_order h ch)"
  obtains c n where "child_map h ch c = Some n" "child_at ch i = Some n"
proof -
  have "child_at ch i \<in> set (map (child_map h ch) (byte_order h ch))"
    unfolding child_order_bytes [OF assms(1), symmetric] using assms(2) by simp
  with that show thesis using byte_order_dom(1) [OF assms(1)] by auto
qed

lemma length_child_order:
  assumes "ch_ok h ch"
  shows "length (child_order h ch) = kids h ch"
proof -
  have "length (child_order h ch) = length (byte_order h ch)"
    using arg_cong [OF child_order_bytes [OF assms], of length] by simp
  also have "\<dots> = kids h ch" unfolding kids_def byte_order_dom(1) [OF assms, symmetric]
    by (rule distinct_card [OF byte_order_dom(2) [OF assms], symmetric])
  finally show ?thesis .
qed

lemma byte_order_sorted: "ascending h ch \<Longrightarrow> sorted (byte_order h ch)"
  by (cases ch) (simp_all add: live_sorted del: sorted_map)

lemma leaves_inner:
  assumes "ch_ok h ch"
  shows "leaves (Some (Inner h ch)) = concat (map (\<lambda>b. leaves (child_map h ch b)) (byte_order h ch))"
proof -
  have "map (\<lambda>i. leaves (child_at ch i)) (child_order h ch) = map leaves (map (child_at ch) (child_order h ch))" by simp
  also have "\<dots> = map (\<lambda>b. leaves (child_map h ch b)) (byte_order h ch)" unfolding child_order_bytes [OF assms] by simp
  finally show ?thesis by simp
qed

lemma set_leaves_inner:
  assumes "ch_ok h ch"
  shows "e \<in> set (leaves (Some (Inner h ch))) \<longleftrightarrow> (\<exists>c n. child_map h ch c = Some n \<and> e \<in> set (leaves (Some n)))"
  unfolding leaves_inner [OF assms] by (auto simp: byte_order_dom(1) [OF assms]) force+

section \<open>The leaves are the keys outside the buffers\<close>

lemma leaves_iff:
  assumes "art_ok p n"
  shows "e \<in> set (leaves (Some n)) \<longleftrightarrow>
    node_map (length p) n (entry_key e) = Some (entry_value e) \<and> \<not> hits (length p) n (entry_key e)"
  using assms
proof (induction p n rule: art_ok.induct)
  case (ok_leaf e' p)
  then have "art_ok p (Leaf e')" by (intro art_ok.ok_leaf)
  then show ?case by (cases e; cases e') (auto simp: node_map_leaf)
next
  case (ok_inner h ch p)
  then have ok: "art_ok p (Inner h ch)" by (intro art_ok.ok_inner)
  let ?q = "p @ prefix_of h" and ?k = "entry_key e"
  note D = inner_okD [OF ok [unfolded art_ok_inner]]
  let ?in = "\<lambda>n. node_map (length ?q + 1) n ?k = Some (entry_value e) \<and> \<not> hits (length ?q + 1) n ?k"
  have IH: "e \<in> set (leaves (Some n)) \<longleftrightarrow> ?in n" if "child_map h ch c = Some n" for c n
    using ok_inner.IH [OF that] by simp
  have m: "matches ?q ?k \<and> key_byte ?k (length ?q) = c" if "child_map h ch c = Some n" "?in n" for c n
    using node_map_snoc [OF D(5) [OF that(1)] _ D(3)] that(2) by simp
  have "e \<in> set (leaves (Some (Inner h ch))) \<longleftrightarrow> (\<exists>c n. child_map h ch c = Some n \<and> ?in n)"
    unfolding set_leaves_inner [OF D(2)] using IH by blast
  also have "\<dots> \<longleftrightarrow> matches ?q ?k \<and> (\<exists>n. child_map h ch (key_byte ?k (length ?q)) = Some n \<and> ?in n)"
    using m by blast
  also have "\<dots> \<longleftrightarrow> inner_map ?q h ch ?k = Some (entry_value e) \<and> \<not> hits (length p) (Inner h ch) ?k"
  proof (cases "buf_map h ?k")
    case None
    then show ?thesis
      unfolding hits_inner [OF ok refl] by (auto simp: inner_map_def kid_map_def split: option.splits)
  next
    case (Some v)
    then have "kid_map (length ?q) h ch ?k = None" using D(6) by blast
    then show ?thesis unfolding hits_inner [OF ok refl] using Some by (auto simp: kid_map_def split: option.splits)
  qed
  finally show ?case unfolding node_map_inner [OF ok] .
qed

lemma leaves_matches:
  assumes "art_ok p n" "e \<in> set (leaves (Some n))"
  shows "matches p (entry_key e)"
  using assms leaves_iff [OF assms(1)] node_map_matches [OF assms(1), of "entry_key e"] by simp

section \<open>The order of the leaves\<close>

lemma sorted_wrt_blocks:
  assumes "sorted_wrt S bs" "\<And>b. b \<in> set bs \<Longrightarrow> sorted_wrt R (f b)"
    and "\<And>b b' x y. b \<in> set bs \<Longrightarrow> b' \<in> set bs \<Longrightarrow> S b b' \<Longrightarrow> x \<in> set (f b) \<Longrightarrow> y \<in> set (f b') \<Longrightarrow> R x y"
  shows "sorted_wrt R (concat (map f bs))"
  using assms
proof (induction bs)
  case (Cons b bs)
  have "sorted_wrt R (concat (map f bs))"
    by (rule Cons.IH) (use Cons.prems(1,2) in simp, use Cons.prems(2) in simp, rule Cons.prems(3), auto)
  moreover have "R x y" if "x \<in> set (f b)" "y \<in> set (concat (map f bs))" for x y
  proof -
    from that(2) obtain b' where "b' \<in> set bs" "y \<in> set (f b')" by auto
    then show ?thesis using Cons.prems(3) [of b b' x y] Cons.prems(1) that(1) by simp
  qed
  ultimately show ?case using Cons.prems(2) by (simp add: sorted_wrt_append)
qed simp

text \<open>Two leaves below different children are in the order of the bytes that lead to these.\<close>

lemma leaves_sorted_wrt:
  assumes "art_ok p n" "T n"
    and S: "\<And>h ch. ch_ok h ch \<Longrightarrow> T (Inner h ch) \<Longrightarrow> sorted_wrt S (byte_order h ch)"
    and T: "\<And>h ch c m. T (Inner h ch) \<Longrightarrow> child_map h ch c = Some m \<Longrightarrow> T m"
    and R: "\<And>q x y. matches q (entry_key x) \<Longrightarrow> matches q (entry_key y) \<Longrightarrow> length q < 8 \<Longrightarrow>
      S (key_byte (entry_key x) (length q)) (key_byte (entry_key y) (length q)) \<Longrightarrow> R x y"
  shows "sorted_wrt R (leaves (Some n))"
  using assms(1,2)
proof (induction p n rule: art_ok.induct)
  case (ok_inner h ch p)
  then have ok: "art_ok p (Inner h ch)" by (intro art_ok.ok_inner)
  let ?q = "p @ prefix_of h"
  note D = inner_okD [OF ok [unfolded art_ok_inner]]
  show ?case
    unfolding leaves_inner [OF D(2)]
  proof (rule sorted_wrt_blocks)
    show "sorted_wrt S (byte_order h ch)" by (rule S [OF D(2) ok_inner.prems])
  next
    fix b assume "b \<in> set (byte_order h ch)"
    then obtain n where n: "child_map h ch b = Some n" using byte_order_dom(1) [OF D(2)] by blast
    then show "sorted_wrt R (leaves (child_map h ch b))" using ok_inner.IH [OF n T [OF ok_inner.prems n]] by simp
  next
    fix b b' x y
    assume "b \<in> set (byte_order h ch)" "b' \<in> set (byte_order h ch)" and bb: "S b b'"
      and x: "x \<in> set (leaves (child_map h ch b))" and y: "y \<in> set (leaves (child_map h ch b'))"
    have m: "matches ?q (entry_key e) \<and> key_byte (entry_key e) (length ?q) = c"
      if "e \<in> set (leaves (child_map h ch c))" for e c
    proof -
      from that obtain n where n: "child_map h ch c = Some n" by (cases "child_map h ch c") simp_all
      then have "matches (?q @ [c]) (entry_key e)" using leaves_matches [OF D(5) [OF n]] that by simp
      then show ?thesis using matches_snoc [OF D(3)] by simp
    qed
    show "R x y" using R [of ?q x y] m [OF x] m [OF y] bb D(3) by simp
  qed
qed simp

lemma leaves_distinct:
  assumes "art_ok p n"
  shows "distinct (map entry_key (leaves (Some n)))"
proof -
  have wrt: "sorted_wrt (\<noteq>) xs \<longleftrightarrow> distinct xs" for xs :: "'a list" by (induction xs) auto
  have "sorted_wrt (\<lambda>x y. entry_key x \<noteq> entry_key y) (leaves (Some n))"
    by (rule leaves_sorted_wrt [where T = "\<lambda>_. True" and S = "(\<noteq>)", OF assms]) (use byte_order_dom(2) wrt in auto)
  then show ?thesis unfolding wrt [symmetric] sorted_wrt_map .
qed

definition key_less :: "u64 \<Rightarrow> u64 \<Rightarrow> bool" where
  "key_less a b \<longleftrightarrow> memcmp (key_bytes a) (key_bytes b) < 0"

lemma memcmp_less: "take n xs = take n ys \<Longrightarrow> n < length xs \<Longrightarrow> n < length ys \<Longrightarrow> xs ! n < ys ! n \<Longrightarrow> memcmp xs ys < 0"
proof (induction xs ys arbitrary: n rule: memcmp.induct)
  case (1 x xs y ys)
  then show ?case by (cases n) auto
qed simp_all

lemma matches_key_less:
  assumes "matches q a" "matches q b" "length q < 8" "key_byte a (length q) < key_byte b (length q)"
  shows "key_less a b"
  unfolding key_less_def using assms by (intro memcmp_less [of "length q"]) (simp_all add: matches_def)

lemma leaves_ascending:
  assumes "art_ok p n" "tidy ascending n"
  shows "sorted_wrt key_less (map entry_key (leaves (Some n)))"
proof -
  have "sorted_wrt (\<lambda>x y. key_less (entry_key x) (entry_key y)) (leaves (Some n))"
  proof (rule leaves_sorted_wrt [where T = "tidy ascending" and S = "(<)", OF assms])
    fix h and ch :: "art_node children"
    assume "ch_ok h ch" "tidy ascending (Inner h ch)"
    then show "sorted_wrt (<) (byte_order h ch)"
      using byte_order_sorted [of h ch] byte_order_dom(2) [of h ch] by (simp add: strict_sorted_iff)
  qed (use matches_key_less in auto)
  then show ?thesis by (simp add: sorted_wrt_map)
qed

section \<open>The first and the last leaf\<close>

lemma find_filter: "filter P xs \<noteq> [] \<Longrightarrow> find P xs = Some (hd (filter P xs))"
  by (induction xs) auto

lemma first_idx_filter: "filter P [0..<n] \<noteq> [] \<Longrightarrow> first_idx n P = Some (hd (filter P [0..<n]))"
  unfolding first_idx_def by (rule find_filter)

lemma last_idx_filter: "filter P [0..<n] \<noteq> [] \<Longrightarrow> last_idx n P = Some (last (filter P [0..<n]))"
  unfolding last_idx_def using find_filter [of P "rev [0..<n]"] by (simp add: rev_filter [symmetric] hd_rev)

lemma ends_of_order:
  assumes "ch_ok h ch" "0 < kids h ch"
  shows "child_order h ch \<noteq> []" "first_child h ch = Some (hd (child_order h ch))" "last_child h ch = Some (last (child_order h ch))"
proof -
  show ne: "child_order h ch \<noteq> []" using length_child_order [OF assms(1)] assms(2) by auto
  have "first_child h ch = Some (hd (child_order h ch)) \<and> last_child h ch = Some (last (child_order h ch))"
  proof (cases ch)
    case (Node48 keys cs)
    then show ?thesis using ne first_idx_filter [of "\<lambda>i. keys ! i \<noteq> 0" 256] last_idx_filter [of "\<lambda>i. keys ! i \<noteq> 0" 256]
      by (simp add: hd_map last_map)
  next
    case (Node256 cs)
    then show ?thesis using ne first_idx_filter [of "\<lambda>i. slot cs i \<noteq> None" 256] last_idx_filter [of "\<lambda>i. slot cs i \<noteq> None" 256]
      by simp
  qed (use ne in simp_all)
  then show "first_child h ch = Some (hd (child_order h ch))" "last_child h ch = Some (last (child_order h ch))" by blast+
qed

lemma last_concat: "xss \<noteq> [] \<Longrightarrow> last xss \<noteq> [] \<Longrightarrow> last (concat xss) = last (last xss)"
  by (cases xss rule: rev_cases) simp_all

lemma ends_of_leaves:
  assumes "art_ok p n" "tidy Q n"
  shows "leaves (Some n) \<noteq> [] \<and> minimum (Some n) = Some (hd (leaves (Some n))) \<and> maximum (Some n) = Some (last (leaves (Some n)))"
  using assms
proof (induction p n rule: art_ok.induct)
  case (ok_inner h ch p)
  then have ok: "art_ok p (Inner h ch)" by (intro art_ok.ok_inner)
  note D = inner_okD [OF ok [unfolded art_ok_inner]]
  let ?os = "child_order h ch"
  have "enough h ch" using ok_inner.prems by simp
  then have "0 < kids h ch" by (cases "node_type_of ch") (simp_all add: enough_def)
  note E = ends_of_order [OF D(2) this]
  have IH: "leaves (child_at ch i) \<noteq> [] \<and> minimum (child_at ch i) = Some (hd (leaves (child_at ch i))) \<and>
    maximum (child_at ch i) = Some (last (leaves (child_at ch i)))" if i: "i \<in> set ?os" for i
  proof -
    obtain c n where "child_map h ch c = Some n" "child_at ch i = Some n" by (rule child_order_kid [OF D(2) i])
    with ok_inner.IH ok_inner.prems show ?thesis by simp
  qed
  have "hd ?os \<in> set ?os" "last ?os \<in> set ?os" using E(1) by simp_all
  note ends = IH [OF this(1)] IH [OF this(2)]
  then have "hd (map (\<lambda>i. leaves (child_at ch i)) ?os) \<noteq> []" "last (map (\<lambda>i. leaves (child_at ch i)) ?os) \<noteq> []"
    using E(1) by (simp_all add: hd_map last_map)
  moreover from this E(1) have "leaves (Some (Inner h ch)) \<noteq> []" by (cases ?os) simp_all
  ultimately show ?case using E ends by (simp add: hd_concat last_concat hd_map last_map)
qed simp

section \<open>Iteration below a prefix\<close>

abbreviation agrees :: "nat \<Rightarrow> u64 \<Rightarrow> u64 \<Rightarrow> bool" where
  "agrees m k k' \<equiv> take m (key_bytes k) = take m (key_bytes k')"

definition with_prefix :: "u64 \<Rightarrow> nat \<Rightarrow> entry \<Rightarrow> bool" where
  "with_prefix key key_len e \<longleftrightarrow> leaf_prefix_matches e key key_len = 0"

lemma with_prefix_iff: "m \<le> 8 \<Longrightarrow> with_prefix key m e \<longleftrightarrow> agrees m (entry_key e) key"
  by (simp add: with_prefix_def leaf_prefix_matches_def memcmp_eq_0)

lemma matches_agrees:
  assumes "matches q k" "m \<le> length q"
  shows "agrees m k k' \<longleftrightarrow> take m q = take m (key_bytes k')"
proof -
  have "take m (key_bytes k) = take m (take (length q) (key_bytes k))" using assms(2) by simp
  also have "\<dots> = take m q" using assms(1) by (simp add: matches_def)
  finally show ?thesis by simp
qed

lemma agrees_matches:
  assumes "agrees m k k'" "length q \<le> m" "matches q k"
  shows "matches q k'"
proof -
  have "take (length q) (take m (key_bytes k')) = take (length q) (take m (key_bytes k))" using assms(1) by simp
  then show ?thesis using assms(2,3) by (simp add: matches_def min_absorb1)
qed

lemma concat_single:
  "distinct bs \<Longrightarrow> c \<in> set bs \<Longrightarrow> (\<And>b. b \<in> set bs \<Longrightarrow> b \<noteq> c \<Longrightarrow> f b = []) \<Longrightarrow> concat (map f bs) = f c"
proof (induction bs)
  case (Cons b bs)
  show ?case
  proof (cases "b = c")
    case True
    then have "concat (map f bs) = []" using Cons.prems by auto
    with True show ?thesis by simp
  next
    case False
    then show ?thesis using Cons by simp
  qed
qed simp

text \<open>Where some leaf has the prefix, the comparison with a node's prefix ends at the end of one of both.\<close>

lemma prefix_mismatch_full:
  assumes "hdr_ok h" "matches (p @ prefix_of h) k" "agrees m k key" "m \<le> 8"
  shows "prefix_mismatch h ch key m (length p) = min (partial_len h) (m - length p)"
proof -
  let ?max = "min (partial_len h) (m - length p)"
  have pl: "partial_len h \<le> 8" "length (prefix_of h) = partial_len h" using assms(1) by (simp_all add: hdr_ok_def prefix_of_def)
  have "partial h ! i = key_byte key (length p + i)" if "i < ?max" for i
  proof -
    have i: "i < partial_len h" "length p + i < m" using that by linarith+
    have "length (p @ prefix_of h) \<le> 8" by (rule matches_length [OF assms(2)])
    then have "key_byte k (length p + i) = (p @ prefix_of h) ! (length p + i)"
      using assms(2) matches_iff [of "p @ prefix_of h" k] i(1) pl(2) by simp
    moreover have "take m (key_bytes k) ! (length p + i) = take m (key_bytes key) ! (length p + i)" using assms(3) by simp
    then have "key_byte k (length p + i) = key_byte key (length p + i)" using i(2) assms(4) by simp
    ultimately show ?thesis using i(1) by (simp add: nth_append prefix_of_def)
  qed
  then have "first_idx ?max (\<lambda>i. partial h ! i \<noteq> key_byte key (length p + i)) = None" by (simp add: first_idx_None)
  then show ?thesis using pl(1) by (simp add: prefix_mismatch_check check_prefix_def Let_def min_absorb1)
qed

lemma iter_prefix_visits:
  assumes "art_ok p n" "tidy Q n" "length p \<le> m" "m \<le> 8" "matches p key" "\<exists>e \<in> set (leaves (Some n)). with_prefix key m e"
  shows "iter_prefix key m cb (Some n) (length p) s = visit cb (filter (with_prefix key m) (leaves (Some n))) s"
  using assms
proof (induction p n arbitrary: s rule: art_ok.induct)
  case (ok_leaf l p)
  then have "leaf_prefix_matches l key m = 0" by (simp add: with_prefix_def)
  then show ?case by (cases "cb (entry_key l) (entry_value l) s") (simp add: with_prefix_def visit_def)
next
  case (ok_inner h ch p)
  then have ok: "art_ok p (Inner h ch)" by (intro art_ok.ok_inner)
  let ?n = "Inner h ch" and ?q = "p @ prefix_of h" and ?pre = "with_prefix key m"
  note D = inner_okD [OF ok [unfolded art_ok_inner]]
  have m8: "m \<le> 8" by (rule ok_inner.prems(3))
  note W = with_prefix_iff [OF m8]
  have lq: "length ?q = length p + partial_len h" using D(1) by simp
  obtain e where e: "e \<in> set (leaves (Some ?n))" "?pre e" using ok_inner.prems(5) by blast
  have mq: "matches ?q (entry_key e')" if "e' \<in> set (leaves (Some ?n))" for e'
  proof -
    obtain c n where "child_map h ch c = Some n" "e' \<in> set (leaves (Some n))"
      using \<open>e' \<in> _\<close> set_leaves_inner [OF D(2)] by blast
    then have "matches (?q @ [c]) (entry_key e')" using leaves_matches [OF D(5)] by simp
    then show ?thesis by (rule matches_appendD)
  qed
  have all: "\<forall>e' \<in> set (leaves (Some ?n)). ?pre e'" if "m \<le> length ?q"
    using matches_agrees [OF mq that] matches_agrees [OF mq [OF e(1)] that] e(2) W by metis
  then have iter: "recursive_iter cb (Some ?n) s = visit cb (filter ?pre (leaves (Some ?n))) s" if "m \<le> length ?q"
    by (simp only: recursive_iter_leaves filter_True [OF all [OF that]])
  note PM = prefix_mismatch_full [OF D(1) mq [OF e(1)] _ m8, of key ch]
  have pm: "min (prefix_mismatch h ch key m (length p)) (partial_len h) = min (partial_len h) (m - length p)"
    using PM e(2) W by simp
  consider "length p = m" | "length p < m" "m \<le> length ?q" | "length ?q < m" using ok_inner.prems(2) by linarith
  then show ?case
  proof cases
    case 1
    obtain l where l: "minimum (Some ?n) = Some l" "l \<in> set (leaves (Some ?n))"
      using ends_of_leaves [OF ok ok_inner.prems(1)] hd_in_set by blast
    have "m \<le> length ?q" using 1 by simp
    with all l(2) have "leaf_prefix_matches l key m = 0" unfolding with_prefix_def by blast
    then show ?thesis using iter 1 l(1) by (simp del: minimum.simps leaves.simps)
  next
    case 2
    then have "partial_len h \<noteq> 0" "min (partial_len h) (m - length p) = m - length p" using lq by linarith+
    then show ?thesis using iter 2 by (simp add: pm Let_def del: leaves.simps)
  next
    case 3
    let ?c = "key_byte key (length ?q)"
    have mk: "matches ?q key" using agrees_matches [OF _ _ mq [OF e(1)]] e(2) 3 W by simp
    have block: "b = ?c" if "child_map h ch b = Some n" "e' \<in> set (leaves (Some n))" "?pre e'" for b n e'
    proof -
      have "matches (?q @ [b]) (entry_key e')" by (rule leaves_matches [OF D(5) [OF that(1)] that(2)])
      then have "matches (?q @ [b]) key" using agrees_matches that(3) 3 W by simp
      then show ?thesis using matches_snoc [OF D(3)] by simp
    qed
    obtain b n where "child_map h ch b = Some n" "e \<in> set (leaves (Some n))" using e(1) set_leaves_inner [OF D(2)] by blast
    moreover from this have "b = ?c" using block e(2) by blast
    ultimately have n: "child_map h ch ?c = Some n" "e \<in> set (leaves (Some n))" by simp_all
    obtain i where i: "find_child h ch ?c = Some i" "child_at ch i = Some n" by (rule child_mapE [OF D(2) n(1)])
    have "filter ?pre (leaves (Some ?n)) = concat (map (\<lambda>b. filter ?pre (leaves (child_map h ch b))) (byte_order h ch))"
      unfolding leaves_inner [OF D(2)] by (simp add: filter_concat o_def)
    also have "\<dots> = filter ?pre (leaves (child_map h ch ?c))"
    proof (rule concat_single)
      show "?c \<in> set (byte_order h ch)" using n byte_order_dom(1) [OF D(2)] by blast
      fix b assume "b \<in> set (byte_order h ch)" "b \<noteq> ?c"
      then show "filter ?pre (leaves (child_map h ch b)) = []"
        using block byte_order_dom(1) [OF D(2)] by (auto simp: filter_empty_conv)
    qed (rule byte_order_dom(2) [OF D(2)])
    finally have f: "filter ?pre (leaves (Some ?n)) = filter ?pre (leaves (Some n))" using n by simp
    have mc: "matches (p @ prefix_of h @ [?c]) key" using matches_snoc [OF D(3), of ?c key] mk by simp
    have l: "length (p @ prefix_of h @ [?c]) = length p + partial_len h + 1" using lq by simp
    have IH: "iter_prefix key m cb (Some n) (length p + partial_len h + 1) s = visit cb (filter ?pre (leaves (Some n))) s"
      using ok_inner.IH [OF n(1) _ _ m8 mc] ok_inner.prems(1) n e(2) 3 l lq by auto
    have "iter_prefix key m cb (Some ?n) (length p) s = iter_prefix key m cb (Some n) (length p + partial_len h + 1) s"
      using 3 i lq by (auto simp: pm Let_def)
    then show ?thesis using IH f by simp
  qed
qed

end
