(* ===== verification/ART_Iter_Laws.thy ===== *)
theory ART_Iter_Laws
  imports ART_Iter
begin

text \<open>
  Trees after any sequence of calls of \<open>art_insert\<close>, \<open>art_insert_no_replace\<close> and \<open>art_delete\<close>: the number of
  children of their nodes and of nodes, what the iterations over them visit and in which order.
\<close>

section \<open>Sequences of calls\<close>

text \<open>\<open>Set_Key st k v\<close> is \<open>art_insert\<close> with storage type \<open>st\<close>, \<open>Add_Key st k v\<close> is \<open>art_insert_no_replace\<close>.\<close>

datatype art_call = Set_Key nat u64 u64 | Add_Key nat u64 u64 | Drop_Key u64

fun art_call_key :: "art_call \<Rightarrow> u64" where
  "art_call_key (Set_Key st k v) = k"
| "art_call_key (Add_Key st k v) = k"
| "art_call_key (Drop_Key k) = k"

fun art_do :: "art_call \<Rightarrow> art_tree \<Rightarrow> art_tree" where
  "art_do (Set_Key st k v) t = fst (art_insert t k (KEY_LEN + st) v)"
| "art_do (Add_Key st k v) t = fst (art_insert_no_replace t k (KEY_LEN + st) v)"
| "art_do (Drop_Key k) t = fst (art_delete t k KEY_LEN)"

text \<open>The calls that keep all keys; they are a part of each call's precondition in the laws of the tree.\<close>

fun art_call_safe :: "art_tree \<Rightarrow> art_call \<Rightarrow> bool" where
  "art_call_safe t (Set_Key st k v) \<longleftrightarrow> st < 8 \<and> tree_insert_safe True st t k"
| "art_call_safe t (Add_Key st k v) \<longleftrightarrow> st < 8 \<and> tree_insert_safe False st t k"
| "art_call_safe t (Drop_Key k) \<longleftrightarrow> tree_del_safe t k"

fun art_run_safe :: "art_call list \<Rightarrow> art_tree \<Rightarrow> bool" where
  "art_run_safe [] t \<longleftrightarrow> True"
| "art_run_safe (x # xs) t \<longleftrightarrow> \<not> IS_SPECIAL_KEY (art_call_key x) \<and> art_call_safe t x \<and> art_run_safe xs (art_do x t)"

abbreviation art_run :: "art_call list \<Rightarrow> art_tree" where
  "art_run xs \<equiv> fold art_do xs art_tree_init"

definition tree_tidy :: "(art_hdr \<Rightarrow> art_node children \<Rightarrow> bool) \<Rightarrow> art_tree \<Rightarrow> bool" where
  "tree_tidy Q t \<longleftrightarrow> (case root t of None \<Rightarrow> True | Some n \<Rightarrow> tidy Q n)"

definition keys_in :: "(u8 \<Rightarrow> bool) \<Rightarrow> art_tree \<Rightarrow> bool" where
  "keys_in B t \<longleftrightarrow> (\<forall>k. art_map t k \<noteq> None \<longrightarrow> key_in B k)"

lemma art_do_map:
  assumes ok: "tree_ok t" and key: "\<not> IS_SPECIAL_KEY (art_call_key x)" and safe: "art_call_safe t x"
  shows "tree_ok (art_do x t) \<and> (\<forall>k. art_map (art_do x t) k \<noteq> None \<longrightarrow> k = art_call_key x \<or> art_map t k \<noteq> None)"
proof (cases x)
  case (Set_Key st k v)
  obtain t' old where e: "art_insert_with True t k (8 + st) v = (t', old)" by (rule prod.exhaust)
  have "\<not> IS_SPECIAL_KEY k" "st < 8" "tree_insert_safe True st t k" using key safe Set_Key by simp_all
  from insert_with_ok [OF ok this e] e show ?thesis by (simp add: Set_Key art_insert_def)
next
  case (Add_Key st k v)
  obtain t' old where e: "art_insert_with False t k (8 + st) v = (t', old)" by (rule prod.exhaust)
  have "\<not> IS_SPECIAL_KEY k" "st < 8" "tree_insert_safe False st t k" using key safe Add_Key by simp_all
  from insert_with_ok [OF ok this e] e show ?thesis by (simp add: Add_Key art_insert_no_replace_def)
next
  case (Drop_Key k)
  obtain t' old where e: "art_delete t k 8 = (t', old)" by (rule prod.exhaust)
  have "\<not> IS_SPECIAL_KEY k" "tree_del_safe t k" using key safe Drop_Key by simp_all
  from delete_ok [OF ok this e] e show ?thesis by (simp add: Drop_Key)
qed

context node_invariant
begin

lemma tree_bytes_in:
  assumes "tree_ok t" "tree_tidy Q t" "keys_in B t" "root t = Some n"
  shows "art_ok [] n" "bytes_in B n" "tidy Q n"
proof -
  show n: "art_ok [] n" "tidy Q n" using assms by (simp_all add: tree_ok_def tree_tidy_def)
  show "bytes_in B n" by (rule keys_bytes_in [OF n]) (use assms(3,4) in \<open>simp add: keys_in_def art_map_def\<close>)
qed

lemma insert_with_tidy:
  assumes t: "tree_ok t" "tree_tidy Q t" "keys_in B t" and key: "\<not> IS_SPECIAL_KEY key" "st < 8" "key_in B key"
  shows "tree_tidy Q (fst (art_insert_with replace t key (8 + st) v))"
proof -
  obtain m old flag where r: "recursive_insert (root t) key (8 + st) v 0 replace = (m, old, flag)" by (rule prod_cases3)
  have "case m of None \<Rightarrow> True | Some n \<Rightarrow> tidy Q n"
  proof (cases "root t")
    case None
    then show ?thesis using r by auto
  next
    case (Some n)
    note N = tree_bytes_in [OF t Some]
    show ?thesis
      using insert_tidy [OF N(1) _ key(1,2) _ key(3) N(2,3), of v replace m old flag] r Some by simp
  qed
  then show ?thesis using r by (simp add: art_insert_with_def tree_tidy_def Let_def)
qed

lemma delete_tree_tidy:
  assumes t: "tree_ok t" "tree_tidy Q t" "keys_in B t" and key: "\<not> IS_SPECIAL_KEY key" "tree_del_safe t key"
  shows "tree_tidy Q (fst (art_delete t key 8))"
proof -
  obtain m old where r: "recursive_delete (root t) key 8 0 = (m, old)" by (rule prod.exhaust)
  have "case m of None \<Rightarrow> True | Some n \<Rightarrow> tidy Q n"
  proof (cases "root t")
    case None
    then show ?thesis using r by auto
  next
    case (Some n)
    note N = tree_bytes_in [OF t Some]
    show ?thesis
      using delete_tidy [OF N(1) _ key(1) _ _ N(2,3), of m old] key(2) r Some by (simp add: tree_del_safe_def)
  qed
  then show ?thesis using r by (auto simp: art_delete_def tree_tidy_def split: option.split)
qed

lemma run_tidy:
  assumes "art_run_safe xs t" "\<forall>x \<in> set xs. key_in B (art_call_key x)" "tree_ok t" "tree_tidy Q t" "keys_in B t"
  shows "tree_ok (fold art_do xs t) \<and> tree_tidy Q (fold art_do xs t) \<and> keys_in B (fold art_do xs t)"
  using assms
proof (induction xs arbitrary: t)
  case (Cons x xs)
  then have x: "\<not> IS_SPECIAL_KEY (art_call_key x)" "art_call_safe t x" "key_in B (art_call_key x)" by simp_all
  have "tree_tidy Q (art_do x t)"
    using x insert_with_tidy [OF Cons.prems(3-5)] delete_tree_tidy [OF Cons.prems(3-5)]
    by (cases x) (simp_all add: art_insert_def art_insert_no_replace_def)
  moreover have "tree_ok (art_do x t)" "keys_in B (art_do x t)"
    using art_do_map [OF Cons.prems(3) x(1,2)] Cons.prems(5) x(3) by (auto simp: keys_in_def)
  ultimately show ?case using Cons.IH [of "art_do x t"] Cons.prems(1,2) by simp
qed simp

lemma art_run_tidy:
  assumes "art_run_safe xs art_tree_init" "\<forall>x \<in> set xs. key_in B (art_call_key x)"
  shows "tree_ok (art_run xs) \<and> tree_tidy Q (art_run xs) \<and> keys_in B (art_run xs)"
  by (rule run_tidy [OF assms tree_ok_init(1)]) (simp_all add: tree_tidy_def keys_in_def tree_ok_init(2), simp add: art_tree_init_def)

end

section \<open>The number of nodes\<close>

text \<open>Inner nodes have at least two children, so there are fewer of them than leaves.\<close>

lemma destroy_count:
  assumes "art_ok p n" "tidy Q n"
  shows "length (destroy_node (Some n)) + 1 \<le> 2 * length (leaves (Some n))"
  using assms
proof (induction p n rule: art_ok.induct)
  case (ok_inner h ch p)
  then have ok: "art_ok p (Inner h ch)" by (intro art_ok.ok_inner)
  note D = inner_okD [OF ok [unfolded art_ok_inner]]
  let ?os = "child_order h ch"
  have IH: "length (destroy_node (child_at ch i)) + 1 \<le> 2 * length (leaves (child_at ch i))" if i: "i \<in> set ?os" for i
  proof -
    obtain c n where "child_map h ch c = Some n" "child_at ch i = Some n" by (rule child_order_kid [OF D(2) i])
    with ok_inner.IH ok_inner.prems show ?thesis by simp
  qed
  have "2 \<le> length ?os"
    using ok_inner.prems length_child_order [OF D(2)] by (cases "node_type_of ch") (simp_all add: enough_def)
  moreover have "(\<Sum>i\<leftarrow>?os. length (destroy_node (child_at ch i)) + 1) \<le> (\<Sum>i\<leftarrow>?os. 2 * length (leaves (child_at ch i)))"
    by (rule sum_list_mono) (rule IH)
  moreover have "(\<Sum>i\<leftarrow>os. f i + 1) = (\<Sum>i\<leftarrow>os. f i) + length os" for f :: "nat \<Rightarrow> nat" and os by (induction os) simp_all
  ultimately show ?case by (simp add: length_concat o_def sum_list_const_mult del: add_0_right One_nat_def)
qed simp

text \<open>\<open>sized n\<close>: every inner node of \<open>n\<close> has the kind that its number of children asks for.\<close>

function sized :: "art_node \<Rightarrow> bool" where
  "sized (Leaf e) \<longleftrightarrow> True"
| "sized (Inner h ch) \<longleftrightarrow> min_children (node_type_of ch) \<le> kids h ch \<and> kids h ch \<le> max_children (node_type_of ch) \<and>
    (\<forall>c n. child_map h ch c = Some n \<longrightarrow> sized n)"
  by pat_completeness auto
termination
  by (relation "measure size") (auto dest: size_child_map)

lemma tidy_sized: "art_ok p n \<Longrightarrow> tidy Q n \<Longrightarrow> sized n"
proof (induction p n rule: art_ok.induct)
  case (ok_inner h ch p)
  then show ?case using kids_max [OF ok_inner.hyps(2)] by (simp add: enough_def)
qed simp

section \<open>Properties\<close>

text \<open>A sequence with a key in the buffer that a deletion flushes, a \<open>Node4\<close> that grows, and a key that stays in the buffer;
  the callback collects keys.\<close>

definition sample_calls :: "art_call list" where
  "sample_calls = [Set_Key 1 0x0101 7, Set_Key 1 0x0201 8, Add_Key 1 0x0301 9, Set_Key 0 0x0401 5, Add_Key 0 0x0501 4,
    Drop_Key 0x0201, Set_Key 0 0x0601 3, Set_Key 0 0x0701 2, Add_Key 1 0x0801 6]"

definition collect :: "u64 \<Rightarrow> u64 \<Rightarrow> u64 list \<Rightarrow> int \<times> u64 list" where
  "collect k v ks = (0, ks @ [k])"

lemma sample_calls_safe: "art_run_safe sample_calls art_tree_init"
  by code_simp

lemma sample_tree_calls: "tree_ok (art_run sample_calls)"
  using sizes.art_run_tidy [OF sample_calls_safe] by (simp add: key_in_def)

text \<open>After any sequence of insertions and deletions that keep all keys, every \<open>Node4\<close> of the tree has 2 to 4
  children, every \<open>Node16\<close> 4 to 16, every \<open>Node48\<close> 13 to 48 and every \<open>Node256\<close> 38 to 256, and a tree with \<open>n\<close> leaves,
  \<open>n > 0\<close>, has at most \<open>2 n - 1\<close> nodes, which is how many \<open>art_tree_destroy\<close> frees.\<close>

theorem art_node_sizes:
  assumes "art_run_safe xs art_tree_init" "root (art_run xs) = Some n"
  shows "sized n \<and> length (art_tree_destroy (art_run xs)) + 1 \<le> 2 * length (leaves (Some n))"
proof -
  have "tree_ok (art_run xs)" "tree_tidy (\<lambda>_ _. True) (art_run xs)"
    using sizes.art_run_tidy [OF assms(1)] by (simp_all add: key_in_def)
  then have n: "art_ok [] n" "tidy (\<lambda>_ _. True) n" using assms(2) by (simp_all add: tree_ok_def tree_tidy_def)
  show ?thesis using tidy_sized [OF n] destroy_count [OF n] assms(2) by (simp add: art_tree_destroy_def)
qed

theorem art_node_sizes_witness:
  "sized (the (root (art_run sample_calls))) \<and>
    length (art_tree_destroy (art_run sample_calls)) + 1 \<le> 2 * length (leaves (root (art_run sample_calls)))"
proof -
  have "root (art_run sample_calls) = Some (the (root (art_run sample_calls)))" by code_simp
  from art_node_sizes [OF sample_calls_safe this] this show ?thesis by metis
qed

text \<open>C15. In a well-formed tree \<open>art_iter\<close> calls back for its leaves, each once and with its value, until a result is not 0;
  the leaves are exactly the entries of the tree that are not in node buffers.\<close>

theorem art_iter_visits:
  assumes "tree_ok t"
  shows "art_iter t cb s = visit cb (leaves (root t)) s \<and> distinct (map entry_key (leaves (root t))) \<and>
    (\<forall>e. e \<in> set (leaves (root t)) \<longleftrightarrow> art_map t (entry_key e) = Some (entry_value e) \<and> \<not> in_buffer t (entry_key e))"
proof (cases "root t")
  case None
  then show ?thesis by (simp add: art_iter_def visit_def art_map_def)
next
  case (Some n)
  then have n: "art_ok [] n" using assms by (simp add: tree_ok_def)
  show ?thesis using leaves_distinct [OF n] leaves_iff [OF n]
    by (simp add: Some art_iter_def recursive_iter_leaves art_map_def in_buffer_def art_find_def buffer_hit_walk)
qed

theorem art_iter_visits_witness:
  "art_iter (art_run sample_calls) collect [] = (0, [0x0101, 0x0301, 0x0401, 0x0501, 0x0601, 0x0701])"
proof -
  from art_iter_visits [OF sample_tree_calls, of collect "[]"]
  have "art_iter (art_run sample_calls) collect [] = visit collect (leaves (root (art_run sample_calls))) []" by blast
  also have "\<dots> = (0, [0x0101, 0x0301, 0x0401, 0x0501, 0x0601, 0x0701])" by code_simp
  finally show ?thesis .
qed

text \<open>C16. In a tree built from the empty one by any sequence of insertions and deletions that keep all keys
  (\<open>art_run_safe\<close>: keys are not reserved, storage types are below 8, an insertion is of a new key, or of
  one of memory type with \<open>art_insert\<close>, and a new memory-type key has the prefix of the first node on its
  way with an empty buffer slot, and the buffered keys that a deletion turns into children of a \<open>Node4\<close>
  have bytes of their own), when all bytes of keys are below 128, the leaves are in ascending order of their keys,
  \<open>art_minimum\<close> is the first and \<open>art_maximum\<close> the last of them, or \<open>NULL\<close> in the
  empty tree.\<close>

theorem art_leaves_ascend:
  assumes "art_run_safe xs art_tree_init" "\<forall>x \<in> set xs. key_in ascii (art_call_key x)"
  defines "t \<equiv> art_run xs"
  shows "sorted_wrt key_less (map entry_key (leaves (root t))) \<and>
    art_minimum t = (if root t = None then None else Some (hd (leaves (root t)))) \<and>
    art_maximum t = (if root t = None then None else Some (last (leaves (root t))))"
proof -
  have t: "tree_ok t" "tree_tidy ascending t" using ordered.art_run_tidy [OF assms(1,2)] by (simp_all add: t_def)
  show ?thesis
  proof (cases "root t")
    case None
    then show ?thesis by (simp add: art_minimum_def art_maximum_def)
  next
    case (Some n)
    then have n: "art_ok [] n" "tidy ascending n" using t by (simp_all add: tree_ok_def tree_tidy_def)
    show ?thesis unfolding Some art_minimum_def art_maximum_def
      using leaves_ascending [OF n] ends_of_leaves [OF n] by (simp del: leaves.simps minimum.simps maximum.simps)
  qed
qed

theorem art_leaves_ascend_witness:
  "sorted_wrt key_less (map entry_key (leaves (root (art_run sample_calls)))) \<and>
    map_option entry_key (art_minimum (art_run sample_calls)) = Some 0x0101 \<and>
    map_option entry_key (art_maximum (art_run sample_calls)) = Some 0x0701"
proof -
  have "\<forall>x \<in> set sample_calls. key_in ascii (art_call_key x)" by code_simp
  note A = art_leaves_ascend [OF sample_calls_safe this]
  have "root (art_run sample_calls) \<noteq> None" "entry_key (hd (leaves (root (art_run sample_calls)))) = 0x0101"
    "entry_key (last (leaves (root (art_run sample_calls)))) = 0x0701" by code_simp+
  with A show ?thesis by simp
qed

text \<open>C17. If some leaf's key starts with the first \<open>m\<close> bytes of \<open>key\<close>, \<open>art_iter_prefix\<close> calls back for the leaves whose keys do
  and for no others, in the order of the iteration, until a result is not 0.\<close>

theorem art_iter_prefix_visits:
  assumes "tree_ok t" "m \<le> 8" "e \<in> set (leaves (root t))" "agrees m (entry_key e) key"
  shows "art_iter_prefix t key m cb s = visit cb (filter (\<lambda>e. agrees m (entry_key e) key) (leaves (root t))) s"
proof -
  obtain n where r: "root t = Some n" using assms(3) by (cases "root t") simp_all
  then have n: "art_ok [] n" "tidy (\<lambda>_ _. True) n" using assms(1) by (simp_all add: tree_ok_def filled_def)
  note W = with_prefix_iff [OF assms(2)]
  have "\<exists>e \<in> set (leaves (Some n)). with_prefix key m e" using assms(3,4) r W by auto
  moreover have "with_prefix key m = (\<lambda>e. agrees m (entry_key e) key)" using W by (simp add: fun_eq_iff)
  ultimately show ?thesis using iter_prefix_visits [OF n _ assms(2), of key cb s] by (simp add: art_iter_prefix_def r)
qed

theorem art_iter_prefix_visits_witness:
  "art_iter_prefix (art_run sample_calls) 0xFFFF0501 2 collect [] = (0, [0x0501])"
proof -
  let ?e = "\<lparr>entry_key = 0x0501, entry_value = 4\<rparr>"
  have e: "?e \<in> set (leaves (root (art_run sample_calls)))" "agrees 2 (entry_key ?e) 0xFFFF0501" by code_simp+
  have "visit collect (filter (\<lambda>e. agrees 2 (entry_key e) 0xFFFF0501) (leaves (root (art_run sample_calls)))) [] =
    (0, [0x0501])" by code_simp
  with art_iter_prefix_visits [OF sample_tree_calls _ e, of collect "[]"] show ?thesis by simp
qed

text \<open>If no leaf's key starts with the prefix, \<open>art_iter_prefix\<close> may call back for others: a node whose prefix has a
  byte in common with the prefix looked for is passed although the next byte differs, and the next node is compared from its own
  depth on. Here no key starts with the bytes 1 9 9 4 5, two are visited.\<close>

theorem art_iter_prefix_visits_others:
  "art_iter_prefix (art_run [Set_Key 1 0x060504030201 7, Set_Key 1 0x070504030201 8, Set_Key 1 0x05030201 9])
    0x0504090901 5 collect [] = (0, [0x060504030201, 0x070504030201]) \<and>
    \<not> agrees 5 0x060504030201 0x0504090901 \<and> \<not> agrees 5 0x070504030201 0x0504090901"
  by code_simp

end
