(* ===== verification/Index_Nodes.thy ===== *)
theory Index_Nodes
  imports Index_Calls ART_Iter_Laws
begin

text \<open>
  The nodes of an index's tree: whatever calls have been made, floats and compactions included, every node has the
  kind that its number of children asks for, and there are fewer than two nodes for a key.
\<close>

section \<open>Leaves and keys\<close>

lemma leaves_card:
  assumes "tree_ok t"
  shows "length (leaves (root t)) \<le> card (dom (art_map t))"
proof (cases "root t")
  case (Some n)
  then have n: "art_ok [] n" using assms by (simp add: tree_ok_def)
  have "length (leaves (root t)) = card (entry_key ` set (leaves (root t)))"
    using distinct_card [OF leaves_distinct [OF n]] by (simp add: Some del: leaves.simps)
  also have "\<dots> \<le> card (dom (art_map t))"
    by (intro card_mono) (auto simp: Some leaves_iff [OF n] art_map_def simp del: leaves.simps)
  finally show ?thesis .
qed simp

lemma tree_keys: "dom (art_map (tree ind)) \<subseteq> dom (index_map ind)"
proof
  fix k assume "k \<in> dom (art_map (tree ind))"
  moreover from this have "\<not> IS_SPECIAL_KEY k" by (cases "root (tree ind)") (auto simp: art_map_def node_map_def split: if_splits)
  ultimately show "k \<in> dom (index_map ind)" by (auto simp: index_map_def core_map_def map_add_def split: option.split)
qed

lemma index_nodes_ok:
  assumes "index_ok ind" "root (tree ind) = Some n"
  shows "sized n \<and> length (art_tree_destroy (tree ind)) < 2 * card (dom (index_map ind))"
proof -
  have t: "tree_ok (tree ind)" using assms(1) by (simp add: index_ok_def core_ok_def)
  then have n: "art_ok [] n" "tidy (\<lambda>_ _. True) n" using assms(2) by (simp_all add: tree_ok_def filled_def)
  have "card (dom (art_map (tree ind))) \<le> card (dom (index_map ind))" by (intro card_mono tree_keys) simp
  then show ?thesis using tidy_sized [OF n] destroy_count [OF n] leaves_card [OF t] assms(2) by (simp add: art_tree_destroy_def)
qed

section \<open>Properties\<close>

text \<open>C18. From a well-formed index, after any sequence of calls of the library each within its conditions
  (\<open>calls_ready\<close>, the conditions of the refinement of the index), if the tree is not empty, every
  \<open>Node4\<close> of it has 2 to 4 children, every \<open>Node16\<close> 4 to 16, every \<open>Node48\<close> 13 to
  48 and every \<open>Node256\<close> 38 to 256, and the tree has fewer than two nodes, leaves included, for each key of
  the index; \<open>art_tree_destroy\<close> frees as many.\<close>

theorem index_node_sizes:
  assumes "index_ok ind" "calls_ready (index_do grow) (call_ready grow) cs ind" "run_calls (index_do grow) cs ind = Some (ind', as)"
    and "grow \<in> {hash_expand_copy (\<lambda>_. True) rnd, hash_expand_reinsert (\<lambda>_. True) rnd}"
    and "root (tree ind') = Some n"
  shows "sized n \<and> length (art_tree_destroy (tree ind')) < 2 * card (dom (index_map ind'))"
proof -
  have "index_ok ind'" using grow_run_ok [OF assms(4,1,2)] assms(3) by auto
  then show ?thesis using assms(5) by (rule index_nodes_ok)
qed

theorem index_node_sizes_witness:
  "\<exists>ind' as n. run_calls (index_do (hash_expand_copy (\<lambda>_. True) 0)) [Query 0x0316, Delete 0x0316] (wide_index deep_keys) = Some (ind', as) \<and>
    root (tree ind') = Some n \<and> sized n"
proof -
  obtain ind' as n where r: "calls_ready (index_do (hash_expand_copy (\<lambda>_. True) 0)) (call_ready (hash_expand_copy (\<lambda>_. True) 0))
      [Query 0x0316, Delete 0x0316] (wide_index deep_keys)"
    "run_calls (index_do (hash_expand_copy (\<lambda>_. True) 0)) [Query 0x0316, Delete 0x0316] (wide_index deep_keys) = Some (ind', as)"
    "root (tree ind') = Some n" "buffer_count (tree ind') = 2" by (rule deep_run)
  from index_node_sizes [OF wide_index_ok(1) [OF deep_keys_ok] r(1,2) _ r(3), of 0] r(2,3) show ?thesis by blast
qed

end
