(* ===== verification/ART_Node_Laws.thy ===== *)
theory ART_Node_Laws
  imports ART_Children
begin

text \<open>
  The contract of a child index (a map from key bytes to children with insertion and removal), its
  consequences for whole sequences of insertions and removals, its interpretation by the four node
  layouts, and the properties of one node that follow.
\<close>

section \<open>The contract of a child index\<close>

locale child_index =
  fixes ok :: "'s \<Rightarrow> bool"
    and look :: "'s \<Rightarrow> u8 \<Rightarrow> 'n option"
    and add :: "u8 \<Rightarrow> 'n \<Rightarrow> 's \<Rightarrow> 's"
    and del :: "u8 \<Rightarrow> 's \<Rightarrow> 's"
  assumes add: "ok s \<Longrightarrow> look s c = None \<Longrightarrow> ok (add c x s) \<and> look (add c x s) = (look s)(c \<mapsto> x)"
    and del: "ok s \<Longrightarrow> look s c \<noteq> None \<Longrightarrow> ok (del c s) \<and> look (del c s) = (look s)(c := None)"
begin

lemma adds:
  "ok s \<Longrightarrow> distinct (map fst xs) \<Longrightarrow> (\<forall>c \<in> set (map fst xs). look s c = None) \<Longrightarrow>
    ok (fold (\<lambda>(c, x). add c x) xs s) \<and> look (fold (\<lambda>(c, x). add c x) xs s) = look s ++ map_of xs"
proof (induction xs arbitrary: s)
  case (Cons p xs)
  obtain c x where p: "p = (c, x)" by (rule prod.exhaust)
  with Cons.prems have c: "look s c = None" and new: "c \<notin> fst ` set xs" by auto
  note a = add [OF Cons.prems(1) c, of x]
  have "\<forall>b \<in> set (map fst xs). look (add c x s) b = None" using a Cons.prems(3) new p by auto
  moreover have "distinct (map fst xs)" using Cons.prems(2) by simp
  ultimately have "ok (fold (\<lambda>(c, x). add c x) xs (add c x s)) \<and>
      look (fold (\<lambda>(c, x). add c x) xs (add c x s)) = (look s)(c \<mapsto> x) ++ map_of xs"
    using Cons.IH [of "add c x s"] conjunct1 [OF a] by (simp only: conjunct2 [OF a])
  moreover have "map_of xs c = None" using new by (simp add: map_of_eq_None_iff)
  then have "(look s)(c \<mapsto> x) ++ map_of xs = look s ++ map_of (p # xs)"
    by (auto simp: p map_add_def fun_eq_iff split: option.split)
  ultimately show ?case unfolding p by (simp only: fold_simps(2) prod.case simp_thms)
qed simp

lemma dels:
  "ok s \<Longrightarrow> distinct cs \<Longrightarrow> set cs \<subseteq> dom (look s) \<Longrightarrow>
    ok (fold del cs s) \<and> look (fold del cs s) = (look s) |` (- set cs)"
proof (induction cs arbitrary: s)
  case (Cons c cs)
  then have d: "ok (del c s)" "look (del c s) = (look s)(c := None)" using del [of s c] by auto
  moreover have "set cs \<subseteq> dom (look (del c s))" using Cons.prems d by auto
  ultimately have "ok (fold del cs (del c s)) \<and> look (fold del cs (del c s)) = look (del c s) |` (- set cs)"
    using Cons by simp
  then show ?case using d by (auto simp: restrict_map_def fun_eq_iff)
qed (simp add: restrict_map_def)

lemma adds_dels:
  assumes "ok s" "distinct (map fst xs)" "\<forall>c \<in> set (map fst xs). look s c = None"
  shows "look (fold del (map fst xs) (fold (\<lambda>(c, x). add c x) xs s)) = look s"
proof -
  note a = adds [OF assms]
  have "set (map fst xs) \<subseteq> dom (look (fold (\<lambda>(c, x). add c x) xs s))" using a by (auto simp: dom_map_of_conv_image_fst)
  with dels [OF conjunct1 [OF a] assms(2)] have
    "look (fold del (map fst xs) (fold (\<lambda>(c, x). add c x) xs s)) = (look s ++ map_of xs) |` (- set (map fst xs))"
    using a by simp
  also have "\<dots> = look s"
    using assms(3) by (auto simp: restrict_map_def map_add_def fun_eq_iff split: option.split dest!: map_of_SomeD)
      (force simp: rev_image_eqI)+
  finally show ?thesis .
qed

end

section \<open>The four layouts as a child index\<close>

text \<open>A node is a header with its children; \<open>node_del\<close> removes through the pointer \<open>find_child\<close> gives.\<close>

definition node_add :: "u8 \<Rightarrow> 'n \<Rightarrow> art_hdr \<times> 'n children \<Rightarrow> art_hdr \<times> 'n children" where
  "node_add c x n = add_child (fst n) (snd n) c x"

fun remove_at :: "art_hdr \<Rightarrow> 'n children \<Rightarrow> u8 \<Rightarrow> nat \<Rightarrow> art_hdr \<times> 'n children" where
  "remove_at h (Node4 keys cs) c pos = (let (h, keys, cs) = drop_child4 h keys cs pos in (h, Node4 keys cs))"
| "remove_at h (Node16 keys cs) c pos = remove_child16 h keys cs pos"
| "remove_at h (Node48 keys cs) c pos = remove_child48 h keys cs c"
| "remove_at h (Node256 cs) c pos = remove_child256 h cs c"

definition node_del :: "u8 \<Rightarrow> art_hdr \<times> 'n children \<Rightarrow> art_hdr \<times> 'n children" where
  "node_del c n = (case find_child (fst n) (snd n) c of None \<Rightarrow> n | Some pos \<Rightarrow> remove_at (fst n) (snd n) c pos)"

definition node_look :: "art_hdr \<times> 'n children \<Rightarrow> u8 \<Rightarrow> 'n option" where
  "node_look n = child_map (fst n) (snd n)"

definition node_ok :: "art_hdr \<times> 'n children \<Rightarrow> bool" where
  "node_ok n \<longleftrightarrow> hdr_ok (fst n) \<and> ch_ok (fst n) (snd n)"

lemma remove_at_ok:
  assumes h: "hdr_ok h" and ok: "ch_ok h ch" and pos: "find_child h ch c = Some pos"
  shows "removed h (child_map h ch) c (remove_at h ch c pos)"
proof (cases ch)
  case (Node4 keys cs)
  obtain h' ks cs' where d: "drop_child4 h keys cs pos = (h', ks, cs')" by (rule prod_cases3)
  have "remove_at h ch c pos = (h', Node4 ks cs')" by (simp add: Node4 d)
  then show ?thesis using drop_child4_ok [OF ok [unfolded Node4] h pos [unfolded Node4] d]
    unfolding Node4 child_map_ok(1) [OF ok [unfolded Node4]] by (simp only:)
next
  case (Node16 keys cs)
  show ?thesis using remove_child16_ok [of h keys cs c pos, OF _ h] ok pos
    unfolding Node16 remove_at.simps child_map_ok(2) [OF ok [unfolded Node16]] by blast
next
  case (Node48 keys cs)
  show ?thesis using remove_child48_ok [of h keys cs c pos, OF _ h] ok pos
    unfolding Node48 remove_at.simps child_map_ok(3) by blast
next
  case (Node256 cs)
  show ?thesis using remove_child256_ok [of h cs c pos, OF _ h] ok pos
    unfolding Node256 remove_at.simps child_map_ok(4) by blast
qed

interpretation node: child_index node_ok node_look node_add node_del
proof
  fix s :: "art_hdr \<times> 'n children" and c x
  assume s: "node_ok s" "node_look s c = None"
  obtain h' ch' where a: "add_child (fst s) (snd s) c x = (h', ch')" by (rule prod.exhaust)
  from add_child_ok [OF _ _ _ a] s have "ch_ok h' ch'" "child_map h' ch' = (child_map (fst s) (snd s))(c \<mapsto> x)"
    "hdr_sim (fst s) h'" by (simp_all add: node_ok_def node_look_def)
  then show "node_ok (node_add c x s) \<and> node_look (node_add c x s) = (node_look s)(c \<mapsto> x)"
    using s(1) hdr_sim_ok [of "fst s" h'] by (simp add: node_ok_def node_look_def node_add_def a)
next
  fix s :: "art_hdr \<times> 'n children" and c
  assume s: "node_ok s" "node_look s c \<noteq> None"
  then obtain pos where pos: "find_child (fst s) (snd s) c = Some pos"
    using find_child_iff [of "fst s" "snd s" c] by (auto simp: node_ok_def node_look_def)
  have "hdr_ok (fst s)" "ch_ok (fst s) (snd s)" using s(1) by (simp_all add: node_ok_def)
  from remove_at_ok [OF this pos] hdr_sim_ok [OF this(1)]
  show "node_ok (node_del c s) \<and> node_look (node_del c s) = (node_look s)(c := None)"
    using pos by (simp add: node_ok_def node_look_def node_del_def)
qed

lemma alloc_node_ok:
  "node_ok (alloc_node NODE4 :: art_hdr \<times> 'n children)" "node_look (alloc_node NODE4 :: art_hdr \<times> 'n children) = Map.empty"
proof -
  let ?n = "alloc_node NODE4 :: art_hdr \<times> 'n children"
  show ok: "node_ok ?n" by (simp add: node_ok_def hdr_ok_def zero_hdr_def lin_ok_def)
  have "card (dom (child_map (fst ?n) (snd ?n))) = 0"
    using card_dom_lin_map [of 4 0 "replicate 4 0" "replicate 4 None :: 'n option list"]
    by (simp add: child_map4 zero_hdr_def lin_ok_def)
  then show "node_look ?n = Map.empty" by (simp add: node_look_def)
qed

section \<open>Properties of one node\<close>

text \<open>C30. The SSE2 lookup of a \<open>Node16\<close> (compare all 16 lanes, collect a bit mask, cut it at
  \<open>num_children\<close>, count trailing zeros) finds the position that a scan of the used keys finds.\<close>

theorem node16_simd_lookup:
  assumes "length keys = 16" "unat (num_children h) \<le> 16"
  shows "find_child h (Node16 keys cs) c = first_idx (unat (num_children h)) (\<lambda>i. keys ! i = c)"
  using assms by (rule find_child16)

theorem node16_simd_lookup_witness:
  "find_child (zero_hdr\<lparr>num_children := 3\<rparr>)
      (Node16 [5, 250, 7, 7, 0, 0, 0, 0, 0, 0, 0, 0, 0, 0, 0, 0] (replicate 16 None :: nat option list)) 7 =
    first_idx 3 (\<lambda>i. [5, 250, 7, 7, 0, 0, 0, 0, 0, 0, 0, 0, 0, 0, 0, 0] ! i = (7 :: u8))"
  using node16_simd_lookup [of "[5, 250, 7, 7, 0, 0, 0, 0, 0, 0, 0, 0, 0, 0, 0, 0]" "zero_hdr\<lparr>num_children := 3\<rparr>"
      "replicate 16 None :: nat option list" 7] by simp

text \<open>A fresh \<open>Node4\<close> that gets any number of children under distinct bytes, growing to
  \<open>Node16\<close>, \<open>Node48\<close> and \<open>Node256\<close> on the way, holds exactly these children under these bytes.\<close>

theorem node_holds_children:
  assumes "distinct (map fst xs)"
  shows "node_look (fold (\<lambda>(c, x). node_add c x) xs (alloc_node NODE4)) = map_of xs"
  using node.adds [OF alloc_node_ok(1) assms] by (simp add: alloc_node_ok(2) del: alloc_node.simps)

theorem node_holds_children_witness:
  "node_look (fold (\<lambda>(c, x). node_add c x) [(3, 10), (200, 11), (1, 12), (7, 13), (9, 14)] (alloc_node NODE4)) =
    map_of [(3, 10), (200, 11), (1, 12), (7, 13), (9, 14 :: nat)]"
  by (rule node_holds_children) simp

text \<open>C29. Adding children under bytes that are free and removing them again, through any number of
  growing and shrinking steps, restores the lookup of every byte.\<close>

theorem node_add_remove:
  assumes "node_ok n" "distinct (map fst xs)" "\<forall>c \<in> set (map fst xs). node_look n c = None"
  shows "node_look (fold node_del (map fst xs) (fold (\<lambda>(c, x). node_add c x) xs n)) = node_look n"
  using assms by (rule node.adds_dels)

theorem node_add_remove_witness:
  "node_look (fold node_del [9, 8, 7, 6, 5] (fold (\<lambda>(c, x). node_add c x) [(9, 1), (8, 2), (7, 3), (6, 4), (5, 5 :: nat)]
      (alloc_node NODE4))) = node_look (alloc_node NODE4)"
  using node_add_remove [of "alloc_node NODE4" "[(9, 1), (8, 2), (7, 3), (6, 4), (5, 5 :: nat)]"]
  by (simp add: alloc_node_ok del: alloc_node.simps)

text \<open>The 8-bit \<open>num_children\<close> of a well-formed node is the number of its children modulo 256, so
  it is exact up to 255 children and 0 for a \<open>Node256\<close> with all 256.\<close>

theorem num_children_mod:
  assumes "node_ok n"
  shows "unat (num_children (fst n)) = card (dom (node_look n)) mod 256"
  using num_children_card [of "fst n" "snd n"] assms by (simp add: node_ok_def node_look_def unat_of_nat)

theorem num_children_mod_witness:
  "unat (num_children (fst (alloc_node NODE4 :: art_hdr \<times> nat children))) =
    card (dom (node_look (alloc_node NODE4 :: art_hdr \<times> nat children))) mod 256"
  using alloc_node_ok(1) by (rule num_children_mod)

text \<open>\<open>_mm_cmplt_epi8\<close> compares signed bytes: a \<open>Node16\<close> keeps its keys in signed order, so a
  child under byte 200 is stored before the one under byte 1 and the minimum of the node is wrong,
  while a \<open>Node4\<close> stores the same bytes in unsigned order.\<close>

theorem node16_signed_order:
  "(\<exists>h cs. fold (\<lambda>(c, x). node_add c x) [(1, 1), (2, 2), (3, 3), (4, 4), (200, 200)] (alloc_node NODE4) =
      (h, Node16 (200 # 1 # 2 # 3 # 4 # replicate 11 0) cs) \<and> cs ! 0 = Some (200 :: nat)) \<and>
   (\<exists>h. fold (\<lambda>(c, x). node_add c x) [(1, 1), (2, 2), (200, 200)] (alloc_node NODE4) =
      (h, Node4 [1, 2, 200, 0] [Some 1, Some 2, Some (200 :: nat), None]))"
proof -
  have "fst (fold (\<lambda>(c, x). node_add c x) [(1, 1), (2, 2), (3, 3), (4, 4), (200, 200 :: nat)] (alloc_node NODE4)) =
      zero_hdr\<lparr>num_children := 5\<rparr> \<and>
    snd (fold (\<lambda>(c, x). node_add c x) [(1, 1), (2, 2), (3, 3), (4, 4), (200, 200 :: nat)] (alloc_node NODE4)) =
      Node16 (200 # 1 # 2 # 3 # 4 # replicate 11 0)
        (map Some [200, 1, 2, 3, 4] @ replicate 11 None)"
    by code_simp
  moreover have "fst (fold (\<lambda>(c, x). node_add c x) [(1, 1), (2, 2), (200, 200 :: nat)] (alloc_node NODE4)) =
      zero_hdr\<lparr>num_children := 3\<rparr> \<and>
    snd (fold (\<lambda>(c, x). node_add c x) [(1, 1), (2, 2), (200, 200 :: nat)] (alloc_node NODE4)) =
      Node4 [1, 2, 200, 0] [Some 1, Some 2, Some 200, None]"
    by code_simp
  ultimately show ?thesis
    by (intro conjI exI prod_eqI) auto
qed

end
