(* ===== verification/EBR.thy ===== *)
theory EBR
  imports Prelude
begin

text \<open>
  Epoch-based reclamation of \<open>src/ebr.c\<close>: a global epoch that takes the values 0, 1 and 2, and for each
  registered thread a local epoch with an active flag. Threads are natural numbers, the intrusive list
  of their \<open>ebr_tls\<close> structs is the list of the threads, head first; a thread has a struct while it is
  in the list. This theory holds each routine run without interference; their interleaving is the
  subject of \<open>GC_Conc\<close>.
\<close>

section \<open>State\<close>

abbreviation (input) ACTIVE_FLAG :: u32 where "ACTIVE_FLAG \<equiv> 0x80000000"

record ebr =
  global_epoch :: u32
  tls_list :: "nat list"
  local_epoch :: "nat \<Rightarrow> u32"

text \<open>Results of the two allocations: \<open>posix_memalign\<close> and \<open>pthread_key_create\<close>.\<close>

definition ebr_create :: "bool \<Rightarrow> bool \<Rightarrow> ebr option" where
  "ebr_create alloc key_ok =
    (if alloc \<and> key_ok then Some \<lparr>global_epoch = 0, tls_list = [], local_epoch = (\<lambda>_. 0)\<rparr> else None)"

section \<open>Registration\<close>

text \<open>A second registration of the same thread clears the list links of a struct that is in the list
  and inserts it again: the list is no longer one, \<open>None\<close>.\<close>

definition ebr_register :: "bool \<Rightarrow> nat \<Rightarrow> ebr \<Rightarrow> (ebr \<times> int) option" where
  "ebr_register alloc t e =
    (if t \<in> set (tls_list e) then None
     else if alloc then Some (e\<lparr>tls_list := t # tls_list e, local_epoch := (local_epoch e)(t := 0)\<rparr>, 0)
     else Some (e, -1))"

definition ebr_unregister :: "nat \<Rightarrow> ebr \<Rightarrow> ebr" where
  "ebr_unregister t e =
    (if t \<in> set (tls_list e) then e\<lparr>tls_list := remove1 t (tls_list e)\<rparr> else e)"

section \<open>Critical path\<close>

definition active :: "ebr \<Rightarrow> nat \<Rightarrow> bool" where
  "active e t \<longleftrightarrow> local_epoch e t AND ACTIVE_FLAG \<noteq> 0"

text \<open>\<open>None\<close> is a failed assertion. \<open>ebr_enter\<close> reads the global epoch and stores the local one; the two
  accesses are separate definitions because other threads may run in between.\<close>

definition enter_load :: "ebr \<Rightarrow> u32" where
  "enter_load e = global_epoch e OR ACTIVE_FLAG"

definition enter_store :: "nat \<Rightarrow> u32 \<Rightarrow> ebr \<Rightarrow> ebr" where
  "enter_store t epoch e = e\<lparr>local_epoch := (local_epoch e)(t := epoch)\<rparr>"

definition ebr_enter :: "nat \<Rightarrow> ebr \<Rightarrow> ebr option" where
  "ebr_enter t e = (if t \<in> set (tls_list e) then Some (enter_store t (enter_load e) e) else None)"

definition ebr_exit :: "nat \<Rightarrow> ebr \<Rightarrow> ebr option" where
  "ebr_exit t e =
    (if t \<in> set (tls_list e) \<and> active e t then Some (e\<lparr>local_epoch := (local_epoch e)(t := 0)\<rparr>) else None)"

definition ebr_incrit_p :: "nat \<Rightarrow> ebr \<Rightarrow> bool option" where
  "ebr_incrit_p t e = (if t \<in> set (tls_list e) then Some (active e t) else None)"

section \<open>Synchronisation\<close>

definition ebr_staging_epoch :: "ebr \<Rightarrow> u32" where
  "ebr_staging_epoch e = global_epoch e"

definition ebr_gc_epoch :: "ebr \<Rightarrow> u32" where
  "ebr_gc_epoch e = (global_epoch e + 1) mod 3"

text \<open>The test in the loop over the registered threads.\<close>

definition observed :: "ebr \<Rightarrow> u32 \<Rightarrow> nat \<Rightarrow> bool" where
  "observed e epoch t \<longleftrightarrow> \<not> (active e t \<and> local_epoch e t \<noteq> epoch OR ACTIVE_FLAG)"

definition announce :: "u32 \<Rightarrow> ebr \<Rightarrow> ebr" where
  "announce epoch e = e\<lparr>global_epoch := (epoch + 1) mod 3\<rparr>"

fun sync_loop :: "ebr \<Rightarrow> u32 \<Rightarrow> nat list \<Rightarrow> bool" where
  "sync_loop e epoch [] = True"
| "sync_loop e epoch (t # ts) = (if observed e epoch t then sync_loop e epoch ts else False)"

text \<open>The state afterwards, whether a new epoch was announced, and \<open>*gc_epoch\<close>.\<close>

definition ebr_sync :: "ebr \<Rightarrow> ebr \<times> bool \<times> u32" where
  "ebr_sync e =
    (let epoch = global_epoch e
     in if sync_loop e epoch (tls_list e)
        then let e = announce epoch e in (e, True, ebr_gc_epoch e)
        else (e, False, ebr_gc_epoch e))"

text \<open>
  \<open>ebr_full_sync\<close> repeats \<open>ebr_sync\<close> until it announces the epoch after which the target epoch is ready.
  \<open>env n\<close> is what the other threads do before the \<open>n\<close>-th attempt; waiting has no effect of its own.
\<close>

partial_function (option) full_sync_loop :: "(nat \<Rightarrow> ebr \<Rightarrow> ebr) \<Rightarrow> u32 \<Rightarrow> nat \<Rightarrow> ebr \<Rightarrow> ebr option" where
  "full_sync_loop env target n e =
    (case ebr_sync (env n e) of (e', announced, epoch) \<Rightarrow>
       if announced \<and> target = epoch then Some e' else full_sync_loop env target (n + 1) e')"

definition ebr_full_sync :: "(nat \<Rightarrow> ebr \<Rightarrow> ebr) \<Rightarrow> ebr \<Rightarrow> ebr option" where
  "ebr_full_sync env e = full_sync_loop env (ebr_staging_epoch e) 0 e"

section \<open>Epochs modulo 3\<close>

definition epoch_ok :: "ebr \<Rightarrow> bool" where
  "epoch_ok e \<longleftrightarrow> global_epoch e < 3"

lemma epoch_cases:
  fixes g :: u32
  assumes "g < 3"
  obtains "g = 0" | "g = 1" | "g = 2"
proof -
  have "unat g < 3" using assms by (simp add: word_less_nat_alt)
  then consider "unat g = 0" | "unat g = 1" | "unat g = 2" by linarith
  moreover have "g = of_nat (unat g)" by simp
  ultimately show ?thesis using that by cases simp_all
qed

lemma active_observed: "g < 3 \<Longrightarrow> (g OR ACTIVE_FLAG) AND ACTIVE_FLAG \<noteq> 0"
  by (erule epoch_cases) simp_all

lemma flag_inject: "g < 3 \<Longrightarrow> g' < 3 \<Longrightarrow> g OR ACTIVE_FLAG = g' OR ACTIVE_FLAG \<longleftrightarrow> g = g'"
  by (elim epoch_cases) simp_all

lemma next_epoch [simp]: "(g + 1) mod 3 < (3 :: u32)"
  by (simp add: word_less_nat_alt unat_mod)

lemma next_epoch_neq: "g < 3 \<Longrightarrow> (g + 1) mod 3 \<noteq> (g :: u32)"
  by (erule epoch_cases) simp_all

lemma next_epoch3: "g < 3 \<Longrightarrow> (((g + 1) mod 3 + 1) mod 3 + 1) mod 3 = (g :: u32)"
  by (erule epoch_cases) simp_all

lemma sync_loop_all: "sync_loop e epoch ts \<longleftrightarrow> (\<forall>t \<in> set ts. observed e epoch t)"
  by (induction ts) auto

lemma ebr_create_ok: "ebr_create a k = Some e \<Longrightarrow> epoch_ok e"
  by (auto simp: ebr_create_def epoch_ok_def split: if_splits)

lemma epoch_ok_keep [keep]:
  "epoch_ok e \<Longrightarrow> ebr_register a t e = Some (e', r) \<Longrightarrow> epoch_ok e'"
  "epoch_ok e \<Longrightarrow> epoch_ok (ebr_unregister t e)"
  "epoch_ok e \<Longrightarrow> ebr_enter t e = Some e' \<Longrightarrow> epoch_ok e'"
  "epoch_ok e \<Longrightarrow> ebr_exit t e = Some e' \<Longrightarrow> epoch_ok e'"
  "epoch_ok e \<Longrightarrow> epoch_ok (fst (ebr_sync e))"
  by (auto simp: epoch_ok_def ebr_register_def ebr_unregister_def ebr_enter_def enter_store_def ebr_exit_def
      ebr_sync_def Let_def announce_def split: if_splits)

lemma ebr_sync_inactive:
  "\<forall>t \<in> set (tls_list e). \<not> active e t \<Longrightarrow>
    ebr_sync e = (announce (global_epoch e) e, True, ebr_gc_epoch (announce (global_epoch e) e))"
  by (simp add: ebr_sync_def sync_loop_all observed_def Let_def)

section \<open>Full synchronisation\<close>

text \<open>Other threads never write the global epoch; from attempt \<open>N\<close> on none of them is active.\<close>

definition quiet_from :: "nat \<Rightarrow> (nat \<Rightarrow> ebr \<Rightarrow> ebr) \<Rightarrow> bool" where
  "quiet_from N env \<longleftrightarrow> (\<forall>n e. global_epoch (env n e) = global_epoch e \<and>
     (N \<le> n \<longrightarrow> (\<forall>t \<in> set (tls_list (env n e)). \<not> active (env n e) t)))"

lemma quiet_fromD:
  assumes "quiet_from N env"
  shows "global_epoch (env n e) = global_epoch e"
    and "N \<le> n \<Longrightarrow> \<forall>t \<in> set (tls_list (env n e)). \<not> active (env n e) t"
  using assms by (auto simp: quiet_from_def)

lemma full_sync_step:
  assumes "quiet_from N env" "N \<le> n" "global_epoch e = g"
  obtains e' where "global_epoch e' = (g + 1) mod 3" "ebr_gc_epoch e' = ((g + 1) mod 3 + 1) mod 3"
    "full_sync_loop env target n e =
      (if target = ebr_gc_epoch e' then Some e' else full_sync_loop env target (n + 1) e')"
proof -
  let ?e = "announce g (env n e)"
  have "ebr_sync (env n e) = (?e, True, ebr_gc_epoch ?e)"
    using ebr_sync_inactive [OF quiet_fromD(2) [OF assms(1,2)]] quiet_fromD(1) [OF assms(1)] assms(3) by simp
  then have "full_sync_loop env target n e =
      (if target = ebr_gc_epoch ?e then Some ?e else full_sync_loop env target (n + 1) ?e)"
    by (subst full_sync_loop.simps) simp
  then show ?thesis by (rule that [rotated 2]) (simp_all add: announce_def ebr_gc_epoch_def)
qed

lemma full_sync_quiet:
  assumes q: "quiet_from N env" and n: "N \<le> n" and e: "epoch_ok e" and target: "target < 3"
  shows "\<exists>e'. full_sync_loop env target n e = Some e' \<and> ebr_gc_epoch e' = target"
proof -
  let ?g = "global_epoch e"
  obtain e1 where e1: "global_epoch e1 = (?g + 1) mod 3" "ebr_gc_epoch e1 = ((?g + 1) mod 3 + 1) mod 3"
    "full_sync_loop env target n e = (if target = ebr_gc_epoch e1 then Some e1 else full_sync_loop env target (n + 1) e1)"
    by (rule full_sync_step [OF q n refl])
  obtain e2 where e2: "ebr_gc_epoch e2 = (((?g + 1) mod 3 + 1) mod 3 + 1) mod 3" "global_epoch e2 = ((?g + 1) mod 3 + 1) mod 3"
    "full_sync_loop env target (n + 1) e1 = (if target = ebr_gc_epoch e2 then Some e2 else full_sync_loop env target (n + 1 + 1) e2)"
    by (rule full_sync_step [OF q _ e1(1), of "n + 1" target]) (use n in auto)
  obtain e3 where e3: "ebr_gc_epoch e3 = ((((?g + 1) mod 3 + 1) mod 3 + 1) mod 3 + 1) mod 3"
    "full_sync_loop env target (n + 1 + 1) e2 = (if target = ebr_gc_epoch e3 then Some e3 else full_sync_loop env target (n + 1 + 1 + 1) e3)"
    by (rule full_sync_step [OF q _ e2(2), of "n + 1 + 1" target]) (use n in auto)
  have g: "?g < 3" using e by (simp add: epoch_ok_def)
  have "target = ebr_gc_epoch e1 \<or> target = ebr_gc_epoch e2 \<or> target = ebr_gc_epoch e3"
    using g target unfolding e1(2) e2(1) e3(1) by (elim epoch_cases) simp_all
  then show ?thesis unfolding e1(3) e2(3) e3(2) by auto
qed

lemma full_sync_eventually:
  assumes q: "quiet_from N env" and "epoch_ok e" and target: "target < 3"
  shows "\<exists>e'. full_sync_loop env target n e = Some e' \<and> ebr_gc_epoch e' = target"
  using assms(2)
proof (induction "N - n" arbitrary: n e)
  case 0
  then show ?case using full_sync_quiet [OF q _ 0(2) target, of n] by simp
next
  case (Suc m)
  obtain e' ann ep where s: "ebr_sync (env n e) = (e', ann, ep)" by (rule prod_cases3)
  have "epoch_ok (env n e)" using Suc.prems quiet_fromD(1) [OF q] by (simp add: epoch_ok_def)
  then have ok: "epoch_ok e'" using epoch_ok_keep(5) [of "env n e"] s by simp
  have ep: "ep = ebr_gc_epoch e'" using s by (auto simp: ebr_sync_def Let_def split: if_splits)
  have "full_sync_loop env target n e = (if ann \<and> target = ep then Some e' else full_sync_loop env target (n + 1) e')"
    by (subst full_sync_loop.simps) (simp add: s)
  moreover have "\<exists>e''. full_sync_loop env target (n + 1) e' = Some e'' \<and> ebr_gc_epoch e'' = target"
    using Suc.hyps(1) [of "n + 1" e'] Suc.hyps(2) ok by simp
  ultimately show ?case using ep by auto
qed

text \<open>A thread that stays in the critical path with an older epoch stops every announcement.\<close>

lemma sync_blocked:
  assumes "t \<in> set (tls_list e)" "\<not> observed e (global_epoch e) t"
  shows "ebr_sync e = (e, False, ebr_gc_epoch e)"
  using assms by (auto simp: ebr_sync_def Let_def sync_loop_all)

lemma full_sync_blocked:
  assumes "full_sync_loop env target n e = Some r"
  shows "env = (\<lambda>_ e. e) \<longrightarrow> \<not> (\<exists>t \<in> set (tls_list e). \<not> observed e (global_epoch e) t)"
proof (rule full_sync_loop.raw_induct [where P = "\<lambda>env target n e r. env = (\<lambda>_ e. e) \<longrightarrow>
    \<not> (\<exists>t \<in> set (tls_list e). \<not> observed e (global_epoch e) t)", OF _ assms])
  fix loop :: "(nat \<Rightarrow> ebr \<Rightarrow> ebr) \<Rightarrow> u32 \<Rightarrow> nat \<Rightarrow> ebr \<Rightarrow> ebr option" and env target n e r
  assume IH: "\<And>env target n e r. loop env target n e = Some r \<Longrightarrow> env = (\<lambda>_ e. e) \<longrightarrow>
      \<not> (\<exists>t \<in> set (tls_list e). \<not> observed e (global_epoch e) t)"
    and ret: "(case ebr_sync (env n e) of (e', announced, epoch) \<Rightarrow>
       if announced \<and> target = epoch then Some e' else loop env target (n + 1) e') = Some r"
  show "env = (\<lambda>_ e. e) \<longrightarrow> \<not> (\<exists>t \<in> set (tls_list e). \<not> observed e (global_epoch e) t)"
  proof (intro impI notI)
    assume env: "env = (\<lambda>_ e. e)" and ex: "\<exists>t \<in> set (tls_list e). \<not> observed e (global_epoch e) t"
    then obtain t where "t \<in> set (tls_list e)" "\<not> observed e (global_epoch e) t" by blast
    from ret env sync_blocked [OF this] have "loop env target (n + 1) e = Some r" by simp
    from IH [OF this] env ex show False by blast
  qed
qed

section \<open>Properties\<close>

text \<open>The global epoch stays 0, 1 or 2, and \<open>ebr_sync\<close> announces exactly when every active thread has
  observed it: then the next epoch is global, the one after that is ready for reclamation; otherwise
  nothing changes.\<close>

theorem ebr_sync_announces:
  assumes "epoch_ok e" and "ebr_sync e = (e', announced, gc_epoch)"
  shows "epoch_ok e' \<and> gc_epoch = ebr_gc_epoch e' \<and> gc_epoch \<noteq> ebr_staging_epoch e' \<and>
    announced = (\<forall>t \<in> set (tls_list e). active e t \<longrightarrow> local_epoch e t = enter_load e) \<and>
    e' = (if announced then e\<lparr>global_epoch := (global_epoch e + 1) mod 3\<rparr> else e)"
proof -
  have "ebr_gc_epoch x \<noteq> ebr_staging_epoch x" if "epoch_ok x" for x
    using that next_epoch_neq [of "global_epoch x"] by (simp add: ebr_gc_epoch_def ebr_staging_epoch_def epoch_ok_def)
  then show ?thesis using assms epoch_ok_keep(5) [OF assms(1)]
    by (auto simp: ebr_sync_def Let_def sync_loop_all observed_def enter_load_def announce_def split: if_splits)
qed

theorem ebr_sync_announces_witness:
  "ebr_gc_epoch \<lparr>global_epoch = 2, tls_list = [4], local_epoch = (\<lambda>_. 0x80000002)\<rparr> = 0 \<and>
    (\<exists>e'. ebr_sync \<lparr>global_epoch = 2, tls_list = [4], local_epoch = (\<lambda>_. 0x80000002)\<rparr> = (e', True, 1) \<and> epoch_ok e')"
  using ebr_sync_announces [of "\<lparr>global_epoch = 2, tls_list = [4], local_epoch = (\<lambda>_. 0x80000002)\<rparr>" _ True 1]
  by (simp add: epoch_ok_def ebr_sync_def ebr_gc_epoch_def observed_def active_def announce_def Let_def)

text \<open>C38. \<open>ebr_full_sync\<close> returns once the other threads have left their critical paths for good, whatever
  they did before, and then the epoch that was current at the call is ready for reclamation.\<close>

theorem ebr_full_sync_returns:
  assumes "epoch_ok e" "quiet_from N env"
  shows "\<exists>e'. ebr_full_sync env e = Some e' \<and> ebr_gc_epoch e' = ebr_staging_epoch e"
  using full_sync_eventually [OF assms(2,1), of "ebr_staging_epoch e" 0] assms(1)
  by (simp add: ebr_full_sync_def epoch_ok_def ebr_staging_epoch_def)

theorem ebr_full_sync_returns_witness:
  "\<exists>e'. ebr_full_sync (\<lambda>n e. if n < 5 then e else e\<lparr>local_epoch := (\<lambda>_. 0)\<rparr>)
      \<lparr>global_epoch = 1, tls_list = [4], local_epoch = (\<lambda>_. 0x80000000)\<rparr> = Some e' \<and> ebr_gc_epoch e' = 1"
  using ebr_full_sync_returns [of "\<lparr>global_epoch = 1, tls_list = [4], local_epoch = (\<lambda>_. 0x80000000)\<rparr>" 5
      "\<lambda>n e. if n < 5 then e else e\<lparr>local_epoch := (\<lambda>_. 0)\<rparr>"]
  by (simp add: epoch_ok_def quiet_from_def active_def ebr_staging_epoch_def)

text \<open>A thread that stays in its critical path with an older epoch keeps \<open>ebr_full_sync\<close> from
  returning.\<close>

theorem ebr_full_sync_blocked:
  assumes "t \<in> set (tls_list e)" "active e t" "local_epoch e t \<noteq> enter_load e"
  shows "ebr_full_sync (\<lambda>_ e. e) e = None"
proof (rule ccontr)
  assume "ebr_full_sync (\<lambda>_ e. e) e \<noteq> None"
  then obtain r where "full_sync_loop (\<lambda>_ e. e) (ebr_staging_epoch e) 0 e = Some r" by (auto simp: ebr_full_sync_def)
  from full_sync_blocked [OF this] assms show False by (auto simp: observed_def enter_load_def)
qed

theorem ebr_full_sync_blocked_witness:
  "ebr_full_sync (\<lambda>_ e. e) \<lparr>global_epoch = 1, tls_list = [4], local_epoch = (\<lambda>_. 0x80000000)\<rparr> = None"
  using ebr_full_sync_blocked [of 4 "\<lparr>global_epoch = 1, tls_list = [4], local_epoch = (\<lambda>_. 0x80000000)\<rparr>"]
  by (simp add: active_def enter_load_def)

end
