(* ===== verification/GC.thy ===== *)
theory GC
  imports EBR
begin

text \<open>
  The garbage collector of \<open>src/gc.c\<close> on top of epoch-based reclamation: objects go to the limbo list,
  move to the list of the epoch that is current at a collection, and are reclaimed when that epoch is
  ready. An entry is its address; what a reclamation function does is a change of the list \<open>freed\<close> of
  the addresses passed to \<open>free\<close>. Assertions are enabled: a failed one is \<open>None\<close>.
\<close>

section \<open>State\<close>

record gc =
  limbo :: "u64 list"
  epoch_list :: "u64 list list"
  gc_ebr :: ebr
  entry_off :: u32
  reclaim :: "u64 list \<Rightarrow> u64 list \<Rightarrow> u64 list"
  freed :: "u64 list"

fun gc_default_reclaim :: "u32 \<Rightarrow> u64 list \<Rightarrow> u64 list \<Rightarrow> u64 list" where
  "gc_default_reclaim off [] fr = fr"
| "gc_default_reclaim off (entry # es) fr = gc_default_reclaim off es (fr @ [entry - ucast off])"

text \<open>The booleans are the allocations of the \<open>gc\<close> struct and of \<open>ebr_create\<close>; a \<open>NULL\<close> function is \<open>None\<close>.\<close>

definition gc_create ::
  "bool \<Rightarrow> bool \<Rightarrow> bool \<Rightarrow> u32 \<Rightarrow> (u64 list \<Rightarrow> u64 list \<Rightarrow> u64 list) option \<Rightarrow> gc option" where
  "gc_create alloc ebr_alloc key_ok off func =
    (if \<not> alloc then None
     else case ebr_create ebr_alloc key_ok of
       None \<Rightarrow> None
     | Some e \<Rightarrow> Some \<lparr>limbo = [], epoch_list = [[], [], []], gc_ebr = e, entry_off = off,
         reclaim = (case func of Some f \<Rightarrow> f | None \<Rightarrow> gc_default_reclaim off), freed = []\<rparr>)"

text \<open>Whether the assertions of \<open>gc_destroy\<close> hold.\<close>

definition gc_destroy :: "gc \<Rightarrow> bool" where
  "gc_destroy g \<longleftrightarrow> (\<forall>i < 3. epoch_list g ! i = []) \<and> limbo g = []"

section \<open>Workers\<close>

definition gc_register :: "bool \<Rightarrow> nat \<Rightarrow> gc \<Rightarrow> gc option" where
  "gc_register alloc t g = map_option (\<lambda>(e, _). g\<lparr>gc_ebr := e\<rparr>) (ebr_register alloc t (gc_ebr g))"

definition gc_unregister :: "nat \<Rightarrow> gc \<Rightarrow> gc" where
  "gc_unregister t g = g\<lparr>gc_ebr := ebr_unregister t (gc_ebr g)\<rparr>"

definition gc_crit_enter :: "nat \<Rightarrow> gc \<Rightarrow> gc option" where
  "gc_crit_enter t g = map_option (\<lambda>e. g\<lparr>gc_ebr := e\<rparr>) (ebr_enter t (gc_ebr g))"

definition gc_crit_exit :: "nat \<Rightarrow> gc \<Rightarrow> gc option" where
  "gc_crit_exit t g = map_option (\<lambda>e. g\<lparr>gc_ebr := e\<rparr>) (ebr_exit t (gc_ebr g))"

definition entry_of :: "gc \<Rightarrow> u64 \<Rightarrow> u64" where
  "entry_of g obj = obj + ucast (entry_off g)"

definition gc_limbo :: "u64 \<Rightarrow> gc \<Rightarrow> gc" where
  "gc_limbo obj g = g\<lparr>limbo := entry_of g obj # limbo g\<rparr>"

section \<open>Collection\<close>

text \<open>Moving the limbo list to the staging epoch, and reclaiming the list of the ready epoch. \<open>None\<close> is the failure
  of the \<open>ASSERT\<close> that the staging list is empty, which a build without \<open>DEBUG\<close> leaves out: it would overwrite the list. As the
  assertion never fails (\<open>gc_cycle_conserves\<close> here, \<open>staging_list_empty\<close> under interleavings), both builds do the same.\<close>

definition gc_stage :: "gc \<Rightarrow> gc option" where
  "gc_stage g =
    (let staging_epoch = unat (ebr_staging_epoch (gc_ebr g))
     in if epoch_list g ! staging_epoch = []
        then Some (g\<lparr>epoch_list := (epoch_list g)[staging_epoch := limbo g], limbo := []\<rparr>) else None)"

definition gc_reclaim :: "u32 \<Rightarrow> gc \<Rightarrow> gc" where
  "gc_reclaim gc_epoch g =
    g\<lparr>freed := reclaim g (epoch_list g ! unat gc_epoch) (freed g),
      epoch_list := (epoch_list g)[unat gc_epoch := []]\<rparr>"

text \<open>The body of \<open>gc_cycle\<close> from the label \<open>next\<close>, with \<open>count\<close>.\<close>

fun gc_cycle_from :: "nat \<Rightarrow> gc \<Rightarrow> gc option" where
  "gc_cycle_from count g =
    (case ebr_sync (gc_ebr g) of (e, announced, gc_epoch) \<Rightarrow>
       if \<not> announced then Some (g\<lparr>gc_ebr := e\<rparr>)
       else case gc_stage (g\<lparr>gc_ebr := e\<rparr>) of
         None \<Rightarrow> None
       | Some g \<Rightarrow>
           if epoch_list g ! unat gc_epoch = [] \<and> count \<noteq> 0 then gc_cycle_from (count - 1) g
           else Some (gc_reclaim gc_epoch g))"

declare gc_cycle_from.simps [simp del]

definition gc_cycle :: "gc \<Rightarrow> gc option" where
  "gc_cycle g = gc_cycle_from 3 g"

definition gc_done :: "gc \<Rightarrow> bool" where
  "gc_done g \<longleftrightarrow> (\<forall>i < 3. epoch_list g ! i = []) \<and> limbo g = []"

text \<open>\<open>env n\<close> is what the other threads do before the \<open>n\<close>-th collection of \<open>gc_full\<close>.\<close>

partial_function (option) gc_full_loop :: "(nat \<Rightarrow> gc \<Rightarrow> gc) \<Rightarrow> nat \<Rightarrow> gc \<Rightarrow> gc option" where
  "gc_full_loop env n g =
    Option.bind (gc_cycle (env n g)) (\<lambda>g. if gc_done g then Some g else gc_full_loop env (n + 1) g)"

definition gc_full :: "(nat \<Rightarrow> gc \<Rightarrow> gc) \<Rightarrow> gc \<Rightarrow> gc option" where
  "gc_full env g = gc_full_loop env 0 g"

section \<open>Invariant\<close>

text \<open>Between collections the list of the next epoch is empty.\<close>

definition gc_ok :: "gc \<Rightarrow> bool" where
  "gc_ok g \<longleftrightarrow> epoch_ok (gc_ebr g) \<and> length (epoch_list g) = 3 \<and>
    epoch_list g ! unat (ebr_gc_epoch (gc_ebr g)) = []"

text \<open>The lists by the age of their epoch: staged in the current one, in the one before.\<close>

definition young :: "gc \<Rightarrow> u64 list" where
  "young g = epoch_list g ! unat (global_epoch (gc_ebr g))"

definition old :: "gc \<Rightarrow> u64 list" where
  "old g = epoch_list g ! unat ((global_epoch (gc_ebr g) + 2) mod 3)"

text \<open>One announced epoch: what was old is reclaimed, the rest moves along.\<close>

definition shift_epoch :: "gc \<Rightarrow> gc" where
  "shift_epoch g =
    (let e = announce (global_epoch (gc_ebr g)) (gc_ebr g);
         staged = g\<lparr>gc_ebr := e, epoch_list := (epoch_list g)[unat (global_epoch e) := limbo g], limbo := []\<rparr>
     in gc_reclaim (ebr_gc_epoch e) staged)"

lemma gc_create_ok: "gc_create a b c off f = Some g \<Longrightarrow> gc_ok g \<and> gc_destroy g"
  by (auto simp: gc_create_def ebr_create_def gc_ok_def epoch_ok_def gc_destroy_def ebr_gc_epoch_def less_Suc_eq numeral_3_eq_3
      split: if_splits)

lemma default_reclaim: "gc_default_reclaim off es fr = fr @ map (\<lambda>entry. entry - ucast off) es"
  by (induction es arbitrary: fr) simp_all

lemma gc_stage_ok:
  assumes "gc_ok g" "ebr_sync (gc_ebr g) = (e, True, ep)"
  shows "gc_stage (g\<lparr>gc_ebr := e\<rparr>) =
      Some (g\<lparr>gc_ebr := e, epoch_list := (epoch_list g)[unat (global_epoch e) := limbo g], limbo := []\<rparr>)"
    and "e = announce (global_epoch (gc_ebr g)) (gc_ebr g)" "ep = ebr_gc_epoch e"
  using assms
  by (auto simp: gc_stage_def gc_ok_def ebr_gc_epoch_def ebr_staging_epoch_def Let_def ebr_sync_def announce_def
      split: if_splits)

lemma shift_epoch_ok:
  assumes "gc_ok g"
  shows "gc_ok (shift_epoch g)" "limbo (shift_epoch g) = []" "young (shift_epoch g) = limbo g"
    "old (shift_epoch g) = young g" "freed (shift_epoch g) = reclaim g (old g) (freed g)"
    "reclaim (shift_epoch g) = reclaim g" "gc_ebr (shift_epoch g) = announce (global_epoch (gc_ebr g)) (gc_ebr g)"
proof -
  obtain x y z where l: "epoch_list g = [x, y, z]" using assms by (auto simp: gc_ok_def numeral_3_eq_3 length_Suc_conv)
  have "global_epoch (gc_ebr g) < 3" using assms by (simp add: gc_ok_def epoch_ok_def)
  then show "gc_ok (shift_epoch g)" "young (shift_epoch g) = limbo g"
    "old (shift_epoch g) = young g" "freed (shift_epoch g) = reclaim g (old g) (freed g)"
    using l by (cases rule: epoch_cases; simp add: shift_epoch_def gc_ok_def announce_def ebr_gc_epoch_def
        epoch_ok_def gc_reclaim_def Let_def young_def old_def)+
qed (simp_all add: shift_epoch_def gc_reclaim_def Let_def)

lemma gc_done_iff:
  assumes "gc_ok g"
  shows "gc_done g \<longleftrightarrow> limbo g = [] \<and> young g = [] \<and> old g = []"
proof -
  obtain x y z where l: "epoch_list g = [x, y, z]" using assms by (auto simp: gc_ok_def numeral_3_eq_3 length_Suc_conv)
  have "global_epoch (gc_ebr g) < 3" using assms by (simp add: gc_ok_def epoch_ok_def)
  then show ?thesis using l assms
    by (cases rule: epoch_cases) (auto simp: gc_done_def young_def old_def gc_ok_def ebr_gc_epoch_def numeral_3_eq_3 less_Suc_eq)
qed

text \<open>A collection goes through announced epochs; one that reclaims nothing is followed by another.\<close>

lemma gc_cycle_from_step:
  assumes "gc_ok g"
  shows "gc_cycle_from count g =
    (if \<forall>t \<in> set (tls_list (gc_ebr g)). observed (gc_ebr g) (global_epoch (gc_ebr g)) t then
       if old g = [] \<and> count \<noteq> 0 then gc_cycle_from (count - 1) (shift_epoch g\<lparr>freed := freed g\<rparr>)
       else Some (shift_epoch g)
     else Some g)"
proof (cases "\<forall>t \<in> set (tls_list (gc_ebr g)). observed (gc_ebr g) (global_epoch (gc_ebr g)) t")
  case False
  then have "ebr_sync (gc_ebr g) = (gc_ebr g, False, ebr_gc_epoch (gc_ebr g))" by (auto simp: ebr_sync_def sync_loop_all Let_def)
  then show ?thesis unfolding if_not_P [OF False] by (simp add: gc_cycle_from.simps [of count g])
next
  case True
  let ?e = "announce (global_epoch (gc_ebr g)) (gc_ebr g)"
  let ?s = "g\<lparr>gc_ebr := ?e, epoch_list := (epoch_list g)[unat (global_epoch ?e) := limbo g], limbo := []\<rparr>"
  from True have s: "ebr_sync (gc_ebr g) = (?e, True, ebr_gc_epoch ?e)" by (simp add: ebr_sync_def sync_loop_all Let_def)
  obtain x y z where l: "epoch_list g = [x, y, z]" using assms by (auto simp: gc_ok_def numeral_3_eq_3 length_Suc_conv)
  have g3: "global_epoch (gc_ebr g) < 3" using assms by (simp add: gc_ok_def epoch_ok_def)
  then have o: "epoch_list ?s ! unat (ebr_gc_epoch ?e) = old g"
    using l by (cases rule: epoch_cases) (simp_all add: announce_def ebr_gc_epoch_def old_def)
  have sh: "?s = shift_epoch g\<lparr>freed := freed g\<rparr>" if "old g = []"
    using g3 l that by (cases rule: epoch_cases)
      (simp_all add: announce_def ebr_gc_epoch_def old_def shift_epoch_def gc_reclaim_def Let_def)
  have r: "gc_reclaim (ebr_gc_epoch ?e) ?s = shift_epoch g" by (simp add: shift_epoch_def Let_def)
  have "gc_cycle_from count g = (if epoch_list ?s ! unat (ebr_gc_epoch ?e) = [] \<and> count \<noteq> 0
      then gc_cycle_from (count - 1) ?s else Some (gc_reclaim (ebr_gc_epoch ?e) ?s))"
    by (subst gc_cycle_from.simps) (simp add: s gc_stage_ok(1) [OF assms s])
  with True o sh r show ?thesis by auto
qed

lemma gc_ok_freed [simp]: "gc_ok (g\<lparr>freed := f\<rparr>) = gc_ok g" "limbo (g\<lparr>freed := f\<rparr>) = limbo g"
  "young (g\<lparr>freed := f\<rparr>) = young g" "old (g\<lparr>freed := f\<rparr>) = old g" "gc_ebr (g\<lparr>freed := f\<rparr>) = gc_ebr g"
  by (simp_all add: gc_ok_def young_def old_def)

text \<open>The default reclamation frees each object: the address of its entry less the offset. What was
  freed and what waits, in the order in which it is freed.\<close>

definition default_gc :: "gc \<Rightarrow> bool" where
  "default_gc g \<longleftrightarrow> gc_ok g \<and> reclaim g = gc_default_reclaim (entry_off g)"

definition conserved :: "gc \<Rightarrow> u64 list" where
  "conserved g = freed g @ map (\<lambda>entry. entry - ucast (entry_off g)) (old g @ young g @ limbo g)"

definition quiet :: "gc \<Rightarrow> bool" where
  "quiet g \<longleftrightarrow> (\<forall>t \<in> set (tls_list (gc_ebr g)). \<not> active (gc_ebr g) t)"

lemma entry_off_shift [simp]: "entry_off (shift_epoch g) = entry_off g"
  by (simp add: shift_epoch_def gc_reclaim_def Let_def)

lemma shift_default:
  assumes "default_gc g"
  shows "default_gc (shift_epoch g)" "conserved (shift_epoch g) = conserved g"
    "quiet g \<Longrightarrow> quiet (shift_epoch g)"
    "old g = [] \<Longrightarrow> shift_epoch g\<lparr>freed := freed g\<rparr> = shift_epoch g"
proof -
  have ok: "gc_ok g" and r: "reclaim g = gc_default_reclaim (entry_off g)" using assms by (simp_all add: default_gc_def)
  note S = shift_epoch_ok [OF ok]
  show "default_gc (shift_epoch g)" using S r by (simp add: default_gc_def)
  show "conserved (shift_epoch g) = conserved g" using S r by (simp add: conserved_def default_reclaim)
  show "quiet g \<Longrightarrow> quiet (shift_epoch g)" using S(7) by (simp add: quiet_def active_def announce_def)
  show "old g = [] \<Longrightarrow> shift_epoch g\<lparr>freed := freed g\<rparr> = shift_epoch g" using S(5) r by simp
qed

lemma default_step:
  assumes "default_gc g"
  shows "gc_cycle_from count g =
    (if \<forall>t \<in> set (tls_list (gc_ebr g)). observed (gc_ebr g) (global_epoch (gc_ebr g)) t then
       if old g = [] \<and> count \<noteq> 0 then gc_cycle_from (count - 1) (shift_epoch g) else Some (shift_epoch g)
     else Some g)"
  using gc_cycle_from_step [of g count] shift_default(4) [OF assms] assms by (simp add: default_gc_def)

lemma gc_cycle_ok:
  assumes "default_gc g"
  shows "\<exists>g'. gc_cycle_from count g = Some g' \<and> default_gc g' \<and> conserved g' = conserved g \<and>
    entry_off g' = entry_off g"
  using assms
proof (induction count arbitrary: g)
  case 0
  note S = shift_default [OF 0]
  from 0 S(1,2) show ?case by (subst default_step [OF 0]) simp
next
  case (Suc count)
  note S = shift_default [OF Suc.prems]
  from Suc.IH [OF S(1)] S(1,2) Suc.prems show ?case by (subst default_step [OF Suc.prems]) auto
qed

text \<open>How many epochs until nothing waits.\<close>

definition waiting :: "gc \<Rightarrow> nat" where
  "waiting g = (if limbo g \<noteq> [] then 3 else if young g \<noteq> [] then 2 else if old g \<noteq> [] then 1 else 0)"

lemma waiting_shift: "gc_ok g \<Longrightarrow> waiting (shift_epoch g) = waiting g - 1"
  by (simp add: waiting_def shift_epoch_ok)

lemma gc_cycle_quiet:
  assumes "default_gc g" "quiet g"
  shows "\<exists>g'. gc_cycle_from count g = Some g' \<and> quiet g' \<and> waiting g' \<le> waiting g - 1"
  using assms
proof (induction count arbitrary: g)
  case 0
  have "\<forall>t \<in> set (tls_list (gc_ebr g)). observed (gc_ebr g) (global_epoch (gc_ebr g)) t"
    using 0 by (simp add: observed_def quiet_def)
  then show ?case
    using shift_default(3) [OF 0] waiting_shift [of g] 0(1) by (subst default_step [OF 0(1)]) (simp add: default_gc_def)
next
  case (Suc count)
  note S = shift_default [OF Suc.prems(1)]
  have "\<forall>t \<in> set (tls_list (gc_ebr g)). observed (gc_ebr g) (global_epoch (gc_ebr g)) t"
    using Suc.prems by (simp add: observed_def quiet_def)
  moreover obtain g' where "gc_cycle_from count (shift_epoch g) = Some g'" "quiet g'"
    "waiting g' \<le> waiting (shift_epoch g) - 1"
    using Suc.IH [OF S(1) S(3) [OF Suc.prems(2)]] by blast
  ultimately show ?case
    using S(3) [OF Suc.prems(2)] waiting_shift [of g] Suc.prems(1)
    by (subst default_step [OF Suc.prems(1)]) (auto simp: default_gc_def)
qed

section \<open>Full collection\<close>

text \<open>What the other threads may do: they keep the collector's data well formed, and from collection \<open>N\<close> on
  none of them is active or adds an object.\<close>

definition gc_quiet_from :: "nat \<Rightarrow> (nat \<Rightarrow> gc \<Rightarrow> gc) \<Rightarrow> bool" where
  "gc_quiet_from N env \<longleftrightarrow> (\<forall>n g. default_gc g \<longrightarrow> default_gc (env n g)) \<and>
     (\<forall>n \<ge> N. \<forall>g. default_gc g \<longrightarrow> quiet (env n g) \<and> waiting (env n g) \<le> waiting g)"

lemma gc_quiet_fromD:
  assumes "gc_quiet_from N env" "default_gc g"
  shows "default_gc (env n g)" "N \<le> n \<Longrightarrow> quiet (env n g) \<and> waiting (env n g) \<le> waiting g"
  using assms by (auto simp: gc_quiet_from_def)

lemma gc_done_waiting: "gc_ok g \<Longrightarrow> gc_done g \<longleftrightarrow> waiting g = 0"
  by (simp add: gc_done_iff waiting_def)

lemma gc_full_quiet:
  assumes q: "gc_quiet_from N env" and "N \<le> n" "default_gc g"
  shows "\<exists>g'. gc_full_loop env n g = Some g' \<and> gc_done g' \<and> default_gc g'"
  using assms(2,3)
proof (induction "waiting g" arbitrary: n g rule: less_induct)
  case less
  note Q = gc_quiet_fromD [OF q less.prems(2), of n]
  obtain g1 where g1: "gc_cycle (env n g) = Some g1" "default_gc g1" "waiting g1 \<le> waiting (env n g) - 1"
    using gc_cycle_ok [OF Q(1), of 3] gc_cycle_quiet [OF Q(1), of 3] Q(2) less.prems(1) by (auto simp: gc_cycle_def)
  have unf: "gc_full_loop env n g = (if gc_done g1 then Some g1 else gc_full_loop env (n + 1) g1)"
    by (subst gc_full_loop.simps) (simp add: g1(1))
  show ?case
  proof (cases "gc_done g1")
    case True
    with g1(2) show ?thesis by (simp add: unf)
  next
    case False
    then have "waiting g1 \<noteq> 0" using gc_done_waiting [of g1] g1(2) by (simp add: default_gc_def)
    then have "waiting g1 < waiting g" using g1(3) Q(2) less.prems(1) by linarith
    from less.hyps [OF this, of "n + 1"] less.prems(1) g1(2) False show ?thesis by (simp add: unf)
  qed
qed

lemma gc_full_eventually:
  assumes q: "gc_quiet_from N env" and "default_gc g"
  shows "\<exists>g'. gc_full_loop env n g = Some g' \<and> gc_done g' \<and> default_gc g'"
  using assms(2)
proof (induction "N - n" arbitrary: n g)
  case 0
  then show ?case using gc_full_quiet [OF q, of n g] by simp
next
  case (Suc m)
  obtain g1 where g1: "gc_cycle (env n g) = Some g1" "default_gc g1"
    using gc_cycle_ok [OF gc_quiet_fromD(1) [OF q Suc.prems], of 3] by (auto simp: gc_cycle_def)
  have "gc_full_loop env n g = (if gc_done g1 then Some g1 else gc_full_loop env (n + 1) g1)"
    by (subst gc_full_loop.simps) (simp add: g1(1))
  then show ?case using Suc.hyps(1) [of "n + 1" g1] Suc.hyps(2) g1(2) by simp
qed

lemma alone_quiet: "quiet g \<Longrightarrow> default_gc g \<Longrightarrow>
  \<exists>g'. gc_full_loop (\<lambda>_ g. g) n g = Some g' \<and> gc_done g' \<and> default_gc g' \<and> conserved g' = conserved g \<and>
    entry_off g' = entry_off g"
proof (induction "waiting g" arbitrary: n g rule: less_induct)
  case less
  obtain g1 where g1: "gc_cycle g = Some g1" "default_gc g1" "waiting g1 \<le> waiting g - 1" "quiet g1"
    "conserved g1 = conserved g" "entry_off g1 = entry_off g"
    using gc_cycle_ok [OF less.prems(2), of 3] gc_cycle_quiet [OF less.prems(2,1), of 3] by (auto simp: gc_cycle_def)
  have unf: "gc_full_loop (\<lambda>_ g. g) n g = (if gc_done g1 then Some g1 else gc_full_loop (\<lambda>_ g. g) (n + 1) g1)"
    by (subst gc_full_loop.simps) (simp add: g1(1))
  show ?case
  proof (cases "gc_done g1")
    case False
    then have "waiting g1 \<noteq> 0" using gc_done_waiting [of g1] g1(2) by (simp add: default_gc_def)
    then have "waiting g1 < waiting g" using g1(3) by linarith
    from less.hyps [OF this g1(4,2), of "n + 1"] False g1(5,6) show ?thesis by (simp add: unf)
  qed (use g1 unf in simp)
qed

lemma gc_limbo_default:
  assumes "default_gc g"
  shows "default_gc (gc_limbo obj g)" "quiet (gc_limbo obj g) = quiet g"
    "old (gc_limbo obj g) = old g" "young (gc_limbo obj g) = young g" "freed (gc_limbo obj g) = freed g"
    "limbo (gc_limbo obj g) = entry_of g obj # limbo g" "entry_off (gc_limbo obj g) = entry_off g"
  using assms by (simp_all add: default_gc_def gc_ok_def gc_limbo_def quiet_def old_def young_def)

lemma limbo_all:
  "default_gc g \<Longrightarrow> default_gc (fold gc_limbo objs g) \<and> quiet (fold gc_limbo objs g) = quiet g \<and>
    old (fold gc_limbo objs g) = old g \<and> young (fold gc_limbo objs g) = young g \<and>
    freed (fold gc_limbo objs g) = freed g \<and> entry_off (fold gc_limbo objs g) = entry_off g \<and>
    limbo (fold gc_limbo objs g) = rev (map (entry_of g) objs) @ limbo g"
proof (induction objs arbitrary: g)
  case (Cons obj objs)
  note L = gc_limbo_default [OF Cons.prems, of obj]
  have "entry_of (gc_limbo obj g) = entry_of g" using L(7) by (simp add: fun_eq_iff entry_of_def)
  with Cons.IH [OF L(1)] L show ?case by simp
qed simp

lemma gc_done_empty: "gc_ok g \<Longrightarrow> gc_done g \<Longrightarrow> gc_destroy g \<and> conserved g = freed g"
  using gc_done_iff [of g] by (simp add: gc_destroy_def gc_done_def conserved_def)

section \<open>Properties\<close>

text \<open>C39. A collection on a well-formed collector never fails an assertion, keeps it well formed, and
  neither loses nor doubles an object: what was freed and what waits, in order, stays the same.\<close>

theorem gc_cycle_conserves:
  assumes "default_gc g"
  shows "\<exists>g'. gc_cycle g = Some g' \<and> default_gc g' \<and> conserved g' = conserved g"
  using gc_cycle_ok [OF assms, of 3] by (auto simp: gc_cycle_def)

definition sample_gc :: gc where
  "sample_gc = \<lparr>limbo = [108], epoch_list = [[208], [], [308, 408]],
    gc_ebr = \<lparr>global_epoch = 0, tls_list = [4], local_epoch = (\<lambda>_. 0)\<rparr>, entry_off = 8,
    reclaim = gc_default_reclaim 8, freed = []\<rparr>"

lemma sample_gc_ok: "default_gc sample_gc" "quiet sample_gc"
  by (simp_all add: sample_gc_def default_gc_def gc_ok_def epoch_ok_def ebr_gc_epoch_def quiet_def active_def)

theorem gc_cycle_conserves_witness:
  "\<exists>g'. gc_cycle sample_gc = Some g' \<and> conserved g' = [300, 400, 200, 100]"
  using gc_cycle_conserves [OF sample_gc_ok(1)]
  by (auto simp: conserved_def sample_gc_def old_def young_def)

text \<open>C40. \<open>gc_full\<close> returns with nothing left to reclaim once the other threads are out of their critical
  paths for good and add no more objects, whatever they did before; \<open>gc_destroy\<close> may follow.\<close>

theorem gc_full_returns:
  assumes "default_gc g" "gc_quiet_from N env"
  shows "\<exists>g'. gc_full env g = Some g' \<and> default_gc g' \<and> gc_destroy g'"
  using gc_full_eventually [OF assms(2,1), of 0] gc_done_empty by (auto simp: gc_full_def default_gc_def)

lemma sample_env: "gc_quiet_from 3 (\<lambda>n g. if n < 3 then gc_limbo (of_nat n) g else g\<lparr>gc_ebr := (gc_ebr g)\<lparr>local_epoch := (\<lambda>_. 0)\<rparr>\<rparr>)"
  by (auto simp: gc_quiet_from_def gc_limbo_default default_gc_def gc_ok_def epoch_ok_def ebr_gc_epoch_def quiet_def
      active_def waiting_def old_def young_def gc_limbo_def)

theorem gc_full_returns_witness:
  "\<exists>g'. gc_full (\<lambda>n g. if n < 3 then gc_limbo (of_nat n) g else g\<lparr>gc_ebr := (gc_ebr g)\<lparr>local_epoch := (\<lambda>_. 0)\<rparr>\<rparr>) sample_gc
      = Some g' \<and> gc_destroy g'"
  using gc_full_returns [OF sample_gc_ok(1) sample_env] by blast

text \<open>Round trip: objects put into a new collector with the default reclamation function are freed by
  \<open>gc_full\<close>, each once and under its own address whatever the offset of the entry in the object.\<close>

theorem gc_limbo_freed:
  assumes "gc_create True True True off None = Some g"
  shows "\<exists>g'. gc_full (\<lambda>_ g. g) (fold gc_limbo objs g) = Some g' \<and> freed g' = rev objs \<and> gc_destroy g'"
proof -
  have g: "default_gc g" "quiet g" "old g = []" "young g = []" "limbo g = []" "freed g = []"
    using assms gc_create_ok [OF assms] by (auto simp: gc_create_def ebr_create_def default_gc_def quiet_def old_def young_def)
  note L = limbo_all [OF g(1), of objs]
  obtain g' where g': "gc_full (\<lambda>_ g. g) (fold gc_limbo objs g) = Some g'" "gc_done g'" "default_gc g'"
    "conserved g' = conserved (fold gc_limbo objs g)"
    using alone_quiet [of "fold gc_limbo objs g" 0] L g(2) by (auto simp: gc_full_def)
  have "conserved (fold gc_limbo objs g) = rev objs"
    using L g(3-6) by (simp add: conserved_def entry_of_def rev_map [symmetric] comp_def)
  with g' gc_done_empty [of g'] show ?thesis by (auto simp: default_gc_def)
qed

theorem gc_limbo_freed_witness:
  "\<exists>g g'. gc_create True True True 24 None = Some g \<and>
    gc_full (\<lambda>_ g. g) (fold gc_limbo [4096, 16, 0] g) = Some g' \<and> freed g' = [0, 16, 4096]"
proof -
  obtain g where g: "gc_create True True True 24 None = Some g" by (simp add: gc_create_def ebr_create_def)
  from gc_limbo_freed [OF g, of "[4096, 16, 0]"] g show ?thesis by auto
qed

end
