(* ===== verification/GC_Conc.thy ===== *)
theory GC_Conc
  imports GC
begin

text \<open>
  Threads of \<open>src/ebr.c\<close> and \<open>src/gc.c\<close> interleaved at the level of their accesses to shared memory, in
  sequentially consistent order (an idealisation: \<open>ebr.c\<close> uses relaxed accesses between fences). Worker threads register, enter and leave critical paths, take references
  to objects that are linked into a shared structure while they are inside, unlink objects and put unlinked
  ones into the limbo list; one thread at a time runs \<open>gc_cycle\<close>, as the comment of \<open>ebr_sync\<close> demands. What
  the client must do is a premise of its rules: take references only inside, drop them on leaving, and
  pass only unlinked objects to \<open>gc_limbo\<close>, once.
\<close>

section \<open>State\<close>

text \<open>Where a worker is: outside, in \<open>ebr_enter\<close> between reading the global epoch and storing the local
  one, or inside a critical path.\<close>

datatype worker_pc = Outside | Entering u32 | Inside

text \<open>Where the collecting thread is in \<open>gc_cycle\<close>: before it reads the global epoch, before it reads the
  head of the thread list, in the loop with the threads that its pointer chain still has, there before it reads
  the next pointer of the thread whose epoch it has read, before it moves the limbo list, before it reclaims.
  \<open>Dangling\<close> is a pointer to the freed struct of a thread: following it is undefined, so it has no step.\<close>

datatype collector_pc =
    Idle
  | Load nat
  | Head nat u32
  | Scan nat u32 "nat list"
  | Next nat u32 nat "nat list"
  | Stage nat u32
  | Reclaim nat u32
  | Dangling

text \<open>\<open>linked\<close> and \<open>unlinked\<close> are the client's objects, \<open>pushing\<close> the calls of \<open>gc_limbo\<close> with the object
  and the head of the limbo list they have read, \<open>held\<close> the references of each thread.\<close>

record sys =
  collector :: gc
  linked :: "u64 set"
  unlinked :: "u64 set"
  pushing :: "nat \<Rightarrow> (u64 \<times> u64 option) option"
  worker :: "nat \<Rightarrow> worker_pc"
  held :: "nat \<Rightarrow> u64 set"
  at :: collector_pc

text \<open>The objects that are allocated: in use or waiting to be reclaimed.\<close>

definition waiting_objs :: "gc \<Rightarrow> u64 set" where
  "waiting_objs g = {obj. \<exists>i < 3. entry_of g obj \<in> set (epoch_list g ! i)}"

definition pushed_objs :: "sys \<Rightarrow> u64 set" where
  "pushed_objs s = {obj. \<exists>t l. pushing s t = Some (obj, l)}"

definition limbo_objs :: "gc \<Rightarrow> u64 set" where
  "limbo_objs g = {obj. entry_of g obj \<in> set (limbo g)}"

definition live :: "sys \<Rightarrow> u64 set" where
  "live s = linked s \<union> unlinked s \<union> pushed_objs s \<union> limbo_objs (collector s) \<union> waiting_objs (collector s)"

section \<open>Steps\<close>

definition limbo_head :: "gc \<Rightarrow> u64 option" where
  "limbo_head g = (case limbo g of [] \<Rightarrow> None | entry # _ \<Rightarrow> Some entry)"

definition start :: "gc \<Rightarrow> sys" where
  "start g = \<lparr>collector = g, linked = {}, unlinked = {}, pushing = (\<lambda>_. None), worker = (\<lambda>_. Outside),
    held = (\<lambda>_. {}), at = Idle\<rparr>"

abbreviation ebr_of :: "sys \<Rightarrow> ebr" where
  "ebr_of s \<equiv> gc_ebr (collector s)"

text \<open>Removing a thread from the list while the collector walks it.\<close>

fun drop_thread :: "nat \<Rightarrow> collector_pc \<Rightarrow> collector_pc" where
  "drop_thread t (Scan c e (x # xs)) = (if x = t then Dangling else Scan c e (x # remove1 t xs))"
| "drop_thread t (Next c e x xs) = (if x = t then Dangling else Next c e x (remove1 t xs))"
| "drop_thread t pc = pc"

text \<open>\<open>goto next\<close> when the ready list is empty, at most \<open>count\<close> times.\<close>

definition after_stage :: "gc \<Rightarrow> nat \<Rightarrow> u32 \<Rightarrow> collector_pc" where
  "after_stage g c epoch =
    (if epoch_list g ! unat epoch = [] \<and> c \<noteq> 0 then Load (c - 1) else Reclaim c epoch)"

inductive step :: "sys \<Rightarrow> sys \<Rightarrow> bool" where
  register: "worker s t = Outside \<Longrightarrow> t \<notin> set (tls_list (ebr_of s)) \<Longrightarrow> gc_register True t (collector s) = Some g \<Longrightarrow>
    step s (s\<lparr>collector := g\<rparr>)"
| unregister: "worker s t = Outside \<Longrightarrow> t \<in> set (tls_list (ebr_of s)) \<Longrightarrow>
    step s (s\<lparr>collector := gc_unregister t (collector s), at := drop_thread t (at s)\<rparr>)"
| enter_load: "worker s t = Outside \<Longrightarrow> t \<in> set (tls_list (ebr_of s)) \<Longrightarrow>
    step s (s\<lparr>worker := (worker s)(t := Entering (enter_load (ebr_of s)))\<rparr>)"
| enter_store: "worker s t = Entering epoch \<Longrightarrow>
    step s (s\<lparr>collector := (collector s)\<lparr>gc_ebr := enter_store t epoch (ebr_of s)\<rparr>, worker := (worker s)(t := Inside)\<rparr>)"
| leave: "worker s t = Inside \<Longrightarrow> gc_crit_exit t (collector s) = Some g \<Longrightarrow>
    step s (s\<lparr>collector := g, worker := (worker s)(t := Outside), held := (held s)(t := {})\<rparr>)"
| acquire: "worker s t = Inside \<Longrightarrow> obj \<in> linked s \<Longrightarrow>
    step s (s\<lparr>held := (held s)(t := insert obj (held s t))\<rparr>)"
| link: "obj \<notin> live s \<Longrightarrow> step s (s\<lparr>linked := insert obj (linked s)\<rparr>)"
| unlink: "worker s t = Inside \<Longrightarrow> obj \<in> linked s \<Longrightarrow>
    step s (s\<lparr>linked := linked s - {obj}, unlinked := insert obj (unlinked s)\<rparr>)"
| push_read: "pushing s t = None \<Longrightarrow> obj \<in> unlinked s \<Longrightarrow>
    step s (s\<lparr>unlinked := unlinked s - {obj}, pushing := (pushing s)(t \<mapsto> (obj, limbo_head (collector s)))\<rparr>)"
| push_retry: "pushing s t = Some (obj, l) \<Longrightarrow>
    step s (s\<lparr>pushing := (pushing s)(t \<mapsto> (obj, limbo_head (collector s)))\<rparr>)"
| push: "pushing s t = Some (obj, l) \<Longrightarrow> l = limbo_head (collector s) \<Longrightarrow>
    step s (s\<lparr>pushing := (pushing s)(t := None), collector := gc_limbo obj (collector s)\<rparr>)"
| begin_cycle: "at s = Idle \<Longrightarrow> step s (s\<lparr>at := Load 3\<rparr>)"
| load: "at s = Load c \<Longrightarrow> step s (s\<lparr>at := Head c (global_epoch (ebr_of s))\<rparr>)"
| head: "at s = Head c epoch \<Longrightarrow> step s (s\<lparr>at := Scan c epoch (tls_list (ebr_of s))\<rparr>)"
| scan: "at s = Scan c epoch (t # ts) \<Longrightarrow> observed (ebr_of s) epoch t \<Longrightarrow> step s (s\<lparr>at := Next c epoch t ts\<rparr>)"
| follow: "at s = Next c epoch t ts \<Longrightarrow> step s (s\<lparr>at := Scan c epoch ts\<rparr>)"
| scan_fails: "at s = Scan c epoch (t # ts) \<Longrightarrow> \<not> observed (ebr_of s) epoch t \<Longrightarrow> step s (s\<lparr>at := Idle\<rparr>)"
| announce: "at s = Scan c epoch [] \<Longrightarrow> e = announce epoch (ebr_of s) \<Longrightarrow>
    step s (s\<lparr>collector := (collector s)\<lparr>gc_ebr := e\<rparr>, at := Stage c (ebr_gc_epoch e)\<rparr>)"
| stage: "at s = Stage c epoch \<Longrightarrow> gc_stage (collector s) = Some g \<Longrightarrow>
    step s (s\<lparr>collector := g, at := after_stage g c epoch\<rparr>)"
| collect: "at s = Reclaim c epoch \<Longrightarrow>
    step s (s\<lparr>collector := gc_reclaim epoch (collector s), at := Idle\<rparr>)"

inductive reachable :: "sys \<Rightarrow> bool" where
  init: "gc_create True True True off func = Some g \<Longrightarrow> reachable (start g)"
| next_step: "reachable s \<Longrightarrow> step s s' \<Longrightarrow> reachable s'"

section \<open>Invariants\<close>

text \<open>The third of the three epoch lists: the one whose epoch is ready.\<close>

definition ready :: "gc \<Rightarrow> u64 list" where
  "ready g = epoch_list g ! unat (ebr_gc_epoch (gc_ebr g))"

fun pc_ok :: "gc \<Rightarrow> collector_pc \<Rightarrow> bool" where
  "pc_ok g (Stage c epoch) \<longleftrightarrow> epoch = ebr_gc_epoch (gc_ebr g) \<and> young g = []"
| "pc_ok g (Reclaim c epoch) \<longleftrightarrow> epoch = ebr_gc_epoch (gc_ebr g)"
| "pc_ok g (Head c epoch) \<longleftrightarrow> epoch = global_epoch (gc_ebr g) \<and> ready g = []"
| "pc_ok g (Scan c epoch ts) \<longleftrightarrow> epoch = global_epoch (gc_ebr g) \<and> ready g = []"
| "pc_ok g (Next c epoch t ts) \<longleftrightarrow> epoch = global_epoch (gc_ebr g) \<and> ready g = []"
| "pc_ok g _ \<longleftrightarrow> ready g = []"

definition lists_ok :: "sys \<Rightarrow> bool" where
  "lists_ok s \<longleftrightarrow> length (epoch_list (collector s)) = 3 \<and> epoch_ok (ebr_of s) \<and> pc_ok (collector s) (at s)"

definition an_epoch :: "u32 \<Rightarrow> bool" where
  "an_epoch x \<longleftrightarrow> (\<exists>l < 3. x = l OR ACTIVE_FLAG)"

fun worker_ok :: "ebr \<Rightarrow> nat \<Rightarrow> worker_pc \<Rightarrow> u64 set \<Rightarrow> bool" where
  "worker_ok e t Outside h \<longleftrightarrow> h = {}"
| "worker_ok e t (Entering epoch) h \<longleftrightarrow> h = {} \<and> t \<in> set (tls_list e) \<and> an_epoch epoch"
| "worker_ok e t Inside h \<longleftrightarrow> t \<in> set (tls_list e) \<and> an_epoch (local_epoch e t)"

definition workers_ok :: "sys \<Rightarrow> bool" where
  "workers_ok s \<longleftrightarrow> (\<forall>t. worker_ok (ebr_of s) t (worker s t) (held s t))"

definition objs_ok :: "sys \<Rightarrow> bool" where
  "objs_ok s \<longleftrightarrow> linked s \<inter> (unlinked s \<union> pushed_objs s \<union> limbo_objs (collector s) \<union> waiting_objs (collector s)) = {} \<and>
    (\<forall>t. held s t \<subseteq> live s)"

text \<open>How many more epochs can be announced while the thread stays inside: a thread the loop has passed
  does not stop the announcement under way.\<close>

fun passed :: "collector_pc \<Rightarrow> nat \<Rightarrow> bool" where
  "passed (Scan c epoch ts) t \<longleftrightarrow> t \<notin> set ts"
| "passed (Next c epoch u ts) t \<longleftrightarrow> t \<notin> set ts"
| "passed _ t \<longleftrightarrow> False"

definition slack :: "sys \<Rightarrow> nat \<Rightarrow> nat" where
  "slack s t =
    (if passed (at s) t
     then if local_epoch (ebr_of s) t = ebr_gc_epoch (ebr_of s) OR ACTIVE_FLAG then 2 else 1
     else if local_epoch (ebr_of s) t = global_epoch (ebr_of s) OR ACTIVE_FLAG then 1 else 0)"

text \<open>An object that a thread holds is not reclaimed by so many announcements.\<close>

definition grace_ok :: "sys \<Rightarrow> bool" where
  "grace_ok s \<longleftrightarrow> (\<forall>t. \<forall>obj \<in> held s t.
     (entry_of (collector s) obj \<in> set (young (collector s)) \<longrightarrow> slack s t \<le> 1) \<and>
     (entry_of (collector s) obj \<in> set (old (collector s)) \<longrightarrow> slack s t = 0) \<and>
     entry_of (collector s) obj \<notin> set (ready (collector s)))"

definition inv :: "sys \<Rightarrow> bool" where
  "inv s \<longleftrightarrow> lists_ok s \<and> workers_ok s \<and> objs_ok s \<and> grace_ok s"

lemma waiting_objs_lists:
  assumes "length (epoch_list g) = 3" "epoch_ok (gc_ebr g)"
  shows "waiting_objs g = {obj. entry_of g obj \<in> set (young g) \<union> set (old g) \<union> set (ready g)}"
proof -
  obtain x y z where l: "epoch_list g = [x, y, z]" using assms by (auto simp: numeral_3_eq_3 length_Suc_conv)
  have "(\<exists>i < 3. P i) \<longleftrightarrow> P 0 \<or> P 1 \<or> P 2" for P :: "nat \<Rightarrow> bool"
    by (auto simp: numeral_3_eq_3 numeral_2_eq_2 less_Suc_eq)
  then have w: "waiting_objs g = {obj. entry_of g obj \<in> set x \<union> set y \<union> set z}"
    by (simp add: waiting_objs_def l)
  have "global_epoch (gc_ebr g) < 3" using assms by (simp add: epoch_ok_def)
  then have "set (young g) \<union> set (old g) \<union> set (ready g) = set x \<union> set y \<union> set z"
    by (cases rule: epoch_cases) (simp_all add: young_def old_def ready_def ebr_gc_epoch_def l Un_ac)
  then show ?thesis by (simp only: w)
qed

lemma entry_inject [simp]: "entry_of g a = entry_of g b \<longleftrightarrow> a = b"
  by (simp add: entry_of_def)

text \<open>The steps that only change threads keep the collector's lists.\<close>

lemma thread_step [simp]:
  "waiting_objs (g\<lparr>gc_ebr := e\<rparr>) = waiting_objs g" "limbo_objs (g\<lparr>gc_ebr := e\<rparr>) = limbo_objs g"
  "entry_of (g\<lparr>gc_ebr := e\<rparr>) = entry_of g"
  by (simp_all add: waiting_objs_def limbo_objs_def entry_of_def fun_eq_iff)

lemma same_epoch:
  assumes "global_epoch e = global_epoch (gc_ebr g)"
  shows "young (g\<lparr>gc_ebr := e\<rparr>) = young g" "old (g\<lparr>gc_ebr := e\<rparr>) = old g" "ready (g\<lparr>gc_ebr := e\<rparr>) = ready g"
    "ebr_gc_epoch e = ebr_gc_epoch (gc_ebr g)"
  using assms by (simp_all add: young_def old_def ready_def ebr_gc_epoch_def)

text \<open>Threads other than \<open>t\<close> see nothing of a step of \<open>t\<close> on its own struct.\<close>

definition thread_update :: "nat \<Rightarrow> sys \<Rightarrow> sys \<Rightarrow> bool" where
  "thread_update t s s' \<longleftrightarrow> (\<exists>e. collector s' = (collector s)\<lparr>gc_ebr := e\<rparr> \<and> global_epoch e = global_epoch (ebr_of s) \<and>
     (\<forall>u. u \<noteq> t \<longrightarrow> local_epoch e u = local_epoch (ebr_of s) u \<and> (u \<in> set (tls_list e) \<longleftrightarrow> u \<in> set (tls_list (ebr_of s))))) \<and>
   linked s' = linked s \<and> unlinked s' = unlinked s \<and> pushing s' = pushing s \<and>
   (at s' = at s \<or> at s' = drop_thread t (at s)) \<and>
   (\<forall>u. u \<noteq> t \<longrightarrow> worker s' u = worker s u \<and> held s' u = held s u) \<and> held s' t = {}"

lemma slack_mono:
  assumes "local_epoch (ebr_of s') u = local_epoch (ebr_of s) u" "global_epoch (ebr_of s') = global_epoch (ebr_of s)"
    and "at s' = at s \<or> u \<noteq> t \<and> at s' = drop_thread t (at s)"
  shows "slack s' u \<le> slack s u"
proof -
  have "passed (at s') u \<longrightarrow> passed (at s) u"
    using assms(3) by (cases "(t, at s)" rule: drop_thread.cases) (auto split: if_splits)
  then show ?thesis using assms(1,2) by (auto simp: slack_def ebr_gc_epoch_def)
qed

lemma lists_drop:
  assumes "lists_ok s" "at s' = at s \<or> at s' = drop_thread t (at s)" "collector s' = (collector s)\<lparr>gc_ebr := e\<rparr>"
    and "global_epoch e = global_epoch (ebr_of s)"
  shows "lists_ok s'"
proof -
  note S = same_epoch [OF assms(4)]
  show ?thesis
    using assms(1-4) S
    by (cases "(t, at s)" rule: drop_thread.cases) (auto simp: lists_ok_def epoch_ok_def split: if_splits)
qed

lemma grace_mono:
  assumes "grace_ok s" "entry_of (collector s') = entry_of (collector s)"
    and "young (collector s') = young (collector s)" "old (collector s') = old (collector s)"
    and "ready (collector s') = ready (collector s)"
    and "\<And>u. held s' u \<noteq> {} \<Longrightarrow> held s' u \<subseteq> held s u \<and> slack s' u \<le> slack s u"
  shows "grace_ok s'"
  unfolding grace_ok_def
proof (intro allI ballI)
  fix u obj
  assume o: "obj \<in> held s' u"
  then have "obj \<in> held s u" "slack s' u \<le> slack s u" using assms(6) [of u] by auto
  with assms(1) show "(entry_of (collector s') obj \<in> set (young (collector s')) \<longrightarrow> slack s' u \<le> 1) \<and>
      (entry_of (collector s') obj \<in> set (old (collector s')) \<longrightarrow> slack s' u = 0) \<and>
      entry_of (collector s') obj \<notin> set (ready (collector s'))"
    unfolding assms(2-5) grace_ok_def by fastforce
qed

lemma thread_step_inv:
  assumes inv: "inv s" and upd: "thread_update t s s'"
    and t: "worker_ok (ebr_of s') t (worker s' t) {}"
  shows "inv s'"
proof -
  obtain e where e: "collector s' = (collector s)\<lparr>gc_ebr := e\<rparr>" "global_epoch e = global_epoch (ebr_of s)"
    "\<And>u. u \<noteq> t \<Longrightarrow> local_epoch e u = local_epoch (ebr_of s) u \<and> (u \<in> set (tls_list e) \<longleftrightarrow> u \<in> set (tls_list (ebr_of s)))"
    using upd by (auto simp: thread_update_def)
  note S = same_epoch [OF e(2)]
  have at: "at s' = at s \<or> at s' = drop_thread t (at s)" and ht: "held s' t = {}"
    and other: "\<And>u. u \<noteq> t \<Longrightarrow> worker s' u = worker s u \<and> held s' u = held s u"
    and objs: "linked s' = linked s" "unlinked s' = unlinked s" "pushing s' = pushing s"
    using upd by (auto simp: thread_update_def)
  have "lists_ok s'" using inv at e(1,2) by (intro lists_drop [of s s' t e]) (auto simp: inv_def)
  moreover have "worker_ok (ebr_of s') u (worker s' u) (held s' u)" for u
  proof (cases "u = t")
    case True
    with t ht show ?thesis by simp
  next
    case False
    have "worker_ok (ebr_of s) u (worker s u) (held s u)" using inv by (simp add: inv_def workers_ok_def)
    with other [OF False] e(1,3) False show ?thesis by (cases "worker s u") simp_all
  qed
  then have "workers_ok s'" by (simp add: workers_ok_def)
  moreover have "objs_ok s'"
  proof -
    have "live s' = live s" "pushed_objs s' = pushed_objs s" using e(1) objs by (simp_all add: live_def pushed_objs_def)
    moreover have "held s' u \<subseteq> held s u" for u using other [of u] ht by (cases "u = t") auto
    ultimately show ?thesis
      using inv e(1) objs unfolding inv_def objs_ok_def by (simp add: subset_iff) blast
  qed
  moreover have "grace_ok s'"
  proof (rule grace_mono [of s])
    fix u assume "held s' u \<noteq> {}"
    with ht have "u \<noteq> t" by auto
    with other e at show "held s' u \<subseteq> held s u \<and> slack s' u \<le> slack s u"
      by (intro conjI slack_mono [of s' u s t]) auto
  qed (use inv S e(1) in \<open>simp_all add: inv_def\<close>)
  ultimately show ?thesis by (simp add: inv_def)
qed

section \<open>Object steps\<close>

lemma linked_not_listed:
  assumes "inv s" "obj \<in> linked s"
  shows "entry_of (collector s) obj \<notin> set (young (collector s))" "entry_of (collector s) obj \<notin> set (old (collector s))"
    "entry_of (collector s) obj \<notin> set (ready (collector s))"
  using assms waiting_objs_lists [of "collector s"] by (auto simp: inv_def objs_ok_def lists_ok_def)

lemma acquire_inv:
  assumes inv: "inv s" and w: "worker s t = Inside" and obj: "obj \<in> linked s"
  shows "inv (s\<lparr>held := (held s)(t := insert obj (held s t))\<rparr>)" (is "inv ?s")
proof -
  have "live ?s = live s" "obj \<in> live s" using obj by (auto simp: live_def pushed_objs_def)
  then have "objs_ok ?s" using inv by (auto simp: inv_def objs_ok_def pushed_objs_def)
  moreover have "worker_ok (ebr_of ?s) u (worker ?s u) (held ?s u)" for u
  proof -
    have "worker_ok (ebr_of s) u (worker s u) (held s u)" using inv by (simp add: inv_def workers_ok_def)
    then show ?thesis using w by (cases "u = t") simp_all
  qed
  then have "workers_ok ?s" by (simp add: workers_ok_def)
  moreover have "slack ?s u = slack s u" for u by (simp add: slack_def)
  then have "grace_ok ?s" using inv linked_not_listed [OF inv obj] by (auto simp: inv_def grace_ok_def)
  moreover have "lists_ok ?s" using inv by (simp add: inv_def lists_ok_def)
  ultimately show ?thesis by (simp add: inv_def)
qed

text \<open>Steps that move an object between the places outside the collector's lists.\<close>

lemma move_inv:
  assumes inv: "inv s"
    and keep: "worker s' = worker s" "held s' = held s" "at s' = at s" "gc_ebr (collector s') = ebr_of s"
      "epoch_list (collector s') = epoch_list (collector s)" "entry_off (collector s') = entry_off (collector s)"
    and objs: "linked s' \<inter> (unlinked s' \<union> pushed_objs s' \<union> limbo_objs (collector s') \<union> waiting_objs (collector s')) = {}"
      "live s \<subseteq> live s'"
  shows "inv s'"
proof -
  have l: "young (collector s') = young (collector s)" "old (collector s') = old (collector s)"
    "ready (collector s') = ready (collector s)" "entry_of (collector s') = entry_of (collector s)"
    using keep by (simp_all add: young_def old_def ready_def entry_of_def fun_eq_iff)
  have "lists_ok s'" using inv keep l by (cases "at s") (simp_all add: inv_def lists_ok_def)
  moreover have "workers_ok s'" using inv keep by (simp add: inv_def workers_ok_def)
  moreover have "objs_ok s'" using inv objs keep(2) unfolding inv_def objs_ok_def by fastforce
  moreover have "grace_ok s'"
    by (rule grace_mono [of s]) (use inv l keep in \<open>simp_all add: inv_def slack_def\<close>)
  ultimately show ?thesis by (simp add: inv_def)
qed

lemma limbo_push [simp]: "limbo_objs (gc_limbo obj g) = insert obj (limbo_objs g)"
  by (auto simp: limbo_objs_def gc_limbo_def entry_of_def)

lemma waiting_push [simp]: "waiting_objs (gc_limbo obj g) = waiting_objs g"
  by (simp add: waiting_objs_def gc_limbo_def entry_of_def)

lemma pushed_new:
  assumes "pushing s t = None \<or> pushing s t = Some (obj, l')" "pushing s' = (pushing s)(t \<mapsto> (obj, l))"
  shows "pushed_objs s' = insert obj (pushed_objs s)"
proof (rule set_eqI)
  fix x
  show "x \<in> pushed_objs s' \<longleftrightarrow> x \<in> insert obj (pushed_objs s)"
  proof
    assume "x \<in> insert obj (pushed_objs s)"
    then consider "x = obj" | u l where "pushing s u = Some (x, l)" by (auto simp: pushed_objs_def)
    then show "x \<in> pushed_objs s'"
    proof cases
      case 1
      have "pushing s' t = Some (x, l)" using 1 assms(2) by simp
      then show ?thesis unfolding pushed_objs_def by blast
    next
      case (2 u l0)
      then have "pushing s' u = Some (x, if u = t then l else l0)" using assms by auto
      then show ?thesis unfolding pushed_objs_def by blast
    qed
  qed (auto simp: pushed_objs_def assms(2) split: if_splits)
qed

lemma pushed_obj: "pushing s t = Some (obj, l) \<Longrightarrow> obj \<in> pushed_objs s"
  unfolding pushed_objs_def by blast

lemma pushed_done:
  assumes "pushing s t = Some (obj, l)" "pushing s' = (pushing s)(t := None)"
  shows "insert obj (pushed_objs s') = pushed_objs s" "pushed_objs s' \<subseteq> pushed_objs s"
proof -
  show sub: "pushed_objs s' \<subseteq> pushed_objs s" unfolding pushed_objs_def assms(2) by (auto split: if_splits)
  have "x \<in> insert obj (pushed_objs s')" if "x \<in> pushed_objs s" for x
  proof -
    from that obtain u l' where u: "pushing s u = Some (x, l')" by (auto simp: pushed_objs_def)
    show ?thesis
    proof (cases "u = t")
      case False
      with u assms(2) have "pushing s' u = Some (x, l')" by simp
      then show ?thesis by (auto dest: pushed_obj)
    qed (use u assms(1) in simp)
  qed
  with sub pushed_obj [OF assms(1)]
  show "insert obj (pushed_objs s') = pushed_objs s" by blast
qed

lemma link_inv: "inv s \<Longrightarrow> obj \<notin> live s \<Longrightarrow> inv (s\<lparr>linked := insert obj (linked s)\<rparr>)"
  by (rule move_inv) (auto simp: inv_def objs_ok_def live_def pushed_objs_def)

lemma unlink_inv:
  "inv s \<Longrightarrow> obj \<in> linked s \<Longrightarrow> inv (s\<lparr>linked := linked s - {obj}, unlinked := insert obj (unlinked s)\<rparr>)"
  by (rule move_inv) (auto simp: inv_def objs_ok_def live_def pushed_objs_def)

lemma push_read_inv:
  assumes "inv s" "pushing s t = None" "obj \<in> unlinked s"
  shows "inv (s\<lparr>unlinked := unlinked s - {obj}, pushing := (pushing s)(t \<mapsto> (obj, l))\<rparr>)" (is "inv ?s")
proof -
  have p: "pushed_objs ?s = insert obj (pushed_objs s)" by (rule pushed_new [where l' = l]) (use assms(2) in simp_all)
  show ?thesis
    by (rule move_inv [OF assms(1)]) (use assms p in \<open>auto simp: inv_def objs_ok_def live_def\<close>)
qed

lemma push_retry_inv:
  assumes "inv s" "pushing s t = Some (obj, l)"
  shows "inv (s\<lparr>pushing := (pushing s)(t \<mapsto> (obj, l'))\<rparr>)" (is "inv ?s")
proof -
  have p: "pushed_objs ?s = pushed_objs s"
    using pushed_new [of s t obj l ?s l'] pushed_obj [OF assms(2)] assms(2) by auto
  show ?thesis
    by (rule move_inv [OF assms(1)]) (use assms p in \<open>auto simp: inv_def objs_ok_def live_def\<close>)
qed

lemma push_inv:
  assumes "inv s" "pushing s t = Some (obj, l)"
  shows "inv (s\<lparr>pushing := (pushing s)(t := None), collector := gc_limbo obj (collector s)\<rparr>)" (is "inv ?s")
proof -
  have p: "insert obj (pushed_objs ?s) = pushed_objs s" "pushed_objs ?s \<subseteq> pushed_objs s"
    using pushed_done [OF assms(2), of ?s] by simp_all
  show ?thesis
  proof (rule move_inv [OF assms(1)])
    show "linked ?s \<inter> (unlinked ?s \<union> pushed_objs ?s \<union> limbo_objs (collector ?s) \<union> waiting_objs (collector ?s)) = {}"
      using assms(1) p unfolding inv_def objs_ok_def by simp blast
    show "live s \<subseteq> live ?s" using p(1) by (auto simp: live_def)
  qed (simp_all add: gc_limbo_def)
qed

section \<open>Collector steps\<close>

text \<open>Steps that only move the collector's program counter.\<close>

lemma pc_inv:
  assumes inv: "inv s" and pc: "lists_ok (s\<lparr>at := pc\<rparr>)"
    and slack: "\<And>u. held s u \<noteq> {} \<Longrightarrow> slack (s\<lparr>at := pc\<rparr>) u \<le> slack s u"
  shows "inv (s\<lparr>at := pc\<rparr>)" (is "inv ?s")
proof -
  have "workers_ok ?s" "objs_ok ?s" using inv by (simp_all add: inv_def workers_ok_def objs_ok_def live_def pushed_objs_def)
  moreover have "grace_ok ?s" by (rule grace_mono [of s]) (use inv slack in \<open>simp_all add: inv_def\<close>)
  ultimately show ?thesis using pc by (simp add: inv_def)
qed

lemma worker_okD: "inv s \<Longrightarrow> worker_ok (ebr_of s) t (worker s t) (held s t)"
  by (simp add: inv_def workers_ok_def)

lemma holder_inside:
  assumes "inv s" "held s u \<noteq> {}"
  shows "worker s u = Inside" "u \<in> set (tls_list (ebr_of s))" "an_epoch (local_epoch (ebr_of s) u)"
proof -
  have "worker_ok (ebr_of s) u (worker s u) (held s u)" using assms(1) by (simp add: inv_def workers_ok_def)
  with assms(2) show "worker s u = Inside" "u \<in> set (tls_list (ebr_of s))" "an_epoch (local_epoch (ebr_of s) u)"
    by (cases "worker s u"; simp)+
qed

lemma scan_slack:
  assumes inv: "inv s" and at: "at s = Scan c epoch (t # ts)" and o: "observed (ebr_of s) epoch t"
    and h: "held s u \<noteq> {}"
  shows "slack (s\<lparr>at := Next c epoch t ts\<rparr>) u \<le> slack s u"
proof -
  have e: "epoch = global_epoch (ebr_of s)" "global_epoch (ebr_of s) < 3"
    using inv at by (simp_all add: inv_def lists_ok_def epoch_ok_def)
  note H = holder_inside [OF inv h]
  show ?thesis
  proof (cases "u = t \<and> u \<notin> set ts")
    case True
    have "active (ebr_of s) t" using H(3) True active_observed by (auto simp: active_def an_epoch_def)
    then have l: "local_epoch (ebr_of s) u = global_epoch (ebr_of s) OR ACTIVE_FLAG" using o True e(1) by (simp add: observed_def)
    have "slack (s\<lparr>at := Next c epoch t ts\<rparr>) u = 1"
      using True l flag_inject [of "global_epoch (ebr_of s)" "ebr_gc_epoch (ebr_of s)"] e(2) next_epoch_neq [OF e(2)]
      by (simp add: slack_def ebr_gc_epoch_def)
    then show ?thesis using at True l by (simp add: slack_def)
  next
    case False
    then show ?thesis using at by (auto simp: slack_def)
  qed
qed

text \<open>An announcement makes young lists old and old ones ready.\<close>

lemma announce_lists:
  assumes "epoch_ok (gc_ebr g)" "e = announce (global_epoch (gc_ebr g)) (gc_ebr g)"
  shows "young (g\<lparr>gc_ebr := e\<rparr>) = ready g" "old (g\<lparr>gc_ebr := e\<rparr>) = young g" "ready (g\<lparr>gc_ebr := e\<rparr>) = old g"
    "epoch_ok e" "local_epoch e = local_epoch (gc_ebr g)" "tls_list e = tls_list (gc_ebr g)"
    "global_epoch e = ebr_gc_epoch (gc_ebr g)"
proof -
  have "global_epoch (gc_ebr g) < 3" using assms(1) by (simp add: epoch_ok_def)
  then show "young (g\<lparr>gc_ebr := e\<rparr>) = ready g" "old (g\<lparr>gc_ebr := e\<rparr>) = young g" "ready (g\<lparr>gc_ebr := e\<rparr>) = old g"
    unfolding assms(2)
    by (cases rule: epoch_cases; simp add: young_def old_def ready_def ebr_gc_epoch_def announce_def)+
qed (simp_all add: assms(2) announce_def epoch_ok_def ebr_gc_epoch_def)

lemma worker_ok_cong:
  "local_epoch e = local_epoch e' \<Longrightarrow> tls_list e = tls_list e' \<Longrightarrow> worker_ok e t pc h = worker_ok e' t pc h"
  by (cases pc) simp_all

lemma announce_inv:
  assumes inv: "inv s" and at: "at s = Scan c epoch []" and e: "e = announce epoch (ebr_of s)"
  shows "inv (s\<lparr>collector := (collector s)\<lparr>gc_ebr := e\<rparr>, at := Stage c (ebr_gc_epoch e)\<rparr>)" (is "inv ?s")
proof -
  have ok: "epoch_ok (ebr_of s)" "epoch = global_epoch (ebr_of s)" "ready (collector s) = []"
    using inv at by (simp_all add: inv_def lists_ok_def)
  note A = announce_lists [OF ok(1) e [unfolded ok(2)]]
  have "lists_ok ?s" using inv A(1,4) ok(3) by (simp add: inv_def lists_ok_def)
  moreover have "workers_ok ?s"
    using inv worker_ok_cong [OF A(5,6)] by (simp add: inv_def workers_ok_def)
  moreover have "objs_ok ?s" using inv by (simp add: inv_def objs_ok_def live_def pushed_objs_def)
  moreover have "grace_ok ?s"
    unfolding grace_ok_def
  proof (intro allI ballI)
    fix u obj
    assume o: "obj \<in> held ?s u"
    have sl: "slack ?s u + 1 = slack s u" using at A(5,7) by (simp add: slack_def)
    have "entry_of (collector s) obj \<in> set (young (collector s)) \<longrightarrow> slack s u \<le> 1"
      "entry_of (collector s) obj \<in> set (old (collector s)) \<longrightarrow> slack s u = 0"
      using inv o by (simp_all add: inv_def grace_ok_def)
    then show "(entry_of (collector ?s) obj \<in> set (young (collector ?s)) \<longrightarrow> slack ?s u \<le> 1) \<and>
        (entry_of (collector ?s) obj \<in> set (old (collector ?s)) \<longrightarrow> slack ?s u = 0) \<and>
        entry_of (collector ?s) obj \<notin> set (ready (collector ?s))"
      using A(1-3) ok(3) sl by auto
  qed
  ultimately show ?thesis by (simp add: inv_def)
qed

lemma stage_lists:
  assumes "length (epoch_list g) = 3" "epoch_ok (gc_ebr g)" "gc_stage g = Some g'"
  shows "young g' = limbo g" "old g' = old g" "ready g' = ready g" "gc_ebr g' = gc_ebr g" "limbo g' = []"
    "entry_of g' = entry_of g" "length (epoch_list g') = 3"
proof -
  obtain x y z where l: "epoch_list g = [x, y, z]" using assms by (auto simp: numeral_3_eq_3 length_Suc_conv)
  have g': "g' = g\<lparr>epoch_list := (epoch_list g)[unat (global_epoch (gc_ebr g)) := limbo g], limbo := []\<rparr>"
    using assms(3) by (simp add: gc_stage_def Let_def ebr_staging_epoch_def split: if_splits)
  have "global_epoch (gc_ebr g) < 3" using assms(2) by (simp add: epoch_ok_def)
  then show "young g' = limbo g" "old g' = old g" "ready g' = ready g"
    unfolding g' by (cases rule: epoch_cases; simp add: young_def old_def ready_def ebr_gc_epoch_def l)+
qed (use assms(1,3) in \<open>auto simp: gc_stage_def Let_def entry_of_def split: if_splits\<close>)

lemma stage_inv:
  assumes inv: "inv s" and at: "at s = Stage c epoch" and g: "gc_stage (collector s) = Some g"
  shows "inv (s\<lparr>collector := g, at := after_stage g c epoch\<rparr>)"
    (is "inv ?s")
proof -
  have ok: "length (epoch_list (collector s)) = 3" "epoch_ok (ebr_of s)" "epoch = ebr_gc_epoch (ebr_of s)"
      "young (collector s) = []"
    using inv at by (simp_all add: inv_def lists_ok_def)
  note S = stage_lists [OF ok(1,2) g]
  have r: "epoch_list g ! unat epoch = ready g" using S(4) ok(3) by (simp add: ready_def)
  have w: "waiting_objs g = waiting_objs (collector s) \<union> limbo_objs (collector s)" "limbo_objs g = {}"
    using waiting_objs_lists [of g] waiting_objs_lists [OF ok(1,2)] S ok(2,4) by (auto simp: limbo_objs_def)
  have "lists_ok ?s" using inv S ok r by (simp add: inv_def lists_ok_def after_stage_def)
  moreover have "workers_ok ?s" using inv S(4) by (simp add: inv_def workers_ok_def)
  moreover have "objs_ok ?s"
  proof -
    have "live ?s = live s" "pushed_objs ?s = pushed_objs s" using w by (auto simp: live_def pushed_objs_def)
    then show ?thesis using inv w unfolding inv_def objs_ok_def by simp blast
  qed
  moreover have "grace_ok ?s"
    unfolding grace_ok_def
  proof (intro allI ballI)
    fix u obj
    assume o: "obj \<in> held ?s u"
    have sl: "slack ?s u = slack s u" "slack s u \<le> 1" using at S(4) by (simp_all add: slack_def after_stage_def)
    have "entry_of (collector s) obj \<in> set (old (collector s)) \<longrightarrow> slack s u = 0"
      "entry_of (collector s) obj \<notin> set (ready (collector s))"
      using inv o by (simp_all add: inv_def grace_ok_def)
    then show "(entry_of (collector ?s) obj \<in> set (young (collector ?s)) \<longrightarrow> slack ?s u \<le> 1) \<and>
        (entry_of (collector ?s) obj \<in> set (old (collector ?s)) \<longrightarrow> slack ?s u = 0) \<and>
        entry_of (collector ?s) obj \<notin> set (ready (collector ?s))"
      using S(2,3,6) sl by auto
  qed
  ultimately show ?thesis by (simp add: inv_def)
qed

lemma reclaim_lists:
  assumes "length (epoch_list g) = 3" "epoch_ok (gc_ebr g)"
  defines "g' \<equiv> gc_reclaim (ebr_gc_epoch (gc_ebr g)) g"
  shows "young g' = young g" "old g' = old g" "ready g' = []" "gc_ebr g' = gc_ebr g" "limbo g' = limbo g"
    "entry_of g' = entry_of g" "length (epoch_list g') = 3"
proof -
  obtain x y z where l: "epoch_list g = [x, y, z]" using assms(1) by (auto simp: numeral_3_eq_3 length_Suc_conv)
  have "global_epoch (gc_ebr g) < 3" using assms(2) by (simp add: epoch_ok_def)
  then show "young g' = young g" "old g' = old g" "ready g' = []"
    unfolding g'_def
    by (cases rule: epoch_cases; simp add: young_def old_def ready_def ebr_gc_epoch_def l gc_reclaim_def)+
qed (use assms(1) in \<open>simp_all add: g'_def gc_reclaim_def entry_of_def fun_eq_iff\<close>)

text \<open>No thread holds an object of the ready list.\<close>

lemma held_not_ready: "inv s \<Longrightarrow> obj \<in> held s t \<Longrightarrow> entry_of (collector s) obj \<notin> set (ready (collector s))"
  by (simp add: inv_def grace_ok_def)

lemma collect_inv:
  assumes inv: "inv s" and at: "at s = Reclaim c epoch"
  shows "inv (s\<lparr>collector := gc_reclaim epoch (collector s), at := Idle\<rparr>)" (is "inv ?s")
proof -
  have ok: "length (epoch_list (collector s)) = 3" "epoch_ok (ebr_of s)" "epoch = ebr_gc_epoch (ebr_of s)"
    using inv at by (simp_all add: inv_def lists_ok_def)
  note R = reclaim_lists [OF ok(1,2), folded ok(3)]
  have w: "waiting_objs (gc_reclaim epoch (collector s)) =
      {obj. entry_of (collector s) obj \<in> set (young (collector s)) \<union> set (old (collector s))}"
    "limbo_objs (gc_reclaim epoch (collector s)) = limbo_objs (collector s)"
    using waiting_objs_lists [of "gc_reclaim epoch (collector s)"] R ok(2) by (simp_all add: limbo_objs_def)
  have w0: "waiting_objs (collector s) = {obj. entry_of (collector s) obj \<in>
      set (young (collector s)) \<union> set (old (collector s)) \<union> set (ready (collector s))}"
    by (rule waiting_objs_lists [OF ok(1,2)])
  have "lists_ok ?s" using inv R ok by (simp add: inv_def lists_ok_def)
  moreover have "workers_ok ?s" using inv R(4) by (simp add: inv_def workers_ok_def)
  moreover have "objs_ok ?s"
  proof -
    have "held ?s u \<subseteq> live ?s" for u
    proof
      fix obj assume "obj \<in> held ?s u"
      then have o: "obj \<in> held s u" by simp
      then have "obj \<in> live s" using inv by (auto simp: inv_def objs_ok_def)
      with held_not_ready [OF inv o] show "obj \<in> live ?s" by (auto simp: live_def w w0 pushed_objs_def)
    qed
    moreover have "waiting_objs (collector ?s) \<subseteq> waiting_objs (collector s)" "pushed_objs ?s = pushed_objs s"
      by (auto simp: w w0 pushed_objs_def)
    ultimately show ?thesis using inv w(2) unfolding inv_def objs_ok_def by simp blast
  qed
  moreover have "grace_ok ?s"
    unfolding grace_ok_def
  proof (intro allI ballI)
    fix u obj
    assume o: "obj \<in> held ?s u"
    have sl: "slack ?s u = slack s u" using at R(4) by (simp add: slack_def)
    show "(entry_of (collector ?s) obj \<in> set (young (collector ?s)) \<longrightarrow> slack ?s u \<le> 1) \<and>
        (entry_of (collector ?s) obj \<in> set (old (collector ?s)) \<longrightarrow> slack ?s u = 0) \<and>
        entry_of (collector ?s) obj \<notin> set (ready (collector ?s))"
      using inv o R(1-3,6) sl by (simp add: inv_def grace_ok_def)
  qed
  ultimately show ?thesis by (simp add: inv_def)
qed

section \<open>Reachable states\<close>

lemma start_inv: "gc_create True True True off func = Some g \<Longrightarrow> inv (start g)"
  by (auto simp: start_def inv_def lists_ok_def workers_ok_def objs_ok_def grace_ok_def gc_create_def ebr_create_def
      epoch_ok_def ready_def ebr_gc_epoch_def)

lemma step_inv:
  assumes "step s s'" "inv s"
  shows "inv s'"
  using assms
proof (induction rule: step.induct)
  case (register s t g)
  then obtain e where g: "g = (collector s)\<lparr>gc_ebr := e\<rparr>"
    "e = (ebr_of s)\<lparr>tls_list := t # tls_list (ebr_of s), local_epoch := (local_epoch (ebr_of s))(t := 0)\<rparr>"
    by (auto simp: gc_register_def ebr_register_def split: if_splits)
  have "held s t = {}" using worker_okD [OF register.prems, of t] register.hyps by simp
  then show ?case using register.hyps
    by (intro thread_step_inv [OF register.prems, of t]) (auto simp: thread_update_def g)
next
  case (unregister s t)
  have "held s t = {}" using worker_okD [OF unregister.prems, of t] unregister.hyps by simp
  then show ?case using unregister.hyps
    by (intro thread_step_inv [OF unregister.prems, of t])
      (auto simp: thread_update_def gc_unregister_def ebr_unregister_def)
next
  case (enter_load s t)
  have "held s t = {}" using worker_okD [OF enter_load.prems, of t] enter_load.hyps by simp
  moreover have "an_epoch (enter_load (ebr_of s))"
    using enter_load by (auto simp: an_epoch_def enter_load_def inv_def lists_ok_def epoch_ok_def)
  ultimately show ?case using enter_load.hyps
    by (intro thread_step_inv [OF enter_load.prems, of t]) (auto simp: thread_update_def intro!: exI [of _ "ebr_of s"])
next
  case (enter_store s t epoch)
  from worker_okD [OF enter_store.prems, of t] enter_store.hyps have "held s t = {}" "t \<in> set (tls_list (ebr_of s))" "an_epoch epoch" by simp_all
  then show ?case using enter_store.hyps
    by (intro thread_step_inv [OF enter_store.prems, of t]) (auto simp: thread_update_def enter_store_def)
next
  case (leave s t g)
  then obtain e where g: "g = (collector s)\<lparr>gc_ebr := e\<rparr>" "e = (ebr_of s)\<lparr>local_epoch := (local_epoch (ebr_of s))(t := 0)\<rparr>"
    by (auto simp: gc_crit_exit_def ebr_exit_def split: if_splits)
  then show ?case by (intro thread_step_inv [OF leave.prems, of t]) (auto simp: thread_update_def)
next
  case (begin_cycle s)
  then show ?case by (intro pc_inv) (simp_all add: inv_def lists_ok_def slack_def)
next
  case (load s c)
  then show ?case by (intro pc_inv) (simp_all add: inv_def lists_ok_def slack_def)
next
  case (head s c epoch)
  have "slack (s\<lparr>at := Scan c epoch (tls_list (ebr_of s))\<rparr>) u \<le> slack s u" if "held s u \<noteq> {}" for u
    using holder_inside [OF head.prems that] head.hyps by (simp add: slack_def)
  then show ?case using head by (intro pc_inv) (simp_all add: inv_def lists_ok_def)
next
  case (scan s c epoch t ts)
  then show ?case using scan_slack [OF scan.prems scan.hyps] by (intro pc_inv) (simp_all add: inv_def lists_ok_def)
next
  case (follow s c epoch t ts)
  then show ?case by (intro pc_inv) (simp_all add: inv_def lists_ok_def slack_def)
next
  case (scan_fails s c epoch t ts)
  then show ?case by (intro pc_inv) (auto simp: inv_def lists_ok_def slack_def)
qed (blast intro: acquire_inv link_inv unlink_inv push_read_inv push_retry_inv push_inv announce_inv stage_inv collect_inv)+

lemma reachable_inv: "reachable s \<Longrightarrow> inv s"
  by (induction rule: reachable.induct) (auto intro: start_inv step_inv)

section \<open>Executing steps\<close>

text \<open>The rules as a function of a choice of the step; linking an object is left to the rule.\<close>

datatype choice =
    Register nat | Unregister nat | Enter_Load nat | Enter_Store nat | Leave nat | Acquire nat u64
  | Unlink nat u64 | Push_Read nat u64 | Push_Retry nat | Push nat | Advance

fun advance :: "sys \<Rightarrow> collector_pc \<Rightarrow> sys option" where
  "advance s Idle = Some (s\<lparr>at := Load 3\<rparr>)"
| "advance s (Load c) = Some (s\<lparr>at := Head c (global_epoch (ebr_of s))\<rparr>)"
| "advance s (Head c epoch) = Some (s\<lparr>at := Scan c epoch (tls_list (ebr_of s))\<rparr>)"
| "advance s (Scan c epoch (t # ts)) =
    Some (if observed (ebr_of s) epoch t then s\<lparr>at := Next c epoch t ts\<rparr> else s\<lparr>at := Idle\<rparr>)"
| "advance s (Next c epoch t ts) = Some (s\<lparr>at := Scan c epoch ts\<rparr>)"
| "advance s (Scan c epoch []) =
    (let e = announce epoch (ebr_of s)
     in Some (s\<lparr>collector := (collector s)\<lparr>gc_ebr := e\<rparr>, at := Stage c (ebr_gc_epoch e)\<rparr>))"
| "advance s (Stage c epoch) =
    map_option (\<lambda>g. s\<lparr>collector := g,
        at := after_stage g c epoch\<rparr>)
      (gc_stage (collector s))"
| "advance s (Reclaim c epoch) = Some (s\<lparr>collector := gc_reclaim epoch (collector s), at := Idle\<rparr>)"
| "advance s Dangling = None"

fun do_step :: "choice \<Rightarrow> sys \<Rightarrow> sys option" where
  "do_step (Register t) s =
    (if worker s t = Outside \<and> t \<notin> set (tls_list (ebr_of s))
     then map_option (\<lambda>g. s\<lparr>collector := g\<rparr>) (gc_register True t (collector s)) else None)"
| "do_step (Unregister t) s =
    (if worker s t = Outside \<and> t \<in> set (tls_list (ebr_of s))
     then Some (s\<lparr>collector := gc_unregister t (collector s), at := drop_thread t (at s)\<rparr>) else None)"
| "do_step (Enter_Load t) s =
    (if worker s t = Outside \<and> t \<in> set (tls_list (ebr_of s))
     then Some (s\<lparr>worker := (worker s)(t := Entering (enter_load (ebr_of s)))\<rparr>) else None)"
| "do_step (Enter_Store t) s =
    (case worker s t of
       Entering epoch \<Rightarrow> Some (s\<lparr>collector := (collector s)\<lparr>gc_ebr := enter_store t epoch (ebr_of s)\<rparr>,
         worker := (worker s)(t := Inside)\<rparr>)
     | _ \<Rightarrow> None)"
| "do_step (Leave t) s =
    (if worker s t = Inside
     then map_option (\<lambda>g. s\<lparr>collector := g, worker := (worker s)(t := Outside), held := (held s)(t := {})\<rparr>)
       (gc_crit_exit t (collector s)) else None)"
| "do_step (Acquire t obj) s =
    (if worker s t = Inside \<and> obj \<in> linked s then Some (s\<lparr>held := (held s)(t := insert obj (held s t))\<rparr>) else None)"
| "do_step (Unlink t obj) s =
    (if worker s t = Inside \<and> obj \<in> linked s
     then Some (s\<lparr>linked := linked s - {obj}, unlinked := insert obj (unlinked s)\<rparr>) else None)"
| "do_step (Push_Read t obj) s =
    (if pushing s t = None \<and> obj \<in> unlinked s
     then Some (s\<lparr>unlinked := unlinked s - {obj}, pushing := (pushing s)(t \<mapsto> (obj, limbo_head (collector s)))\<rparr>)
     else None)"
| "do_step (Push_Retry t) s =
    (case pushing s t of
       Some (obj, l) \<Rightarrow> Some (s\<lparr>pushing := (pushing s)(t \<mapsto> (obj, limbo_head (collector s)))\<rparr>)
     | None \<Rightarrow> None)"
| "do_step (Push t) s =
    (case pushing s t of
       Some (obj, l) \<Rightarrow>
         if l = limbo_head (collector s)
         then Some (s\<lparr>pushing := (pushing s)(t := None), collector := gc_limbo obj (collector s)\<rparr>) else None
     | None \<Rightarrow> None)"
| "do_step Advance s = advance s (at s)"

lemma advance_step: "advance s (at s) = Some s' \<Longrightarrow> step s s'"
  by (cases "(s, at s)" rule: advance.cases) (auto simp: Let_def split: if_splits intro: step.intros)

lemma do_step_step: "do_step x s = Some s' \<Longrightarrow> step s s'"
  by (cases x) (auto split: if_splits option.splits worker_pc.splits prod.splits intro: step.intros advance_step)

fun run :: "choice list \<Rightarrow> sys \<Rightarrow> sys option" where
  "run [] s = Some s"
| "run (x # xs) s = Option.bind (do_step x s) (run xs)"

lemma run_reachable: "reachable s \<Longrightarrow> run xs s = Some s' \<Longrightarrow> reachable s'"
proof (induction xs arbitrary: s)
  case (Cons x xs)
  then obtain s1 where "do_step x s = Some s1" "run xs s1 = Some s'" by (auto simp: bind_eq_Some_conv)
  with Cons.IH next_step [OF Cons.prems(1) do_step_step] show ?case by blast
qed simp

section \<open>An uninterrupted collection\<close>

lemma scan_run:
  "\<forall>t \<in> set us. observed (ebr_of s) epoch t \<Longrightarrow>
    step\<^sup>*\<^sup>* (s\<lparr>at := Scan c epoch (us @ vs)\<rparr>) (s\<lparr>at := Scan c epoch vs\<rparr>)"
proof (induction us)
  case (Cons u us)
  let ?next = "s\<lparr>at := Next c epoch u (us @ vs)\<rparr>"
  have "step (s\<lparr>at := Scan c epoch ((u # us) @ vs)\<rparr>) ?next"
    using step.scan [of "s\<lparr>at := Scan c epoch ((u # us) @ vs)\<rparr>" c epoch u "us @ vs"] Cons.prems by simp
  moreover have "step ?next (s\<lparr>at := Scan c epoch (us @ vs)\<rparr>)" using step.follow [of ?next c epoch u "us @ vs"] by simp
  moreover have "step\<^sup>*\<^sup>* (s\<lparr>at := Scan c epoch (us @ vs)\<rparr>) (s\<lparr>at := Scan c epoch vs\<rparr>)" using Cons by simp
  ultimately show ?case by (meson converse_rtranclp_into_rtranclp)
qed simp

lemma load_run:
  assumes "at s = Load c"
  shows "step\<^sup>*\<^sup>* s (s\<lparr>at := Scan c (global_epoch (ebr_of s)) (tls_list (ebr_of s))\<rparr>)"
proof -
  let ?head = "s\<lparr>at := Head c (global_epoch (ebr_of s))\<rparr>"
  have "step s ?head" using assms by (rule step.load)
  moreover have "step ?head (s\<lparr>at := Scan c (global_epoch (ebr_of s)) (tls_list (ebr_of s))\<rparr>)"
    using step.head [of ?head c "global_epoch (ebr_of s)"] by simp
  ultimately show ?thesis by (rule converse_rtranclp_into_rtranclp [OF _ r_into_rtranclp])
qed

text \<open>A failing and a succeeding \<open>ebr_sync\<close>, from the start of the cycle.\<close>

lemma blocked_run:
  assumes "at s = Load c" and "\<exists>t \<in> set (tls_list (ebr_of s)). \<not> observed (ebr_of s) (global_epoch (ebr_of s)) t"
  shows "step\<^sup>*\<^sup>* s (s\<lparr>at := Idle\<rparr>)"
proof -
  let ?e = "ebr_of s" and ?g = "global_epoch (ebr_of s)"
  obtain us t vs where ts: "tls_list ?e = us @ t # vs" "\<forall>u \<in> set us. observed ?e ?g u" "\<not> observed ?e ?g t"
    using split_list_first_prop [OF assms(2)] by auto
  have "step\<^sup>*\<^sup>* s (s\<lparr>at := Scan c ?g (us @ t # vs)\<rparr>)" using load_run [OF assms(1)] ts(1) by simp
  also have "step\<^sup>*\<^sup>* (s\<lparr>at := Scan c ?g (us @ t # vs)\<rparr>) (s\<lparr>at := Scan c ?g (t # vs)\<rparr>)" by (rule scan_run [OF ts(2)])
  also have "step (s\<lparr>at := Scan c ?g (t # vs)\<rparr>) (s\<lparr>at := Idle\<rparr>)"
    using step.scan_fails [of "s\<lparr>at := Scan c ?g (t # vs)\<rparr>" c ?g t vs] ts(3) by simp
  finally show ?thesis .
qed

lemma announce_run:
  assumes "at s = Load c" and "\<forall>t \<in> set (tls_list (ebr_of s)). observed (ebr_of s) (global_epoch (ebr_of s)) t"
    and "e = announce (global_epoch (ebr_of s)) (ebr_of s)" and "gc_stage ((collector s)\<lparr>gc_ebr := e\<rparr>) = Some g"
  shows "step\<^sup>*\<^sup>* s (s\<lparr>collector := g, at := after_stage g c (ebr_gc_epoch e)\<rparr>)"
proof -
  let ?e = "ebr_of s" and ?g = "global_epoch (ebr_of s)"
  let ?stage = "s\<lparr>collector := (collector s)\<lparr>gc_ebr := e\<rparr>, at := Stage c (ebr_gc_epoch e)\<rparr>"
  note load_run [OF assms(1)]
  also have "step\<^sup>*\<^sup>* (s\<lparr>at := Scan c ?g (tls_list ?e)\<rparr>) (s\<lparr>at := Scan c ?g []\<rparr>)"
    using scan_run [OF assms(2), of c "[]"] by simp
  also have "step (s\<lparr>at := Scan c ?g []\<rparr>) ?stage"
    using step.announce [of "s\<lparr>at := Scan c ?g []\<rparr>" c ?g e] assms(3) by simp
  also have "step ?stage (s\<lparr>collector := g, at := after_stage g c (ebr_gc_epoch e)\<rparr>)"
    using step.stage [of ?stage c "ebr_gc_epoch e" g] assms(4) by simp
  finally show ?thesis .
qed

lemma cycle_from_run:
  "gc_cycle_from c (collector s) = Some g \<Longrightarrow> at s = Load c \<Longrightarrow> step\<^sup>*\<^sup>* s (s\<lparr>collector := g, at := Idle\<rparr>)"
proof (induction c arbitrary: s rule: less_induct)
  case (less c)
  let ?e = "ebr_of s"
  let ?a = "announce (global_epoch ?e) ?e"
  show ?case
  proof (cases "\<forall>t \<in> set (tls_list ?e). observed ?e (global_epoch ?e) t")
    case False
    then have "g = collector s" using less.prems(1)
      by (subst (asm) gc_cycle_from.simps) (simp add: ebr_sync_def Let_def sync_loop_all if_not_P)
    with blocked_run [OF less.prems(2)] False show ?thesis by simp
  next
    case True
    then have "ebr_sync ?e = (?a, True, ebr_gc_epoch ?a)" by (simp add: ebr_sync_def sync_loop_all Let_def)
    then obtain g1 where g1: "gc_stage ((collector s)\<lparr>gc_ebr := ?a\<rparr>) = Some g1"
      "Some g = (if epoch_list g1 ! unat (ebr_gc_epoch ?a) = [] \<and> c \<noteq> 0 then gc_cycle_from (c - 1) g1
         else Some (gc_reclaim (ebr_gc_epoch ?a) g1))"
      using less.prems(1) by (subst (asm) gc_cycle_from.simps) (auto split: option.splits)
    let ?next = "s\<lparr>collector := g1, at := after_stage g1 c (ebr_gc_epoch ?a)\<rparr>"
    have to_next: "step\<^sup>*\<^sup>* s ?next" by (rule announce_run [OF less.prems(2) True refl g1(1)])
    have "step\<^sup>*\<^sup>* ?next (?next\<lparr>collector := g, at := Idle\<rparr>)"
    proof (cases "epoch_list g1 ! unat (ebr_gc_epoch ?a) = [] \<and> c \<noteq> 0")
      case True
      then show ?thesis using less.IH [of "c - 1" ?next] g1(2) by (simp add: after_stage_def)
    next
      case False
      moreover from False have "g = gc_reclaim (ebr_gc_epoch ?a) g1" using g1(2) by (auto split: if_splits)
      ultimately show ?thesis using step.collect [of ?next c "ebr_gc_epoch ?a"] by (auto simp: after_stage_def)
    qed
    with to_next show ?thesis by simp
  qed
qed

section \<open>Properties\<close>

text \<open>C35. Safety of reclamation: in every reachable interleaving of registering, entering, leaving, taking
  references, unlinking and collecting threads, no object that a thread holds is among those that the
  collector is about to pass to the reclamation function.\<close>

theorem reclaimed_not_held:
  assumes "reachable s" "at s = Reclaim c epoch" "obj \<in> held s t"
  shows "entry_of (collector s) obj \<notin> set (epoch_list (collector s) ! unat epoch)"
proof -
  have inv: "inv s" using assms(1) by (rule reachable_inv)
  then have "epoch = ebr_gc_epoch (ebr_of s)" using assms(2) by (simp add: inv_def lists_ok_def)
  with held_not_ready [OF inv assms(3)] show ?thesis by (simp add: ready_def)
qed

text \<open>Thread 4 unlinks one object and leaves; two epochs later it holds another one that it has unlinked while
  the first is reclaimed.\<close>

definition sample_start :: sys where
  "sample_start = start \<lparr>limbo = [], epoch_list = [[], [], []],
     gc_ebr = \<lparr>global_epoch = 0, tls_list = [], local_epoch = (\<lambda>_. 0)\<rparr>, entry_off = 8,
     reclaim = gc_default_reclaim 8, freed = []\<rparr>"

definition sample_run :: "choice list" where
  "sample_run =
    [Register 4, Register 5, Enter_Load 4, Enter_Store 4, Acquire 4 200, Unlink 4 200, Push_Read 4 200, Push 4, Leave 4,
     Advance, Advance, Advance, Advance, Advance, Advance, Advance, Advance, Advance,
     Advance, Advance, Advance, Advance, Advance, Advance, Advance, Advance,
     Enter_Load 4, Enter_Store 4, Acquire 4 100, Unlink 4 100, Push_Read 4 100, Push 4,
     Advance, Advance, Advance, Advance, Advance, Advance, Advance, Advance]"

lemma sample_linked: "reachable (sample_start\<lparr>linked := {100, 200}\<rparr>)"
proof -
  have 0: "reachable sample_start" unfolding sample_start_def
    by (rule init [of 8 None]) (simp add: gc_create_def ebr_create_def)
  have l: "live (sample_start\<lparr>linked := X\<rparr>) = X" for X
    by (auto simp: live_def sample_start_def start_def pushed_objs_def limbo_objs_def waiting_objs_def numeral_3_eq_3 less_Suc_eq)
  have "reachable (sample_start\<lparr>linked := {200}\<rparr>)"
    using next_step [OF 0 link [of 200]] l [of "{}"] by (simp add: sample_start_def start_def)
  from next_step [OF this link [of 100]] l [of "{200}"] show ?thesis by simp
qed

lemma sample_run_state:
  "\<exists>s. run sample_run (sample_start\<lparr>linked := {100, 200}\<rparr>) = Some s \<and> at s = Reclaim 1 1 \<and> 100 \<in> held s 4 \<and>
    epoch_list (collector s) = [[108], [208], []] \<and> entry_off (collector s) = 8"
proof -
  have "(case run sample_run (sample_start\<lparr>linked := {100, 200}\<rparr>) of None \<Rightarrow> False
     | Some s \<Rightarrow> (at s = Reclaim 1 1) \<and> 100 \<in> held s 4 \<and> epoch_list (collector s) = [[108], [208], []] \<and>
        entry_off (collector s) = 8)"
    by code_simp
  then show ?thesis by (auto split: option.splits)
qed

theorem reclaimed_not_held_witness:
  "\<exists>s. reachable s \<and> at s = Reclaim 1 1 \<and> 100 \<in> held s 4 \<and>
    entry_of (collector s) 100 \<notin> set (epoch_list (collector s) ! unat (1 :: u32))"
  using sample_run_state run_reachable [OF sample_linked] reclaimed_not_held by blast

text \<open>C36. The assertion that the staging list is empty holds in every reachable state, so no staged object is
  overwritten.\<close>

theorem staging_list_empty:
  assumes "reachable s" "at s = Stage c epoch"
  shows "\<exists>g. gc_stage (collector s) = Some g"
  using reachable_inv [OF assms(1)] assms(2)
  by (simp add: inv_def lists_ok_def gc_stage_def young_def ebr_staging_epoch_def Let_def)

theorem staging_list_empty_witness:
  "\<exists>s g. reachable s \<and> at s = Stage 3 2 \<and> gc_stage (collector s) = Some g"
proof -
  have "\<exists>s. run (take 17 sample_run) (sample_start\<lparr>linked := {100, 200}\<rparr>) = Some s \<and> at s = Stage 3 2"
  proof -
    have "(case run (take 17 sample_run) (sample_start\<lparr>linked := {100, 200}\<rparr>) of None \<Rightarrow> False | Some s \<Rightarrow> at s = Stage 3 2)"
      by code_simp
    then show ?thesis by (auto split: option.splits)
  qed
  with run_reachable [OF sample_linked] staging_list_empty show ?thesis by blast
qed

text \<open>C37. Refinement: \<open>gc_cycle\<close> as one function is a run of the collecting thread's steps that no other thread
  interrupts.\<close>

theorem gc_cycle_is_run:
  assumes "at s = Idle" "gc_cycle (collector s) = Some g"
  shows "step\<^sup>*\<^sup>* s (s\<lparr>collector := g\<rparr>)"
proof -
  have "step s (s\<lparr>at := Load 3\<rparr>)" using assms(1) by (rule begin_cycle)
  moreover have "step\<^sup>*\<^sup>* (s\<lparr>at := Load 3\<rparr>) (s\<lparr>at := Load 3, collector := g, at := Idle\<rparr>)"
    using cycle_from_run [of 3 "s\<lparr>at := Load 3\<rparr>" g] assms(2) by (simp add: gc_cycle_def)
  moreover have "s\<lparr>at := Load 3, collector := g, at := Idle\<rparr> = s\<lparr>collector := g\<rparr>" using assms(1) by (cases s) simp
  ultimately show ?thesis by (metis converse_rtranclp_into_rtranclp)
qed

theorem gc_cycle_is_run_witness:
  "\<exists>g. gc_cycle (collector (start sample_gc)) = Some g \<and> step\<^sup>*\<^sup>* (start sample_gc) ((start sample_gc)\<lparr>collector := g\<rparr>)"
proof -
  obtain g where "gc_cycle sample_gc = Some g" using gc_cycle_ok [OF sample_gc_ok(1), of 3] by (auto simp: gc_cycle_def)
  with gc_cycle_is_run [of "start sample_gc" g] show ?thesis by (auto simp: start_def)
qed

text \<open>A thread that unregisters while \<open>ebr_sync\<close> is at its struct leaves the loop with a pointer to freed
  memory: the list is walked without the lock.\<close>

theorem unregister_during_sync:
  "\<exists>s. reachable s \<and> at s = Dangling"
proof -
  have "(case run [Register 4, Advance, Advance, Advance, Unregister 4] sample_start of None \<Rightarrow> False | Some s \<Rightarrow> at s = Dangling)"
    by code_simp
  then obtain s where "run [Register 4, Advance, Advance, Advance, Unregister 4] sample_start = Some s" "at s = Dangling"
    by (auto split: option.splits)
  moreover have "reachable sample_start" unfolding sample_start_def
    by (rule init [of 8 None]) (simp add: gc_create_def ebr_create_def)
  ultimately show ?thesis using run_reachable by blast
qed

end
