(* ===== verification/Hash_Conc.thy ===== *)
theory Hash_Conc
  imports Hash_Laws
begin

text \<open>
  The table of \<open>src/hash.c\<close> under concurrent calls of \<open>hash_modify\<close>, \<open>hash_search\<close> and
  \<open>hash_insert_nocheck\<close>, interleaved at every atomic access to a slot, in sequentially consistent order.
  A writer claims an empty slot by exchanging \<open>EMPTY_FLAG\<close> for \<open>OCCUPIED_FLAG\<close>, stores the value and then
  the key; a reader loads the key, the value, and the key again. Doubling replaces the whole table and
  is not a concurrent operation of the code. Mode \<open>UPDATE\<close>, the only one that exchanges a key with the
  tree, has no caller: \<open>hash_insert\<close> and \<open>hash_update\<close> of \<open>hash.h\<close> pass \<open>INSERT\<close> and \<open>STRICT_UPDATE\<close>. The
  sketch, which the slots do not depend on in these modes, is left out.
\<close>

section \<open>Calls and program counters\<close>

datatype call = Modify modify_mode u64 u64 | Search search_mode u64 | Nocheck u64 u64

fun call_key :: "call \<Rightarrow> u64" where
  "call_key (Modify mode k v) = k"
| "call_key (Search mode k) = k"
| "call_key (Nocheck k v) = k"

fun call_value :: "call \<Rightarrow> u64" where
  "call_value (Modify mode k v) = v"
| "call_value (Search mode k) = 0"
| "call_value (Nocheck k v) = v"

fun callable :: "call \<Rightarrow> bool" where
  "callable (Modify mode k v) \<longleftrightarrow> mode \<noteq> UPDATE \<and> \<not> IS_SPECIAL_KEY k"
| "callable (Search mode k) \<longleftrightarrow> \<not> IS_SPECIAL_KEY k"
| "callable (Nocheck k v) \<longleftrightarrow> \<not> IS_SPECIAL_KEY k"

text \<open>The access a call makes next: \<open>hash_modify\<close> looks through the bin with its \<open>available\<close>, overwrites
  the value of the key it found, or claims a slot from \<open>j\<close> on, stores value and key and counts;
  \<open>hash_search\<close> probes the bin, then loads the value and checks the key again, or clears the slot.\<close>

datatype pc =
    Look nat "nat option"
  | Overwrite nat
  | Claim nat
  | Store_value nat
  | Store_key nat
  | Add_count
  | Probe nat
  | Load_value nat
  | Recheck nat u64
  | Clear nat
  | Sub_count

datatype result = Status int | Answer "u64 option" | Removed bool

datatype thread = Quiet | Running call nat pc | Returned call result

section \<open>One access\<close>

definition key_at :: "hash_sys \<Rightarrow> nat \<Rightarrow> nat \<Rightarrow> u64" where
  "key_at hs b j = entry_key (entries hs ! b ! j)"

definition val_at :: "hash_sys \<Rightarrow> nat \<Rightarrow> nat \<Rightarrow> u64" where
  "val_at hs b j = entry_value (entries hs ! b ! j)"

definition set_key :: "hash_sys \<Rightarrow> nat \<Rightarrow> nat \<Rightarrow> u64 \<Rightarrow> hash_sys" where
  "set_key hs b j k = set_entry hs b j ((entries hs ! b ! j)\<lparr>entry_key := k\<rparr>)"

definition set_val :: "hash_sys \<Rightarrow> nat \<Rightarrow> nat \<Rightarrow> u64 \<Rightarrow> hash_sys" where
  "set_val hs b j v = set_entry hs b j ((entries hs ! b ! j)\<lparr>entry_value := v\<rparr>)"

text \<open>The end of the first loop of \<open>hash_modify\<close>.\<close>

fun after_scan :: "call \<Rightarrow> nat \<Rightarrow> nat option \<Rightarrow> thread" where
  "after_scan (Modify STRICT_UPDATE k v) b available = Returned (Modify STRICT_UPDATE k v) (Status ELEMENT_NOT_FOUND)"
| "after_scan c b None = Returned c (Status HASH_BIN_FULL)"
| "after_scan c b (Some j) = Running c b (Claim j)"

fun found_key :: "call \<Rightarrow> nat \<Rightarrow> nat \<Rightarrow> thread" where
  "found_key (Modify STRICT_INSERT k v) b j = Returned (Modify STRICT_INSERT k v) (Status ELEMENT_ALREADY_EXISTS)"
| "found_key (Search HASH_QUERY k) b j = Running (Search HASH_QUERY k) b (Load_value j)"
| "found_key (Search HASH_DELETE k) b j = Running (Search HASH_DELETE k) b (Clear j)"
| "found_key c b j = Running c b (Overwrite j)"

fun missed :: "call \<Rightarrow> thread" where
  "missed (Search HASH_DELETE k) = Returned (Search HASH_DELETE k) (Removed False)"
| "missed c = Returned c (Answer None)"

fun thread_step :: "call \<Rightarrow> nat \<Rightarrow> pc \<Rightarrow> hash_sys \<Rightarrow> hash_sys \<times> thread" where
  "thread_step c b (Look j available) hs =
    (let key_h = key_at hs b j
     in if key_h = call_key c then (hs, found_key c b j)
        else let available = (if key_h = EMPTY_FLAG \<and> available = None then Some j else available)
             in (hs, if j + 1 < BIN_CAPACITY then Running c b (Look (j + 1) available) else after_scan c b available))"
| "thread_step c b (Overwrite j) hs = (set_val hs b j (call_value c), Returned c (Status 0))"
| "thread_step c b (Claim j) hs =
    (if key_at hs b j = EMPTY_FLAG then (set_key hs b j OCCUPIED_FLAG, Running c b (Store_value j))
     else (hs, if j + 1 < BIN_CAPACITY then Running c b (Claim (j + 1)) else Returned c (Status HASH_BIN_FULL)))"
| "thread_step c b (Store_value j) hs = (set_val hs b j (call_value c), Running c b (Store_key j))"
| "thread_step c b (Store_key j) hs = (set_key hs b j (call_key c), Running c b Add_count)"
| "thread_step c b Add_count hs = (hs\<lparr>h_count := h_count hs + 1\<rparr>, Returned c (Status 0))"
| "thread_step c b (Probe j) hs =
    (hs, if key_at hs b j = call_key c then found_key c b j
         else if j + 1 < BIN_CAPACITY then Running c b (Probe (j + 1)) else missed c)"
| "thread_step c b (Load_value j) hs = (hs, Running c b (Recheck j (val_at hs b j)))"
| "thread_step c b (Recheck j v) hs =
    (hs, Returned c (Answer (if key_at hs b j = call_key c then Some v else None)))"
| "thread_step c b (Clear j) hs =
    (if key_at hs b j = call_key c then (set_key hs b j EMPTY_FLAG, Running c b Sub_count)
     else (hs, Returned c (Removed False)))"
| "thread_step c b Sub_count hs = (hs\<lparr>h_count := h_count hs - 1\<rparr>, Returned c (Removed True))"

text \<open>The beginning of a call, up to the first access: the bin of the key.\<close>

fun start_call :: "hash_sys \<Rightarrow> call \<Rightarrow> thread" where
  "start_call hs (Modify mode k v) =
    Running (Modify mode k v) (HASH_IDX hs (MurmurHash3_x64_128 (key_bytes k) KEY_LEN (h_seed hs))) (Look 0 None)"
| "start_call hs (Search mode k) =
    Running (Search mode k) (HASH_IDX hs (MurmurHash3_x64_128 (key_bytes k) KEY_LEN (h_seed hs))) (Probe 0)"
| "start_call hs (Nocheck k v) = Running (Nocheck k v) (HASH_COMP_IDX hs k) (Claim 0)"

section \<open>Interleaving\<close>

text \<open>\<open>calls\<close> is an auxiliary variable: every call so far, the last one first.\<close>

record conc =
  shared :: hash_sys
  threads :: "nat \<Rightarrow> thread"
  calls :: "call list"

text \<open>The calls that threads make satisfy \<open>A\<close>.\<close>

inductive hstep :: "(call \<Rightarrow> bool) \<Rightarrow> conc \<Rightarrow> conc \<Rightarrow> bool" for A where
  invoke: "threads s t = Quiet \<Longrightarrow> callable c \<Longrightarrow> A c \<Longrightarrow>
    hstep A s (s\<lparr>threads := (threads s)(t := start_call (shared s) c), calls := c # calls s\<rparr>)"
| access: "threads s t = Running c b p \<Longrightarrow> thread_step c b p (shared s) = (hs, th) \<Longrightarrow>
    hstep A s (s\<lparr>shared := hs, threads := (threads s)(t := th)\<rparr>)"
| leave: "threads s t = Returned c r \<Longrightarrow> hstep A s (s\<lparr>threads := (threads s)(t := Quiet)\<rparr>)"

definition begin_conc :: "hash_sys \<Rightarrow> conc" where
  "begin_conc hs = \<lparr>shared = hs, threads = (\<lambda>_. Quiet), calls = []\<rparr>"

inductive hreach :: "(call \<Rightarrow> bool) \<Rightarrow> hash_sys \<Rightarrow> conc \<Rightarrow> bool" for A hs where
  hinit: "hreach A hs (begin_conc hs)"
| hnext: "hreach A hs s \<Longrightarrow> hstep A s s' \<Longrightarrow> hreach A hs s'"

end
