(* ===== verification/Hash_Conc_Laws.thy ===== *)
theory Hash_Conc_Laws
  imports Hash_Conc
begin

text \<open>
  Invariants of the concurrent table: a slot is marked occupied exactly while one thread has claimed it,
  keys stay in their bin, the counter agrees with the slots.
\<close>

section \<open>Slots\<close>

lemma set_entry_at:
  assumes "b < length (entries hs)" "j < length (entries hs ! b)"
  shows "key_at (set_entry hs b j e) b' j' = (if b' = b \<and> j' = j then entry_key e else key_at hs b' j')"
    "val_at (set_entry hs b j e) b' j' = (if b' = b \<and> j' = j then entry_value e else val_at hs b' j')"
  using assms by (cases "b' = b"; cases "j' = j"; simp add: key_at_def val_at_def set_entry_def)+

lemma set_at:
  assumes "b < length (entries hs)" "j < length (entries hs ! b)"
  shows "key_at (set_key hs b j k) b' j' = (if b' = b \<and> j' = j then k else key_at hs b' j')"
    "val_at (set_key hs b j k) b' j' = val_at hs b' j'"
    "key_at (set_val hs b j v) b' j' = key_at hs b' j'"
    "val_at (set_val hs b j v) b' j' = (if b' = b \<and> j' = j then v else val_at hs b' j')"
  using assms by (simp_all add: set_key_def set_val_def set_entry_at) (auto simp: key_at_def val_at_def)

lemma count_at [simp]: "key_at (hs\<lparr>h_count := n\<rparr>) = key_at hs" "val_at (hs\<lparr>h_count := n\<rparr>) = val_at hs"
  by (simp_all add: key_at_def val_at_def fun_eq_iff)

text \<open>The bins have the sizes of the table the run began with.\<close>

definition same_bins :: "hash_sys \<Rightarrow> hash_sys \<Rightarrow> bool" where
  "same_bins hs0 hs \<longleftrightarrow> h_seed hs = h_seed hs0 \<and> h_size hs = h_size hs0 \<and> length (entries hs) = unat (h_size hs0) \<and>
    (\<forall>b < unat (h_size hs0). length (entries hs ! b) = 8)"

lemma same_binsD:
  assumes "same_bins hs0 hs" "b < unat (h_size hs0)"
  shows "b < length (entries hs)" "length (entries hs ! b) = 8"
  using assms by (simp_all add: same_bins_def)

lemma same_bins_set_entry: "same_bins hs0 hs \<Longrightarrow> same_bins hs0 (set_entry hs b j e)"
  by (cases "b < length (entries hs)") (auto simp: same_bins_def set_entry_def nth_list_update list_update_beyond)

lemma same_bins_step [simp]:
  assumes "same_bins hs0 hs"
  shows "same_bins hs0 (set_key hs b j k)" "same_bins hs0 (set_val hs b j v)" "same_bins hs0 (hs\<lparr>h_count := n\<rparr>)"
  using assms by (simp_all add: same_bins_set_entry set_key_def set_val_def) (simp add: same_bins_def)

lemma same_bins_idx: "same_bins hs0 hs \<Longrightarrow> HASH_COMP_IDX hs k = HASH_COMP_IDX hs0 k"
  by (simp add: same_bins_def HASH_COMP_IDX_def)

lemma start_call_bin:
  "start_call hs c = Running c (HASH_COMP_IDX hs (call_key c))
    (case c of Modify mode k v \<Rightarrow> Look 0 None | Search mode k \<Rightarrow> Probe 0 | Nocheck k v \<Rightarrow> Claim 0)"
  by (cases c) (simp_all add: hash_idx_agree)

section \<open>Where a thread can be\<close>

fun pc_fits :: "call \<Rightarrow> pc \<Rightarrow> bool" where
  "pc_fits (Modify mode k v) (Look j available) \<longleftrightarrow> j < 8 \<and> (\<forall>i. available = Some i \<longrightarrow> i < 8)"
| "pc_fits (Modify mode k v) (Overwrite j) \<longleftrightarrow> j < 8"
| "pc_fits (Search mode k) (Probe j) \<longleftrightarrow> j < 8"
| "pc_fits (Search HASH_QUERY k) (Load_value j) \<longleftrightarrow> j < 8"
| "pc_fits (Search HASH_QUERY k) (Recheck j v) \<longleftrightarrow> j < 8"
| "pc_fits (Search HASH_DELETE k) (Clear j) \<longleftrightarrow> j < 8"
| "pc_fits (Search HASH_DELETE k) Sub_count \<longleftrightarrow> True"
| "pc_fits (Search mode k) p \<longleftrightarrow> False"
| "pc_fits c (Claim j) \<longleftrightarrow> j < 8"
| "pc_fits c (Store_value j) \<longleftrightarrow> j < 8"
| "pc_fits c (Store_key j) \<longleftrightarrow> j < 8"
| "pc_fits c Add_count \<longleftrightarrow> True"
| "pc_fits c p \<longleftrightarrow> False"

fun thread_fits :: "hash_sys \<Rightarrow> thread \<Rightarrow> bool" where
  "thread_fits hs (Running c b p) \<longleftrightarrow> callable c \<and> b = HASH_COMP_IDX hs (call_key c) \<and> pc_fits c p"
| "thread_fits hs th \<longleftrightarrow> True"

text \<open>The slot a thread has claimed.\<close>

fun owns :: "thread \<Rightarrow> nat \<Rightarrow> nat \<Rightarrow> bool" where
  "owns (Running c b (Store_value j)) b' j' \<longleftrightarrow> b' = b \<and> j' = j"
| "owns (Running c b (Store_key j)) b' j' \<longleftrightarrow> b' = b \<and> j' = j"
| "owns th b' j' \<longleftrightarrow> False"

lemma owns_none:
  "owns Quiet = (\<lambda>b j. False)" "owns (Returned c r) = (\<lambda>b j. False)" "owns (start_call hs c) = (\<lambda>b j. False)"
  "owns (found_key c b i) = (\<lambda>b j. False)" "owns (after_scan c b av) = (\<lambda>b j. False)"
  "owns (missed c) = (\<lambda>b j. False)" "owns (Running c b (Look i av)) = (\<lambda>b j. False)"
  "owns (Running c b (Overwrite i)) = (\<lambda>b j. False)" "owns (Running c b (Claim i)) = (\<lambda>b j. False)"
  "owns (Running c b Add_count) = (\<lambda>b j. False)" "owns (Running c b (Probe i)) = (\<lambda>b j. False)"
  "owns (Running c b (Load_value i)) = (\<lambda>b j. False)" "owns (Running c b (Recheck i v)) = (\<lambda>b j. False)"
  "owns (Running c b (Clear i)) = (\<lambda>b j. False)" "owns (Running c b Sub_count) = (\<lambda>b j. False)"
proof -
  have "\<not> owns (start_call hs c) b' j" "\<not> owns (missed c) b' j" for b' j
    by (cases c; simp) (cases c rule: missed.cases; simp)
  moreover have "\<not> owns (found_key c b i) b' j" for b' j by (cases "(c, b, i)" rule: found_key.cases; simp)
  moreover have "\<not> owns (after_scan c b av) b' j" for b' j by (cases "(c, b, av)" rule: after_scan.cases; simp)
  ultimately show "owns (start_call hs c) = (\<lambda>b j. False)" "owns (found_key c b i) = (\<lambda>b j. False)"
    "owns (after_scan c b av) = (\<lambda>b j. False)" "owns (missed c) = (\<lambda>b j. False)"
    by (simp_all add: fun_eq_iff)
qed (simp_all add: fun_eq_iff)

lemma owns_slot:
  "owns (Running c b (Store_value i)) = (\<lambda>b' j. b' = b \<and> j = i)"
  "owns (Running c b (Store_key i)) = (\<lambda>b' j. b' = b \<and> j = i)"
  by (intro ext; simp)+

lemma start_fits: "callable c \<Longrightarrow> HASH_COMP_IDX hs (call_key c) = HASH_COMP_IDX hs0 (call_key c) \<Longrightarrow>
    thread_fits hs0 (start_call hs c)"
  by (cases c) (simp_all add: hash_idx_agree)

lemma found_fits: "callable c \<Longrightarrow> b = HASH_COMP_IDX hs (call_key c) \<Longrightarrow> j < 8 \<Longrightarrow>
    pc_fits c (Look i av) \<or> pc_fits c (Probe i) \<Longrightarrow> thread_fits hs (found_key c b j)"
  by (cases "(c, b, j)" rule: found_key.cases) simp_all

lemma after_scan_fits: "callable c \<Longrightarrow> b = HASH_COMP_IDX hs (call_key c) \<Longrightarrow> pc_fits c (Look i available) \<Longrightarrow>
    (\<And>j. available' = Some j \<Longrightarrow> j < 8) \<Longrightarrow> thread_fits hs (after_scan c b available')"
  by (cases "(c, b, available')" rule: after_scan.cases) simp_all

lemma missed_fits: "thread_fits hs (missed c)"
  by (cases c rule: missed.cases) simp_all

lemma claim_fits: "pc_fits c (Claim i) \<Longrightarrow> j < 8 \<Longrightarrow>
    pc_fits c (Claim j) \<and> pc_fits c (Store_value j) \<and> pc_fits c (Store_key j) \<and> pc_fits c Add_count"
  by (cases c) simp_all

lemma fits_bound:
  "pc_fits c (Claim j) \<Longrightarrow> j < 8" "pc_fits c (Store_value j) \<Longrightarrow> j < 8" "pc_fits c (Store_key j) \<Longrightarrow> j < 8"
  "pc_fits c (Overwrite j) \<Longrightarrow> j < 8" "pc_fits c (Look j av) \<Longrightarrow> j < 8" "pc_fits c (Probe j) \<Longrightarrow> j < 8"
  "pc_fits c (Load_value j) \<Longrightarrow> j < 8" "pc_fits c (Recheck j v) \<Longrightarrow> j < 8" "pc_fits c (Clear j) \<Longrightarrow> j < 8"
proof -
  have "pc_fits c p \<longrightarrow> (case p of Claim j \<Rightarrow> j < 8 | Store_value j \<Rightarrow> j < 8 | Store_key j \<Rightarrow> j < 8 |
      Overwrite j \<Rightarrow> j < 8 | Look j av \<Rightarrow> j < 8 | Probe j \<Rightarrow> j < 8 | Load_value j \<Rightarrow> j < 8 | Recheck j v \<Rightarrow> j < 8 |
      Clear j \<Rightarrow> j < 8 | _ \<Rightarrow> True)" for p
    by (cases "(c, p)" rule: pc_fits.cases) simp_all
  from this [of "Claim j"] this [of "Store_value j"] this [of "Store_key j"] this [of "Overwrite j"] this [of "Look j av"]
    this [of "Probe j"] this [of "Load_value j"] this [of "Recheck j v"] this [of "Clear j"]
  show "pc_fits c (Claim j) \<Longrightarrow> j < 8" "pc_fits c (Store_value j) \<Longrightarrow> j < 8" "pc_fits c (Store_key j) \<Longrightarrow> j < 8"
    "pc_fits c (Overwrite j) \<Longrightarrow> j < 8" "pc_fits c (Look j av) \<Longrightarrow> j < 8" "pc_fits c (Probe j) \<Longrightarrow> j < 8"
    "pc_fits c (Load_value j) \<Longrightarrow> j < 8" "pc_fits c (Recheck j v) \<Longrightarrow> j < 8" "pc_fits c (Clear j) \<Longrightarrow> j < 8"
    by simp_all
qed

section \<open>What one access changes\<close>

text \<open>An access changes no key, or claims an empty slot, or gives its own slot the key, or clears the
  slot of its key.\<close>

lemma access_cases:
  assumes bins: "same_bins hs0 hs" and b: "b < unat (h_size hs0)" and fits: "thread_fits hs0 (Running c b p)"
    and step: "thread_step c b p hs = (hs', th)"
  shows "same_bins hs0 hs' \<and> thread_fits hs0 th \<and>
    (key_at hs' = key_at hs \<and> owns th = owns (Running c b p) \<or>
     (\<exists>j < 8. key_at hs b j = 0 \<and> key_at hs' = (key_at hs)(b := (key_at hs b)(j := 1)) \<and>
       owns th = (\<lambda>b' j'. b' = b \<and> j' = j) \<and> owns (Running c b p) = (\<lambda>b j. False)) \<or>
     (\<exists>j < 8. p = Store_key j \<and> key_at hs' = (key_at hs)(b := (key_at hs b)(j := call_key c)) \<and> owns th = (\<lambda>b j. False)) \<or>
     (\<exists>j < 8. p = Clear j \<and> key_at hs b j = call_key c \<and> key_at hs' = (key_at hs)(b := (key_at hs b)(j := 0)) \<and>
       owns th = (\<lambda>b j. False)))"
proof -
  note at = set_at [OF same_binsD(1) [OF bins b], unfolded same_binsD(2) [OF bins b]]
  have c: "callable c" "b = HASH_COMP_IDX hs0 (call_key c)" "pc_fits c p" using fits by simp_all
  have D: ?thesis if "same_bins hs0 hs' \<and> thread_fits hs0 th \<and> key_at hs' = key_at hs \<and> owns th = owns (Running c b p)"
    using that by blast
  show ?thesis
  proof (cases p)
    case (Look j av)
    then have j: "j < 8" using c(3) fits_bound(5) by blast
    have "thread_fits hs0 (found_key c b j)" "\<And>av'. \<forall>i. av' = Some i \<longrightarrow> i < 8 \<Longrightarrow> thread_fits hs0 (after_scan c b av')"
      using found_fits [of c b hs0 j j av] after_scan_fits [of c b hs0 j av] c j Look by auto
    moreover have "\<exists>mode k v. c = Modify mode k v" using c(3) Look by (cases c) simp_all
    ultimately show ?thesis using step bins c j Look
      by (intro D) (auto simp: Let_def owns_none split: if_splits)
  next
    case (Overwrite j)
    then show ?thesis using step bins c fits_bound(4) [of c j] at(3) [of j] by (intro D) (auto simp: fun_eq_iff)
  next
    case (Claim j)
    then have j: "j < 8" using c(3) fits_bound(1) by blast
    show ?thesis
    proof (cases "key_at hs b j = 0")
      case True
      then have "key_at hs' = (key_at hs)(b := (key_at hs b)(j := 1))" "th = Running c b (Store_value j)" "same_bins hs0 hs'"
        using step Claim at(1) [OF j] bins by (auto simp: fun_eq_iff)
      with True j c claim_fits [of c j j] Claim show ?thesis by (auto simp: owns_none owns_slot)
    next
      case False
      then show ?thesis using step bins c claim_fits [of c j "j + 1"] Claim
        by (intro D) (auto simp: owns_none split: if_splits)
    qed
  next
    case (Store_value j)
    then show ?thesis using step bins c fits_bound(2) [of c j] at(3) [of j]
      by (intro D) (cases c; auto simp: fun_eq_iff)
  next
    case (Store_key j)
    then have j: "j < 8" using c(3) fits_bound(3) by blast
    have "key_at hs' = (key_at hs)(b := (key_at hs b)(j := call_key c))" "th = Running c b Add_count" "same_bins hs0 hs'"
      using step Store_key at(1) [OF j] bins by (auto simp: fun_eq_iff)
    with Store_key j c show ?thesis by (cases c) (auto simp: owns_none)
  next
    case Add_count
    then show ?thesis using step bins c by (intro D) (auto simp: fun_eq_iff)
  next
    case (Probe j)
    then have j: "j < 8" using c(3) fits_bound(6) by blast
    then have "thread_fits hs0 (found_key c b j)" using found_fits [of c b hs0 j] c Probe by auto
    moreover have "\<exists>mode k. c = Search mode k" using c(3) Probe by (cases c) simp_all
    ultimately show ?thesis using step bins c j Probe
      by (intro D) (auto simp: owns_none missed_fits split: if_splits)
  next
    case (Load_value j)
    then show ?thesis using step bins c by (intro D) (cases c; cases "case c of Search mode k \<Rightarrow> mode"; auto simp: fun_eq_iff)
  next
    case (Recheck j v)
    then show ?thesis using step bins c by (intro D) (auto simp: fun_eq_iff)
  next
    case (Clear j)
    then have j: "j < 8" using c(3) fits_bound(9) by blast
    obtain k where k: "c = Search HASH_DELETE k"
      using c(3) Clear by (cases c; cases "case c of Search mode k \<Rightarrow> mode") simp_all
    show ?thesis
    proof (cases "key_at hs b j = call_key c")
      case True
      then have "key_at hs' = (key_at hs)(b := (key_at hs b)(j := 0))" "th = Running c b Sub_count" "same_bins hs0 hs'"
        using step Clear at(1) [OF j] bins by (auto simp: fun_eq_iff)
      with True j c k Clear show ?thesis by (auto simp: owns_none)
    next
      case False
      then show ?thesis using step bins c Clear by (intro D) (auto simp: owns_none)
    qed
  next
    case Sub_count
    then show ?thesis using step bins c by (intro D) (auto simp: fun_eq_iff)
  qed
qed

section \<open>Claims and places\<close>

definition claims_ok :: "hash_sys \<Rightarrow> conc \<Rightarrow> bool" where
  "claims_ok hs0 s \<longleftrightarrow> (\<forall>b < unat (h_size hs0). \<forall>j < 8.
    (key_at (shared s) b j = OCCUPIED_FLAG \<longleftrightarrow> (\<exists>t. owns (threads s t) b j)) \<and>
    (\<forall>t u. owns (threads s t) b j \<longrightarrow> owns (threads s u) b j \<longrightarrow> u = t))"

definition placed_ok :: "hash_sys \<Rightarrow> conc \<Rightarrow> bool" where
  "placed_ok hs0 s \<longleftrightarrow> (\<forall>b < unat (h_size hs0). \<forall>j < 8.
    IS_SPECIAL_KEY (key_at (shared s) b j) \<or> HASH_COMP_IDX hs0 (key_at (shared s) b j) = b)"

definition conc_ok :: "hash_sys \<Rightarrow> conc \<Rightarrow> bool" where
  "conc_ok hs0 s \<longleftrightarrow> same_bins hs0 (shared s) \<and> (\<forall>t. thread_fits hs0 (threads s t)) \<and> claims_ok hs0 s \<and> placed_ok hs0 s"

lemma conc_okD:
  assumes "conc_ok hs0 s"
  shows "same_bins hs0 (shared s)" "thread_fits hs0 (threads s t)" "claims_ok hs0 s" "placed_ok hs0 s"
  using assms by (simp_all add: conc_ok_def)

lemma claimD:
  assumes "conc_ok hs0 s" "b < unat (h_size hs0)" "j < 8"
  shows "key_at (shared s) b j = OCCUPIED_FLAG \<longleftrightarrow> (\<exists>t. owns (threads s t) b j)"
    "owns (threads s t) b j \<Longrightarrow> owns (threads s u) b j \<Longrightarrow> u = t"
  using conc_okD(3) [OF assms(1)] assms(2,3) unfolding claims_ok_def by blast+

lemma running_bound:
  assumes "hash_ok hs0" "conc_ok hs0 s" "threads s t = Running c b p"
  shows "b < unat (h_size hs0)" "b = HASH_COMP_IDX hs0 (call_key c)" "callable c" "pc_fits c p"
    "call_key c \<noteq> 0" "call_key c \<noteq> 1"
proof -
  have f: "thread_fits hs0 (Running c b p)" using conc_okD(2) [OF assms(2), of t] assms(3) by simp
  then show "b = HASH_COMP_IDX hs0 (call_key c)" "callable c" "pc_fits c p" by simp_all
  then show "b < unat (h_size hs0)" using hash_idx_bound [OF assms(1)] by simp
  have "\<not> IS_SPECIAL_KEY (call_key c)" using \<open>callable c\<close> by (cases c) simp_all
  then show "call_key c \<noteq> 0" "call_key c \<noteq> 1" by (simp_all add: IS_SPECIAL_KEY_iff)
qed

lemma begin_ok:
  assumes "hash_ok hs0"
  shows "conc_ok hs0 (begin_conc hs0)"
proof -
  have "same_bins hs0 hs0" using hash_okD(1,3) [OF assms] by (simp add: same_bins_def bin_ok_def)
  moreover have "\<not> IS_SPECIAL_KEY (key_at hs0 b j) \<and> HASH_COMP_IDX hs0 (key_at hs0 b j) = b"
    if "b < unat (h_size hs0)" "j < 8" "key_at hs0 b j \<noteq> 0" for b j
    using hash_okD(4) [OF assms] that by (simp add: key_at_def)
  then have "key_at hs0 b j \<noteq> 1" "IS_SPECIAL_KEY (key_at hs0 b j) \<or> HASH_COMP_IDX hs0 (key_at hs0 b j) = b"
    if "b < unat (h_size hs0)" "j < 8" for b j
    using that unfolding IS_SPECIAL_KEY_iff by (metis one_neq_zero)+
  ultimately show ?thesis
    by (auto simp: conc_ok_def claims_ok_def placed_ok_def begin_conc_def)
qed

text \<open>A step that changes no key and no claim.\<close>

lemma same_claims:
  assumes "conc_ok hs0 s" "same_bins hs0 (shared s')" "\<And>t. thread_fits hs0 (threads s' t)"
    and "key_at (shared s') = key_at (shared s)" "\<And>t. owns (threads s' t) = owns (threads s t)"
  shows "conc_ok hs0 s'"
  using assms(1-3) unfolding conc_ok_def claims_ok_def placed_ok_def assms(4,5) by blast

lemma access_ok:
  assumes h: "hash_ok hs0" and ok: "conc_ok hs0 s" and t: "threads s t = Running c b p"
    and step: "thread_step c b p (shared s) = (hs, th)"
  shows "conc_ok hs0 (s\<lparr>shared := hs, threads := (threads s)(t := th)\<rparr>)" (is "conc_ok hs0 ?s")
proof -
  note R = running_bound [OF h ok t]
  have f: "thread_fits hs0 (Running c b p)" using conc_okD(2) [OF ok, of t] t by simp
  note A = access_cases [OF conc_okD(1) [OF ok] R(1) f step]
  have fits: "thread_fits hs0 (threads ?s u)" for u using A conc_okD(2) [OF ok, of u] by simp
  have others: "owns (threads ?s u) = (if u = t then owns th else owns (threads s u))" for u by simp
  have chg: "conc_ok hs0 ?s"
    if j: "j < 8" and key: "key_at hs = (key_at (shared s))(b := (key_at (shared s) b)(j := k))"
      and k: "k = 1 \<longleftrightarrow> owns th b j" "\<And>b' j'. owns th b' j' \<Longrightarrow> b' = b \<and> j' = j" "IS_SPECIAL_KEY k \<or> HASH_COMP_IDX hs0 k = b"
      and old: "\<And>b' j'. owns (Running c b p) b' j' \<Longrightarrow> b' = b \<and> j' = j"
      and free: "\<And>u. u \<noteq> t \<Longrightarrow> \<not> owns (threads s u) b j" for j k
  proof -
    have "(key_at hs b' j' = 1 \<longleftrightarrow> (\<exists>u. owns (threads ?s u) b' j')) \<and>
        (\<forall>u v. owns (threads ?s u) b' j' \<longrightarrow> owns (threads ?s v) b' j' \<longrightarrow> v = u)"
      if b': "b' < unat (h_size hs0)" "j' < 8" for b' j'
    proof (cases "b' = b \<and> j' = j")
      case True
      then show ?thesis unfolding others using key k(1) free by (auto split: if_splits)
    next
      case False
      then have "key_at hs b' j' = key_at (shared s) b' j'" using key by auto
      moreover have "owns (threads ?s u) b' j' = owns (threads s u) b' j'" for u
        unfolding others using False k(2) old t by auto
      ultimately show ?thesis using claimD [OF ok b'] by metis
    qed
    moreover have "IS_SPECIAL_KEY (key_at hs b' j') \<or> HASH_COMP_IDX hs0 (key_at hs b' j') = b'"
      if "b' < unat (h_size hs0)" "j' < 8" for b' j'
      using conc_okD(4) [OF ok] that k(3) unfolding placed_ok_def key by auto
    ultimately show ?thesis using A fits by (simp add: conc_ok_def claims_ok_def placed_ok_def)
  qed
  from A consider "key_at hs = key_at (shared s)" "owns th = owns (Running c b p)"
    | j where "j < 8" "key_at (shared s) b j = 0" "key_at hs = (key_at (shared s))(b := (key_at (shared s) b)(j := 1))"
      "owns th = (\<lambda>b' j'. b' = b \<and> j' = j)" "owns (Running c b p) = (\<lambda>b j. False)"
    | j where "j < 8" "p = Store_key j" "key_at hs = (key_at (shared s))(b := (key_at (shared s) b)(j := call_key c))"
      "owns th = (\<lambda>b j. False)"
    | j where "j < 8" "p = Clear j" "key_at (shared s) b j = call_key c"
      "key_at hs = (key_at (shared s))(b := (key_at (shared s) b)(j := 0))" "owns th = (\<lambda>b j. False)"
    by blast
  then show ?thesis
  proof cases
    case 1
    show ?thesis by (rule same_claims [OF ok]) (use A 1 t fits in auto)
  next
    case (2 j)
    then have "\<And>u. \<not> owns (threads s u) b j" using claimD(1) [OF ok R(1) 2(1)] by auto
    with 2 show ?thesis by (intro chg [of j 1]) (auto simp: IS_SPECIAL_KEY_iff)
  next
    case (3 j)
    then have "owns (threads s t) b j" using t by (simp add: owns_slot)
    then have "\<And>u. u \<noteq> t \<Longrightarrow> \<not> owns (threads s u) b j" using claimD(2) [OF ok R(1) 3(1)] by blast
    with 3 R show ?thesis by (intro chg [of j "call_key c"]) (auto simp: owns_slot)
  next
    case (4 j)
    then have "\<And>u. \<not> owns (threads s u) b j" using claimD(1) [OF ok R(1) 4(1)] R(6) by auto
    with 4 show ?thesis by (intro chg [of j 0]) (auto simp: IS_SPECIAL_KEY_iff owns_none)
  qed
qed

lemma hstep_ok:
  assumes "hash_ok hs0" "conc_ok hs0 s" "hstep A s s'"
  shows "conc_ok hs0 s'"
  using assms(3)
proof cases
  case (invoke t c)
  have "thread_fits hs0 (start_call (shared s) c)"
    using start_fits [OF invoke(3)] same_bins_idx [OF conc_okD(1) [OF assms(2)]] by blast
  then show ?thesis unfolding invoke(1)
    by (intro same_claims [OF assms(2)]) (use conc_okD(1,2) [OF assms(2)] invoke(2) in \<open>auto simp: owns_none\<close>)
next
  case (access t c b p hs th)
  then show ?thesis using access_ok [OF assms(1,2)] by blast
next
  case (leave t c r)
  show ?thesis unfolding leave(1)
    by (intro same_claims [OF assms(2)]) (use conc_okD(1,2) [OF assms(2)] leave(2) in \<open>auto simp: owns_none\<close>)
qed

lemma hreach_ok: "hreach A hs0 s \<Longrightarrow> hash_ok hs0 \<Longrightarrow> conc_ok hs0 s"
  by (induction rule: hreach.induct) (auto intro: begin_ok hstep_ok)

section \<open>The counter\<close>

fun adding :: "thread \<Rightarrow> bool" where
  "adding (Running c b Add_count) \<longleftrightarrow> True"
| "adding th \<longleftrightarrow> False"

fun subtracting :: "thread \<Rightarrow> bool" where
  "subtracting (Running c b Sub_count) \<longleftrightarrow> True"
| "subtracting th \<longleftrightarrow> False"

definition live_slots :: "hash_sys \<Rightarrow> hash_sys \<Rightarrow> (nat \<times> nat) set" where
  "live_slots hs0 hs = {(b, j). b < unat (h_size hs0) \<and> j < 8 \<and> \<not> IS_SPECIAL_KEY (key_at hs b j)}"

text \<open>The counter lags behind by the calls that have changed a slot and not counted it yet.\<close>

definition count_ok :: "hash_sys \<Rightarrow> conc \<Rightarrow> bool" where
  "count_ok hs0 s \<longleftrightarrow> finite {t. threads s t \<noteq> Quiet} \<and>
    h_count (shared s) + of_nat (card {t. adding (threads s t)}) =
    of_nat (card (live_slots hs0 (shared s))) + of_nat (card {t. subtracting (threads s t)})"

lemma card_point:
  assumes "finite S" "\<And>u. u \<noteq> x \<Longrightarrow> u \<in> S' \<longleftrightarrow> u \<in> S"
  shows "card S' + of_bool (x \<in> S) = card S + of_bool (x \<in> S')"
proof -
  have e: "S' = (if x \<in> S' then insert x (S - {x}) else S - {x})"
  proof (rule set_eqI)
    fix u show "u \<in> S' \<longleftrightarrow> u \<in> (if x \<in> S' then insert x (S - {x}) else S - {x})"
      using assms(2) [of u] by (cases "u = x") auto
  qed
  have "card S' = card (S - {x}) + of_bool (x \<in> S')" 
    using assms(1) by (subst e) (auto simp del: insert_Diff_single)
  moreover have "card S = card (S - {x}) + of_bool (x \<in> S)" using assms(1) card_Suc_Diff1 [of S x] by auto
  ultimately show ?thesis by simp
qed

lemma finite_live: "finite (live_slots hs0 hs)"
proof -
  have "live_slots hs0 hs \<subseteq> {..<unat (h_size hs0)} \<times> {..<8}" by (auto simp: live_slots_def)
  then show ?thesis by (rule finite_subset) simp
qed

lemma not_counting:
  "\<not> adding (start_call hs c)" "\<not> subtracting (start_call hs c)" "\<not> adding (found_key c b i)"
  "\<not> subtracting (found_key c b i)" "\<not> adding (after_scan c b av)" "\<not> subtracting (after_scan c b av)"
  "\<not> adding (missed c)" "\<not> subtracting (missed c)"
proof -
  show "\<not> adding (start_call hs c)" "\<not> subtracting (start_call hs c)" by (cases c; simp)+
  show "\<not> adding (found_key c b i)" "\<not> subtracting (found_key c b i)"
    by (cases "(c, b, i)" rule: found_key.cases; simp)+
  show "\<not> adding (after_scan c b av)" "\<not> subtracting (after_scan c b av)"
    by (cases "(c, b, av)" rule: after_scan.cases; simp)+
  show "\<not> adding (missed c)" "\<not> subtracting (missed c)" by (cases c rule: missed.cases; simp)+
qed

text \<open>How one access counts.\<close>

lemma access_counts:
  assumes "thread_step c b p hs = (hs', th)"
  shows "h_count hs' = h_count hs + of_bool (p = Add_count) - of_bool (p = Sub_count) \<and>
    (adding th \<longleftrightarrow> (\<exists>j. p = Store_key j)) \<and>
    (subtracting th \<longleftrightarrow> (\<exists>j. p = Clear j \<and> key_at hs b j = call_key c)) \<and>
    (adding (Running c b p) \<longleftrightarrow> p = Add_count) \<and> (subtracting (Running c b p) \<longleftrightarrow> p = Sub_count)"
  using assms by (cases p) (auto simp: Let_def not_counting set_key_def set_val_def set_entry_def split: if_splits)

lemma access_key:
  assumes bins: "same_bins hs0 hs" and b: "b < unat (h_size hs0)" and fits: "pc_fits c p"
    and step: "thread_step c b p hs = (hs', th)"
  shows "key_at hs' = (case p of
      Claim j \<Rightarrow> if key_at hs b j = 0 then (key_at hs)(b := (key_at hs b)(j := 1)) else key_at hs
    | Store_key j \<Rightarrow> (key_at hs)(b := (key_at hs b)(j := call_key c))
    | Clear j \<Rightarrow> if key_at hs b j = call_key c then (key_at hs)(b := (key_at hs b)(j := 0)) else key_at hs
    | _ \<Rightarrow> key_at hs)"
proof -
  note at = set_at [OF same_binsD(1) [OF bins b], unfolded same_binsD(2) [OF bins b]]
  show ?thesis
    using fits step at(1,3) fits_bound(1-4,9) [of c]
    by (cases p) (auto simp: fun_eq_iff Let_def split: if_splits)
qed

lemma live_point:
  assumes key: "key_at hs' = (key_at hs)(b := (key_at hs b)(j := k))" and b: "b < unat (h_size hs0)" "j < 8"
  shows "card (live_slots hs0 hs') + of_bool (\<not> IS_SPECIAL_KEY (key_at hs b j)) =
    card (live_slots hs0 hs) + of_bool (\<not> IS_SPECIAL_KEY k)"
  using card_point [OF finite_live [of hs0 hs], of "(b, j)" "live_slots hs0 hs'"] b
  by (auto simp: live_slots_def key split: if_splits)

lemma threads_point:
  assumes "finite {u. threads s u \<noteq> Quiet}" "\<not> P Quiet"
  shows "card {u. P (((threads s)(t := th)) u)} + of_bool (P (threads s t)) = card {u. P (threads s u)} + of_bool (P th)"
proof -
  have "finite {u. P (threads s u)}" by (rule finite_subset [OF _ assms(1)]) (use assms(2) in auto)
  from card_point [OF this, of t "{u. P (((threads s)(t := th)) u)}"] show ?thesis by auto
qed

lemma of_nat_sum: "a + of_bool P = c + of_bool Q \<Longrightarrow>
    (of_nat a :: 'a :: len word) + of_bool P = of_nat c + of_bool Q"
  by (metis of_nat_add of_nat_of_bool)

lemma counts_balance:
  fixes n :: u64
  assumes "n + d = m + a" "x' + a = x + p" "y' + d = y + q" "l' + q = l + p" "m + x = l + y"
  shows "n + x' = l' + y'"
proof -
  have "n = m + a - d" "x' = x + p - a" "y' = y + q - d" "l' = l + p - q" "m = l + y - x"
    using assms by (simp_all add: eq_diff_eq)
  then show ?thesis by simp
qed

lemma access_count_ok:
  assumes h: "hash_ok hs0" and ok: "conc_ok hs0 s" and cnt: "count_ok hs0 s" and t: "threads s t = Running c b p"
    and step: "thread_step c b p (shared s) = (hs, th)"
  shows "count_ok hs0 (s\<lparr>shared := hs, threads := (threads s)(t := th)\<rparr>)" (is "count_ok hs0 ?s")
proof -
  note R = running_bound [OF h ok t]
  note C = access_counts [OF step]
  have fin: "finite {u. threads s u \<noteq> Quiet}" using cnt by (simp add: count_ok_def)
  have fin': "finite {u. threads ?s u \<noteq> Quiet}"
    by (rule finite_subset [of _ "insert t {u. threads s u \<noteq> Quiet}"]) (use fin in auto)
  let ?nadd = "\<lambda>s. of_nat (card {u. adding (threads s u)}) :: u64"
    and ?nsub = "\<lambda>s. of_nat (card {u. subtracting (threads s u)}) :: u64"
    and ?live = "\<lambda>hs. of_nat (card (live_slots hs0 hs)) :: u64"
  have add: "?nadd ?s + of_bool (p = Add_count) = ?nadd s + of_bool (\<exists>j. p = Store_key j)"
    using of_nat_sum [OF threads_point [OF fin, of adding t th]] C t by simp
  have sub: "?nsub ?s + of_bool (p = Sub_count) = ?nsub s + of_bool (\<exists>j. p = Clear j \<and> key_at (shared s) b j = call_key c)"
    using of_nat_sum [OF threads_point [OF fin, of subtracting t th]] C t by simp
  have sp: "\<not> IS_SPECIAL_KEY (call_key c)" using R(5,6) by (simp add: IS_SPECIAL_KEY_iff)
  have live: "?live hs + of_bool (\<exists>j. p = Clear j \<and> key_at (shared s) b j = call_key c) =
      ?live (shared s) + of_bool (\<exists>j. p = Store_key j)"
  proof -
    note K = access_key [OF conc_okD(1) [OF ok] R(1) R(4) step]
    show ?thesis
    proof (cases p)
      case (Claim j)
      then have j: "j < 8" using R(4) fits_bound(1) by blast
      show ?thesis
      proof (cases "key_at (shared s) b j = 0")
        case True
        then have "key_at hs = (key_at (shared s))(b := (key_at (shared s) b)(j := 1))" using K Claim by simp
        from live_point [OF this R(1) j] True Claim show ?thesis by (simp add: IS_SPECIAL_KEY_iff)
      qed (use K Claim in \<open>simp add: live_slots_def\<close>)
    next
      case (Store_key j)
      then have j: "j < 8" using R(4) fits_bound(3) by blast
      have "owns (threads s t) b j" using t Store_key by (simp add: owns_slot)
      then have "key_at (shared s) b j = 1" using claimD(1) [OF ok R(1) j] by blast
      moreover have "key_at hs = (key_at (shared s))(b := (key_at (shared s) b)(j := call_key c))" using K Store_key by simp
      ultimately show ?thesis
        using of_nat_sum [OF live_point [OF _ R(1) j, of hs "shared s" "call_key c"], where 'a = 64] Store_key sp
        by (simp add: IS_SPECIAL_KEY_iff)
    next
      case (Clear j)
      then have j: "j < 8" using R(4) fits_bound(9) by blast
      show ?thesis
      proof (cases "key_at (shared s) b j = call_key c")
        case True
        then have "key_at hs = (key_at (shared s))(b := (key_at (shared s) b)(j := 0))" using K Clear by simp
        from of_nat_sum [OF live_point [OF this R(1) j], where 'a = 64] True Clear sp show ?thesis by (simp add: IS_SPECIAL_KEY_iff)
      qed (use K Clear in \<open>simp add: live_slots_def\<close>)
    qed (use K in \<open>simp_all add: live_slots_def\<close>)
  qed
  have "h_count hs + of_bool (p = Sub_count) = h_count (shared s) + of_bool (p = Add_count)" using C by simp
  moreover have "h_count (shared s) + ?nadd s = ?live (shared s) + ?nsub s" using cnt by (simp add: count_ok_def)
  ultimately have "h_count hs + ?nadd ?s = ?live hs + ?nsub ?s"
    using counts_balance [OF _ add sub live] by blast
  with fin' show ?thesis by (simp add: count_ok_def)
qed

lemma quiet_point:
  assumes "count_ok hs0 s" "\<not> adding (threads s t)" "\<not> subtracting (threads s t)" "\<not> adding th" "\<not> subtracting th"
    and "shared s' = shared s" "threads s' = (threads s)(t := th)"
  shows "count_ok hs0 s'"
proof -
  have "finite {u. threads s' u \<noteq> Quiet}"
    by (rule finite_subset [of _ "insert t {u. threads s u \<noteq> Quiet}"]) (use assms in \<open>auto simp: count_ok_def\<close>)
  moreover have "{u. adding (threads s' u)} = {u. adding (threads s u)}"
    "{u. subtracting (threads s' u)} = {u. subtracting (threads s u)}"
    using assms by auto
  ultimately show ?thesis using assms(1,6) by (simp add: count_ok_def)
qed

lemma hstep_count:
  assumes "hash_ok hs0" "conc_ok hs0 s" "count_ok hs0 s" "hstep A s s'"
  shows "count_ok hs0 s'"
  using assms(4)
proof cases
  case (invoke t c)
  show ?thesis by (rule quiet_point [OF assms(3), of t "start_call (shared s) c"]) (use invoke in \<open>simp_all add: not_counting\<close>)
next
  case (access t c b p hs th)
  then show ?thesis using access_count_ok [OF assms(1-3)] by blast
next
  case (leave t c r)
  show ?thesis by (rule quiet_point [OF assms(3), of t Quiet]) (use leave in simp_all)
qed

lemma live_slots_keys:
  assumes "hash_ok hs"
  shows "bij_betw (\<lambda>(b, j). key_at hs b j) (live_slots hs hs) (dom (hash_map hs))"
  unfolding bij_betw_def
proof
  have slot: "b = HASH_COMP_IDX hs (key_at hs b j)" "\<not> IS_SPECIAL_KEY (key_at hs b j)" "b < unat (h_size hs)" "j < 8"
    "key_at hs b j \<noteq> 0" if "(b, j) \<in> live_slots hs hs" for b j
    using that hash_okD(4) [OF assms, of b j] by (auto simp: live_slots_def key_at_def)
  show "inj_on (\<lambda>(b, j). key_at hs b j) (live_slots hs hs)"
  proof (rule inj_onI, clarify)
    fix b j b' j'
    assume 1: "(b, j) \<in> live_slots hs hs" "(b', j') \<in> live_slots hs hs" "key_at hs b j = key_at hs b' j'"
    then have b: "b' = b" using slot(1) by metis
    have "j' = j"
      by (rule bin_okD [OF hash_okD(3) [OF assms slot(3) [OF 1(1)]] slot(4) [OF 1(1)] slot(4) [OF 1(2)]
            slot(5) [OF 1(1), unfolded key_at_def] 1(3) [symmetric, unfolded key_at_def b]])
    with b show "b = b' \<and> j = j'" by simp
  qed
  show "(\<lambda>(b, j). key_at hs b j) ` live_slots hs hs = dom (hash_map hs)"
  proof (intro set_eqI iffI)
    fix k assume "k \<in> (\<lambda>(b, j). key_at hs b j) ` live_slots hs hs"
    then obtain b j where k: "(b, j) \<in> live_slots hs hs" "k = key_at hs b j" by auto
    have "bin_map (entries hs ! b) k \<noteq> None"
      using bin_map_None [of k "entries hs ! b"] slot(4,5) [OF k(1)] k(2) by (auto simp: key_at_def)
    then show "k \<in> dom (hash_map hs)" using slot(1,2) [OF k(1)] k(2) by (auto simp: hash_map_def)
  next
    fix k assume "k \<in> dom (hash_map hs)"
    then have k: "\<not> IS_SPECIAL_KEY k" "bin_map (entries hs ! HASH_COMP_IDX hs k) k \<noteq> None"
      by (auto simp: hash_map_def split: if_splits)
    then obtain j where "j < 8" "key_at hs (HASH_COMP_IDX hs k) j = k"
      unfolding bin_map_None [OF not_special_nonzero [OF k(1)]] key_at_def by blast
    then have "(HASH_COMP_IDX hs k, j) \<in> live_slots hs hs" "k = key_at hs (HASH_COMP_IDX hs k) j"
      using k hash_idx_bound [OF assms] by (simp_all add: live_slots_def)
    then show "k \<in> (\<lambda>(b, j). key_at hs b j) ` live_slots hs hs" by force
  qed
qed

lemma begin_count:
  assumes "hash_ok hs0"
  shows "count_ok hs0 (begin_conc hs0)"
proof -
  have "h_count hs0 = of_nat (card (live_slots hs0 hs0))"
    using bij_betw_same_card [OF live_slots_keys [OF assms]] hash_okD(2) [OF assms] by simp
  then show ?thesis by (simp add: count_ok_def begin_conc_def)
qed

lemma hreach_count: "hreach A hs0 s \<Longrightarrow> hash_ok hs0 \<Longrightarrow> count_ok hs0 s"
  by (induction rule: hreach.induct) (auto intro: begin_count hstep_count hreach_ok)

end
