(* ===== verification/Hash_Conc_Runs.thy ===== *)
theory Hash_Conc_Runs
  imports Hash_Conc_Laws
begin

text \<open>
  Runs of the concurrent table: what queries answer when nothing is deleted, uninterrupted calls against
  the functions of \<open>Hash\<close>, and interleavings that the protocol does not exclude.
\<close>

section \<open>Values without deletions\<close>

definition no_delete :: "call \<Rightarrow> bool" where
  "no_delete c \<longleftrightarrow> (\<forall>k. c \<noteq> Search HASH_DELETE k)"

text \<open>\<open>v\<close> is the value of \<open>k\<close> in the table the run began with, or some call wrote it for \<open>k\<close>.\<close>

definition written :: "hash_sys \<Rightarrow> call list \<Rightarrow> u64 \<Rightarrow> u64 \<Rightarrow> bool" where
  "written hs0 cs k v \<longleftrightarrow> hash_map hs0 k = Some v \<or> (\<exists>mode. Modify mode k v \<in> set cs) \<or> Nocheck k v \<in> set cs"

lemma written_mono: "written hs0 cs k v \<Longrightarrow> set cs \<subseteq> set cs' \<Longrightarrow> written hs0 cs' k v"
  by (auto simp: written_def)

fun thread_vals :: "hash_sys \<Rightarrow> call list \<Rightarrow> hash_sys \<Rightarrow> thread \<Rightarrow> bool" where
  "thread_vals hs0 cs hs (Running c b p) \<longleftrightarrow> c \<in> set cs \<and> no_delete c \<and>
    (case p of
       Overwrite j \<Rightarrow> key_at hs b j = call_key c
     | Store_key j \<Rightarrow> val_at hs b j = call_value c
     | Load_value j \<Rightarrow> key_at hs b j = call_key c
     | Recheck j v \<Rightarrow> key_at hs b j = call_key c \<and> written hs0 cs (call_key c) v
     | _ \<Rightarrow> True)"
| "thread_vals hs0 cs hs (Returned (Search HASH_QUERY k) (Answer (Some v))) \<longleftrightarrow> written hs0 cs k v"
| "thread_vals hs0 cs hs th \<longleftrightarrow> True"

definition vals_ok :: "hash_sys \<Rightarrow> conc \<Rightarrow> bool" where
  "vals_ok hs0 s \<longleftrightarrow> (\<forall>t. thread_vals hs0 (calls s) (shared s) (threads s t)) \<and>
    (\<forall>b < unat (h_size hs0). \<forall>j < 8. \<not> IS_SPECIAL_KEY (key_at (shared s) b j) \<longrightarrow>
      written hs0 (calls s) (key_at (shared s) b j) (val_at (shared s) b j))"

lemma access_val:
  assumes bins: "same_bins hs0 hs" and b: "b < unat (h_size hs0)" and fits: "pc_fits c p"
    and step: "thread_step c b p hs = (hs', th)"
  shows "val_at hs' = (case p of
      Overwrite j \<Rightarrow> (val_at hs)(b := (val_at hs b)(j := call_value c))
    | Store_value j \<Rightarrow> (val_at hs)(b := (val_at hs b)(j := call_value c))
    | _ \<Rightarrow> val_at hs)"
proof -
  note at = set_at [OF same_binsD(1) [OF bins b], unfolded same_binsD(2) [OF bins b]]
  show ?thesis
    using fits step at(2,4) fits_bound(1-4,9) [of c]
    by (cases p) (auto simp: fun_eq_iff Let_def split: if_splits)
qed

lemma no_clear: "no_delete c \<Longrightarrow> pc_fits c p \<Longrightarrow> p \<noteq> Clear j \<and> p \<noteq> Sub_count"
  by (cases "(c, p)" rule: pc_fits.cases) (simp_all add: no_delete_def)

text \<open>Without deletions a key stays in its slot.\<close>

lemma access_keeps_key:
  assumes h: "hash_ok hs0" and ok: "conc_ok hs0 s" and t: "threads s t = Running c b p" "no_delete c"
    and step: "thread_step c b p (shared s) = (hs, th)"
    and slot: "\<not> IS_SPECIAL_KEY (key_at (shared s) b' j')"
  shows "key_at hs b' j' = key_at (shared s) b' j'"
proof -
  note R = running_bound [OF h ok t(1)]
  have "key_at (shared s) b j = 1" if "p = Store_key j" for j
  proof -
    have "j < 8" using R(4) that fits_bound(3) by blast
    moreover have "owns (threads s t) b j" using t that by (simp add: owns_slot)
    ultimately show ?thesis using claimD(1) [OF ok R(1)] by blast
  qed
  then show ?thesis
    using access_key [OF conc_okD(1) [OF ok] R(1) R(4) step] no_clear [OF t(2) R(4)] slot
    by (cases p) (auto simp: IS_SPECIAL_KEY_iff split: if_splits)
qed

lemma call_written:
  assumes "c \<in> set cs" "pc_fits c p" "p = Overwrite j \<or> p = Store_value j \<or> p = Store_key j"
  shows "written hs0 cs (call_key c) (call_value c)"
  using assms by (cases "(c, p)" rule: pc_fits.cases) (auto simp: written_def)

lemma found_vals:
  assumes "c \<in> set cs" "no_delete c" "key_at hs b j = call_key c"
  shows "thread_vals hs0 cs hs (found_key c b j)"
  using assms by (cases "(c, b, j)" rule: found_key.cases) (simp_all add: no_delete_def)

lemma after_scan_vals: "c \<in> set cs \<Longrightarrow> no_delete c \<Longrightarrow> pc_fits c (Look i av') \<Longrightarrow> thread_vals hs0 cs hs (after_scan c b av)"
  by (cases "(c, b, av)" rule: after_scan.cases) simp_all

lemma missed_vals: "thread_vals hs0 cs hs (missed c)"
  by (cases c rule: missed.cases) simp_all

lemma status_vals: "thread_vals hs0 cs hs (Returned c (Status n))" "thread_vals hs0 cs hs (Returned c (Removed x))"
    "thread_vals hs0 cs hs (Returned c (Answer None))" "thread_vals hs0 cs hs Quiet"
proof -
  have "thread_vals hs0 cs hs (Returned c r)" if "\<And>v. r \<noteq> Answer (Some v)" for r
    using that by (cases "(hs0, cs, hs, Returned c r)" rule: thread_vals.cases) simp_all
  then show "thread_vals hs0 cs hs (Returned c (Status n))" "thread_vals hs0 cs hs (Returned c (Removed x))"
    "thread_vals hs0 cs hs (Returned c (Answer None))" by simp_all
qed simp

lemma start_vals: "c \<in> set cs \<Longrightarrow> no_delete c \<Longrightarrow> thread_vals hs0 cs hs (start_call hs' c)"
  by (cases c) simp_all

lemma thread_vals_mono:
  assumes "thread_vals hs0 cs hs th" "set cs \<subseteq> set cs'"
    and "\<And>c b p j. th = Running c b p \<Longrightarrow> key_at hs b j = call_key c \<Longrightarrow> key_at hs' b j = call_key c"
    and "\<And>c b j. th = Running c b (Store_key j) \<Longrightarrow> val_at hs' b j = val_at hs b j"
  shows "thread_vals hs0 cs' hs' th"
  using assms by (cases "(hs0, cs, hs, th)" rule: thread_vals.cases) (auto intro: written_mono split: pc.splits)

text \<open>The thread that makes the access.\<close>

lemma access_own_vals:
  assumes h: "hash_ok hs0" and ok: "conc_ok hs0 s" and v: "vals_ok hs0 s" and t: "threads s t = Running c b p"
    and step: "thread_step c b p (shared s) = (hs, th)"
  shows "thread_vals hs0 (calls s) hs th"
proof -
  note R = running_bound [OF h ok t]
  have tv: "thread_vals hs0 (calls s) (shared s) (Running c b p)" using v t by (metis vals_ok_def)
  then have c: "c \<in> set (calls s)" "no_delete c" by simp_all
  have slot: "written hs0 (calls s) (call_key c) (val_at (shared s) b j)" if "j < 8" "key_at (shared s) b j = call_key c" for j
    using v R(1,5,6) that unfolding vals_ok_def by (metis IS_SPECIAL_KEY_iff)
  show ?thesis
  proof (cases p)
    case (Look j av)
    then show ?thesis using step R(4) found_vals [OF c, of hs b j hs0] after_scan_vals [OF c, of j av hs0 hs b] c
      by (auto simp: Let_def split: if_splits)
  next
    case (Probe j)
    then show ?thesis using step found_vals [OF c, of hs b j hs0] missed_vals [of hs0 "calls s" hs c] c
      by (auto split: if_splits)
  next
    case (Load_value j)
    then show ?thesis using step tv slot [of j] R(4) fits_bound(7) [of c j] by auto
  next
    case (Recheck j v)
    moreover have "\<exists>k. c = Search HASH_QUERY k" using R(4) Recheck by (cases "(c, p)" rule: pc_fits.cases) simp_all
    ultimately show ?thesis using step tv by (auto simp: status_vals)
  next
    case (Store_value j)
    then show ?thesis using step c access_val [OF conc_okD(1) [OF ok] R(1) R(4) step] by auto
  next
    case (Clear j)
    then show ?thesis using no_clear [OF c(2) R(4)] by simp
  next
    case Sub_count
    then show ?thesis using no_clear [OF c(2) R(4)] by simp
  qed (use step c in \<open>auto simp: status_vals split: if_splits\<close>)
qed

lemma access_vals_ok:
  assumes h: "hash_ok hs0" and ok: "conc_ok hs0 s" and v: "vals_ok hs0 s" and t: "threads s t = Running c b p"
    and step: "thread_step c b p (shared s) = (hs, th)"
  shows "vals_ok hs0 (s\<lparr>shared := hs, threads := (threads s)(t := th)\<rparr>)" (is "vals_ok hs0 ?s")
proof -
  note R = running_bound [OF h ok t]
  note K = access_key [OF conc_okD(1) [OF ok] R(1) R(4) step] and V = access_val [OF conc_okD(1) [OF ok] R(1) R(4) step]
  have tv: "thread_vals hs0 (calls s) (shared s) (Running c b p)" using v t by (metis vals_ok_def)
  then have c: "c \<in> set (calls s)" "no_delete c" by simp_all
  have keep: "key_at hs b' j' = key_at (shared s) b' j'" if "\<not> IS_SPECIAL_KEY (key_at (shared s) b' j')" for b' j'
    by (rule access_keeps_key [OF h ok t c(2) step that])
  text \<open>Another thread's claimed slot keeps its value.\<close>
  have own: "val_at hs b' j' = val_at (shared s) b' j'" if u: "u \<noteq> t" "threads s u = Running c' b' (Store_key j')" for u c' b' j'
  proof -
    have o: "owns (threads s u) b' j'" using u by (simp add: owns_slot)
    have b': "b' < unat (h_size hs0)" "j' < 8" using running_bound [OF h ok u(2)] fits_bound(3) by blast+
    have "key_at (shared s) b' j' = 1" using o claimD(1) [OF ok b'] by blast
    moreover have "\<not> owns (Running c b p) b' j'" using claimD(2) [OF ok b' o, of t] t u(1) by metis
    ultimately show ?thesis using V tv R(6) by (cases p) (auto simp: owns_slot)
  qed
  have "thread_vals hs0 (calls s) hs (threads ?s u)" for u
  proof (cases "u = t")
    case True
    then show ?thesis using access_own_vals [OF h ok v t step] by simp
  next
    case False
    have "thread_vals hs0 (calls s) (shared s) (threads s u)" using v by (simp add: vals_ok_def)
    then have "thread_vals hs0 (calls s) hs (threads s u)"
    proof (rule thread_vals_mono)
      fix c' b' p' j' assume u: "threads s u = Running c' b' p'" "key_at (shared s) b' j' = call_key c'"
      have "\<not> IS_SPECIAL_KEY (key_at (shared s) b' j')"
        unfolding u(2) IS_SPECIAL_KEY_iff using running_bound(5,6) [OF h ok u(1)] by blast
      from keep [OF this] u(2) show "key_at hs b' j' = call_key c'" by metis
    qed (use own False in blast)+
    with False show ?thesis by simp
  qed
  moreover have "written hs0 (calls s) (key_at hs b' j') (val_at hs b' j')"
    if slot: "b' < unat (h_size hs0)" "j' < 8" "\<not> IS_SPECIAL_KEY (key_at hs b' j')" for b' j'
  proof (cases "IS_SPECIAL_KEY (key_at (shared s) b' j')")
    case True
    have "key_at hs b' j' = key_at (shared s) b' j' \<or> key_at hs b' j' = 1 \<or>
        b' = b \<and> p = Store_key j' \<and> key_at hs b' j' = call_key c"
      unfolding K using no_clear [OF c(2) R(4)] by (auto split: pc.split)
    moreover have "key_at hs b' j' \<noteq> key_at (shared s) b' j'" "key_at hs b' j' \<noteq> 1"
      using True slot(3) by (metis, metis IS_SPECIAL_KEY_iff)
    ultimately have "b' = b \<and> p = Store_key j' \<and> key_at hs b' j' = call_key c" by blast
    then show ?thesis using V tv call_written [OF c(1) R(4)] by auto
  next
    case False
    then have k: "key_at hs b' j' = key_at (shared s) b' j'" by (rule keep)
    have w: "written hs0 (calls s) (key_at (shared s) b' j') (val_at (shared s) b' j')"
      using v slot(1,2) False by (simp add: vals_ok_def)
    have st: "key_at (shared s) b j = 1" if "p = Store_value j" for j
    proof -
      have "owns (threads s t) b j" "j < 8" using t that R(4) fits_bound(2) by (auto simp: owns_slot)
      then show ?thesis using claimD(1) [OF ok R(1)] by blast
    qed
    show ?thesis
    proof (cases "p = Overwrite j' \<and> b' = b")
      case True
      then show ?thesis using k V tv call_written [OF c(1) R(4), of j'] by auto
    next
      case False
      then have "val_at hs b' j' = val_at (shared s) b' j'"
        using V st \<open>\<not> IS_SPECIAL_KEY (key_at (shared s) b' j')\<close> by (cases p) (auto simp: IS_SPECIAL_KEY_iff)
      with w k show ?thesis by simp
    qed
  qed
  ultimately show ?thesis by (simp add: vals_ok_def)
qed

lemma hstep_vals:
  assumes "hash_ok hs0" "conc_ok hs0 s" "vals_ok hs0 s" "hstep no_delete s s'"
  shows "vals_ok hs0 s'"
  using assms(4)
proof cases
  case (invoke t c)
  have "thread_vals hs0 (c # calls s) (shared s) (threads s' u)" for u
  proof (cases "u = t")
    case True
    then show ?thesis using invoke start_vals [of c "c # calls s"] by simp
  next
    case False
    have "thread_vals hs0 (calls s) (shared s) (threads s u)" using assms(3) by (simp add: vals_ok_def)
    then have "thread_vals hs0 (c # calls s) (shared s) (threads s u)" by (rule thread_vals_mono) auto
    with False invoke show ?thesis by simp
  qed
  moreover have "written hs0 cs k v \<Longrightarrow> written hs0 (c # cs) k v" for cs k v by (erule written_mono) auto
  ultimately show ?thesis using assms(3) invoke by (simp add: vals_ok_def)
next
  case (access t c b p hs th)
  then show ?thesis using access_vals_ok [OF assms(1-3)] by blast
next
  case (leave t c r)
  then show ?thesis using assms(3) by (auto simp: vals_ok_def status_vals)
qed

lemma begin_vals:
  assumes "hash_ok hs0"
  shows "vals_ok hs0 (begin_conc hs0)"
proof -
  have "hash_map hs0 (key_at hs0 b j) = Some (val_at hs0 b j)"
    if slot: "b < unat (h_size hs0)" "j < 8" "\<not> IS_SPECIAL_KEY (key_at hs0 b j)" for b j
  proof -
    have "HASH_COMP_IDX hs0 (key_at hs0 b j) = b"
      using hash_okD(4) [OF assms slot(1,2)] slot(3) by (simp add: key_at_def)
    then show ?thesis
      using bin_map_Some [OF hash_okD(3) [OF assms slot(1)], of "key_at hs0 b j"] slot(2,3)
      by (auto simp: hash_map_def key_at_def val_at_def)
  qed
  then show ?thesis by (simp add: vals_ok_def begin_conc_def written_def)
qed

lemma hreach_vals: "hreach no_delete hs0 s \<Longrightarrow> hash_ok hs0 \<Longrightarrow> vals_ok hs0 s"
  by (induction rule: hreach.induct) (auto intro: begin_vals hstep_vals hreach_ok)

section \<open>A query for a key that is there\<close>

text \<open>Where a thread that queries the key of slot \<open>j\<close> can be.\<close>

fun on_course :: "u64 \<Rightarrow> nat \<Rightarrow> thread \<Rightarrow> bool" where
  "on_course k j (Running (Search HASH_QUERY k') b (Probe i)) \<longleftrightarrow> k' = k \<longrightarrow> i \<le> j"
| "on_course k j (Returned (Search HASH_QUERY k') (Answer None)) \<longleftrightarrow> k' \<noteq> k"
| "on_course k j th \<longleftrightarrow> True"

lemma start_on_course: "on_course k j (start_call hs c)"
  by (cases c; cases "case c of Search mode k \<Rightarrow> mode") simp_all

lemma found_on_course: "on_course k j (found_key c b i)"
  by (cases "(c, b, i)" rule: found_key.cases) simp_all

lemma after_scan_on_course: "on_course k j (after_scan (Modify mode k' v) b av)"
  by (cases "(Modify mode k' v, b, av)" rule: after_scan.cases) simp_all

lemma status_on_course: "on_course k j (Returned c (Status n))" "on_course k j (Returned c (Removed x))"
    "on_course k j (Returned c (Answer (Some v)))" "(\<And>i. p \<noteq> Probe i) \<Longrightarrow> on_course k j (Running c b p)"
proof -
  have "on_course k j (Returned c r)" if "r \<noteq> Answer None" for r
    using that by (cases "(k, j, Returned c r)" rule: on_course.cases) simp_all
  then show "on_course k j (Returned c (Status n))" "on_course k j (Returned c (Removed x))"
    "on_course k j (Returned c (Answer (Some v)))" by simp_all
  show "on_course k j (Running c b p)" if "\<And>i. p \<noteq> Probe i"
    using that by (cases "(k, j, Running c b p)" rule: on_course.cases) simp_all
qed

lemma access_on_course:
  assumes h: "hash_ok hs0" and ok: "conc_ok hs0 s" and v: "vals_ok hs0 s" and t: "threads s t = Running c b p"
    and step: "thread_step c b p (shared s) = (hs, th)"
    and j: "j < 8" "key_at (shared s) (HASH_COMP_IDX hs0 k) j = k" and on: "on_course k j (Running c b p)"
  shows "on_course k j th"
proof -
  note R = running_bound [OF h ok t]
  have tv: "thread_vals hs0 (calls s) (shared s) (Running c b p)" using v t by (metis vals_ok_def)
  show ?thesis
  proof (cases p)
    case (Probe i)
    then obtain mode k' where c: "c = Search mode k'" using R(4) by (cases c) simp_all
    show ?thesis
    proof (cases "mode = HASH_QUERY \<and> k' = k")
      case True
      then have i: "i \<le> j" "b = HASH_COMP_IDX hs0 k" using on c Probe R(2) by simp_all
      have "i \<noteq> j" if "key_at (shared s) b i \<noteq> k" using that j(2) i(2) by auto
      then show ?thesis using step Probe c True i(1) j(1) by (auto simp: found_on_course split: if_splits)
    next
      case False
      then show ?thesis using step Probe c by (cases mode) (auto simp: status_on_course found_on_course split: if_splits)
    qed
  next
    case (Look i av)
    then obtain mode k' v' where "c = Modify mode k' v'" using R(4) by (cases c) simp_all
    then show ?thesis using step Look
      by (auto simp: Let_def found_on_course after_scan_on_course status_on_course split: if_splits)
  next
    case (Recheck i v)
    then show ?thesis using step tv by (auto simp: status_on_course)
  qed (use step in \<open>auto simp: status_on_course split: if_splits\<close>)
qed

lemma hstep_on_course:
  assumes "hash_ok hs0" "conc_ok hs0 s" "vals_ok hs0 s" "hstep no_delete s s'"
    and "j < 8" "\<not> IS_SPECIAL_KEY k" "key_at (shared s) (HASH_COMP_IDX hs0 k) j = k" "on_course k j (threads s t)"
  shows "key_at (shared s') (HASH_COMP_IDX hs0 k) j = k \<and> on_course k j (threads s' t)"
  using assms(4)
proof cases
  case (invoke u c)
  then show ?thesis using assms(7,8) by (simp add: start_on_course)
next
  case (access u c b p hs th)
  have "no_delete c" using assms(3) access(2) unfolding vals_ok_def by (metis thread_vals.simps(1))
  then have "key_at hs (HASH_COMP_IDX hs0 k) j = k"
    using access_keeps_key [OF assms(1,2) access(2) _ access(3)] assms(6,7) by metis
  moreover have "on_course k j th" if "u = t"
    using access_on_course [OF assms(1-3) access(2,3) assms(5,7)] assms(8) access(2) that by simp
  ultimately show ?thesis using access assms(8) by simp
next
  case (leave u c r)
  then show ?thesis using assms(7,8) by simp
qed

lemma steps_on_course:
  assumes "(hstep no_delete)\<^sup>*\<^sup>* s s'" "hash_ok hs0" "hreach no_delete hs0 s"
    and "j < 8" "\<not> IS_SPECIAL_KEY k" "key_at (shared s) (HASH_COMP_IDX hs0 k) j = k" "on_course k j (threads s t)"
  shows "hreach no_delete hs0 s' \<and> key_at (shared s') (HASH_COMP_IDX hs0 k) j = k \<and> on_course k j (threads s' t)"
  using assms(1)
proof induction
  case base
  show ?case using assms by simp
next
  case (step x y)
  then have "hreach no_delete hs0 y" by (blast intro: hreach.hnext)
  moreover have "key_at (shared y) (HASH_COMP_IDX hs0 k) j = k \<and> on_course k j (threads y t)"
    using hstep_on_course [OF assms(2) hreach_ok [OF _ assms(2)] hreach_vals [OF _ assms(2)] step(2) assms(4,5)] step by blast
  ultimately show ?case by simp
qed

section \<open>Uninterrupted calls\<close>

definition tick :: "hash_sys \<times> thread \<Rightarrow> hash_sys \<times> thread" where
  "tick x = (case snd x of Running c b p \<Rightarrow> thread_step c b p (fst x) | th \<Rightarrow> (fst x, th))"

abbreviation ticks :: "hash_sys \<times> thread \<Rightarrow> hash_sys \<times> thread \<Rightarrow> bool" where
  "ticks \<equiv> (\<lambda>x y. y = tick x)\<^sup>*\<^sup>*"

lemma tick_running [simp]: "tick (hs, Running c b p) = thread_step c b p hs"
  by (simp add: tick_def)

lemma ticks_then: "ticks x y \<Longrightarrow> tick y = z \<Longrightarrow> ticks x z"
  by (metis (mono_tags, lifting) rtranclp.rtrancl_into_rtrancl)

text \<open>The calls of a thread are steps of the system.\<close>

lemma ticks_hstep:
  assumes "ticks (shared s, threads s t) (hs, th)"
  shows "(hstep A)\<^sup>*\<^sup>* s (s\<lparr>shared := hs, threads := (threads s)(t := th)\<rparr>)"
  using assms
proof (induction "(hs, th)" arbitrary: hs th rule: rtranclp_induct)
  case base
  then show ?case by simp
next
  case (step x)
  obtain hs' th' where x: "x = (hs', th')" by (cases x)
  let ?s = "s\<lparr>shared := hs', threads := (threads s)(t := th')\<rparr>"
  have 1: "(hstep A)\<^sup>*\<^sup>* s ?s" using step(3) [OF x] .
  show ?case
  proof (cases th')
    case (Running c b p)
    then have "thread_step c b p (shared ?s) = (hs, th)" "threads ?s t = Running c b p"
      using step(2) x by simp_all
    from hstep.access [OF this(2,1), of A] have "hstep A ?s (s\<lparr>shared := hs, threads := (threads s)(t := th)\<rparr>)" by simp
    with 1 show ?thesis by simp
  qed (use 1 step(2) x in \<open>simp_all add: tick_def\<close>)
qed

lemma look_run:
  assumes "i < 8" "\<And>i'. i' < i \<Longrightarrow> key_at hs b i' \<noteq> call_key c"
  shows "ticks (hs, Running c b (Look 0 None)) (hs, Running c b (Look i (first_idx i (\<lambda>j. key_at hs b j = 0))))"
  using assms
proof (induction i)
  case 0
  then show ?case by (simp add: first_idx_def)
next
  case (Suc i)
  then have "ticks (hs, Running c b (Look 0 None)) (hs, Running c b (Look i (first_idx i (\<lambda>j. key_at hs b j = 0))))" by simp
  then show ?case
    by (rule ticks_then) (use Suc.prems in \<open>simp add: Let_def first_idx_Suc split: option.split\<close>)
qed

lemma probe_run:
  assumes "i < 8" "\<And>i'. i' < i \<Longrightarrow> key_at hs b i' \<noteq> call_key c"
  shows "ticks (hs, Running c b (Probe 0)) (hs, Running c b (Probe i))"
  using assms
proof (induction i)
  case (Suc i)
  then have "ticks (hs, Running c b (Probe 0)) (hs, Running c b (Probe i))" by simp
  then show ?case by (rule ticks_then) (use Suc.prems in simp)
qed simp

lemma claim_run:
  assumes "i < 8" "\<And>i'. i' < i \<Longrightarrow> key_at hs b i' \<noteq> 0"
  shows "ticks (hs, Running c b (Claim 0)) (hs, Running c b (Claim i))"
  using assms
proof (induction i)
  case (Suc i)
  then have "ticks (hs, Running c b (Claim 0)) (hs, Running c b (Claim i))" by simp
  then show ?case by (rule ticks_then) (use Suc.prems in simp)
qed simp

text \<open>From the claim of an empty slot to the end.\<close>

lemma put_run:
  assumes "ticks x (hs, Running c b (Claim j))" "b < length (entries hs)" "j < length (entries hs ! b)" "key_at hs b j = 0"
  shows "ticks x ((set_entry hs b j \<lparr>entry_key = call_key c, entry_value = call_value c\<rparr>)\<lparr>h_count := h_count hs + 1\<rparr>,
    Returned c (Status 0))"
proof -
  let ?hs1 = "set_key hs b j 1" and ?hs2 = "set_val (set_key hs b j 1) b j (call_value c)"
  let ?hs3 = "set_key ?hs2 b j (call_key c)"
  have "ticks x (?hs1, Running c b (Store_value j))" by (rule ticks_then [OF assms(1)]) (simp add: assms(4))
  then have "ticks x (?hs2, Running c b (Store_key j))" by (rule ticks_then) simp
  then have "ticks x (?hs3, Running c b Add_count)" by (rule ticks_then) simp
  then have "ticks x (?hs3\<lparr>h_count := h_count ?hs3 + 1\<rparr>, Returned c (Status 0))" by (rule ticks_then) simp
  moreover have "?hs3 = set_entry hs b j \<lparr>entry_key = call_key c, entry_value = call_value c\<rparr>"
    using assms(2,3) by (cases "entries hs ! b ! j") (simp add: set_key_def set_val_def set_entry_def)
  ultimately show ?thesis by (simp add: set_entry_def)
qed

text \<open>The three functions, run without interruption.\<close>

lemma key_slot:
  assumes "hash_ok hs" "\<not> IS_SPECIAL_KEY k" "j < 8" "key_at hs (HASH_COMP_IDX hs k) j = k"
  shows "i < j \<Longrightarrow> key_at hs (HASH_COMP_IDX hs k) i \<noteq> k"
  using bin_okD [OF bin_of_key [OF assms(1), of k] assms(3), of i] assms(2-4) not_special_nonzero [OF assms(2)]
  by (auto simp: key_at_def)

lemma slot_bounds:
  assumes "hash_ok hs" "j < 8"
  shows "HASH_COMP_IDX hs k < length (entries hs)" "j < length (entries hs ! HASH_COMP_IDX hs k)"
  using hash_idx_bound [OF assms(1)] hash_okD(1) [OF assms(1)] bin_of_key [OF assms(1), of k] assms(2)
  by (simp_all add: bin_ok_def)

lemma modify_run:
  assumes ok: "hash_ok (hash ind)" and c: "callable (Modify mode k v)" and eq: "hash_modify ind k v mode = (ind', freq, st)"
  shows "ticks (hash ind, start_call (hash ind) (Modify mode k v)) (hash ind', Returned (Modify mode k v) (Status st))"
proof -
  let ?hs = "hash ind" and ?c = "Modify mode k v"
  let ?b = "HASH_COMP_IDX ?hs k"
  let ?bin = "entries ?hs ! ?b"
  let ?h = "MurmurHash3_x64_128 (key_bytes k) 8 (h_seed ?hs)"
  have k: "\<not> IS_SPECIAL_KEY k" and mode: "mode \<noteq> UPDATE" using c by simp_all
  have len: "take 8 ?bin = ?bin" "length ?bin = 8" using bin_of_key [OF ok, of k] by (simp_all add: bin_ok_def)
  have start: "start_call ?hs ?c = Running ?c ?b (Look 0 None)" by (simp add: start_call_bin)
  obtain cm' mc where cm: "(if inserting mode then (cm ind, 0) else countmin_inc_explicit (cm ind) k (Some ?h)) = (cm', mc)"
    by (cases "if inserting mode then (cm ind, 0) else countmin_inc_explicit (cm ind) k (Some ?h)") simp
  note M = eq [unfolded hash_modify_def Let_def hash_idx_agree cm prod.case]
  show ?thesis
  proof (cases "scan_bin cm' k 0 ?bin mc None None")
    case (Found j)
    have j: "j < 8" "key_at ?hs ?b j = k" using scan_bin_found [OF Found] len by (simp_all add: key_at_def)
    have "ticks (?hs, start_call ?hs ?c) (?hs, Running ?c ?b (Look j (first_idx j (\<lambda>j. key_at ?hs ?b j = 0))))"
      unfolding start by (rule look_run) (use j key_slot [OF ok k j] in auto)
    then have F: "ticks (?hs, start_call ?hs ?c) (?hs, found_key ?c ?b j)"
      by (rule ticks_then) (simp add: j Let_def)
    show ?thesis
    proof (cases "mode = STRICT_INSERT")
      case True
      then show ?thesis using F M Found len by auto
    next
      case False
      then have "found_key ?c ?b j = Running ?c ?b (Overwrite j)" by (cases mode) simp_all
      then have "ticks (?hs, start_call ?hs ?c) (set_val ?hs ?b j v, Returned ?c (Status 0))"
        using F by (intro ticks_then [OF F]) simp
      then show ?thesis using M Found len False by (auto simp: set_val_def)
    qed
  next
    case (Scanned av im)
    note S = scan_bin_scanned [OF Scanned]
    have nk: "key_at ?hs ?b i \<noteq> k" if "i < 8" for i using S len that by (simp add: key_at_def)
    have av: "av = first_idx 8 (\<lambda>j. key_at ?hs ?b j = 0)" 
      using S len fun_eq_iff [of "(+) (0 :: nat)" "\<lambda>j. j"] by (simp add: key_at_def option.map_ident)
    have "ticks (?hs, start_call ?hs ?c) (?hs, Running ?c ?b (Look 7 (first_idx 7 (\<lambda>j. key_at ?hs ?b j = 0))))"
      unfolding start by (rule look_run) (use nk in auto)
    then have F: "ticks (?hs, start_call ?hs ?c) (?hs, after_scan ?c ?b av)"
    proof (rule ticks_then)
      have "first_idx 8 (\<lambda>j. key_at ?hs ?b j = 0) =
        (case first_idx 7 (\<lambda>j. key_at ?hs ?b j = 0) of Some i \<Rightarrow> Some i | None \<Rightarrow> if key_at ?hs ?b 7 = 0 then Some 7 else None)"
        using first_idx_Suc [of 7 "\<lambda>j. key_at ?hs ?b j = 0"] by simp
      then show "tick (?hs, Running ?c ?b (Look 7 (first_idx 7 (\<lambda>j. key_at ?hs ?b j = 0)))) = (?hs, after_scan ?c ?b av)"
        using nk [of 7] by (simp add: av Let_def split: option.split)
    qed
    show ?thesis
    proof (cases "mode = STRICT_UPDATE")
      case True
      then show ?thesis using F M Scanned len by auto
    next
      case False
      then have ins: "inserting mode" using mode by (cases mode) simp_all
      then have im: "im = None" using scan_bin_no_pick [OF Scanned] cm by simp
      show ?thesis
      proof (cases av)
        case None
        then have "after_scan ?c ?b av = Returned ?c (Status HASH_BIN_FULL)" using False by (cases mode) simp_all
        then show ?thesis using F M Scanned len False None im by auto
      next
        case (Some j)
        then have j: "j < 8" "key_at ?hs ?b j = 0" using av by (simp_all add: first_idx_Some)
        have "after_scan ?c ?b av = Running ?c ?b (Claim j)" using False Some by (cases mode) simp_all
        then have "ticks (?hs, start_call ?hs ?c) (?hs, Running ?c ?b (Claim j))" using F by simp
        from put_run [OF this slot_bounds [OF ok j(1)] j(2)] show ?thesis
          using M Scanned len False Some by auto
      qed
    qed
  qed
qed

lemma search_outcome:
  assumes "hash_search ind k want mode = (ind', freq, res, found)"
  shows "case first_idx 8 (\<lambda>j. key_at (hash ind) (HASH_COMP_IDX (hash ind) k) j = k) of
      None \<Rightarrow> hash ind' = hash ind \<and> res = None \<and> \<not> found
    | Some j \<Rightarrow> found \<and>
        (if mode = HASH_QUERY then hash ind' = hash ind \<and> res = Some (val_at (hash ind) (HASH_COMP_IDX (hash ind) k) j)
         else hash ind' = (set_key (hash ind) (HASH_COMP_IDX (hash ind) k) j 0)\<lparr>h_count := h_count (hash ind) - 1\<rparr>)"
proof (cases mode)
  case HASH_DELETE
  then show ?thesis
    using assms unfolding hash_search_def hash_idx_agree Let_def key_at_def val_at_def set_key_def
    by (auto simp: hash_idx_agree split: option.splits)
next
  case HASH_QUERY
  then show ?thesis
    using assms unfolding hash_search_def Let_def key_at_def val_at_def
    by (cases want) (auto simp: hash_idx_agree split: option.splits prod.splits)
qed

lemma search_run:
  assumes ok: "hash_ok (hash ind)" and k: "\<not> IS_SPECIAL_KEY k" and eq: "hash_search ind k want mode = (ind', freq, res, found)"
  shows "ticks (hash ind, start_call (hash ind) (Search mode k))
    (hash ind', Returned (Search mode k) (if mode = HASH_QUERY then Answer res else Removed found))"
proof -
  let ?hs = "hash ind" and ?c = "Search mode k"
  let ?b = "HASH_COMP_IDX ?hs k"
  have start: "start_call ?hs ?c = Running ?c ?b (Probe 0)" by (simp add: start_call_bin)
  note M = search_outcome [OF eq]
  show ?thesis
  proof (cases "first_idx 8 (\<lambda>j. key_at ?hs ?b j = k)")
    case None
    then have nk: "key_at ?hs ?b i \<noteq> k" if "i < 8" for i using that by (simp add: first_idx_None)
    have "ticks (?hs, start_call ?hs ?c) (?hs, Running ?c ?b (Probe 7))"
      unfolding start by (rule probe_run) (use nk in auto)
    then have "ticks (?hs, start_call ?hs ?c) (?hs, missed ?c)" by (rule ticks_then) (use nk [of 7] in simp)
    then show ?thesis using M None by (cases mode) auto
  next
    case (Some j)
    then have j: "j < 8" "key_at ?hs ?b j = k" "\<And>i. i < j \<Longrightarrow> key_at ?hs ?b i \<noteq> k" by (simp_all add: first_idx_Some)
    have "ticks (?hs, start_call ?hs ?c) (?hs, Running ?c ?b (Probe j))"
      unfolding start by (rule probe_run) (use j in auto)
    then have F: "ticks (?hs, start_call ?hs ?c) (?hs, found_key ?c ?b j)" by (rule ticks_then) (simp add: j)
    show ?thesis
    proof (cases mode)
      case HASH_QUERY
      then have "ticks (?hs, start_call ?hs ?c) (?hs, Running ?c ?b (Recheck j (val_at ?hs ?b j)))"
        by (intro ticks_then [OF F]) simp
      then have "ticks (?hs, start_call ?hs ?c) (?hs, Returned ?c (Answer (Some (val_at ?hs ?b j))))"
        by (rule ticks_then) (simp add: j)
      then show ?thesis using M Some HASH_QUERY by auto
    next
      case HASH_DELETE
      then have "ticks (?hs, start_call ?hs ?c) (set_key ?hs ?b j 0, Running ?c ?b Sub_count)"
        by (intro ticks_then [OF F]) (simp add: j)
      then have "ticks (?hs, start_call ?hs ?c)
          ((set_key ?hs ?b j 0)\<lparr>h_count := h_count (set_key ?hs ?b j 0) - 1\<rparr>, Returned ?c (Removed True))"
        by (rule ticks_then) simp
      moreover have "h_count (set_key ?hs ?b j 0) = h_count ?hs" by (simp add: set_key_def set_entry_def)
      ultimately show ?thesis using M Some HASH_DELETE by auto
    qed
  qed
qed

lemma nocheck_run:
  assumes ok: "hash_ok hs" and eq: "hash_insert_nocheck hs k v = (hs', st)"
  shows "ticks (hs, start_call hs (Nocheck k v)) (hs', Returned (Nocheck k v) (Status st))"
proof -
  let ?c = "Nocheck k v" and ?b = "HASH_COMP_IDX hs k"
  show ?thesis
  proof (cases "first_idx 8 (\<lambda>j. key_at hs ?b j = 0)")
    case None
    then have nz: "key_at hs ?b i \<noteq> 0" if "i < 8" for i using that by (simp add: first_idx_None)
    have "ticks (hs, start_call hs ?c) (hs, Running ?c ?b (Claim 7))"
      unfolding start_call.simps by (rule claim_run) (use nz in auto)
    then have "ticks (hs, start_call hs ?c) (hs, Returned ?c (Status HASH_BIN_FULL))"
      by (rule ticks_then) (use nz [of 7] in simp)
    then show ?thesis using eq None unfolding hash_insert_nocheck_def Let_def by (simp add: key_at_def)
  next
    case (Some j)
    then have j: "j < 8" "key_at hs ?b j = 0" "\<And>i. i < j \<Longrightarrow> key_at hs ?b i \<noteq> 0" by (simp_all add: first_idx_Some)
    have "ticks (hs, start_call hs ?c) (hs, Running ?c ?b (Claim j))"
      unfolding start_call.simps by (rule claim_run) (use j in auto)
    note P = put_run [OF this slot_bounds [OF ok j(1)] j(2)]
    have "hs' = (set_entry hs ?b j \<lparr>entry_key = k, entry_value = v\<rparr>)\<lparr>h_count := h_count hs + 1\<rparr>" "st = 0"
      using eq Some unfolding nocheck_simp [OF ok] hash_insert_nocheck_nosafe_def Let_def
      by (cases hs; auto simp: key_at_def set_entry_def)+
    with P show ?thesis by simp
  qed
qed

section \<open>Schedules\<close>

text \<open>A schedule: thread \<open>t\<close> begins a call, or makes its next step.\<close>

fun play1 :: "nat \<times> call option \<Rightarrow> conc \<Rightarrow> conc" where
  "play1 (t, Some c) s = s\<lparr>threads := (threads s)(t := start_call (shared s) c), calls := c # calls s\<rparr>"
| "play1 (t, None) s =
    (case threads s t of
       Quiet \<Rightarrow> s
     | Running c b p \<Rightarrow> (case thread_step c b p (shared s) of (hs, th) \<Rightarrow> s\<lparr>shared := hs, threads := (threads s)(t := th)\<rparr>)
     | Returned c r \<Rightarrow> s\<lparr>threads := (threads s)(t := Quiet)\<rparr>)"

fun is_quiet :: "thread \<Rightarrow> bool" where
  "is_quiet Quiet \<longleftrightarrow> True"
| "is_quiet th \<longleftrightarrow> False"

fun play :: "(nat \<times> call option) list \<Rightarrow> conc \<Rightarrow> conc option" where
  "play [] s = Some s"
| "play ((t, None) # es) s = play es (play1 (t, None) s)"
| "play ((t, Some c) # es) s = (if is_quiet (threads s t) \<and> callable c then play es (play1 (t, Some c) s) else None)"

lemma is_quiet_iff: "is_quiet th \<longleftrightarrow> th = Quiet"
  by (cases th) simp_all

lemma play_steps: "play es s = Some s' \<Longrightarrow> \<forall>c. (\<exists>t. (t, Some c) \<in> set es) \<longrightarrow> A c \<Longrightarrow> (hstep A)\<^sup>*\<^sup>* s s'"
proof (induction es s rule: play.induct)
  case (2 t es s)
  then have "(hstep A)\<^sup>*\<^sup>* (play1 (t, None) s) s'" by auto
  moreover have "(hstep A)\<^sup>*\<^sup>* s (play1 (t, None) s)"
    by (cases "threads s t") (auto intro: hstep.access hstep.leave split: prod.split)
  ultimately show ?case by simp
next
  case (3 t c es s)
  then have "(hstep A)\<^sup>*\<^sup>* (play1 (t, Some c) s) s'" "threads s t = Quiet" "callable c" "A c"
    by (auto simp: is_quiet_iff split: if_splits)
  then show ?case using hstep.invoke [of s t c A] by (simp add: converse_rtranclp_into_rtranclp)
qed simp

lemma hreach_steps: "(hstep A)\<^sup>*\<^sup>* s s' \<Longrightarrow> hreach A hs0 s \<Longrightarrow> hreach A hs0 s'"
  by (induction rule: rtranclp_induct) (auto intro: hreach.hnext)

lemma play_reach:
  assumes "play es (begin_conc hs0) = Some s" "\<forall>c. (\<exists>t. (t, Some c) \<in> set es) \<longrightarrow> A c"
  shows "hreach A hs0 s"
  using hreach_steps [OF play_steps [OF assms]] hreach.hinit by blast

text \<open>A table with a single bin, and the calls of the interleavings below.\<close>

definition one_bin :: hash_sys where
  "one_bin = \<lparr>h_seed = 42, h_size = 1, h_count = 0, entries = [replicate 8 empty_entry]\<rparr>"

lemma one_bin_ok: "hash_ok one_bin" "hash_map one_bin = Map.empty"
proof -
  have "hash_construct (\<lambda>_. True) 0 1 42 = Some one_bin" by (simp add: hash_construct_def one_bin_def)
  from hash_construct_ok [OF this, of 0] show "hash_ok one_bin" "hash_map one_bin = Map.empty" by simp_all
qed

definition whole :: "nat \<Rightarrow> call \<Rightarrow> (nat \<times> call option) list" where
  "whole t c = (t, Some c) # replicate 14 (t, None)"

definition part :: "nat \<Rightarrow> call \<Rightarrow> nat \<Rightarrow> (nat \<times> call option) list" where
  "part t c n = (t, Some c) # replicate n (t, None)"

definition more :: "nat \<Rightarrow> nat \<Rightarrow> (nat \<times> call option) list" where
  "more t n = replicate n (t, None)"

definition update_race :: "(nat \<times> call option) list" where
  "update_race = whole 0 (Modify INSERT 2 10) @ part 0 (Modify STRICT_UPDATE 2 20) 1 @
    whole 1 (Search HASH_DELETE 2) @ whole 1 (Modify INSERT 3 30) @ more 0 2"

definition insert_race :: "(nat \<times> call option) list" where
  "insert_race = part 0 (Modify INSERT 2 10) 8 @ part 1 (Modify INSERT 2 20) 8 @ more 0 5 @ more 1 6 @
    whole 0 (Search HASH_DELETE 2)"

definition query_race :: "(nat \<times> call option) list" where
  "query_race = whole 0 (Modify INSERT 2 10) @ part 1 (Search HASH_QUERY 2) 1 @ whole 0 (Search HASH_DELETE 2) @
    part 0 (Modify INSERT 3 30) 10 @ more 1 1 @ more 0 3 @ whole 0 (Search HASH_DELETE 3) @
    whole 0 (Modify INSERT 2 11) @ more 1 1"

lemma update_race_end:
  "map_option (\<lambda>s. (map (threads s) [0, 1], calls s, hash_map (shared s) 3)) (play update_race (begin_conc one_bin)) =
    Some ([Quiet, Quiet], [Modify INSERT 3 30, Search HASH_DELETE 2, Modify STRICT_UPDATE 2 20, Modify INSERT 2 10], Some 20)"
  by code_simp

lemma insert_race_end:
  "map_option (\<lambda>s. (map (threads s) [0, 1], calls s, hash_map (shared s) 2)) (play insert_race (begin_conc one_bin)) =
    Some ([Quiet, Quiet], [Search HASH_DELETE 2, Modify INSERT 2 20, Modify INSERT 2 10], Some 20)"
  by code_simp

lemma query_race_end:
  "map_option (\<lambda>s. (threads s 1, calls s)) (play query_race (begin_conc one_bin)) =
    Some (Returned (Search HASH_QUERY 2) (Answer (Some 30)),
      [Modify INSERT 2 11, Search HASH_DELETE 3, Modify INSERT 3 30, Search HASH_DELETE 2, Search HASH_QUERY 2, Modify INSERT 2 10])"
  by code_simp

lemma played:
  assumes "map_option f (play es (begin_conc hs0)) = Some x"
  obtains s where "play es (begin_conc hs0) = Some s" "f s = x" "hreach (\<lambda>_. True) hs0 s"
proof -
  from assms obtain s where s: "play es (begin_conc hs0) = Some s" "f s = x" by auto
  show ?thesis by (rule that [OF s play_reach [OF s(1)]]) simp
qed

text \<open>Threads that the schedule does not name stay quiet.\<close>

lemma play_other: "play es s = Some s' \<Longrightarrow> t \<notin> fst ` set es \<Longrightarrow> threads s' t = threads s t"
proof (induction es s rule: play.induct)
  case (2 u es s)
  then have "threads s' t = threads (play1 (u, None) s) t" "t \<noteq> u" by auto
  then show ?case by (cases "threads s u") (auto split: prod.split)
qed (auto split: if_splits)

lemma play_quiet:
  assumes "play es (begin_conc hs0) = Some s" "fst ` set es \<subseteq> {0, 1}" "threads s 0 = Quiet" "threads s 1 = Quiet"
  shows "threads s t = Quiet"
proof (cases "t = 0 \<or> t = 1")
  case False
  with assms(2) have "t \<notin> fst ` set es" by auto
  from play_other [OF assms(1) this] show ?thesis by (simp add: begin_conc_def)
qed (use assms in auto)

section \<open>Properties\<close>

text \<open>C23. In every reachable interleaving of calls, a slot of a bin is marked occupied exactly while one
  thread, and only one, has claimed it and not yet stored its key; every other non-empty slot holds a
  key in the bin its hash selects.\<close>

theorem occupied_slot_claimed:
  assumes "hash_ok hs0" "hreach A hs0 s" "b < unat (h_size hs0)" "j < 8"
  shows "if key_at (shared s) b j = OCCUPIED_FLAG then \<exists>!t. owns (threads s t) b j
    else (\<forall>t. \<not> owns (threads s t) b j) \<and>
      (key_at (shared s) b j \<noteq> EMPTY_FLAG \<longrightarrow> HASH_COMP_IDX hs0 (key_at (shared s) b j) = b)"
proof -
  note ok = hreach_ok [OF assms(2,1)]
  note C = claimD [OF ok assms(3,4)]
  show ?thesis
    using C conc_okD(4) [OF ok] assms(3,4) unfolding placed_ok_def by (auto simp: IS_SPECIAL_KEY_iff)
qed

theorem occupied_slot_claimed_witness:
  "\<exists>s. play (part 0 (Modify INSERT 2 10) 9) (begin_conc one_bin) = Some s \<and> (\<exists>!t. owns (threads s t) 0 0)"
proof -
  have "map_option (\<lambda>s. key_at (shared s) 0 0) (play (part 0 (Modify INSERT 2 10) 9) (begin_conc one_bin)) = Some 1"
    by code_simp
  then obtain s where s: "play (part 0 (Modify INSERT 2 10) 9) (begin_conc one_bin) = Some s" "key_at (shared s) 0 0 = 1"
    "hreach (\<lambda>_. True) one_bin s" by (rule played)
  from occupied_slot_claimed [OF one_bin_ok(1) s(3), of 0 0] s(2) have "\<exists>!t. owns (threads s t) 0 0"
    by (simp add: one_bin_def)
  with s(1) show ?thesis by blast
qed

text \<open>Whenever no call is under way, the counter of the table is the number of slots with a key, however
  the calls before were interleaved, and no slot is left marked occupied.\<close>

theorem slots_at_rest:
  assumes "hash_ok hs0" "hreach A hs0 s" "\<And>t c b p. threads s t \<noteq> Running c b p"
  shows "h_count (shared s) = of_nat (card (live_slots hs0 (shared s))) \<and>
    (\<forall>b j. b < unat (h_size hs0) \<longrightarrow> j < 8 \<longrightarrow> key_at (shared s) b j \<noteq> OCCUPIED_FLAG)"
proof -
  have "\<not> adding (threads s t)" "\<not> subtracting (threads s t)" "\<not> owns (threads s t) b j" for t b j
    using assms(3) [of t] by (cases "threads s t"; simp)+
  then show ?thesis
    using hreach_count [OF assms(2,1)] claimD(1) [OF hreach_ok [OF assms(2,1)]] by (simp add: count_ok_def)
qed

text \<open>C25. As long as nobody deletes, a query for a key that the table has when the query begins finds it,
  and answers with the value the table began with or one that some call wrote for this very key.\<close>

theorem query_without_deletes:
  assumes "hash_ok hs0" "hreach no_delete hs0 s" "\<not> IS_SPECIAL_KEY k" "j < 8"
    and "key_at (shared s) (HASH_COMP_IDX hs0 k) j = k" "threads s t = Quiet"
    and "(hstep no_delete)\<^sup>*\<^sup>* s s'" "threads s' t = Returned (Search HASH_QUERY k) (Answer r)"
  shows "\<exists>v. r = Some v \<and> written hs0 (calls s') k v"
proof -
  have "hreach no_delete hs0 s' \<and> on_course k j (threads s' t)"
    using steps_on_course [OF assms(7,1,2,4,3,5), of t] assms(6) by simp
  then have "vals_ok hs0 s'" "on_course k j (threads s' t)" using hreach_vals [OF _ assms(1)] by blast+
  then have "thread_vals hs0 (calls s') (shared s') (threads s' t)" by (simp add: vals_ok_def)
  with \<open>on_course k j (threads s' t)\<close> show ?thesis unfolding assms(8) by (cases r) simp_all
qed

theorem query_without_deletes_witness:
  "\<exists>s s' v. play (whole 0 (Modify INSERT 2 10)) (begin_conc one_bin) = Some s \<and>
    play (part 1 (Search HASH_QUERY 2) 3) s = Some s' \<and> threads s' 1 = Returned (Search HASH_QUERY 2) (Answer (Some v)) \<and>
    written one_bin (calls s') 2 v"
proof -
  let ?e = "whole 0 (Modify INSERT 2 10)" and ?q = "part 1 (Search HASH_QUERY 2) 3"
  have "map_option (\<lambda>s. (key_at (shared s) 0 0, threads s 1, map_option (\<lambda>s. threads s 1) (play ?q s))) (play ?e (begin_conc one_bin)) =
      Some (2, Quiet, Some (Returned (Search HASH_QUERY 2) (Answer (Some 10))))" by code_simp
  then obtain s s' where s: "play ?e (begin_conc one_bin) = Some s" "key_at (shared s) 0 0 = 2" "threads s 1 = Quiet"
    "play ?q s = Some s'" "threads s' 1 = Returned (Search HASH_QUERY 2) (Answer (Some 10))" by auto
  have "hreach no_delete one_bin s" by (rule play_reach [OF s(1)]) (auto simp: whole_def no_delete_def)
  moreover have "(hstep no_delete)\<^sup>*\<^sup>* s s'" by (rule play_steps [OF s(4)]) (auto simp: part_def no_delete_def)
  moreover have "HASH_COMP_IDX one_bin 2 = 0" by (simp add: HASH_COMP_IDX_def one_bin_def)
  ultimately have "\<exists>v. Some (10 :: u64) = Some v \<and> written one_bin (calls s') 2 v"
    using s(2,3,5) by (intro query_without_deletes [OF one_bin_ok(1), of s 2 0 1]) (simp_all add: IS_SPECIAL_KEY_iff)
  then show ?thesis using s by auto
qed

text \<open>What the functions of \<open>Hash\<close> make of a call.\<close>

fun sequential :: "index_sys \<Rightarrow> call \<Rightarrow> hash_sys \<times> result" where
  "sequential ind (Modify mode k v) = (case hash_modify ind k v mode of (ind', freq, st) \<Rightarrow> (hash ind', Status st))"
| "sequential ind (Search mode k) = (case hash_search ind k True mode of (ind', freq, res, found) \<Rightarrow>
    (hash ind', if mode = HASH_QUERY then Answer res else Removed found))"
| "sequential ind (Nocheck k v) = (case hash_insert_nocheck (hash ind) k v of (hs, st) \<Rightarrow> (hs, Status st))"

text \<open>C27. A call that no other thread interrupts does to the table what \<open>hash_modify\<close>, \<open>hash_search\<close> and
  \<open>hash_insert_nocheck\<close> do as functions, returns their result, and comes to its end.\<close>

theorem uninterrupted_call:
  assumes "hash_ok (hash ind)" "shared s = hash ind" "threads s t = Quiet" "callable c" "A c"
    and "sequential ind c = (hs, r)"
  shows "\<exists>s'. (hstep A)\<^sup>*\<^sup>* s s' \<and> shared s' = hs \<and> threads s' = (threads s)(t := Returned c r) \<and> calls s' = c # calls s"
proof -
  have run: "ticks (hash ind, start_call (hash ind) c) (hs, Returned c r)"
  proof (cases c)
    case (Modify mode k v)
    then show ?thesis using assms(4,6) modify_run [OF assms(1)] by (auto split: prod.splits)
  next
    case (Search mode k)
    then show ?thesis using assms(4,6) search_run [OF assms(1), of k True mode] by (auto split: prod.splits)
  next
    case (Nocheck k v)
    then show ?thesis using assms(6) nocheck_run [OF assms(1)] by (auto split: prod.splits)
  qed
  let ?s = "s\<lparr>threads := (threads s)(t := start_call (shared s) c), calls := c # calls s\<rparr>"
  let ?s' = "?s\<lparr>shared := hs, threads := (threads ?s)(t := Returned c r)\<rparr>"
  have "hstep A s ?s" using assms(3-5) by (rule hstep.invoke)
  moreover have "(hstep A)\<^sup>*\<^sup>* ?s ?s'" by (rule ticks_hstep) (use run assms(2) in simp)
  ultimately have "(hstep A)\<^sup>*\<^sup>* s ?s'" by (rule converse_rtranclp_into_rtranclp)
  then show ?thesis by (intro exI [of _ ?s']) simp
qed

theorem uninterrupted_call_witness:
  "\<exists>s'. (hstep (\<lambda>_. True))\<^sup>*\<^sup>* (begin_conc one_bin) s' \<and> threads s' 0 = Returned (Search HASH_QUERY 5) (Answer None)"
proof -
  let ?ind = "sample_index\<lparr>hash := one_bin\<rparr>" and ?c = "Search HASH_QUERY 5"
  obtain ind' freq res found where e: "hash_search ?ind 5 True HASH_QUERY = (ind', freq, res, found)" by (rule prod_cases4)
  have "res = hash_map one_bin 5" using hash_query_ok [OF _ e] by (simp add: IS_SPECIAL_KEY_iff)
  then have s: "sequential ?ind ?c = (hash ind', Answer None)" by (simp add: e one_bin_ok(2))
  show ?thesis
    using uninterrupted_call [of ?ind "begin_conc one_bin" 0 ?c "\<lambda>_. True", OF _ _ _ _ _ s]
    by (auto simp: one_bin_ok(1) begin_conc_def IS_SPECIAL_KEY_iff)
qed

text \<open>C28. The update of one key can overwrite another: between finding the key and storing the value, the
  slot is emptied by a deletion and taken by an insertion. Here all calls have returned, 30 is the only
  value ever written for key 3, and the table has 20 for it.\<close>

theorem update_overwrites_other_key:
  "\<exists>s. hreach (\<lambda>_. True) one_bin s \<and> (\<forall>t. threads s t = Quiet) \<and>
    calls s = [Modify INSERT 3 30, Search HASH_DELETE 2, Modify STRICT_UPDATE 2 20, Modify INSERT 2 10] \<and>
    hash_map (shared s) 3 = Some 20"
proof -
  obtain s where s: "play update_race (begin_conc one_bin) = Some s"
    "(map (threads s) [0, 1], calls s, hash_map (shared s) 3) =
      ([Quiet, Quiet], [Modify INSERT 3 30, Search HASH_DELETE 2, Modify STRICT_UPDATE 2 20, Modify INSERT 2 10], Some 20)"
    "hreach (\<lambda>_. True) one_bin s"
    by (rule played [OF update_race_end])
  have "fst ` set update_race \<subseteq> {0, 1}" by (auto simp: update_race_def part_def whole_def more_def)
  then have "threads s t = Quiet" for t using play_quiet [OF s(1)] s(2) by simp
  with s show ?thesis by auto
qed

text \<open>Two insertions of one key that look through the bin at the same time each take a slot: after a
  deletion of the key has returned, the key is still there.\<close>

theorem concurrent_inserts_duplicate:
  "\<exists>s. hreach (\<lambda>_. True) one_bin s \<and> (\<forall>t. threads s t = Quiet) \<and>
    calls s = [Search HASH_DELETE 2, Modify INSERT 2 20, Modify INSERT 2 10] \<and> hash_map (shared s) 2 = Some 20"
proof -
  obtain s where s: "play insert_race (begin_conc one_bin) = Some s"
    "(map (threads s) [0, 1], calls s, hash_map (shared s) 2) =
      ([Quiet, Quiet], [Search HASH_DELETE 2, Modify INSERT 2 20, Modify INSERT 2 10], Some 20)" "hreach (\<lambda>_. True) one_bin s"
    by (rule played [OF insert_race_end])
  have "fst ` set insert_race \<subseteq> {0, 1}" by (auto simp: insert_race_def part_def whole_def more_def)
  then have "threads s t = Quiet" for t using play_quiet [OF s(1)] s(2) by simp
  with s show ?thesis by auto
qed

text \<open>The second load of the key in \<open>hash_search\<close> does not exclude a foreign value: the slot of key 2 is
  emptied, claimed for key 3, emptied again and taken for key 2 while the query is between its loads.\<close>

theorem query_answers_other_key:
  "\<exists>s. hreach (\<lambda>_. True) one_bin s \<and> threads s 1 = Returned (Search HASH_QUERY 2) (Answer (Some 30)) \<and>
    \<not> written one_bin (calls s) 2 30"
proof -
  obtain s where s: "(threads s 1, calls s) = (Returned (Search HASH_QUERY 2) (Answer (Some 30)),
      [Modify INSERT 2 11, Search HASH_DELETE 3, Modify INSERT 3 30, Search HASH_DELETE 2, Search HASH_QUERY 2, Modify INSERT 2 10])"
    "hreach (\<lambda>_. True) one_bin s"
    by (rule played [OF query_race_end])
  have "\<not> written one_bin (calls s) 2 30" using s(1) by (simp add: written_def one_bin_ok(2))
  with s show ?thesis by auto
qed

end
