(* ===== verification/Hash_Conc_Keys.thy ===== *)
theory Hash_Conc_Keys
  imports Hash_Conc_Runs
begin

text \<open>
  The table under concurrent calls of which no two for the same key overlap: a linearizable map. The
  history records every call that has returned, in the order of their returns; its results are those of
  a sequential map, and the table has that map.
\<close>

section \<open>The sequential map\<close>

text \<open>Which results a call may have when the map has \<open>old\<close> for its key, and what the map has afterwards.\<close>

fun right :: "call \<Rightarrow> u64 option \<Rightarrow> result \<Rightarrow> bool" where
  "right (Modify STRICT_UPDATE k v) old r \<longleftrightarrow> r = Status (if old = None then ELEMENT_NOT_FOUND else 0)"
| "right (Modify STRICT_INSERT k v) old r \<longleftrightarrow>
    (if old = None then r = Status 0 \<or> r = Status HASH_BIN_FULL else r = Status ELEMENT_ALREADY_EXISTS)"
| "right (Modify mode k v) old r \<longleftrightarrow> r = Status 0 \<or> old = None \<and> r = Status HASH_BIN_FULL"
| "right (Nocheck k v) old r \<longleftrightarrow> r = Status 0 \<or> r = Status HASH_BIN_FULL"
| "right (Search HASH_QUERY k) old r \<longleftrightarrow> r = Answer old"
| "right (Search HASH_DELETE k) old r \<longleftrightarrow> r = Removed (old \<noteq> None)"

fun changed :: "call \<Rightarrow> result \<Rightarrow> u64 option \<Rightarrow> u64 option" where
  "changed (Search HASH_QUERY k) r old = old"
| "changed (Search HASH_DELETE k) r old = None"
| "changed c r old = (if r = Status 0 then Some (call_value c) else old)"

fun history_map :: "(u64 \<Rightarrow> u64 option) \<Rightarrow> (call \<times> result) list \<Rightarrow> u64 \<Rightarrow> u64 option" where
  "history_map m [] = m"
| "history_map m ((c, r) # h) = (history_map m h)(call_key c := changed c r (history_map m h (call_key c)))"

fun history_right :: "(u64 \<Rightarrow> u64 option) \<Rightarrow> (call \<times> result) list \<Rightarrow> bool" where
  "history_right m [] \<longleftrightarrow> True"
| "history_right m ((c, r) # h) \<longleftrightarrow> history_right m h \<and> right c (history_map m h (call_key c)) r"

section \<open>Interleavings of calls on distinct keys\<close>

definition apart :: "conc \<Rightarrow> call \<Rightarrow> bool" where
  "apart s c \<longleftrightarrow> (\<forall>u c' b p. threads s u = Running c' b p \<longrightarrow> call_key c' \<noteq> call_key c) \<and>
    (\<forall>k v. c = Nocheck k v \<longrightarrow> hash_map (shared s) k = None)"

fun noted :: "thread \<Rightarrow> (call \<times> result) list \<Rightarrow> (call \<times> result) list" where
  "noted (Returned c r) h = (c, r) # h"
| "noted th h = h"

inductive keyed :: "hash_sys \<Rightarrow> conc \<Rightarrow> (call \<times> result) list \<Rightarrow> bool" for hs0 where
  kinit: "keyed hs0 (begin_conc hs0) []"
| kinvoke: "keyed hs0 s h \<Longrightarrow> threads s t = Quiet \<Longrightarrow> callable c \<Longrightarrow> apart s c \<Longrightarrow>
    keyed hs0 (s\<lparr>threads := (threads s)(t := start_call (shared s) c), calls := c # calls s\<rparr>) h"
| kaccess: "keyed hs0 s h \<Longrightarrow> threads s t = Running c b p \<Longrightarrow> thread_step c b p (shared s) = (hs, th) \<Longrightarrow>
    keyed hs0 (s\<lparr>shared := hs, threads := (threads s)(t := th)\<rparr>) (noted th h)"
| kleave: "keyed hs0 s h \<Longrightarrow> threads s t = Returned c r \<Longrightarrow> keyed hs0 (s\<lparr>threads := (threads s)(t := Quiet)\<rparr>) h"

lemma keyed_hreach: "keyed hs0 s h \<Longrightarrow> hreach (\<lambda>_. True) hs0 s"
proof (induction rule: keyed.induct)
  case (kinvoke s h t c)
  then show ?case using hreach.hnext [OF _ hstep.invoke [of s t c "\<lambda>_. True"]] by simp
next
  case (kaccess s h t c b p hs th)
  then show ?case using hreach.hnext [OF _ hstep.access] by simp
next
  case (kleave s h t c r)
  then show ?case using hreach.hnext [OF _ hstep.leave] by simp
qed (rule hreach.hinit)

section \<open>Slots and the map\<close>

definition once :: "hash_sys \<Rightarrow> u64 \<Rightarrow> bool" where
  "once hs k \<longleftrightarrow> (\<forall>i < 8. \<forall>j < 8. key_at hs (HASH_COMP_IDX hs k) i = k \<longrightarrow> key_at hs (HASH_COMP_IDX hs k) j = k \<longrightarrow> i = j)"

lemma map_absent: "\<not> IS_SPECIAL_KEY k \<Longrightarrow> hash_map hs k = None \<longleftrightarrow> (\<forall>j < 8. key_at hs (HASH_COMP_IDX hs k) j \<noteq> k)"
  by (simp add: hash_map_find bin_find_None key_at_def)

lemma map_present:
  assumes "\<not> IS_SPECIAL_KEY k" "once hs k" "j < 8" "key_at hs (HASH_COMP_IDX hs k) j = k"
  shows "hash_map hs k = Some (val_at hs (HASH_COMP_IDX hs k) j)"
proof -
  have "key_at hs (HASH_COMP_IDX hs k) i \<noteq> k" if "i < j" for i
    using assms(2-4) that unfolding once_def by (metis less_trans nat_neq_iff)
  then have "bin_find (entries hs ! HASH_COMP_IDX hs k) k = Some j"
    using assms(3,4) by (simp add: bin_find_def first_idx_Some key_at_def)
  then show ?thesis using assms(1) by (simp add: hash_map_find val_at_def)
qed

text \<open>The slots of \<open>k\<close> are as they were.\<close>

definition untouched :: "u64 \<Rightarrow> hash_sys \<Rightarrow> hash_sys \<Rightarrow> bool" where
  "untouched k hs hs' \<longleftrightarrow> HASH_COMP_IDX hs' k = HASH_COMP_IDX hs k \<and>
    (\<forall>j. (key_at hs' (HASH_COMP_IDX hs k) j = k \<longleftrightarrow> key_at hs (HASH_COMP_IDX hs k) j = k) \<and>
      (key_at hs (HASH_COMP_IDX hs k) j = k \<longrightarrow> val_at hs' (HASH_COMP_IDX hs k) j = val_at hs (HASH_COMP_IDX hs k) j))"

lemma untouched_once: "untouched k hs hs' \<Longrightarrow> once hs' k = once hs k"
  by (simp add: untouched_def once_def)

lemma untouched_map:
  assumes "untouched k hs hs'" "\<not> IS_SPECIAL_KEY k"
  shows "hash_map hs' k = hash_map hs k"
proof -
  let ?b = "HASH_COMP_IDX hs k"
  have "bin_find (entries hs' ! HASH_COMP_IDX hs' k) k = bin_find (entries hs ! ?b) k"
    unfolding bin_find_def by (rule first_idx_cong) (use assms(1) in \<open>simp add: untouched_def key_at_def\<close>)
  moreover have "entry_value (entries hs' ! ?b ! j) = entry_value (entries hs ! ?b ! j)"
    if "bin_find (entries hs ! ?b) k = Some j" for j
    using bin_findD [OF that] assms(1) by (simp add: untouched_def key_at_def val_at_def)
  ultimately show ?thesis
    using assms by (cases "bin_find (entries hs ! ?b) k") (simp_all add: hash_map_find untouched_def)
qed

section \<open>What a thread knows of its key\<close>

definition may_add :: "call \<Rightarrow> bool" where
  "may_add c \<longleftrightarrow> (\<forall>k v. c \<noteq> Modify STRICT_UPDATE k v)"

fun knows :: "hash_sys \<Rightarrow> u64 option \<Rightarrow> call \<Rightarrow> nat \<Rightarrow> pc \<Rightarrow> bool" where
  "knows hs old c b (Look i av) \<longleftrightarrow> (\<forall>j < i. key_at hs b j \<noteq> call_key c) \<and> hash_map hs (call_key c) = old"
| "knows hs old c b (Overwrite j) \<longleftrightarrow> key_at hs b j = call_key c \<and> hash_map hs (call_key c) = old \<and>
    (\<forall>k v. c \<noteq> Modify STRICT_INSERT k v)"
| "knows hs old c b (Claim j) \<longleftrightarrow> hash_map hs (call_key c) = None \<and> old = None \<and> may_add c"
| "knows hs old c b (Store_value j) \<longleftrightarrow> hash_map hs (call_key c) = None \<and> old = None \<and> may_add c"
| "knows hs old c b (Store_key j) \<longleftrightarrow> hash_map hs (call_key c) = None \<and> old = None \<and> may_add c \<and> val_at hs b j = call_value c"
| "knows hs old c b Add_count \<longleftrightarrow> hash_map hs (call_key c) = Some (call_value c) \<and> old = None \<and> may_add c"
| "knows hs old c b (Probe i) \<longleftrightarrow> (\<forall>j < i. key_at hs b j \<noteq> call_key c) \<and> hash_map hs (call_key c) = old"
| "knows hs old c b (Load_value j) \<longleftrightarrow> key_at hs b j = call_key c \<and> hash_map hs (call_key c) = old"
| "knows hs old c b (Recheck j v) \<longleftrightarrow> key_at hs b j = call_key c \<and> hash_map hs (call_key c) = old \<and> old = Some v"
| "knows hs old c b (Clear j) \<longleftrightarrow> key_at hs b j = call_key c \<and> hash_map hs (call_key c) = old"
| "knows hs old c b Sub_count \<longleftrightarrow> hash_map hs (call_key c) = None \<and> old \<noteq> None"

fun fine :: "hash_sys \<Rightarrow> u64 option \<Rightarrow> thread \<Rightarrow> bool" where
  "fine hs old (Running c b p) \<longleftrightarrow> knows hs old c b p"
| "fine hs old (Returned c r) \<longleftrightarrow> right c old r \<and> hash_map hs (call_key c) = changed c r old"
| "fine hs old Quiet \<longleftrightarrow> True"

lemma knows_untouched:
  assumes "untouched (call_key c) hs hs'" "\<not> IS_SPECIAL_KEY (call_key c)" "b = HASH_COMP_IDX hs (call_key c)"
    and "\<And>j. p = Store_key j \<Longrightarrow> val_at hs' b j = val_at hs b j"
  shows "knows hs' old c b p = knows hs old c b p"
  using assms untouched_map [OF assms(1,2)] by (cases p) (auto simp: untouched_def)

lemma found_fine:
  assumes "key_at hs b j = call_key c" "hash_map hs (call_key c) = old" "old \<noteq> None" "\<And>k v. c \<noteq> Nocheck k v"
  shows "fine hs old (found_key c b j)"
  using assms by (cases "(c, b, j)" rule: found_key.cases) simp_all

lemma after_scan_fine:
  assumes "hash_map hs (call_key c) = None" "old = None" "c = Modify mode k v"
  shows "fine hs old (after_scan c b av)"
  using assms by (cases mode; cases av) (simp_all add: may_add_def)

lemma missed_fine:
  assumes "hash_map hs (call_key c) = None" "old = None" "c = Search mode k"
  shows "fine hs old (missed c)"
  using assms by (cases mode) simp_all

lemma start_fine:
  assumes "hash_map hs (call_key c) = old" "\<And>k v. c = Nocheck k v \<Longrightarrow> old = None"
  shows "fine hs old (start_call hs c)"
  using assms by (cases c) (simp_all add: may_add_def)

section \<open>One access\<close>

text \<open>The slots of other keys, and those claimed by other threads, are left alone.\<close>

lemma access_elsewhere:
  assumes h: "hash_ok hs0" and ok: "conc_ok hs0 s" and t: "threads s t = Running c b p"
    and step: "thread_step c b p (shared s) = (hs, th)" and kn: "knows (shared s) old c b p"
    and k: "k \<noteq> call_key c" "\<not> IS_SPECIAL_KEY k"
  shows "untouched k (shared s) hs"
proof -
  note R = running_bound [OF h ok t]
  note B = conc_okD(1) [OF ok]
  note K = access_key [OF B R(1,4) step] and V = access_val [OF B R(1,4) step]
  have "same_bins hs0 hs"
    using access_cases [OF B R(1) _ step] conc_okD(2) [OF ok, of t] t by simp
  then have i: "HASH_COMP_IDX hs k = HASH_COMP_IDX (shared s) k" using B by (simp add: same_bins_idx)
  have own: "key_at (shared s) b j = 1" if "p = Store_value j \<or> p = Store_key j" for j
  proof -
    have "owns (threads s t) b j" "j < 8" using t that R(4) fits_bound(2,3) by (auto simp: owns_slot)
    then show ?thesis using claimD(1) [OF ok R(1)] by blast
  qed
  have "(key_at hs b' j = k \<longleftrightarrow> key_at (shared s) b' j = k) \<and>
      (key_at (shared s) b' j = k \<longrightarrow> val_at hs b' j = val_at (shared s) b' j)" for b' j
    using K V kn k own by (cases p) (auto simp: IS_SPECIAL_KEY_iff)
  with i show ?thesis by (simp add: untouched_def)
qed

lemma access_not_claimed:
  assumes h: "hash_ok hs0" and ok: "conc_ok hs0 s" and t: "threads s t = Running c b p"
    and step: "thread_step c b p (shared s) = (hs, th)" and kn: "knows (shared s) old c b p"
    and u: "u \<noteq> t" "threads s u = Running c' b' (Store_key j)"
  shows "val_at hs b' j = val_at (shared s) b' j"
proof -
  note R = running_bound [OF h ok t]
  note V = access_val [OF conc_okD(1) [OF ok] R(1,4) step]
  have o: "owns (threads s u) b' j" using u by (simp add: owns_slot)
  have b': "b' < unat (h_size hs0)" "j < 8" using running_bound [OF h ok u(2)] fits_bound(3) by blast+
  have "key_at (shared s) b' j = 1" using o claimD(1) [OF ok b'] by blast
  moreover have "\<not> owns (Running c b p) b' j" using claimD(2) [OF ok b' o, of t] t u(1) by metis
  ultimately show ?thesis using V kn R(6) by (cases p) (auto simp: owns_slot)
qed

text \<open>The key of the call itself.\<close>

lemma access_fine:
  assumes h: "hash_ok hs0" and ok: "conc_ok hs0 s" and t: "threads s t = Running c b p"
    and step: "thread_step c b p (shared s) = (hs, th)" and kn: "knows (shared s) old c b p"
    and one: "once (shared s) (call_key c)"
  shows "fine hs old th \<and> once hs (call_key c)"
proof -
  note R = running_bound [OF h ok t]
  note B = conc_okD(1) [OF ok]
  note K = access_key [OF B R(1,4) step] and V = access_val [OF B R(1,4) step]
  let ?k = "call_key c" and ?s = "shared s"
  have k: "\<not> IS_SPECIAL_KEY ?k" using R(5,6) by (auto simp: IS_SPECIAL_KEY_iff)
  have B': "same_bins hs0 hs"
    using access_cases [OF B R(1) _ step] conc_okD(2) [OF ok, of t] t by simp
  have b: "HASH_COMP_IDX ?s ?k = b" "HASH_COMP_IDX hs ?k = b" using R(2) B B' by (simp_all add: same_bins_idx)
  note absent = map_absent [OF k, of ?s, unfolded b(1)] map_absent [OF k, of hs, unfolded b(2)]
  note present = map_present [OF k one, unfolded b(1)] map_present [OF k, of hs, unfolded b(2)]
  have keep: "untouched ?k ?s hs" if "key_at hs = key_at ?s" "val_at hs = val_at ?s"
    using that b by (simp add: untouched_def)
  note kept = untouched_once [OF keep] untouched_map [OF keep k]
  show ?thesis
  proof (cases p)
    case (Look j av)
    then obtain mode k' v where c: "c = Modify mode k' v" using R(4) by (cases c) simp_all
    have j: "j < 8" using Look R(4) fits_bound(5) by blast
    have "hs = ?s" using step Look by (auto simp: Let_def split: if_splits)
    show ?thesis
    proof (cases "key_at ?s b j = ?k")
      case True
      then show ?thesis using step Look kn one present(1) [OF j] c \<open>hs = ?s\<close>
        by (auto intro!: found_fine)
    next
      case False
      then have less: "\<forall>i < j + 1. key_at ?s b i \<noteq> ?k" using kn Look by (auto simp: less_Suc_eq)
      then have "old = None" if "\<not> j + 1 < 8" using kn Look absent(1) that by simp
      with less show ?thesis using step Look kn one c False \<open>hs = ?s\<close>
        by (auto simp: Let_def split: if_splits intro!: after_scan_fine)
    qed
  next
    case (Probe j)
    then obtain mode k' where c: "c = Search mode k'" using R(4) by (cases c) simp_all
    have j: "j < 8" using Probe R(4) fits_bound(6) by blast
    have "hs = ?s" using step Probe by (auto split: if_splits)
    show ?thesis
    proof (cases "key_at ?s b j = ?k")
      case True
      then show ?thesis using step Probe kn one present(1) [OF j] c \<open>hs = ?s\<close>
        by (auto intro!: found_fine)
    next
      case False
      then have less: "\<forall>i < j + 1. key_at ?s b i \<noteq> ?k" using kn Probe by (auto simp: less_Suc_eq)
      then have "old = None" if "\<not> j + 1 < 8" using kn Probe absent(1) that by simp
      with less show ?thesis using step Probe kn one c False \<open>hs = ?s\<close>
        by (auto split: if_splits intro!: missed_fine)
    qed
  next
    case (Overwrite j)
    then obtain mode k' v where c: "c = Modify mode k' v" using R(4) by (cases c) simp_all
    have j: "j < 8" using Overwrite R(4) fits_bound(4) by blast
    have one': "once hs ?k" using one K Overwrite b by (simp add: once_def)
    have key: "key_at hs b j = ?k" using K kn Overwrite by simp
    have "old \<noteq> None" using present(1) [OF j] kn Overwrite by auto
    moreover have "hash_map hs ?k = Some (call_value c)" using present(2) [OF one' j key] V Overwrite by simp
    ultimately show ?thesis using one' step Overwrite kn c by (cases mode) auto
  next
    case (Claim j)
    then have j: "j < 8" using R(4) fits_bound(1) by blast
    have key: "key_at hs b i = ?k \<longleftrightarrow> key_at ?s b i = ?k" for i
      using K Claim R(5,6) by auto
    then have "hash_map hs ?k = None" "once hs ?k"
      using kn Claim absent one b by (simp_all add: once_def)
    moreover have "right c old (Status HASH_BIN_FULL)"
      using kn Claim R(4) by (cases "(c, old, Status HASH_BIN_FULL)" rule: right.cases) (auto simp: may_add_def)
    moreover have "changed c (Status HASH_BIN_FULL) None = None"
      using R(4) Claim by (cases c) simp_all
    ultimately show ?thesis using step Claim kn by (auto split: if_splits)
  next
    case (Store_value j)
    then have "hash_map hs ?k = None" "once hs ?k" using kn absent one b K by (simp_all add: once_def)
    then show ?thesis using step Store_value kn V by auto
  next
    case (Store_key j)
    then have j: "j < 8" using R(4) fits_bound(3) by blast
    have "\<forall>i < 8. key_at ?s b i \<noteq> ?k" using kn Store_key absent(1) by simp
    then have one': "once hs ?k" using K Store_key b by (auto simp: once_def)
    have "hash_map hs ?k = Some (call_value c)"
      using present(2) [OF one' j] K V kn Store_key by simp
    then show ?thesis using one' step Store_key kn by auto
  next
    case Add_count
    then have "right c old (Status 0)"
      using kn R(4) by (cases "(c, old, Status 0)" rule: right.cases) (auto simp: may_add_def)
    moreover have "changed c (Status 0) None = Some (call_value c)"
      using R(4) Add_count by (cases c) simp_all
    ultimately show ?thesis using step Add_count kn kept K V one by auto
  next
    case (Load_value j)
    then have "old = Some (val_at ?s b j)" using kn present(1) [of j] R(4) fits_bound(7) by auto
    then show ?thesis using step Load_value kn one by auto
  next
    case (Recheck j v)
    then have "\<exists>k. c = Search HASH_QUERY k" using R(4) by (cases "(c, p)" rule: pc_fits.cases) simp_all
    then show ?thesis using step Recheck kn one by auto
  next
    case (Clear j)
    then have j: "j < 8" using R(4) fits_bound(9) by blast
    have "key_at hs b i \<noteq> ?k" if "i < 8" for i
      using K kn Clear one b R(5) that j unfolding once_def by auto
    then have "hash_map hs ?k = None" "once hs ?k" using absent(2) b by (simp_all add: once_def)
    moreover have "old \<noteq> None" using kn Clear present(1) [OF j] by auto
    ultimately show ?thesis using step Clear kn by (auto split: if_splits)
  next
    case Sub_count
    then have "\<exists>k. c = Search HASH_DELETE k" using R(4) by (cases "(c, p)" rule: pc_fits.cases) simp_all
    then show ?thesis using step Sub_count kn kept K V one by auto
  qed
qed

section \<open>All keys\<close>

definition keys_ok :: "hash_sys \<Rightarrow> conc \<Rightarrow> (call \<times> result) list \<Rightarrow> bool" where
  "keys_ok hs0 s h \<longleftrightarrow> history_right (hash_map hs0) h \<and>
    (\<forall>t u c b p c' b' p'. threads s t = Running c b p \<longrightarrow> threads s u = Running c' b' p' \<longrightarrow> call_key c' = call_key c \<longrightarrow> u = t) \<and>
    (\<forall>k. \<not> IS_SPECIAL_KEY k \<longrightarrow> once (shared s) k) \<and>
    (\<forall>t c b p. threads s t = Running c b p \<longrightarrow> knows (shared s) (history_map (hash_map hs0) h (call_key c)) c b p) \<and>
    (\<forall>k. \<not> IS_SPECIAL_KEY k \<longrightarrow> (\<forall>t c b p. threads s t = Running c b p \<longrightarrow> call_key c \<noteq> k) \<longrightarrow>
      hash_map (shared s) k = history_map (hash_map hs0) h k)"

lemma keys_okI:
  assumes "history_right (hash_map hs0) h"
    and "\<And>t u c b p c' b' p'. threads s t = Running c b p \<Longrightarrow> threads s u = Running c' b' p' \<Longrightarrow> call_key c' = call_key c \<Longrightarrow> u = t"
    and "\<And>k. \<not> IS_SPECIAL_KEY k \<Longrightarrow> once (shared s) k"
    and "\<And>t c b p. threads s t = Running c b p \<Longrightarrow> knows (shared s) (history_map (hash_map hs0) h (call_key c)) c b p"
    and "\<And>k. \<not> IS_SPECIAL_KEY k \<Longrightarrow> (\<And>t c b p. threads s t = Running c b p \<Longrightarrow> call_key c \<noteq> k) \<Longrightarrow>
      hash_map (shared s) k = history_map (hash_map hs0) h k"
  shows "keys_ok hs0 s h"
  using assms unfolding keys_ok_def by blast

lemma keys_okD:
  assumes "keys_ok hs0 s h"
  shows "history_right (hash_map hs0) h"
    and "threads s t = Running c b p \<Longrightarrow> threads s u = Running c' b' p' \<Longrightarrow> call_key c' = call_key c \<Longrightarrow> u = t"
    and "\<not> IS_SPECIAL_KEY k \<Longrightarrow> once (shared s) k"
    and "threads s t = Running c b p \<Longrightarrow> knows (shared s) (history_map (hash_map hs0) h (call_key c)) c b p"
    and "\<not> IS_SPECIAL_KEY k \<Longrightarrow> (\<And>t c b p. threads s t = Running c b p \<Longrightarrow> call_key c \<noteq> k) \<Longrightarrow>
      hash_map (shared s) k = history_map (hash_map hs0) h k"
  using assms unfolding keys_ok_def by blast+

lemma begin_keys:
  assumes "hash_ok hs0"
  shows "keys_ok hs0 (begin_conc hs0) []"
proof -
  have "once hs0 k" if "\<not> IS_SPECIAL_KEY k" for k
    using bin_okD [OF hash_okD(3) [OF assms hash_idx_bound [OF assms]]] that
    unfolding once_def key_at_def IS_SPECIAL_KEY_iff by metis
  then show ?thesis by (simp add: keys_ok_def begin_conc_def)
qed

lemma same_call:
  assumes "thread_step c b p hs = (hs', th)"
  obtains p' where "th = Running c b p'" | r where "th = Returned c r"
proof -
  have "(\<exists>p'. found_key c b j = Running c b p') \<or> (\<exists>r. found_key c b j = Returned c r)" for j
    by (cases "(c, b, j)" rule: found_key.cases) simp_all
  moreover have "(\<exists>p'. after_scan c b av = Running c b p') \<or> (\<exists>r. after_scan c b av = Returned c r)" for av
    by (cases "(c, b, av)" rule: after_scan.cases) simp_all
  moreover have "\<exists>r. missed c = Returned c r" by (cases c rule: missed.cases) simp_all
  ultimately have "(\<exists>p'. th = Running c b p') \<or> (\<exists>r. th = Returned c r)"
    using assms by (cases p) (auto simp: Let_def split: if_splits)
  then show ?thesis using that by blast
qed

lemma history_noted:
  "history_map m (noted th h) k = (case th of Returned c r \<Rightarrow>
      if k = call_key c then changed c r (history_map m h k) else history_map m h k | _ \<Rightarrow> history_map m h k)"
  by (cases th) simp_all

lemma access_keys:
  assumes h: "hash_ok hs0" and ok: "conc_ok hs0 s" and kk: "keys_ok hs0 s h" and t: "threads s t = Running c b p"
    and step: "thread_step c b p (shared s) = (hs, th)"
  shows "keys_ok hs0 (s\<lparr>shared := hs, threads := (threads s)(t := th)\<rparr>) (noted th h)" (is "keys_ok hs0 ?s _")
proof -
  note R = running_bound [OF h ok t]
  let ?m = "history_map (hash_map hs0) h"
  have special: "\<not> IS_SPECIAL_KEY (call_key c')" if "threads s u = Running c' b' p'" for u c' b' p'
    using running_bound(5,6) [OF h ok that] by (auto simp: IS_SPECIAL_KEY_iff)
  have kn: "knows (shared s) (?m (call_key c)) c b p" and one: "once (shared s) (call_key c)"
    using keys_okD(4) [OF kk t] keys_okD(3) [OF kk special [OF t]] by blast+
  note F = access_fine [OF h ok t step kn one]
  note E = access_elsewhere [OF h ok t step kn]
  have other: "call_key c' \<noteq> call_key c" if "threads s u = Running c' b' p'" "u \<noteq> t" for u c' b' p'
    using keys_okD(2) [OF kk t that(1)] that(2) by blast
  have th: "c' = c \<and> b' = b" if "th = Running c' b' p'" for c' b' p'
    by (rule same_call [OF step]) (use that in auto)
  have ret: "c' = c" if "th = Returned c' r" for c' r
    by (rule same_call [OF step]) (use that in auto)
  have old: "history_map (hash_map hs0) (noted th h) k = ?m k" if "k \<noteq> call_key c" for k
    using that ret by (cases th) (auto simp: history_noted)
  have 1: "history_right (hash_map hs0) (noted th h)"
    using keys_okD(1) [OF kk] F ret by (cases th) auto
  have 2: "u = v" if "threads ?s v = Running c1 b1 p1" "threads ?s u = Running c2 b2 p2" "call_key c2 = call_key c1"
    for u v c1 b1 p1 c2 b2 p2
  proof -
    consider "u = t" "v = t" | "u \<noteq> t" "v = t" | "u = t" "v \<noteq> t" | "u \<noteq> t" "v \<noteq> t" by blast
    then show ?thesis
    proof cases
      case 2
      then show ?thesis using that th [of c1 b1 p1] other [of u c2 b2 p2] by simp
    next
      case 3
      then show ?thesis using that th [of c2 b2 p2] other [of v c1 b1 p1] by simp
    next
      case 4
      then show ?thesis using that keys_okD(2) [OF kk, of v c1 b1 p1 u c2 b2 p2] by simp
    qed simp
  qed
  have 3: "once hs k" if "\<not> IS_SPECIAL_KEY k" for k
    using F untouched_once [OF E [OF _ that]] keys_okD(3) [OF kk that] by (cases "k = call_key c") simp_all
  have 4: "knows hs (history_map (hash_map hs0) (noted th h) (call_key c')) c' b' p'"
    if u: "threads ?s u = Running c' b' p'" for u c' b' p'
  proof (cases "u = t")
    case True
    then have "th = Running c' b' p'" using u by simp
    then show ?thesis using F th by simp
  next
    case False
    then have u': "threads s u = Running c' b' p'" using u by simp
    note RU = running_bound [OF h ok u']
    have "knows (shared s) (?m (call_key c')) c' b' p'" by (rule keys_okD(4) [OF kk u'])
    moreover have "b' = HASH_COMP_IDX (shared s) (call_key c')"
      using RU(2) conc_okD(1) [OF ok] by (simp add: same_bins_idx)
    ultimately show ?thesis
      using knows_untouched [OF E [OF other [OF u' False] special [OF u']] special [OF u']]
        access_not_claimed [OF h ok t step kn False] u' old [OF other [OF u' False]] by metis
  qed
  have 5: "hash_map hs k = history_map (hash_map hs0) (noted th h) k"
    if k: "\<not> IS_SPECIAL_KEY k" and idle: "\<And>u c' b' p'. threads ?s u = Running c' b' p' \<Longrightarrow> call_key c' \<noteq> k" for k
  proof (cases "k = call_key c")
    case True
    then have "\<And>p'. th \<noteq> Running c b p'" using idle [of t] by auto
    then obtain r where "th = Returned c r" using same_call [OF step] by metis
    then show ?thesis using F True by simp
  next
    case False
    have "call_key c' \<noteq> k" if "threads s u = Running c' b' p'" for u c' b' p'
      using idle [of u] that t False by (cases "u = t") auto
    then have "hash_map (shared s) k = ?m k" by (rule keys_okD(5) [OF kk k])
    then show ?thesis using untouched_map [OF E [OF False k] k] old [OF False] by simp
  qed
  show ?thesis by (rule keys_okI) (use 1 2 3 4 5 in simp_all)
qed

lemma keyed_ok:
  assumes "keyed hs0 s h" "hash_ok hs0"
  shows "keys_ok hs0 s h"
  using assms
proof (induction rule: keyed.induct)
  case kinit
  then show ?case by (rule begin_keys)
next
  case (kinvoke s h t c)
  let ?s = "s\<lparr>threads := (threads s)(t := start_call (shared s) c), calls := c # calls s\<rparr>"
  obtain b p where r: "start_call (shared s) c = Running c b p" by (cases c) simp_all
  note kk = kinvoke.IH [OF kinvoke.prems]
  have c: "\<not> IS_SPECIAL_KEY (call_key c)" using kinvoke.hyps(3) by (cases c) simp_all
  have new: "call_key c' \<noteq> call_key c" if "threads s u = Running c' b' p'" for u c' b' p'
    using kinvoke.hyps(4) that unfolding apart_def by blast
  have m: "hash_map (shared s) (call_key c) = history_map (hash_map hs0) h (call_key c)"
    using keys_okD(5) [OF kk c] new by blast
  then have "fine (shared s) (history_map (hash_map hs0) h (call_key c)) (start_call (shared s) c)"
    using kinvoke.hyps(4) by (intro start_fine) (auto simp: apart_def)
  then have start: "knows (shared s) (history_map (hash_map hs0) h (call_key c)) c b p" by (simp add: r)
  have run: "u = t \<and> c' = c \<and> b' = b \<and> p' = p \<or> u \<noteq> t \<and> threads s u = Running c' b' p'"
    if "threads ?s u = Running c' b' p'" for u c' b' p'
    using that r by (cases "u = t") auto
  show ?case
  proof (rule keys_okI)
    fix u v c1 b1 p1 c2 b2 p2
    assume "threads ?s v = Running c1 b1 p1" "threads ?s u = Running c2 b2 p2" "call_key c2 = call_key c1"
    with run [of v c1 b1 p1] run [of u c2 b2 p2] new keys_okD(2) [OF kk, of v c1 b1 p1 u c2 b2 p2] show "u = v" by metis
  next
    fix k assume k: "\<not> IS_SPECIAL_KEY k" and idle: "\<And>u c' b' p'. threads ?s u = Running c' b' p' \<Longrightarrow> call_key c' \<noteq> k"
    have "call_key c' \<noteq> k" if "threads s u = Running c' b' p'" for u c' b' p'
      using idle [of u c' b' p'] that kinvoke.hyps(2) by (cases "u = t") auto
    then show "hash_map (shared ?s) k = history_map (hash_map hs0) h k" using keys_okD(5) [OF kk k] by simp
  next
    fix u c' b' p' assume "threads ?s u = Running c' b' p'"
    from run [OF this] start keys_okD(4) [OF kk, of u c' b' p']
    show "knows (shared ?s) (history_map (hash_map hs0) h (call_key c')) c' b' p'" by auto
  qed (use keys_okD(1,3) [OF kk] in simp_all)
next
  case (kaccess s h t c b p hs th)
  then show ?case using access_keys hreach_ok [OF keyed_hreach] by blast
next
  case (kleave s h t c r)
  let ?s = "s\<lparr>threads := (threads s)(t := Quiet)\<rparr>"
  have same: "threads ?s u = Running c' b' p' \<longleftrightarrow> threads s u = Running c' b' p'" for u c' b' p'
    using kleave.hyps(2) by simp
  have "shared ?s = shared s" by simp
  then show ?case using kleave.IH [OF kleave.prems] unfolding keys_ok_def same by simp
qed

section \<open>Schedules with a history\<close>

text \<open>Runs of the threads \<open>ts\<close>; the others are quiet.\<close>

fun apart_from :: "call \<Rightarrow> thread \<Rightarrow> bool" where
  "apart_from c (Running c' b p) \<longleftrightarrow> call_key c' \<noteq> call_key c"
| "apart_from c th \<longleftrightarrow> True"

fun apart_in :: "nat list \<Rightarrow> conc \<Rightarrow> call \<Rightarrow> bool" where
  "apart_in ts s (Nocheck k v) \<longleftrightarrow> list_all (\<lambda>u. apart_from (Nocheck k v) (threads s u)) ts \<and> hash_map (shared s) k = None"
| "apart_in ts s c \<longleftrightarrow> list_all (\<lambda>u. apart_from c (threads s u)) ts"

fun record_run :: "nat list \<Rightarrow> (nat \<times> call option) list \<Rightarrow> conc \<times> (call \<times> result) list \<Rightarrow> (conc \<times> (call \<times> result) list) option" where
  "record_run ts [] x = Some x"
| "record_run ts ((t, Some c) # es) (s, h) =
    (if t \<in> set ts \<and> is_quiet (threads s t) \<and> callable c \<and> apart_in ts s c then record_run ts es (play1 (t, Some c) s, h) else None)"
| "record_run ts ((t, None) # es) (s, h) =
    (case threads s t of
       Running c b p \<Rightarrow> record_run ts es (play1 (t, None) s, noted (snd (thread_step c b p (shared s))) h)
     | th \<Rightarrow> record_run ts es (play1 (t, None) s, h))"

lemma apart_inD:
  assumes "apart_in ts s c" "\<And>u. u \<notin> set ts \<Longrightarrow> threads s u = Quiet"
  shows "apart s c"
proof -
  have "list_all (\<lambda>u. apart_from c (threads s u)) ts \<and> (\<forall>k v. c = Nocheck k v \<longrightarrow> hash_map (shared s) k = None)"
    using assms(1) by (cases c) simp_all
  moreover have "u \<in> set ts" if "threads s u = Running c' b p" for u c' b p
    using assms(2) [of u] that by auto
  ultimately show ?thesis unfolding apart_def list_all_iff by (metis apart_from.simps(1))
qed

lemma record_run_keeps:
  assumes "record_run ts es (s, h) = Some (s', h')" "keyed hs0 s h" "\<And>u. u \<notin> set ts \<Longrightarrow> threads s u = Quiet"
  shows "keyed hs0 s' h' \<and> (\<forall>u. u \<notin> set ts \<longrightarrow> threads s' u = Quiet)"
  using assms
proof (induction ts es "(s, h)" arbitrary: s h rule: record_run.induct)
  case (2 ts t c es s h)
  then have c: "t \<in> set ts" "threads s t = Quiet" "callable c" "apart_in ts s c"
    "record_run ts es (play1 (t, Some c) s, h) = Some (s', h')"
    by (auto simp: is_quiet_iff split: if_splits)
  have "keyed hs0 (play1 (t, Some c) s) h"
    using kinvoke [OF 2(3) c(2,3) apart_inD [OF c(4) 2(4)]] by simp
  moreover have "threads (play1 (t, Some c) s) u = Quiet" if "u \<notin> set ts" for u
    using that 2(4) [OF that] c(1) by auto
  ultimately show ?case using 2(1) [OF _ c(5)] c is_quiet_iff by blast
next
  case (3 ts t es s h)
  show ?case
  proof (cases "threads s t")
    case (Running c b p)
    obtain hs th where st: "thread_step c b p (shared s) = (hs, th)" by fastforce
    have "t \<in> set ts" using 3(6) [of t] Running by auto
    moreover have "keyed hs0 (play1 (t, None) s) (noted th h)" using kaccess [OF 3(5) Running st] Running st by simp
    moreover have "threads (play1 (t, None) s) u = Quiet" if "u \<notin> set ts" for u
      using that 3(6) [OF that] \<open>t \<in> set ts\<close> Running st by auto
    moreover have "record_run ts es (play1 (t, None) s, noted th h) = Some (s', h')"
      using 3(4) Running st by simp
    ultimately show ?thesis using 3(2) [OF Running] st by simp
  next
    case Quiet
    then show ?thesis using 3(1) 3(4-6) by simp
  next
    case (Returned c r)
    then have "keyed hs0 (play1 (t, None) s) h" using kleave [OF 3(5) Returned] by simp
    then show ?thesis using 3(3) 3(4,6) Returned by simp
  qed
qed simp

lemma record_run_keyed:
  assumes "record_run ts es (s, h) = Some (s', h')" "keyed hs0 s h" "\<And>u. u \<notin> set ts \<Longrightarrow> threads s u = Quiet"
  shows "keyed hs0 s' h'" "u \<notin> set ts \<Longrightarrow> threads s' u = Quiet"
  using record_run_keeps [OF assms] by blast+

text \<open>Two writers, for different keys of the same bin, step by step in turn, then a query of one while the
  other is deleted.\<close>

definition turns :: "nat \<Rightarrow> nat \<Rightarrow> nat \<Rightarrow> (nat \<times> call option) list" where
  "turns n t u = concat (replicate n [(t, None), (u, None)])"

definition keyed_run :: "(nat \<times> call option) list" where
  "keyed_run = [(0, Some (Modify INSERT 2 10)), (1, Some (Modify INSERT 3 30))] @ turns 14 0 1 @
    [(0, Some (Search HASH_QUERY 2)), (1, Some (Search HASH_DELETE 3))] @ turns 5 0 1"

lemma keyed_run_end:
  "map_option snd (record_run [0, 1] keyed_run (begin_conc one_bin, [])) =
    Some [(Search HASH_DELETE 3, Removed True), (Search HASH_QUERY 2, Answer (Some 10)),
      (Modify INSERT 3 30, Status 0), (Modify INSERT 2 10, Status 0)]"
  by code_simp

section \<open>The counter\<close>

text \<open>At rest every slot with a key is the only one with its key, so slots are counted where keys are meant.\<close>

lemma keyed_slots:
  assumes "hash_ok hs0" "keyed hs0 s h" "\<And>t c b p. threads s t \<noteq> Running c b p"
  shows "bij_betw (\<lambda>(b, j). key_at (shared s) b j) (live_slots hs0 (shared s)) (dom (hash_map (shared s)))"
proof -
  let ?hs = "shared s"
  have C: "conc_ok hs0 s" using hreach_ok [OF keyed_hreach [OF assms(2)] assms(1)] .
  note idx = same_bins_idx [OF conc_okD(1) [OF C]]
  have home: "b = HASH_COMP_IDX ?hs (key_at ?hs b j)" if "(b, j) \<in> live_slots hs0 ?hs" for b j
  proof -
    have "HASH_COMP_IDX hs0 (key_at ?hs b j) = b" using conc_okD(4) [OF C] that unfolding placed_ok_def live_slots_def by blast
    then show ?thesis by (simp add: idx)
  qed
  have one: "once ?hs k" if "\<not> IS_SPECIAL_KEY k" for k using keys_okD(3) [OF keyed_ok [OF assms(2,1)] that] .
  have "inj_on (\<lambda>(b, j). key_at ?hs b j) (live_slots hs0 ?hs)"
  proof (rule inj_onI, clarify)
    fix b j b' j'
    assume l: "(b, j) \<in> live_slots hs0 ?hs" "(b', j') \<in> live_slots hs0 ?hs" and e: "key_at ?hs b j = key_at ?hs b' j'"
    have b: "b' = b" using home [OF l(1)] home [OF l(2)] e by simp
    have "once ?hs (key_at ?hs b j)" using one l(1) by (simp add: live_slots_def)
    moreover have "j < 8" "j' < 8" using l by (simp_all add: live_slots_def)
    ultimately show "b = b' \<and> j = j'" using home [OF l(1)] e b unfolding once_def by metis
  qed
  moreover have "(\<lambda>(b, j). key_at ?hs b j) ` live_slots hs0 ?hs = dom (hash_map ?hs)"
  proof (intro equalityI subsetI)
    fix k assume "k \<in> (\<lambda>(b, j). key_at ?hs b j) ` live_slots hs0 ?hs"
    then obtain b j where l: "(b, j) \<in> live_slots hs0 ?hs" "k = key_at ?hs b j" by auto
    then have "\<not> IS_SPECIAL_KEY k" "j < 8" by (simp_all add: live_slots_def)
    then show "k \<in> dom (hash_map ?hs)" using map_absent [of k ?hs] home [OF l(1)] l(2) by auto
  next
    fix k assume k: "k \<in> dom (hash_map ?hs)"
    then have n: "\<not> IS_SPECIAL_KEY k" by (auto simp: hash_map_def)
    then obtain j where j: "j < 8" "key_at ?hs (HASH_COMP_IDX ?hs k) j = k" using map_absent [OF n, of ?hs] k by auto
    have "HASH_COMP_IDX ?hs k < unat (h_size hs0)" using hash_idx_bound [OF assms(1)] idx by simp
    then have "(HASH_COMP_IDX ?hs k, j) \<in> live_slots hs0 ?hs" using j n by (simp add: live_slots_def)
    with j(2) show "k \<in> (\<lambda>(b, j). key_at ?hs b j) ` live_slots hs0 ?hs" by (auto intro!: image_eqI)
  qed
  ultimately show ?thesis by (simp add: bij_betw_def)
qed

lemma keyed_run_quiet:
  "case record_run [0, 1] keyed_run (begin_conc one_bin, []) of
     None \<Rightarrow> False
   | Some (s, h) \<Rightarrow> map (threads s) [0, 1] = [Quiet, Quiet] \<and> h_count (shared s) = 1"
  by code_simp

section \<open>Properties\<close>

text \<open>C24. Linearizability: as long as no two calls for one key overlap (and \<open>hash_insert_nocheck\<close> is
  called only for keys the table does not have), calls for different keys may be interleaved in any way. Every call has a
  result that the sequential map gives, in the order in which the calls return, and the table has the
  value of that map for every key that no call is working on.\<close>

theorem calls_on_keys_linearizable:
  assumes "hash_ok hs0" "keyed hs0 s h"
  shows "history_right (hash_map hs0) h \<and>
    (\<forall>k. \<not> IS_SPECIAL_KEY k \<longrightarrow> (\<forall>t c b p. threads s t = Running c b p \<longrightarrow> call_key c \<noteq> k) \<longrightarrow>
      hash_map (shared s) k = history_map (hash_map hs0) h k)"
  using keys_okD(1,5) [OF keyed_ok [OF assms(2,1)]] by blast

theorem calls_on_keys_linearizable_witness:
  "\<exists>s h. record_run [0, 1] keyed_run (begin_conc one_bin, []) = Some (s, h) \<and> length h = 4 \<and>
    history_right (hash_map one_bin) h"
proof -
  from keyed_run_end obtain s h where r: "record_run [0, 1] keyed_run (begin_conc one_bin, []) = Some (s, h)" "length h = 4"
    by fastforce
  have "keyed one_bin s h" by (rule record_run_keyed(1) [OF r(1) kinit]) (simp add: begin_conc_def)
  from calls_on_keys_linearizable [OF one_bin_ok(1) this] r show ?thesis by blast
qed

text \<open>C26. Whenever no call is under way, the counter of the table is the number of slots with a key, however
  the calls before were interleaved, and no slot is left marked occupied. If no two of the calls for one key overlapped, it
  is also the number of keys of the table. (Two overlapping insertions of one key can fill two slots with
  it, \<open>concurrent_inserts_duplicate\<close>; the counter then counts both.)\<close>

theorem count_at_rest:
  assumes "hash_ok hs0" "hreach A hs0 s" "\<And>t c b p. threads s t \<noteq> Running c b p"
  shows "h_count (shared s) = of_nat (card (live_slots hs0 (shared s))) \<and>
    (\<forall>b j. b < unat (h_size hs0) \<longrightarrow> j < 8 \<longrightarrow> key_at (shared s) b j \<noteq> OCCUPIED_FLAG) \<and>
    (keyed hs0 s h \<longrightarrow> h_count (shared s) = of_nat (card (dom (hash_map (shared s)))))"
  using slots_at_rest [OF assms] bij_betw_same_card [OF keyed_slots [OF assms(1) _ assms(3), of h]] by simp

theorem count_at_rest_witness:
  "\<exists>s h. record_run [0, 1] keyed_run (begin_conc one_bin, []) = Some (s, h) \<and> of_nat (card (dom (hash_map (shared s)))) = (1 :: u64)"
proof -
  obtain s h where r: "record_run [0, 1] keyed_run (begin_conc one_bin, []) = Some (s, h)"
    "threads s 0 = Quiet" "threads s 1 = Quiet" "h_count (shared s) = 1"
    using keyed_run_quiet by (auto split: option.splits)
  have k: "keyed one_bin s h" by (rule record_run_keyed(1) [OF r(1) kinit]) (simp add: begin_conc_def)
  have "threads s u = Quiet" if "u \<notin> set [0, 1]" for u
    by (rule record_run_keyed(2) [OF r(1) kinit _ that]) (simp add: begin_conc_def)
  then have "threads s u = Quiet" for u using r(2,3) by (cases "u = 0"; cases "u = 1") auto
  then have "h_count (shared s) = of_nat (card (dom (hash_map (shared s))))"
    using count_at_rest [OF one_bin_ok(1) keyed_hreach [OF k], of h] k by fastforce
  then have "of_nat (card (dom (hash_map (shared s)))) = (1 :: u64)" using r(4) by simp
  with r(1) show ?thesis by blast
qed

end
