(* ===== verification/Sequential.thy ===== *)
theory Sequential
  imports Hetero
begin

text \<open>
  The sequential variant of the index, \<open>src/sequential\<close>, where its functions differ from those of \<open>src/src\<close>
  in more than plain loads and stores for atomic ones. \<open>USE_CM\<close> is not defined in its \<open>common.h\<close>, so no
  sketch is counted, nothing sinks or floats, and the fields of the sketch stay unused. The functions of
  \<open>queue.c\<close>, \<open>murmur3.c\<close> and those of \<open>art.c\<close> that insert, delete and walk are the same state changes
  as in \<open>Queue\<close>, \<open>Murmur3\<close> and \<open>ART_Tree\<close>.
\<close>

section \<open>hash.c\<close>

definition seq_hash_construct :: "(nat \<Rightarrow> bool) \<Rightarrow> u32 \<Rightarrow> u64 \<Rightarrow> u32 \<Rightarrow> hash_sys option" where
  "seq_hash_construct alloc rnd sz seed =
    (if \<not> alloc 32 then None
     else if sz AND (sz - 1) \<noteq> 0 then None
     else if alloc (unat sz * 128) then
       Some \<lparr>h_seed = (if seed = 0 then rnd else seed), h_size = sz, h_count = 0,
         entries = replicate (unat sz) (replicate BIN_CAPACITY empty_entry)\<rparr>
     else None)"

text \<open>The loops of both ways to double are those of \<open>Hash\<close>.\<close>

definition seq_hash_expand_copy :: "(nat \<Rightarrow> bool) \<Rightarrow> u32 \<Rightarrow> hash_sys \<Rightarrow> hash_sys option" where
  "seq_hash_expand_copy alloc rnd hs =
    (case seq_hash_construct alloc rnd (h_size hs * 2) (h_seed hs) of
       None \<Rightarrow> None
     | Some new_h \<Rightarrow>
         let bins = map (expand_bin hs) (entries hs)
         in Some (new_h\<lparr>entries := map fst bins @ map (fst \<circ> snd) bins, h_count := h_count hs\<rparr>))"

definition seq_hash_expand_reinsert :: "(nat \<Rightarrow> bool) \<Rightarrow> u32 \<Rightarrow> hash_sys \<Rightarrow> hash_sys option" where
  "seq_hash_expand_reinsert alloc rnd hs =
    (case seq_hash_construct alloc rnd (h_size hs * 2) (h_seed hs) of
       None \<Rightarrow> None
     | Some new_h \<Rightarrow>
         Some (fold (\<lambda>e new_h. if entry_key e \<noteq> 0
             then fst (hash_insert_nocheck_nosafe new_h (entry_key e) (entry_value e)) else new_h)
           (concat (entries hs)) new_h))"

text \<open>The scan without the sketch: it stops at the key or gives the first empty slot.\<close>

fun seq_scan_bin :: "u64 \<Rightarrow> nat \<Rightarrow> entry list \<Rightarrow> nat option \<Rightarrow> scan" where
  "seq_scan_bin key j [] available = Scanned available None"
| "seq_scan_bin key j (e # es) available =
    (if entry_key e = key then Found j
     else seq_scan_bin key (j + 1) es (if entry_key e = EMPTY_FLAG \<and> available = None then Some j else available))"

definition seq_hash_modify :: "hash_sys \<Rightarrow> u64 \<Rightarrow> u64 \<Rightarrow> modify_mode \<Rightarrow> hash_sys \<times> int" where
  "seq_hash_modify hs key v mode =
    (let idx = HASH_IDX hs (MurmurHash3_x64_128 (key_bytes key) KEY_LEN (h_seed hs))
     in case seq_scan_bin key 0 (take BIN_CAPACITY (entries hs ! idx)) None of
          Found j \<Rightarrow>
            if mode = STRICT_INSERT then (hs, ELEMENT_ALREADY_EXISTS)
            else (set_entry hs idx j ((entries hs ! idx ! j)\<lparr>entry_value := v\<rparr>), 0)
        | Scanned available i_min \<Rightarrow>
            if mode = STRICT_UPDATE then (hs, ELEMENT_NOT_FOUND)
            else (case available of
                None \<Rightarrow> (hs, HASH_BIN_FULL)
              | Some j \<Rightarrow> ((set_entry hs idx j \<lparr>entry_key = key, entry_value = v\<rparr>)\<lparr>h_count := h_count hs + 1\<rparr>, 0)))"

text \<open>The test of \<open>hash_insert_nocheck\<close> compares the address of the key field with \<open>EMPTY_FLAG\<close>, not the key. \<open>base\<close>
  is the address of the bins; an entry takes 16 bytes and a bin 128.\<close>

definition key_field :: "nat \<Rightarrow> nat \<Rightarrow> nat \<Rightarrow> nat" where
  "key_field base idx j = base + 128 * idx + 16 * j"

definition seq_hash_insert_nocheck :: "nat \<Rightarrow> hash_sys \<Rightarrow> u64 \<Rightarrow> u64 \<Rightarrow> hash_sys \<times> int" where
  "seq_hash_insert_nocheck base hs key v =
    (let idx = HASH_COMP_IDX hs key
     in case first_idx BIN_CAPACITY (\<lambda>j. key_field base idx j = 0) of
          Some j \<Rightarrow> ((set_entry hs idx j \<lparr>entry_key = key, entry_value = v\<rparr>)\<lparr>h_count := h_count hs + 1\<rparr>, 0)
        | None \<Rightarrow> (hs, HASH_BIN_FULL))"

definition seq_hash_search :: "hash_sys \<Rightarrow> u64 \<Rightarrow> search_mode \<Rightarrow> hash_sys \<times> u64 option \<times> bool" where
  "seq_hash_search hs key mode =
    (let idx = HASH_IDX hs (MurmurHash3_x64_128 (key_bytes key) KEY_LEN (h_seed hs))
     in case first_idx BIN_CAPACITY (\<lambda>j. entry_key (entries hs ! idx ! j) = key) of
          None \<Rightarrow> (hs, None, False)
        | Some j \<Rightarrow>
            if mode = HASH_QUERY then (hs, Some (entry_value (entries hs ! idx ! j)), True)
            else ((set_entry hs idx j ((entries hs ! idx ! j)\<lparr>entry_key := EMPTY_FLAG\<rparr>))\<lparr>h_count := h_count hs - 1\<rparr>, None, True))"

section \<open>art.c without floats\<close>

definition seq_art_search :: "art_tree \<Rightarrow> u64 \<Rightarrow> u64 option" where
  "seq_art_search t key =
    (case art_find (root t) key of
       None \<Rightarrow> None
     | Some loc \<Rightarrow> (case loc_hit loc of InLeaf l \<Rightarrow> Some (entry_value l) | InBuffer i e \<Rightarrow> Some (entry_value e)))"

text \<open>The tree afterwards and whether the returned pointer is not \<open>NULL\<close>; for a leaf it is the old value.\<close>

definition seq_art_update :: "art_tree \<Rightarrow> u64 \<Rightarrow> u64 \<Rightarrow> art_tree \<times> bool" where
  "seq_art_update t key v =
    (case art_find (root t) key of
       None \<Rightarrow> (t, False)
     | Some loc \<Rightarrow>
         (case loc_hit loc of
            InLeaf l \<Rightarrow>
              (t\<lparr>root := put_at (root t) (loc_path loc) (with_leaf v (node_at (root t) (loc_path loc)))\<rparr>, entry_value l \<noteq> 0)
          | InBuffer i e \<Rightarrow> (t\<lparr>root := store_value (root t) (loc_path loc) i v\<rparr>, True)))"

section \<open>data_sketch.c\<close>

text \<open>The counters are allocated in blocks of 64 bytes, as many as fit into the size they need.\<close>

definition seq_sketch_construct :: "(nat \<Rightarrow> bool) \<Rightarrow> u32 \<Rightarrow> u32 \<Rightarrow> u32 \<Rightarrow> u32 \<Rightarrow> sketch_mode \<Rightarrow> sketch option" where
  "seq_sketch_construct alloc rnd w d seed mode =
    (if \<not> alloc 24 \<or> w AND (w - 1) \<noteq> 0 then None
     else
       let sk = \<lparr>width = w, depth = d, sk_seed = (if seed = 0 then rnd else 0), shift = 0, counts = []\<rparr>
       in if mode = BLOOM_FILTER \<and> w \<ge> 32 then
            (if alloc (unat (w div 32) * 4) then Some (sk\<lparr>counts := replicate (unat (w div 32)) 0\<rparr>) else None)
          else if mode = COUNT_MIN then
            (let s = of_nat (ctz32 w); blocks = unat (d * w) * 4 div 64
             in if s * d > 128 then None
                else if alloc (blocks * 64) then Some (sk\<lparr>shift := s, counts := replicate (blocks * 16) 0\<rparr>) else None)
          else None)"

section \<open>hetero.c\<close>

definition seq_index_construct :: "(nat \<Rightarrow> bool) \<Rightarrow> u32 \<Rightarrow> sketch \<Rightarrow> u64 \<Rightarrow> u64 \<Rightarrow> index_sys option" where
  "seq_index_construct alloc rnd no_sketch hash_size seed =
    (if \<not> alloc 64 then None
     else case seq_hash_construct alloc rnd hash_size (ucast seed) of
       None \<Rightarrow> None
     | Some hs \<Rightarrow>
         if \<not> alloc 24 then None
         else Some \<lparr>has_special_key = [0, 0], special_key_val = [0, 0], cm = no_sketch, hash = hs, tree = art_tree_init\<rparr>)"

text \<open>\<open>addr\<close> gives the address of the bins of a table.\<close>

definition seq_compact_slot ::
  "(hash_sys \<Rightarrow> nat) \<Rightarrow> rat \<Rightarrow> nat list \<Rightarrow> nat \<Rightarrow> index_sys \<times> nat \<Rightarrow> index_sys \<times> nat" where
  "seq_compact_slot addr max_load_factor path i = (\<lambda>(ind, cf).
    let e = buffer_of (node_at (root (tree ind)) path) ! i
    in if IS_SPECIAL_KEY (entry_key e) then (ind, cf)
       else if cf < 3 \<and> load_factor_below (hash ind) max_load_factor then
         (case seq_hash_insert_nocheck (addr (hash ind)) (hash ind) (entry_key e) (entry_value e) of (hs, st) \<Rightarrow>
            let ind = ind\<lparr>hash := hs\<rparr>
            in if st = 0 then (clear_buffer path i ind, 0) else (compact_lift path i e ind, cf + 1))
       else (compact_lift path i e ind, cf))"

definition seq_compact_node ::
  "(hash_sys \<Rightarrow> nat) \<Rightarrow> rat \<Rightarrow> nat list \<Rightarrow> index_sys \<Rightarrow> nat \<Rightarrow> index_sys \<times> nat" where
  "seq_compact_node addr max_load_factor path ind cf =
    fold (seq_compact_slot addr max_load_factor path) [0..<BUF_LEN] (ind, cf)"

partial_function (option) seq_compact_loop ::
  "(hash_sys \<Rightarrow> nat) \<Rightarrow> rat \<Rightarrow> nat list queue \<Rightarrow> index_sys \<Rightarrow> nat \<Rightarrow> index_sys option" where
  "seq_compact_loop addr max_load_factor q ind cf =
    (if queue_empty q then Some ind
     else case queue_pop q of
       (None, q) \<Rightarrow> None
     | (Some path, q) \<Rightarrow>
         (case node_at (root (tree ind)) path of
            None \<Rightarrow> None
          | Some (Leaf l) \<Rightarrow> seq_compact_loop addr max_load_factor q ind cf
          | Some (Inner h ch) \<Rightarrow>
              (case seq_compact_node addr max_load_factor path ind cf of (ind, cf) \<Rightarrow>
                 if buffer_count (tree ind) = 0 then Some ind
                 else Option.bind (push_children ch path [0..<n_children ch] q)
                   (\<lambda>q. seq_compact_loop addr max_load_factor q ind cf))))"

declare seq_compact_loop.simps [code]

definition seq_index_compact :: "(nat \<Rightarrow> bool) \<Rightarrow> (hash_sys \<Rightarrow> nat) \<Rightarrow> index_sys \<Rightarrow> rat \<Rightarrow> index_sys option" where
  "seq_index_compact alloc addr ind max_load_factor =
    Option.bind (queue_construct alloc (unat (ucast (drop_bit 4 (h_size (hash ind))) :: u32)))
      (\<lambda>q. Option.bind (queue_push q (if root (tree ind) = None then None else Some []))
        (\<lambda>q. seq_compact_loop addr max_load_factor q ind 0))"

definition seq_index_expand ::
  "(nat \<Rightarrow> bool) \<Rightarrow> (hash_sys \<Rightarrow> nat) \<Rightarrow> (hash_sys \<Rightarrow> hash_sys option) \<Rightarrow> index_sys \<Rightarrow> index_sys option" where
  "seq_index_expand alloc addr hash_expand ind =
    Option.bind (hash_expand (hash ind)) (\<lambda>hs. seq_index_compact alloc addr (ind\<lparr>hash := hs\<rparr>) (4 / 5))"

partial_function (option) seq_index_reinsert ::
  "(nat \<Rightarrow> bool) \<Rightarrow> (hash_sys \<Rightarrow> nat) \<Rightarrow> (hash_sys \<Rightarrow> hash_sys option) \<Rightarrow> index_sys \<Rightarrow> u64 \<Rightarrow> u64 \<Rightarrow> (index_sys \<times> bool) option" where
  "seq_index_reinsert alloc addr hash_expand ind key v =
    (case seq_hash_modify (hash ind) key v INSERT of (hs, st) \<Rightarrow>
       if st = 0 then Some (ind\<lparr>hash := hs\<rparr>, True)
       else if h_size hs * of_nat BIN_CAPACITY * 4 < tree_size (tree ind) then
         Option.bind (hash_expand hs) (\<lambda>hs.
           Option.bind (seq_index_compact alloc addr (ind\<lparr>hash := hs\<rparr>) (9 / 10)) (\<lambda>ind.
             seq_index_reinsert alloc addr hash_expand ind key v))
       else Some (ind\<lparr>hash := hs\<rparr>, False))"

declare seq_index_reinsert.simps [code]

definition seq_index_insert ::
  "(nat \<Rightarrow> bool) \<Rightarrow> (hash_sys \<Rightarrow> nat) \<Rightarrow> (hash_sys \<Rightarrow> hash_sys option) \<Rightarrow> index_sys \<Rightarrow> u64 \<Rightarrow> u64 \<Rightarrow> nat \<Rightarrow>
    (index_sys \<times> int) option" where
  "seq_index_insert alloc addr hash_expand ind key v storage_type =
    (let tree_insert = (\<lambda>ind. let (t, old) = art_insert_no_replace (tree ind) key (storage_type OR KEY_LEN) v
                              in Some (ind\<lparr>tree := t\<rparr>, if old \<noteq> None then 1 else 0))
     in if IS_SPECIAL_KEY key then Some (store_special key v ind, 0)
        else if storage_type = MEM_TYPE then
          Option.bind (seq_index_reinsert alloc addr hash_expand ind key v)
            (\<lambda>(ind, inserted). if inserted then Some (ind, 0) else tree_insert ind)
        else tree_insert ind)"

text \<open>\<open>*query_result\<close>, \<open>None\<close> where 1 is returned; nothing changes.\<close>

definition seq_index_query :: "index_sys \<Rightarrow> u64 \<Rightarrow> u64 option" where
  "seq_index_query ind key =
    (if IS_SPECIAL_KEY key then
       (if has_special_key ind ! unat key \<noteq> 0 then Some (special_key_val ind ! unat key) else None)
     else case seq_hash_search (hash ind) key HASH_QUERY of
       (hs, res, found) \<Rightarrow> if found then res else seq_art_search (tree ind) key)"

definition seq_index_update :: "index_sys \<Rightarrow> u64 \<Rightarrow> u64 \<Rightarrow> index_sys \<times> int" where
  "seq_index_update ind key v =
    (if IS_SPECIAL_KEY key then (store_special key v ind, 0)
     else case seq_hash_modify (hash ind) key v STRICT_UPDATE of
       (hs, st) \<Rightarrow>
         if st = ELEMENT_NOT_FOUND then
           (case seq_art_update (tree ind) key v of
              (t, found) \<Rightarrow> (ind\<lparr>hash := hs, tree := t\<rparr>, if found then 0 else 1))
         else (ind\<lparr>hash := hs\<rparr>, 0))"

definition seq_index_delete ::
  "(nat \<Rightarrow> bool) \<Rightarrow> (hash_sys \<Rightarrow> nat) \<Rightarrow> index_sys \<Rightarrow> u64 \<Rightarrow> (index_sys \<times> int) option" where
  "seq_index_delete alloc addr ind key =
    (if IS_SPECIAL_KEY key then
       Some (if has_special_key ind ! unat key = 1
         then (ind\<lparr>has_special_key := (has_special_key ind)[unat key := 0]\<rparr>, 0) else (ind, 1))
     else case seq_hash_search (hash ind) key HASH_DELETE of
       (hs, res, found) \<Rightarrow>
         let ind = ind\<lparr>hash := hs\<rparr>
         in if \<not> found then
              (case art_delete (tree ind) key KEY_LEN of
                 (t, old) \<Rightarrow> Some (ind\<lparr>tree := t\<rparr>, if old = None then 1 else 0))
            else if load_factor_below (hash ind) (6 / 10) \<and> buffer_count (tree ind) * 16 > tree_size (tree ind) then
              map_option (\<lambda>ind. (ind, 0)) (seq_index_compact alloc addr ind (7 / 8))
            else Some (ind, 0))"

definition seq_index_size :: "index_sys \<Rightarrow> u64" where
  "seq_index_size ind = h_count (hash ind) + tree_size (tree ind) + ucast (has_special_key ind ! 0) + ucast (has_special_key ind ! 1)"

end
