(* ===== verification/Sequential_Laws.thy ===== *)
theory Sequential_Laws
  imports Sequential Index_Laws
begin

text \<open>
  The sequential variant against the map of the index. Its compaction is the other variant's with a
  load factor that is always reached, because its \<open>hash_insert_nocheck\<close> never finds an empty slot.
\<close>

section \<open>The table\<close>

lemma seq_scan_bin_scan: "seq_scan_bin k n es av = scan_bin sk k n es 0 av None"
  by (induction es arbitrary: n av) (simp_all add: Let_def)

lemma seq_hash_modify_insert:
  assumes "hash_modify ind k v INSERT = (ind', freq, st)"
  shows "seq_hash_modify (hash ind) k v INSERT = (hash ind', st) \<and> ind' = ind\<lparr>hash := hash ind'\<rparr>"
proof -
  have "im = None" if "scan_bin (cm ind) k 0 es 0 None None = Scanned av im" for es av im
    using scan_bin_no_pick [OF that] by simp
  then show ?thesis
    using assms unfolding hash_modify_def seq_hash_modify_def Let_def seq_scan_bin_scan [of k 0 _ None "cm ind"]
    by (auto split: scan.splits option.splits)
qed

text \<open>\<open>hash_update\<close>, whose other variant also counts the access in the sketch.\<close>

lemma seq_hash_update_ok:
  assumes ok: "hash_ok hs" and k: "\<not> IS_SPECIAL_KEY k" and eq: "seq_hash_modify hs k v STRICT_UPDATE = (hs', st)"
  shows "if hash_map hs k = None then st = ELEMENT_NOT_FOUND \<and> hs' = hs
    else st = 0 \<and> hash_ok hs' \<and> hash_map hs' = (hash_map hs)(k \<mapsto> v)"
proof -
  let ?b = "entries hs ! HASH_COMP_IDX hs k"
  have b: "take 8 ?b = ?b" "length ?b = 8" using bin_of_key [OF ok, of k] by (simp_all add: bin_ok_def)
  have r: "seq_hash_modify hs k v STRICT_UPDATE = (case seq_scan_bin k 0 ?b None of
      Found j \<Rightarrow> (set_entry hs (HASH_COMP_IDX hs k) j ((?b ! j)\<lparr>entry_value := v\<rparr>), 0)
    | Scanned av im \<Rightarrow> (hs, ELEMENT_NOT_FOUND))"
    unfolding seq_hash_modify_def hash_idx_agree Let_def by (simp add: b split: scan.split)
  show ?thesis
  proof (cases "seq_scan_bin k 0 ?b None")
    case (Found j)
    have S: "scan_bin sk k 0 ?b 0 None None = Found j" for sk using Found by (simp add: seq_scan_bin_scan [symmetric])
    have j: "j < 8" "entry_key (?b ! j) = k" using scan_bin_found [OF S] b by simp_all
    then have m: "hash_map hs k \<noteq> None"
      using bin_map_None [OF not_special_nonzero [OF k], of ?b] k by (auto simp: hash_map_def)
    have u: "\<And>i. i < 8 \<Longrightarrow> entry_key (?b ! i) = k \<Longrightarrow> i = j"
      using bin_okD [OF bin_of_key [OF ok, of k] j(1)] j(2) not_special_nonzero [OF k] by simp
    have h: "hs' = set_entry hs (HASH_COMP_IDX hs k) j \<lparr>entry_key = k, entry_value = v\<rparr>" "st = 0"
      using eq r Found j(2) by (cases "?b ! j"; auto)+
    have "hash_ok hs' \<and> hash_map hs' = (hash_map hs)(k \<mapsto> v)"
      by (rule table_put [OF ok k j(1) u, where c = "h_count hs"]) (use j m in \<open>simp_all add: h set_entry_def\<close>)
    with m h show ?thesis by simp
  next
    case (Scanned av im)
    have S: "scan_bin sk k 0 ?b 0 None None = Scanned av im" for sk using Scanned by (simp add: seq_scan_bin_scan [symmetric])
    have "hash_map hs k = None"
      using scan_bin_scanned [OF S] b bin_map_None [OF not_special_nonzero [OF k], of ?b] k by (simp add: hash_map_def)
    then show ?thesis using eq r Scanned by simp
  qed
qed

lemma seq_hash_query_ok:
  assumes "\<not> IS_SPECIAL_KEY k" "seq_hash_search hs k HASH_QUERY = (hs', res, found)"
  shows "hs' = hs \<and> res = hash_map hs k \<and> found = (res \<noteq> None)"
  using assms unfolding seq_hash_search_def Let_def
  by (auto simp: hash_idx_agree hash_map_find [OF assms(1)] bin_find_def split: option.splits)

lemma seq_hash_delete_search:
  assumes "hash_search ind k False HASH_DELETE = (ind', freq, res, found)"
  shows "seq_hash_search (hash ind) k HASH_DELETE = (hash ind', res, found) \<and> ind' = ind\<lparr>hash := hash ind'\<rparr>"
  using assms unfolding hash_search_def seq_hash_search_def Let_def by (auto split: option.splits)

lemma seq_nocheck_full: "base \<noteq> 0 \<Longrightarrow> seq_hash_insert_nocheck base hs k v = (hs, HASH_BIN_FULL)"
  by (simp add: seq_hash_insert_nocheck_def key_field_def first_idx_def find_None_iff Let_def)
    (simp add: option.case_eq_if find_None_iff)

lemma seq_hash_construct_eq:
  "seq_hash_construct alloc rnd sz seed = (if sz AND (sz - 1) = 0 then hash_construct alloc rnd sz seed else None)"
  by (simp add: seq_hash_construct_def hash_construct_def)

lemma pow_pred: "((2 :: u64) ^ n) AND (2 ^ n - 1) = 0"
  by (rule bit_word_eqI) (auto simp: bit_simps mask_eq_exp_minus_1 [symmetric])

lemma seq_expand_eq:
  assumes "h_size hs = 2 ^ n"
  shows "seq_hash_expand_copy alloc rnd hs = hash_expand_copy alloc rnd hs"
    "seq_hash_expand_reinsert alloc rnd hs = hash_expand_reinsert alloc rnd hs"
proof -
  have "h_size hs * 2 = 2 ^ Suc n" using assms by simp
  then show "seq_hash_expand_copy alloc rnd hs = hash_expand_copy alloc rnd hs"
    "seq_hash_expand_reinsert alloc rnd hs = hash_expand_reinsert alloc rnd hs"
    unfolding seq_hash_expand_copy_def hash_expand_copy_def seq_hash_expand_reinsert_def hash_expand_reinsert_def
      seq_hash_construct_eq by (simp_all only: pow_pred simp_thms if_True)
qed

text \<open>Both ways to double keep the contract of the pointer.\<close>

interpretation seq_copying: hash_grower "seq_hash_expand_copy (\<lambda>_. True) rnd" for rnd
proof
  fix hs n
  assume a: "hash_ok hs" "h_size hs = 2 ^ n" "n < 63" "h_seed hs \<noteq> 0"
  show "\<exists>hs'. seq_hash_expand_copy (\<lambda>_. True) rnd hs = Some hs' \<and> hash_ok hs' \<and> hash_map hs' = hash_map hs \<and>
      h_size hs' = 2 ^ Suc n \<and> h_seed hs' = h_seed hs"
    unfolding seq_expand_eq(1) [OF a(2)] by (rule copying.grow [OF a])
qed

interpretation seq_reinserting: hash_grower "seq_hash_expand_reinsert (\<lambda>_. True) rnd" for rnd
proof
  fix hs n
  assume a: "hash_ok hs" "h_size hs = 2 ^ n" "n < 63" "h_seed hs \<noteq> 0"
  show "\<exists>hs'. seq_hash_expand_reinsert (\<lambda>_. True) rnd hs = Some hs' \<and> hash_ok hs' \<and> hash_map hs' = hash_map hs \<and>
      h_size hs' = 2 ^ Suc n \<and> h_seed hs' = h_seed hs"
    unfolding seq_expand_eq(2) [OF a(2)] by (rule reinserting.grow [OF a])
qed

section \<open>Compaction\<close>

lemma never_below_0: "\<not> load_factor_below hs 0"
proof -
  have "0 \<le> load_factor hs"
    unfolding load_factor_def by (intro divide_nonneg_nonneg mult_nonneg_nonneg of_nat_0_le_iff)
  then show ?thesis by (simp add: load_factor_below_def)
qed

text \<open>A slot is lifted in the tree, whatever the load factor.\<close>

lemma seq_compact_slot_lifts:
  assumes "\<forall>hs. addr hs \<noteq> 0"
  shows "fst (seq_compact_slot addr mlf path i (ind, cf)) = fst (compact_slot 0 path i (ind, cf'))"
  unfolding seq_compact_slot_def compact_slot_def Let_def
  using assms by (simp add: seq_nocheck_full never_below_0)

lemma seq_compact_fold:
  assumes "\<forall>hs. addr hs \<noteq> 0"
  shows "fst (fold (seq_compact_slot addr mlf path) js (ind, cf)) = fst (fold (compact_slot 0 path) js (ind, cf'))"
proof (induction js arbitrary: ind cf cf')
  case (Cons j js)
  obtain ind1 cf1 where 1: "seq_compact_slot addr mlf path j (ind, cf) = (ind1, cf1)" by (rule prod.exhaust)
  obtain ind2 cf2 where 2: "compact_slot 0 path j (ind, cf') = (ind2, cf2)" by (rule prod.exhaust)
  have "ind2 = ind1"
    using seq_compact_slot_lifts [OF assms, where mlf = mlf and path = path and i = j and ind = ind and cf = cf and cf' = cf']
    by (simp add: 1 2)
  then show ?case using Cons [where ind = ind1 and cf = cf1 and cf' = cf2] by (simp add: 1 2)
qed simp

lemma seq_compact_node_lifts:
  assumes "\<forall>hs. addr hs \<noteq> 0"
  obtains ind' cf1 cf2 where "seq_compact_node addr mlf path ind cf = (ind', cf1)" "compact_node 0 path ind cf' = (ind', cf2)"
proof -
  obtain ind1 cf1 where 1: "seq_compact_node addr mlf path ind cf = (ind1, cf1)" by (rule prod.exhaust)
  obtain ind2 cf2 where 2: "compact_node 0 path ind cf' = (ind2, cf2)" by (rule prod.exhaust)
  have "fst (seq_compact_node addr mlf path ind cf) = fst (compact_node 0 path ind cf')"
    unfolding seq_compact_node_def compact_node_def by (rule seq_compact_fold [OF assms])
  with 1 2 that show thesis by simp
qed

text \<open>So the two walks over the tree end in the same index, if one of them ends.\<close>

lemma seq_loop_from:
  assumes addr: "\<forall>hs. addr hs \<noteq> 0" and "compact_loop 0 q ind cf' = Some r"
  shows "seq_compact_loop addr mlf q ind cf = Some r"
proof -
  have "x = 0 \<Longrightarrow> seq_compact_loop addr mlf q ind cf = Some r" if "compact_loop x q ind cf' = Some r" for x
    using that
  proof (induction arbitrary: cf rule: compact_loop.raw_induct [rotated, consumes 1])
    case (1 f x q ind cf' r)
    note IH = "1.IH" and B = "1.hyps" [unfolded "1.prems"]
    show ?case
    proof (cases "queue_empty q")
      case True
      then show ?thesis using B by (subst seq_compact_loop.simps) simp
    next
      case False
      then obtain path q1 where q: "queue_pop q = (Some path, q1)"
        using B by (cases "queue_pop q"; cases "fst (queue_pop q)") auto
      show ?thesis
      proof (cases "node_at (root (tree ind)) path")
        case None
        then show ?thesis using B False q by simp
      next
        case (Some n)
        show ?thesis
        proof (cases n)
          case (Leaf l)
          then have "f 0 q1 ind cf' = Some r" using B False q Some by simp
          from IH [OF this refl, of cf] show ?thesis using False q Some Leaf by (subst seq_compact_loop.simps) simp
        next
          case (Inner h ch)
          obtain ind1 cf1 cf2 where N: "seq_compact_node addr mlf path ind cf = (ind1, cf1)" "compact_node 0 path ind cf' = (ind1, cf2)"
            by (rule seq_compact_node_lifts [OF addr])
          show ?thesis
          proof (cases "buffer_count (tree ind1) = 0")
            case True
            then show ?thesis using B False q Some Inner N by (subst seq_compact_loop.simps) simp
          next
            case bc: False
            then obtain q2 where p: "push_children ch path [0..<n_children ch] q1 = Some q2" "f 0 q2 ind1 cf2 = Some r"
              using B False q Some Inner N by (auto simp: bind_eq_Some_conv)
            from IH [OF p(2) refl, of cf1] show ?thesis
              using False q Some Inner N bc p(1) by (subst seq_compact_loop.simps) simp
          qed
        qed
      qed
    qed
  qed
  with assms(2) show ?thesis by blast
qed

text \<open>Lifting in the tree leaves the table as it is.\<close>

lemma compact_slot_0: "hash (fst (compact_slot 0 path i x)) = hash (fst x)"
  by (cases x) (simp add: compact_slot_def compact_lift_def clear_buffer_def never_below_0 Let_def split: prod.split)

lemma compact_node_0: "hash (fst (compact_node 0 path ind cf)) = hash ind"
proof -
  have "hash (fst (fold (compact_slot 0 path) js x)) = hash (fst x)" for js x
    by (induction js arbitrary: x) (simp_all add: compact_slot_0)
  then show ?thesis by (simp add: compact_node_def)
qed

lemma compact_loop_0:
  assumes "compact_loop 0 q ind cf = Some r"
  shows "hash r = hash ind"
proof -
  have "x = 0 \<Longrightarrow> hash r = hash ind" if "compact_loop x q ind cf = Some r" for x
    using that
  proof (induction rule: compact_loop.raw_induct [rotated, consumes 1])
    case (1 f x q ind cf r)
    note B = "1.hyps" [unfolded "1.prems"]
    show ?case
    proof (cases "queue_empty q")
      case False
      then obtain path q1 n where q: "queue_pop q = (Some path, q1)" "node_at (root (tree ind)) path = Some n"
        using B by (cases "queue_pop q"; cases "fst (queue_pop q)") (auto split: option.splits)
      show ?thesis
      proof (cases n)
        case (Leaf l)
        then show ?thesis using "1.IH" [OF _ refl] B False q by simp
      next
        case (Inner h ch)
        obtain ind1 cf1 where N: "compact_node 0 path ind cf = (ind1, cf1)" by (rule prod.exhaust)
        then have "hash ind1 = hash ind" using compact_node_0 [of path ind cf] by simp
        then show ?thesis using "1.IH" [OF _ refl] B False q Inner N
          by (auto simp: bind_eq_Some_conv split: if_splits)
      qed
    qed (use B in simp)
  qed
  with assms show ?thesis by blast
qed

lemma seq_index_compact_ok:
  assumes ok: "core_ok ind" "exclusive ind" and safe: "compact_safe alloc ind" and addr: "\<forall>hs. addr hs \<noteq> 0"
  shows "\<exists>ind'. seq_index_compact alloc addr ind mlf = Some ind' \<and> index_compact alloc ind 0 = Some ind' \<and>
    core_ok ind' \<and> exclusive ind' \<and> kept ind' ind \<and> hash ind' = hash ind \<and> tree_size (tree ind') = tree_size (tree ind) \<and>
    map_option shape (root (tree ind')) = map_option shape (root (tree ind))"
proof -
  obtain ind' where i: "index_compact alloc ind 0 = Some ind'" "core_ok ind'" "exclusive ind'" "kept ind' ind"
    "map_option shape (root (tree ind')) = map_option shape (root (tree ind))"
    using index_compact_ok [OF ok safe, of 0] by blast
  then obtain q where q: "compact_loop 0 q ind 0 = Some ind'"
    "\<And>r. seq_compact_loop addr mlf q ind 0 = Some r \<Longrightarrow> seq_index_compact alloc addr ind mlf = Some r"
    by (auto simp: index_compact_def seq_index_compact_def bind_eq_Some_conv)
  have h: "hash ind' = hash ind" by (rule compact_loop_0 [OF q(1)])
  have "art_map (tree ind') k = art_map (tree ind) k" for k
  proof (cases "hash_map (hash ind) k")
    case None
    then show ?thesis using fun_cong [OF conjunct1 [OF i(4) [unfolded kept_def]], of k] h by (simp add: core_map_def map_add_def)
  next
    case (Some w)
    then show ?thesis using ok(2) i(3) h by (metis exclusive_def option.distinct(1))
  qed
  then have "art_map (tree ind') = art_map (tree ind)" by (rule ext)
  then have "tree_size (tree ind') = tree_size (tree ind)" using ok(1) i(2) by (simp add: core_ok_def tree_ok_def)
  then show ?thesis using i h q(2) [OF seq_loop_from [OF addr q(1)]] by blast
qed

section \<open>Insertion\<close>

text \<open>When the loop ends: there is room, or the tree is not larger than four times the slots of the table, or
  this is so at some size up to \<open>2 ^ 35\<close> bins that the compaction can work with.\<close>

definition seq_growth_ends :: "index_sys \<Rightarrow> u64 \<Rightarrow> bool" where
  "seq_growth_ends ind k \<longleftrightarrow> hash_room ind k \<or> \<not> h_size (hash ind) * of_nat BIN_CAPACITY * 4 < tree_size (tree ind) \<or>
     (\<exists>n \<ge> 4. n \<le> 35 \<and> h_size (hash ind) = 2 ^ n \<and> h_seed (hash ind) \<noteq> 0 \<and> tree_small ind \<and> tree_size (tree ind) \<le> 2 ^ 40)"

context hash_grower
begin

lemma seq_reinsert_now:
  assumes ok: "core_ok ind" "exclusive ind" and k: "\<not> IS_SPECIAL_KEY k" "art_map (tree ind) k = None"
    and now: "hash_room ind k \<or> \<not> h_size (hash ind) * of_nat BIN_CAPACITY * 4 < tree_size (tree ind)"
  shows "reinserted ind k v (seq_index_reinsert alloc addr grow ind k v)"
proof -
  obtain ind1 freq st where e: "hash_modify ind k v INSERT = (ind1, freq, st)" by (rule prod_cases3)
  note R = room_inserts [OF ok k e] and S = seq_hash_modify_insert [OF e]
  have "ind\<lparr>hash := hash ind1\<rparr> = ind1" using S by simp
  then show ?thesis
    using R S now ok unfolding reinserted_def
    by (subst seq_index_reinsert.simps) (auto simp: same_specials_def split: if_splits)
qed

lemma seq_reinsert_grows:
  assumes addr: "\<forall>hs. addr hs \<noteq> 0"
  shows "core_ok ind \<Longrightarrow> exclusive ind \<Longrightarrow> \<not> IS_SPECIAL_KEY k \<Longrightarrow> art_map (tree ind) k = None \<Longrightarrow> tree_small ind \<Longrightarrow>
    h_size (hash ind) = 2 ^ n \<Longrightarrow> h_seed (hash ind) \<noteq> 0 \<Longrightarrow> 4 \<le> n \<Longrightarrow> n \<le> 35 \<Longrightarrow> tree_size (tree ind) \<le> 2 ^ 40 \<Longrightarrow>
    reinserted ind k v (seq_index_reinsert (\<lambda>_. True) addr grow ind k v)"
proof (induction "35 - n" arbitrary: ind n rule: less_induct)
  case less
  show ?case
  proof (cases "hash_room ind k \<or> \<not> h_size (hash ind) * of_nat BIN_CAPACITY * 4 < tree_size (tree ind)")
    case True
    then show ?thesis using seq_reinsert_now less.prems by blast
  next
    case False
    obtain ind1 freq st where e: "hash_modify ind k v INSERT = (ind1, freq, st)" by (rule prod_cases3)
    have R: "st \<noteq> 0" "ind1 = ind" "core_map ind k = None"
      using room_inserts [OF less.prems(1-4) e] False by simp_all
    have S: "seq_hash_modify (hash ind) k v INSERT = (hash ind, st)" using seq_hash_modify_insert [OF e] R(2) by simp
    have hok: "hash_ok (hash ind)" and tok: "tree_ok (tree ind)" using less.prems(1) by (simp_all add: core_ok_def)
    have lt: "n < 35"
    proof (rule ccontr)
      assume "\<not> n < 35"
      then have "h_size (hash ind) * of_nat BIN_CAPACITY * 4 = 2 ^ 40" using less.prems(6,9) by simp
      then show False using False less.prems(10) by (metis leD)
    qed
    obtain hs where hs: "grow (hash ind) = Some hs" "hash_ok hs" "hash_map hs = hash_map (hash ind)" "h_size hs = 2 ^ Suc n"
      "h_seed hs = h_seed (hash ind)" using grow [OF hok less.prems(6) _ less.prems(7)] lt by auto
    let ?ind = "ind\<lparr>hash := hs\<rparr>"
    have c: "core_ok ?ind" "exclusive ?ind" "core_map ?ind = core_map ind" "tree_small ?ind"
      using hs tok less.prems(2,5) by (simp_all add: core_ok_def exclusive_def core_map_def tree_small_def)
    have "tree_size (tree ind) \<noteq> 0" using False by auto
    then have "root (tree ?ind) \<noteq> None" using tree_size_root [OF tok] by simp
    then have "compact_safe (\<lambda>_. True) ?ind"
      using compact_safe_pow [of ?ind "Suc n"] hs(4) less.prems(8) lt c(4) by simp
    from seq_index_compact_ok [OF c(1,2) this addr, of "9 / 10"] obtain ind2 where
      i2: "seq_index_compact (\<lambda>_. True) addr ?ind (9 / 10) = Some ind2" "core_ok ind2" "exclusive ind2" "kept ind2 ?ind"
        "tree_size (tree ind2) = tree_size (tree ?ind)"
      and sh: "map_option shape (root (tree ind2)) = map_option shape (root (tree ?ind))" by blast
    have cm: "core_map ind2 = core_map ind" and ss: "same_specials ind2 ind"
      and geo: "h_size (hash ind2) = 2 ^ Suc n" "h_seed (hash ind2) = h_seed (hash ind)"
      using i2(4) c(3) hs by (simp_all add: kept_def same_rest_def same_specials_def)
    have am: "art_map (tree ind2) k = None" using R(3) cm by (metis core_map_def map_add_None)
    have step: "seq_index_reinsert (\<lambda>_. True) addr grow ind k v = seq_index_reinsert (\<lambda>_. True) addr grow ind2 k v"
      using R False hs(1) i2(1) S by (subst seq_index_reinsert.simps) simp
    have "reinserted ind2 k v (seq_index_reinsert (\<lambda>_. True) addr grow ind2 k v)"
      by (rule less.hyps [OF _ i2(2,3) less.prems(3) am tree_small_shape [OF sh c(4)] geo(1)])
        (use lt less.prems(7,8,10) geo(2) i2(5) in simp_all)
    then show ?thesis unfolding step by (rule reinserted_from [OF cm ss])
  qed
qed

lemma seq_index_reinsert_ok:
  assumes "core_ok ind" "exclusive ind" "\<not> IS_SPECIAL_KEY k" "art_map (tree ind) k = None" "seq_growth_ends ind k"
    and "\<forall>hs. addr hs \<noteq> 0"
  shows "reinserted ind k v (seq_index_reinsert (\<lambda>_. True) addr grow ind k v)"
  using seq_reinsert_now [OF assms(1-4)] seq_reinsert_grows [OF assms(6,1-4)] assms(5) unfolding seq_growth_ends_def by blast

end

definition seq_insert_ready :: "(hash_sys \<Rightarrow> nat) \<Rightarrow> (hash_sys \<Rightarrow> hash_sys option) \<Rightarrow> index_sys \<Rightarrow> u64 \<Rightarrow> u64 \<Rightarrow> nat \<Rightarrow> bool" where
  "seq_insert_ready addr grow ind k v storage \<longleftrightarrow> IS_SPECIAL_KEY k \<or>
     art_map (tree ind) k = None \<and>
     (if storage = MEM_TYPE then seq_growth_ends ind k \<and>
        (case seq_index_reinsert (\<lambda>_. True) addr grow ind k v of Some (ind1, False) \<Rightarrow> mem_safe k 0 (root (tree ind1)) | _ \<Rightarrow> True)
      else hash_map (hash ind) k = None)"

lemma seq_index_insert_mem: "\<not> IS_SPECIAL_KEY k \<Longrightarrow> seq_index_insert alloc addr grow ind k v MEM_TYPE =
    Option.bind (seq_index_reinsert alloc addr grow ind k v)
      (\<lambda>(ind, inserted). if inserted then Some (ind, 0) else tree_insert k v MEM_TYPE ind)"
  unfolding seq_index_insert_def tree_insert_def [abs_def] Let_def by simp

context hash_grower
begin

lemma seq_index_insert_ok:
  assumes ok: "index_ok ind" and st: "storage < 8" and ready: "seq_insert_ready addr grow ind k v storage"
    and addr: "\<forall>hs. addr hs \<noteq> 0"
  shows "inserted_ok ind k v (seq_index_insert (\<lambda>_. True) addr grow ind k v storage)"
proof (cases "IS_SPECIAL_KEY k")
  case True
  then show ?thesis using store_special_ok [OF ok True, of v] by (simp add: seq_index_insert_def inserted_ok_def)
next
  case k: False
  have c: "core_ok ind" "exclusive ind" using ok by (simp_all add: index_ok_def)
  have am: "art_map (tree ind) k = None" using ready k by (simp add: seq_insert_ready_def)
  show ?thesis
  proof (cases "storage = MEM_TYPE")
    case False
    then have "core_map ind k = None" using ready k am by (simp add: seq_insert_ready_def core_map_def map_add_def)
    from tree_branch [OF ok k st c refl this, of v] show ?thesis
      using False k by (simp add: seq_index_insert_def same_specials_def tree_insert_def)
  next
    case True
    have R: "reinserted ind k v (seq_index_reinsert (\<lambda>_. True) addr grow ind k v)"
      using seq_index_reinsert_ok [OF c k am _ addr] ready k True by (simp add: seq_insert_ready_def)
    have "inserted_ok ind k v (seq_index_insert (\<lambda>_. True) addr grow ind k v MEM_TYPE)"
      unfolding seq_index_insert_mem [OF k]
      by (rule after_reinsert [OF ok k R]) (use ready k True in \<open>simp add: seq_insert_ready_def\<close>)
    with True show ?thesis by simp
  qed
qed

end

section \<open>Query and update\<close>

lemma seq_art_search_map: "\<not> IS_SPECIAL_KEY k \<Longrightarrow> seq_art_search t k = art_map t k"
  by (simp add: seq_art_search_def art_find_map split: option.split art_hit.split)

lemma seq_index_query_ok:
  assumes "index_ok ind"
  shows "seq_index_query ind k = index_map ind k"
proof (cases "IS_SPECIAL_KEY k")
  case False
  obtain hs res found where e: "seq_hash_search (hash ind) k HASH_QUERY = (hs, res, found)" by (rule prod_cases3)
  note Q = seq_hash_query_ok [OF False e]
  show ?thesis using Q False
    by (cases "hash_map (hash ind) k")
      (auto simp: seq_index_query_def e seq_art_search_map index_map_def core_map_def map_add_def)
qed (simp add: seq_index_query_def index_map_def)

lemma seq_art_update_ok:
  assumes tok: "tree_ok t" and key: "\<not> IS_SPECIAL_KEY key" and eq: "seq_art_update t key v = (t', found)"
  shows "tree_ok t' \<and> art_map t' = (if art_map t key = None then art_map t else (art_map t)(key \<mapsto> v)) \<and>
    (found \<longrightarrow> art_map t key \<noteq> None) \<and> (art_map t key \<notin> {None, Some 0} \<longrightarrow> found)"
proof (cases "art_find (root t) key")
  case None
  then show ?thesis using eq tok art_find_map [OF key, of t] by (simp add: seq_art_update_def)
next
  case (Some loc)
  then obtain n where n: "root t = Some n" by (cases "root t") (auto simp: art_find_def)
  have okn: "art_ok [] n" using tok n by (auto simp: tree_ok_def)
  have m: "art_map t key = Some (hit_value (loc_hit loc))" using art_find_map [OF key, of t] Some by simp
  obtain q x where R: "reaches [] n (loc_path loc) q x" "hit_at key q x loc" "art_ok q x"
    by (rule art_find_hit [OF okn Some [unfolded n]])
  have N: "node_at (Some n) (loc_path loc) = Some x" by (rule reaches_node_at [OF R(1)])
  show ?thesis
  proof (cases "loc_hit loc")
    case (InLeaf l)
    with R(2) have x: "x = Leaf l" "entry_key l = key" by (cases x; auto)+
    note L = leaf_value_ok [OF R(3) [unfolded x(1)] x(2), of v]
    have "node_map (length q) (Leaf l) key \<noteq> None" using node_map_leaf [OF R(3) [unfolded x(1)], of "length q"] x(2) by simp
    note W = put_value_ok [OF tok n key R(1) [unfolded x(1)] R(3) [unfolded x(1)] L this buffered_leaf filled_simps(1)]
    have "t' = t\<lparr>root := put_at (Some n) (loc_path loc) (Some (Leaf (l\<lparr>entry_value := v\<rparr>)))\<rparr>"
      "found = (entry_value l \<noteq> 0)" using eq Some InLeaf by (auto simp: seq_art_update_def n N x(1))
    then show ?thesis using W m InLeaf by simp
  next
    case (InBuffer i e)
    from R(2) InBuffer obtain h ch where x: "x = Inner h ch" "buffer_find h key = Some i" by (cases x) auto
    let ?m = "Inner (set_buffer_value h i v) ch"
    have I: "art_ok q ?m" "node_map (length q) ?m = (node_map (length q) (Inner h ch))(key \<mapsto> v)"
      using insert_buffer_replace [OF R(3) [unfolded x(1)] key x(2), of v] by (simp_all add: inserted_def)
    have "node_map (length q) (Inner h ch) key \<noteq> None"
      using slot_in_map(1) [OF R(3) [unfolded x(1)], of i key] buffer_findD [OF x(2)] key by simp
    note W = put_value_ok [OF tok n key R(1) [unfolded x(1)] R(3) [unfolded x(1)] I this buffered_value [OF R(3) [unfolded x(1)] x(2) key]
      iffD2 [OF filled_set_buffer_value]]
    have "t' = t\<lparr>root := put_at (Some n) (loc_path loc) (Some ?m)\<rparr>" found
      using eq Some InBuffer by (simp_all add: seq_art_update_def n store_at(3) [OF N [unfolded x(1)]])
    then show ?thesis using W m InBuffer by simp
  qed
qed

lemma seq_index_update_ok:
  assumes ok: "index_ok ind" and eq: "seq_index_update ind k v = (ind', r)"
  shows "index_ok ind' \<and>
    index_map ind' = (if IS_SPECIAL_KEY k \<or> index_map ind k \<noteq> None then (index_map ind)(k \<mapsto> v) else index_map ind) \<and>
    (r = 0 \<longrightarrow> IS_SPECIAL_KEY k \<or> index_map ind k \<noteq> None) \<and> (index_map ind k \<notin> {None, Some 0} \<longrightarrow> r = 0)"
proof (cases "IS_SPECIAL_KEY k")
  case True
  then show ?thesis using eq store_special_ok [OF ok True, of v] by (auto simp: seq_index_update_def)
next
  case k: False
  have c: "core_ok ind" "exclusive ind" using ok by (simp_all add: index_ok_def)
  have hok: "hash_ok (hash ind)" and tok: "tree_ok (tree ind)" using c(1) by (simp_all add: core_ok_def)
  have im: "index_map ind k = core_map ind k" using k by (simp add: index_map_def)
  obtain hs st where e: "seq_hash_modify (hash ind) k v STRICT_UPDATE = (hs, st)" by (rule prod.exhaust)
  note H = seq_hash_update_ok [OF hok k e]
  show ?thesis
  proof (cases "hash_map (hash ind) k")
    case (Some w)
    then have h: "st = 0" "hash_ok hs" "hash_map hs = (hash_map (hash ind))(k \<mapsto> v)" using H by simp_all
    let ?ind = "ind\<lparr>hash := hs\<rparr>"
    have "art_map (tree ind) k = None" using c(2) Some by (metis exclusive_def option.distinct(1))
    then have am: "art_map (tree ?ind) = (art_map (tree ind))(k := None)" by (simp add: fun_upd_idem)
    have M: "core_map ?ind = (core_map ind)(k \<mapsto> v)" "exclusive ?ind"
      using core_map_move [of ?ind ind k v, OF _ am] h(3) c(2) by simp_all
    have ss: "same_specials ?ind ind" by (simp add: same_specials_def)
    have "ind' = ?ind" "r = 0" using eq k e h(1) by (simp_all add: seq_index_update_def)
    moreover have "core_map ind k \<noteq> None" using Some by (simp add: core_map_def map_add_def)
    ultimately show ?thesis
      using k im M c h tok index_map_upd [OF M(1) ss k] index_ok_specials [OF ok _ _ ss] by (simp add: core_ok_def)
  next
    case None
    then have h: "st = ELEMENT_NOT_FOUND" "hs = hash ind" using H by simp_all
    obtain t found where a: "seq_art_update (tree ind) k v = (t, found)" "ind' = ind\<lparr>tree := t\<rparr>" "r = (if found then 0 else 1)"
      using eq k e h by (auto simp: seq_index_update_def split: prod.splits)
    note A = seq_art_update_ok [OF tok k a(1)]
    have ss: "same_specials ind' ind" by (simp add: a(2) same_specials_def)
    have am: "core_map ind k = art_map (tree ind) k" using None by (simp add: core_map_def map_add_def)
    show ?thesis
    proof (cases "core_map ind k = None")
      case True
      then have "core_map ind' = core_map ind" "exclusive ind'" "core_ok ind'"
        using A am c by (simp_all add: a(2) core_map_def exclusive_def core_ok_def)
      then show ?thesis using True A a(3) am im k index_map_same [OF _ ss] index_ok_specials [OF ok _ _ ss] by auto
    next
      case False
      then have "art_map (tree ind) k \<noteq> None" using am by simp
      then have "tree_ok t \<and> art_map t = (art_map (tree ind))(k \<mapsto> v)" using A by (simp only: if_False simp_thms)
      note U = core_upd [OF c(1) this None]
      then show ?thesis
        using False A a am im k c(2) index_map_upd [OF _ ss k] index_ok_specials [OF ok _ _ ss] by auto
    qed
  qed
qed

section \<open>Deletion\<close>

definition seq_delete_ready :: "(nat \<Rightarrow> bool) \<Rightarrow> index_sys \<Rightarrow> u64 \<Rightarrow> bool" where
  "seq_delete_ready alloc ind k \<longleftrightarrow> IS_SPECIAL_KEY k \<or>
     (if hash_map (hash ind) k = None then tree_del_safe (tree ind) k
      else buffer_count (tree ind) * 16 > tree_size (tree ind) \<longrightarrow> compact_safe alloc ind)"

lemma seq_index_delete_ok:
  assumes ok: "index_ok ind" and ready: "seq_delete_ready alloc ind k" and addr: "\<forall>hs. addr hs \<noteq> 0"
  shows "deleted_ok ind k (seq_index_delete alloc addr ind k)"
proof (cases "IS_SPECIAL_KEY k")
  case True
  then have "seq_index_delete alloc addr ind k = index_delete alloc ind k" by (simp add: seq_index_delete_def index_delete_def)
  then show ?thesis using special_delete_ok [OF ok True] by simp
next
  case k: False
  obtain ind1 freq res found where e: "hash_search ind k False HASH_DELETE = (ind1, freq, res, found)" by (rule prod_cases4)
  note S = seq_hash_delete_search [OF e]
  have del: "seq_index_delete alloc addr ind k = (if \<not> found then
        (case art_delete (tree ind1) k KEY_LEN of (t, old) \<Rightarrow> Some (ind1\<lparr>tree := t\<rparr>, if old = None then 1 else 0))
      else if load_factor_below (hash ind1) (6 / 10) \<and> buffer_count (tree ind1) * 16 > tree_size (tree ind1) then
        map_option (\<lambda>ind. (ind, 0)) (seq_index_compact alloc addr ind1 (7 / 8))
      else Some (ind1, 0))"
    using k conjunct1 [OF S] conjunct2 [OF S, symmetric] by (simp add: seq_index_delete_def Let_def)
  show ?thesis
  proof (cases "hash_map (hash ind) k = None")
    case True
    then show ?thesis using delete_from_tree [OF ok k True _ e] ready k by (simp add: del seq_delete_ready_def)
  next
    case False
    note T = delete_from_table [OF ok k False e]
    show ?thesis
    proof (cases "load_factor_below (hash ind1) (6 / 10) \<and> buffer_count (tree ind1) * 16 > tree_size (tree ind1)")
      case True
      then have "compact_safe alloc ind1"
        using ready k False hash_delete_geometry [OF e] by (simp add: seq_delete_ready_def compact_safe_def)
      from seq_index_compact_ok [OF T(2,3) this addr, of "7 / 8"] show ?thesis using T(1,5) True by (auto simp: del)
    qed (use T(1,4) in \<open>auto simp: del\<close>)
  qed
qed

section \<open>The sequential index as a store\<close>

definition seq_put :: "(hash_sys \<Rightarrow> nat) \<Rightarrow> u64 \<Rightarrow> u64 \<Rightarrow> index_sys \<Rightarrow> index_sys" where
  "seq_put addr k v ind = (case seq_index_insert (\<lambda>_. True) addr (seq_hash_expand_reinsert (\<lambda>_. True) 0) ind k v MEM_TYPE of
     Some (ind', r) \<Rightarrow> ind' | None \<Rightarrow> ind)"

definition seq_del :: "(hash_sys \<Rightarrow> nat) \<Rightarrow> u64 \<Rightarrow> index_sys \<Rightarrow> index_sys" where
  "seq_del addr k ind = (case seq_index_delete (\<lambda>_. True) addr ind k of Some (ind', r) \<Rightarrow> ind' | None \<Rightarrow> ind)"

definition seq_put_ready :: "(hash_sys \<Rightarrow> nat) \<Rightarrow> index_sys \<Rightarrow> u64 \<Rightarrow> u64 \<Rightarrow> bool" where
  "seq_put_ready addr ind k v \<longleftrightarrow> (\<forall>hs. addr hs \<noteq> 0) \<and>
     seq_insert_ready addr (seq_hash_expand_reinsert (\<lambda>_. True) 0) ind k v MEM_TYPE"

definition seq_del_ready :: "(hash_sys \<Rightarrow> nat) \<Rightarrow> index_sys \<Rightarrow> u64 \<Rightarrow> bool" where
  "seq_del_ready addr ind k \<longleftrightarrow> (\<forall>hs. addr hs \<noteq> 0) \<and> seq_delete_ready (\<lambda>_. True) ind k"

interpretation seq_idx: kv_store index_ok index_map "seq_put addr" "seq_del addr" "seq_put_ready addr" "seq_del_ready addr" for addr
proof
  fix ind k v
  assume a: "index_ok ind" "\<not> IS_SPECIAL_KEY k" "seq_put_ready addr ind k v"
  then have "inserted_ok ind k v (seq_index_insert (\<lambda>_. True) addr (seq_hash_expand_reinsert (\<lambda>_. True) 0) ind k v MEM_TYPE)"
    using seq_reinserting.seq_index_insert_ok [of ind MEM_TYPE addr 0 k v] by (simp add: seq_put_ready_def)
  then show "index_ok (seq_put addr k v ind) \<and> index_map (seq_put addr k v ind) = (index_map ind)(k \<mapsto> v)"
    by (auto simp: seq_put_def inserted_ok_def)
next
  fix ind k
  assume "index_ok ind" "\<not> IS_SPECIAL_KEY k" "seq_del_ready addr ind k"
  then have "deleted_ok ind k (seq_index_delete (\<lambda>_. True) addr ind k)"
    using seq_index_delete_ok [of ind "\<lambda>_. True" k addr] by (simp add: seq_del_ready_def)
  then show "index_ok (seq_del addr k ind) \<and> index_map (seq_del addr k ind) = (index_map ind)(k := None)"
    by (auto simp: seq_del_def deleted_ok_def)
qed

section \<open>Properties\<close>

fun seq_op :: "(hash_sys \<Rightarrow> nat) \<Rightarrow> kv_op \<Rightarrow> index_sys \<Rightarrow> index_sys" where
  "seq_op addr (Put k v) ind = seq_put addr k v ind"
| "seq_op addr (Del k) ind = seq_del addr k ind"

fun seq_ops_ready :: "(hash_sys \<Rightarrow> nat) \<Rightarrow> kv_op list \<Rightarrow> index_sys \<Rightarrow> bool" where
  "seq_ops_ready addr [] ind \<longleftrightarrow> True"
| "seq_ops_ready addr (Put k v # xs) ind \<longleftrightarrow> \<not> IS_SPECIAL_KEY k \<and>
    seq_put_ready addr ind k v \<and> seq_ops_ready addr xs (seq_op addr (Put k v) ind)"
| "seq_ops_ready addr (Del k # xs) ind \<longleftrightarrow>
    \<not> IS_SPECIAL_KEY k \<and> seq_del_ready addr ind k \<and> seq_ops_ready addr xs (seq_op addr (Del k) ind)"

lemma seq_op_do_op: "seq_op addr x ind = seq_idx.do_op addr x ind"
  by (cases x) simp_all

lemma seq_ops_ready_run: "seq_ops_ready addr xs ind = seq_idx.run_safe addr xs ind"
  by (induction addr xs ind rule: seq_ops_ready.induct) (simp_all add: seq_op_do_op)

text \<open>Refinement of the sequential index: after any sequence of \<open>index_insert\<close> and \<open>index_delete\<close> calls,
  each within its conditions where it happens, the index has the map of a plain map on which the same
  sequence was run, and \<open>index_query\<close>, which has no condition and changes nothing, answers with it.\<close>

theorem seq_index_ops_refine_map:
  assumes "index_ok ind" "seq_ops_ready addr xs ind"
  shows "index_ok (fold (seq_op addr) xs ind) \<and> index_map (fold (seq_op addr) xs ind) = fold map_op xs (index_map ind) \<and>
    seq_index_query (fold (seq_op addr) xs ind) = fold map_op xs (index_map ind)"
proof -
  have "index_ok (fold (seq_op addr) xs ind)" "index_map (fold (seq_op addr) xs ind) = fold map_op xs (index_map ind)"
    using seq_idx.run_refines [of ind addr xs] assms by (simp_all add: seq_ops_ready_run seq_op_do_op [abs_def])
  then show ?thesis using seq_index_query_ok by (auto simp: fun_eq_iff)
qed

lemma seq_insert_ready_room:
  assumes "hash_room ind k" "art_map (tree ind) k = None" "hash_ok (hash ind)" "\<not> IS_SPECIAL_KEY k"
  shows "seq_insert_ready addr grow ind k v MEM_TYPE"
proof -
  obtain ind' freq st where e: "hash_modify ind k v INSERT = (ind', freq, st)" by (rule prod_cases3)
  have "st = 0" using hash_room_status [OF assms(3,4) e] assms(1) by simp
  then have "seq_index_reinsert (\<lambda>_. True) addr grow ind k v = Some (ind\<lparr>hash := hash ind'\<rparr>, True)"
    using seq_hash_modify_insert [OF e] by (subst seq_index_reinsert.simps) simp
  with assms(1,2) show ?thesis by (simp add: seq_insert_ready_def seq_growth_ends_def)
qed

lemma sample_ready:
  "index_ok sample_index" "hash_room sample_index 77" "art_map (tree sample_index) 77 = None"
proof -
  show "index_ok sample_index"
    using sample_index_ok tree_ok_init
    by (simp add: index_ok_def core_ok_def exclusive_def specials_ok_def sample_index_def)
qed code_simp+

theorem seq_index_ops_refine_map_witness:
  "seq_index_query (fold (seq_op (\<lambda>_. 4096)) [Put 77 5] sample_index) 77 = Some 5"
proof -
  have "seq_put_ready (\<lambda>_. 4096) sample_index 77 5"
    using seq_insert_ready_room [OF sample_ready(2,3)] sample_index_ok(1) by (simp add: seq_put_ready_def IS_SPECIAL_KEY_iff)
  then have "seq_ops_ready (\<lambda>_. 4096) [Put 77 5] sample_index" by (simp add: IS_SPECIAL_KEY_iff)
  from seq_index_ops_refine_map [OF sample_ready(1) this] show ?thesis by simp
qed

text \<open>\<open>index_insert\<close> of the sequential variant returns 0 and sets exactly its key, through every path. Its
  loop always comes to an end: the size of the table is compared with that of the tree, so that it need
  not rely on the keys being spread over the bins.\<close>

theorem seq_index_insert_puts:
  assumes "index_ok ind" "storage < 8" "seq_insert_ready addr grow ind k v storage" "\<forall>hs. addr hs \<noteq> 0"
    and "grow \<in> {seq_hash_expand_copy (\<lambda>_. True) rnd, seq_hash_expand_reinsert (\<lambda>_. True) rnd}"
  shows "\<exists>ind'. seq_index_insert (\<lambda>_. True) addr grow ind k v storage = Some (ind', 0) \<and> index_ok ind' \<and>
    index_map ind' = (index_map ind)(k \<mapsto> v)"
  using seq_copying.seq_index_insert_ok [of ind storage addr rnd k v]
    seq_reinserting.seq_index_insert_ok [of ind storage addr rnd k v] assms
  unfolding inserted_ok_def by blast

theorem seq_index_insert_puts_witness:
  "\<exists>ind'. seq_index_insert (\<lambda>_. True) (\<lambda>_. 4096) (seq_hash_expand_reinsert (\<lambda>_. True) 0) sample_index 77 5 MEM_TYPE =
    Some (ind', 0) \<and> index_map ind' 77 = Some 5"
proof -
  have "seq_insert_ready (\<lambda>_. 4096) (seq_hash_expand_reinsert (\<lambda>_. True) 0) sample_index 77 5 MEM_TYPE"
    using seq_insert_ready_room [OF sample_ready(2,3)] sample_index_ok(1) by (simp add: IS_SPECIAL_KEY_iff)
  from seq_index_insert_puts [OF sample_ready(1) _ this, of 0] show ?thesis by auto
qed

text \<open>C12. The compaction of the sequential variant never moves a key into the table: \<open>hash_insert_nocheck\<close>
  compares an address with \<open>EMPTY_FLAG\<close> and reports every bin as full. It is the compaction of the other
  variant with a load factor that is always reached; it returns, leaves the table as it is and keeps
  every key.\<close>

theorem seq_compaction_skips_table:
  assumes "index_ok ind" "compact_safe alloc ind" "\<forall>hs. addr hs \<noteq> 0"
  shows "\<exists>ind'. seq_index_compact alloc addr ind max_load_factor = Some ind' \<and> index_compact alloc ind 0 = Some ind' \<and>
    hash ind' = hash ind \<and> index_ok ind' \<and> index_map ind' = index_map ind"
proof -
  have c: "core_ok ind" "exclusive ind" using assms(1) by (simp_all add: index_ok_def)
  from seq_index_compact_ok [OF c assms(2,3), of max_load_factor] obtain ind' where
    i: "seq_index_compact alloc addr ind max_load_factor = Some ind'" "index_compact alloc ind 0 = Some ind'"
      "core_ok ind'" "exclusive ind'" "kept ind' ind" "hash ind' = hash ind" by blast
  have "core_map ind' = core_map ind" "same_specials ind' ind" using i(5) by (simp_all add: kept_def same_rest_specials)
  then show ?thesis using i index_ok_specials [OF assms(1) i(3,4)] index_map_same by blast
qed

theorem seq_compaction_skips_table_witness:
  "\<exists>ind'. seq_index_compact (\<lambda>_. True) (\<lambda>_. 4096) (wide_index deep_keys) (9 / 10) = Some ind' \<and>
    hash_map (hash ind') = Map.empty \<and> index_map ind' = index_map (wide_index deep_keys)"
proof -
  note I = wide_index_ok [OF deep_keys_ok]
  have "compact_safe (\<lambda>_. True) (wide_index deep_keys)" by (rule wide_compact_safe)
  from seq_compaction_skips_table [OF I(1) this, of "\<lambda>_. 4096" "9 / 10"] I(3) show ?thesis by auto
qed

text \<open>\<open>index_update\<close> of the sequential variant sets the value of a key the index has, or of any reserved
  key, and of no other, without conditions; it never returns 0 for a key the index does not have, and
  returns 0 for a key it has unless the old value is 0.\<close>

theorem seq_index_update_sets:
  assumes "index_ok ind" "seq_index_update ind k v = (ind', r)"
  shows "index_ok ind' \<and>
    index_map ind' = (if IS_SPECIAL_KEY k \<or> index_map ind k \<noteq> None then (index_map ind)(k \<mapsto> v) else index_map ind) \<and>
    (r = 0 \<longrightarrow> IS_SPECIAL_KEY k \<or> index_map ind k \<noteq> None) \<and> (index_map ind k \<notin> {None, Some 0} \<longrightarrow> r = 0)"
  by (rule seq_index_update_ok [OF assms])

theorem seq_index_update_sets_witness:
  "index_map (fst (seq_index_update (wide_index deep_keys) 0x0316 9)) 0x0316 = Some 9"
proof -
  obtain ind' r where e: "seq_index_update (wide_index deep_keys) 0x0316 9 = (ind', r)" by (rule prod.exhaust)
  from seq_index_update_sets [OF wide_index_ok(1) [OF deep_keys_ok] e] deep_index_value show ?thesis by (simp add: e)
qed

text \<open>\<open>index_construct\<close> of the sequential variant gives \<open>NULL\<close> for a number of bins that is not a power of 2,
  and for \<open>2 ^ n\<close> bins an empty, well-formed index whenever the memory is granted.\<close>

theorem seq_index_construct_powers:
  assumes "sz AND (sz - 1) \<noteq> 0" "n < 64"
  shows "seq_index_construct alloc rnd sk sz seed = None \<and>
    (\<exists>ind. seq_index_construct (\<lambda>_. True) rnd sk (2 ^ n) seed = Some ind \<and> index_ok ind \<and> index_map ind = Map.empty)"
proof -
  obtain hs where h: "hash_construct (\<lambda>_. True) rnd (2 ^ n) (ucast seed) = Some hs" by (simp add: hash_construct_def)
  let ?ind = "\<lparr>has_special_key = [0, 0], special_key_val = [0, 0], cm = sk, hash = hs, tree = art_tree_init\<rparr>"
  note H = hash_construct_ok [OF h refl assms(2)]
  have "index_ok ?ind" using H tree_ok_init by (simp add: index_ok_def core_ok_def exclusive_def specials_ok_def)
  moreover have "index_map ?ind k = None" for k
  proof (cases "IS_SPECIAL_KEY k")
    case True
    then have "unat k = 0 \<or> unat k = 1" by (auto simp: IS_SPECIAL_KEY_iff)
    with True show ?thesis by (auto simp: index_map_def)
  qed (use H tree_ok_init in \<open>simp add: index_map_def core_map_def\<close>)
  moreover have "seq_index_construct (\<lambda>_. True) rnd sk (2 ^ n) seed = Some ?ind"
    using h by (simp add: seq_index_construct_def seq_hash_construct_eq pow_pred)
  ultimately show ?thesis using assms(1) by (auto simp: seq_index_construct_def seq_hash_construct_eq)
qed

theorem seq_index_construct_powers_witness:
  "seq_index_construct (\<lambda>_. True) 3 sample_sketch 6 42 = None \<and> seq_index_construct (\<lambda>_. True) 3 sample_sketch (2 ^ 4) 42 \<noteq> None"
  using seq_index_construct_powers [of 6 4 "\<lambda>_. True" 3 sample_sketch 42] by auto

text \<open>The allocation in blocks of 64 bytes: a sketch that needs less than one block gets no counters at all.\<close>

theorem seq_sketch_without_counters:
  assumes "unat (d * w) < 16" "seq_sketch_construct alloc rnd w d seed COUNT_MIN = Some sk"
  shows "counts sk = []"
  using assms by (auto simp: seq_sketch_construct_def Let_def split: if_splits)

theorem seq_sketch_without_counters_witness:
  "\<exists>sk. seq_sketch_construct (\<lambda>_. True) 0 2 4 42 COUNT_MIN = Some sk \<and> counts sk = [] \<and> depth sk = 4"
proof -
  have "map_option depth (seq_sketch_construct (\<lambda>_. True) 0 2 4 42 COUNT_MIN) = Some 4" by code_simp
  then obtain sk where sk: "seq_sketch_construct (\<lambda>_. True) 0 2 4 42 COUNT_MIN = Some sk" "depth sk = 4" by blast
  have "unat (4 * 2 :: u32) < 16" by simp
  with seq_sketch_without_counters [OF _ sk(1)] sk show ?thesis by blast
qed

end
