(* ===== verification/Sequential_Calls.thy ===== *)
theory Sequential_Calls
  imports Sequential_Laws Index_Calls
begin

text \<open>
  The sequential variant of the index meets the same contract of its calls, so that both variants answer the
  same sequence of calls alike.
\<close>

section \<open>Calls\<close>

text \<open>\<open>addr\<close> gives the address of the bins of a table, which \<open>hash_insert_nocheck\<close> compares with 0.\<close>

fun seq_do :: "(hash_sys \<Rightarrow> nat) \<Rightarrow> (hash_sys \<Rightarrow> hash_sys option) \<Rightarrow> index_call \<Rightarrow> index_sys \<Rightarrow> (index_sys \<times> answer) option" where
  "seq_do addr grow (Insert k v storage) ind =
    map_option (apsnd (\<lambda>r. Status (r = 0))) (seq_index_insert (\<lambda>_. True) addr grow ind k v storage)"
| "seq_do addr grow (Query k) ind = Some (ind, Value (seq_index_query ind k))"
| "seq_do addr grow (Update k v) ind = Some (apsnd (\<lambda>r. Status (r = 0)) (seq_index_update ind k v))"
| "seq_do addr grow (Delete k) ind = map_option (apsnd (\<lambda>r. Status (r = 0))) (seq_index_delete (\<lambda>_. True) addr ind k)"
| "seq_do addr grow (Compact mlf) ind = map_option (\<lambda>ind'. (ind', Status True)) (seq_index_compact (\<lambda>_. True) addr ind mlf)"
| "seq_do addr grow Expand ind = map_option (\<lambda>ind'. (ind', Status True)) (seq_index_expand (\<lambda>_. True) addr grow ind)"
| "seq_do addr grow Size ind = Some (ind, Count (seq_index_size ind))"

text \<open>Queries have no condition: nothing floats.\<close>

fun seq_ready :: "(hash_sys \<Rightarrow> nat) \<Rightarrow> (hash_sys \<Rightarrow> hash_sys option) \<Rightarrow> index_call \<Rightarrow> index_sys \<Rightarrow> bool" where
  "seq_ready addr grow (Insert k v storage) ind \<longleftrightarrow> storage < 8 \<and> seq_insert_ready addr grow ind k v storage"
| "seq_ready addr grow (Query k) ind \<longleftrightarrow> True"
| "seq_ready addr grow (Update k v) ind \<longleftrightarrow> index_map ind k \<noteq> Some 0"
| "seq_ready addr grow (Delete k) ind \<longleftrightarrow> seq_delete_ready (\<lambda>_. True) ind k"
| "seq_ready addr grow (Compact mlf) ind \<longleftrightarrow> compact_safe (\<lambda>_. True) ind"
| "seq_ready addr grow Expand ind \<longleftrightarrow> (\<exists>n \<in> {3..<35}. h_size (hash ind) = 2 ^ n) \<and> h_seed (hash ind) \<noteq> 0 \<and>
    tree_small ind \<and> root (tree ind) \<noteq> None"
| "seq_ready addr grow Size ind \<longleftrightarrow> True"

section \<open>The contract\<close>

lemma seq_compact_call_ok:
  assumes ok: "core_ok ind" "exclusive ind" "compact_safe alloc ind" "\<forall>hs. addr hs \<noteq> 0"
    and of: "index_ok ind0" "core_map ind = core_map ind0" "same_specials ind ind0"
  shows "\<exists>ind'. seq_index_compact alloc addr ind mlf = Some ind' \<and> index_ok ind' \<and> index_map ind' = index_map ind0"
proof -
  from seq_index_compact_ok [OF ok, of mlf] obtain ind' where
    i: "seq_index_compact alloc addr ind mlf = Some ind'" "core_ok ind'" "exclusive ind'" "kept ind' ind" by blast
  then have "core_map ind' = core_map ind0" "same_specials ind' ind0"
    using of by (auto simp: kept_def same_specials_def same_rest_def)
  with i index_ok_specials [OF of(1) i(2,3)] index_map_same show ?thesis by blast
qed

lemma seq_update_call_ok:
  assumes "index_ok ind" "index_map ind k \<noteq> Some 0" "seq_index_update ind k v = (ind', r)"
  shows "index_ok ind' \<and> map_do (Update k v) (index_map ind) = (index_map ind', Status (r = 0))"
proof -
  have "IS_SPECIAL_KEY k \<Longrightarrow> r = 0" using assms(3) by (simp add: seq_index_update_def)
  with seq_index_update_ok [OF assms(1,3)] assms(2) show ?thesis by auto
qed

context hash_grower
begin

lemma seq_index_expand_ok:
  assumes ok: "index_ok ind" and n: "h_size (hash ind) = 2 ^ n" "3 \<le> n" "n < 35" and seed: "h_seed (hash ind) \<noteq> 0"
    and t: "tree_small ind" "root (tree ind) \<noteq> None" and addr: "\<forall>hs. addr hs \<noteq> 0"
  shows "\<exists>ind'. seq_index_expand (\<lambda>_. True) addr grow ind = Some ind' \<and> index_ok ind' \<and> index_map ind' = index_map ind"
proof -
  obtain hs where hs: "grow (hash ind) = Some hs" "core_ok (ind\<lparr>hash := hs\<rparr>)" "exclusive (ind\<lparr>hash := hs\<rparr>)"
    "core_map (ind\<lparr>hash := hs\<rparr>) = core_map ind" "compact_safe (\<lambda>_. True) (ind\<lparr>hash := hs\<rparr>)" by (rule grown_ok [OF assms(1-7)])
  have "same_specials (ind\<lparr>hash := hs\<rparr>) ind" by (simp add: same_specials_def)
  from seq_compact_call_ok [OF hs(2,3,5) addr ok hs(4) this, of "4 / 5"] hs(1) show ?thesis by (simp add: seq_index_expand_def)
qed

lemma seq_do_ok:
  assumes "\<forall>hs. addr hs \<noteq> 0" "index_ok ind" "seq_ready addr grow c ind"
  shows "\<exists>ind' a. seq_do addr grow c ind = Some (ind', a) \<and> index_ok ind' \<and> map_do c (index_map ind) = (index_map ind', a)"
proof (cases c)
  case (Insert k v storage)
  then show ?thesis using seq_index_insert_ok [of ind storage addr k v] assms by (auto simp: inserted_ok_def)
next
  case (Query k)
  then show ?thesis using seq_index_query_ok [OF assms(2)] assms(2) by simp
next
  case (Update k v)
  obtain ind' r where "seq_index_update ind k v = (ind', r)" by (rule prod.exhaust)
  with seq_update_call_ok [of ind k v ind' r] Update assms show ?thesis by simp
next
  case (Delete k)
  then show ?thesis using seq_index_delete_ok [of ind "\<lambda>_. True" k addr] assms by (auto simp: deleted_ok_def)
next
  case (Compact mlf)
  have "core_ok ind" "exclusive ind" "same_specials ind ind" using assms(2) by (simp_all add: index_ok_def same_specials_def)
  with Compact show ?thesis using seq_compact_call_ok [of ind "\<lambda>_. True" addr ind mlf] assms by auto
next
  case Expand
  then obtain n where "h_size (hash ind) = 2 ^ n" "3 \<le> n" "n < 35" using assms(3) by auto
  then show ?thesis using seq_index_expand_ok [of ind n addr] Expand assms by auto
next
  case Size
  then show ?thesis using index_size_ok [OF assms(2)] assms(2) by (simp add: seq_index_size_def index_size_def)
qed

end

text \<open>An address of bins is never 0.\<close>

interpretation seq_copy_calls: call_store index_ok index_map "seq_do (\<lambda>hs. Suc (addr hs)) (seq_hash_expand_copy (\<lambda>_. True) rnd)"
    "seq_ready (\<lambda>hs. Suc (addr hs)) (seq_hash_expand_copy (\<lambda>_. True) rnd)" for addr rnd
  by unfold_locales (rule seq_copying.seq_do_ok, simp_all)

interpretation seq_reinsert_calls: call_store index_ok index_map "seq_do (\<lambda>hs. Suc (addr hs)) (seq_hash_expand_reinsert (\<lambda>_. True) rnd)"
    "seq_ready (\<lambda>hs. Suc (addr hs)) (seq_hash_expand_reinsert (\<lambda>_. True) rnd)" for addr rnd
  by unfold_locales (rule seq_reinserting.seq_do_ok, simp_all)

lemma seq_run_ok:
  assumes "\<forall>hs. addr hs \<noteq> 0" "grow \<in> {seq_hash_expand_copy (\<lambda>_. True) rnd, seq_hash_expand_reinsert (\<lambda>_. True) rnd}"
    and "index_ok ind" "calls_ready (seq_do addr grow) (seq_ready addr grow) cs ind"
  shows "\<exists>ind' as. run_calls (seq_do addr grow) cs ind = Some (ind', as) \<and> index_ok ind' \<and>
    map_run cs (index_map ind) = (index_map ind', as)"
proof -
  have "(\<lambda>hs. Suc (addr hs - 1)) = addr" using assms(1) by (auto simp: fun_eq_iff)
  then show ?thesis
    using seq_copy_calls.run_refines [of ind "\<lambda>hs. addr hs - 1" rnd cs]
      seq_reinsert_calls.run_refines [of ind "\<lambda>hs. addr hs - 1" rnd cs] assms by auto
qed

section \<open>Properties\<close>

text \<open>C10. Refinement of the sequential library: any sequence of its calls, with either way to double the table and
  each call within its conditions where it happens, returns and answers what a plain map answers, and
  the index has that map at the end. Queries have no condition.\<close>

theorem seq_calls_refine_map:
  assumes "index_ok ind" "calls_ready (seq_do addr grow) (seq_ready addr grow) cs ind" "\<forall>hs. addr hs \<noteq> 0"
    and "grow \<in> {seq_hash_expand_copy (\<lambda>_. True) rnd, seq_hash_expand_reinsert (\<lambda>_. True) rnd}"
  shows "\<exists>ind' as. run_calls (seq_do addr grow) cs ind = Some (ind', as) \<and> index_ok ind' \<and>
    map_run cs (index_map ind) = (index_map ind', as)"
  by (rule seq_run_ok [OF assms(3,4,1,2)])

theorem seq_calls_refine_map_witness:
  "\<exists>ind'. run_calls (seq_do (\<lambda>_. 4096) (seq_hash_expand_reinsert (\<lambda>_. True) 0))
      [Query 0x0316, Update 0x0316 9, Query 0x0316, Update 0x99 1] (wide_index deep_keys) =
    Some (ind', [Value (Some 8), Status True, Value (Some 9), Status False]) \<and> index_map ind' 0x0316 = Some 9"
proof -
  let ?f = "seq_do (\<lambda>_. 4096) (seq_hash_expand_reinsert (\<lambda>_. True) 0)"
    and ?r = "seq_ready (\<lambda>_. 4096) (seq_hash_expand_reinsert (\<lambda>_. True) 0)"
    and ?cs = "[Query 0x0316, Update 0x0316 9, Query 0x0316, Update 0x99 1]" and ?ind = "wide_index deep_keys"
  note I = wide_index_ok [OF deep_keys_ok]
  have n: "index_map ?ind 0x99 = None" by code_simp
  obtain ind1 r where u: "seq_index_update ?ind 0x0316 9 = (ind1, r)" by (rule prod.exhaust)
  have "index_map ind1 = (index_map ?ind)(0x0316 \<mapsto> 9)" using seq_update_call_ok [OF I(1) _ u] deep_index_value by simp
  then have "calls_ready ?f ?r ?cs ?ind" using deep_index_value n u by simp
  from seq_calls_refine_map [OF I(1) this, of 0] obtain ind' as where
    r: "run_calls ?f ?cs ?ind = Some (ind', as)" and m: "map_run ?cs (index_map ?ind) = (index_map ind', as)" by auto
  have "map_run ?cs (index_map ?ind) =
      ((index_map ?ind)(0x0316 \<mapsto> 9), [Value (Some 8), Status True, Value (Some 9), Status False])"
    using deep_index_value n by (simp add: IS_SPECIAL_KEY_iff)
  with m have "index_map ind' = (index_map ?ind)(0x0316 \<mapsto> 9)"
    "as = [Value (Some 8), Status True, Value (Some 9), Status False]" by simp_all
  with r show ?thesis by (intro exI [of _ ind']) (simp del: run_calls.simps)
qed

text \<open>C11. The two variants of the library are interchangeable to a caller: two indexes with the same map, one of
  each variant, answer the same calls alike, although they compact, float and grow differently, and have
  the same map afterwards, as long as each call is within the conditions of each variant.\<close>

theorem variants_answer_alike:
  assumes "index_ok ind1" "index_ok ind2" "index_map ind1 = index_map ind2"
    and "calls_ready (index_do grow1) (call_ready grow1) cs ind1" "calls_ready (seq_do addr grow2) (seq_ready addr grow2) cs ind2"
    and "grow1 \<in> {hash_expand_copy (\<lambda>_. True) rnd, hash_expand_reinsert (\<lambda>_. True) rnd}"
    and "grow2 \<in> {seq_hash_expand_copy (\<lambda>_. True) rnd, seq_hash_expand_reinsert (\<lambda>_. True) rnd}" "\<forall>hs. addr hs \<noteq> 0"
  shows "\<exists>ind1' ind2' as. run_calls (index_do grow1) cs ind1 = Some (ind1', as) \<and>
    run_calls (seq_do addr grow2) cs ind2 = Some (ind2', as) \<and> index_map ind1' = index_map ind2'"
  using grow_run_ok [OF assms(6,1,4)] seq_run_ok [OF assms(8,7,2,5)] assms(3) by auto

theorem variants_answer_alike_witness:
  "\<exists>ind1 ind2 as. run_calls (index_do (hash_expand_copy (\<lambda>_. True) 0)) [Query 0x0316, Update 0x0316 9] (wide_index deep_keys) =
      Some (ind1, as) \<and>
    run_calls (seq_do (\<lambda>_. 4096) (seq_hash_expand_copy (\<lambda>_. True) 0)) [Query 0x0316, Update 0x0316 9] (wide_index deep_keys) =
      Some (ind2, as) \<and> index_map ind1 = index_map ind2"
proof -
  let ?g = "hash_expand_copy (\<lambda>_. True) 0" and ?cs = "[Query 0x0316, Update 0x0316 9]" and ?ind = "wide_index deep_keys"
  let ?g' = "seq_hash_expand_copy (\<lambda>_. True) 0"
  note I = wide_index_ok [OF deep_keys_ok]
  have q: "query_ready ?ind 0x0316" by code_simp
  obtain ind1 res where e: "index_query ?ind 0x0316 = (ind1, res)" by (rule prod.exhaust)
  then have ind1: "ind1 = fst (index_query ?ind 0x0316)" by simp
  have u: "update_ready ind1 0x0316 9" unfolding ind1 by code_simp
  have "index_map ind1 0x0316 = Some 8" using index_query_ok [OF I(1) q e] deep_index_value by simp
  then have m: "calls_ready (index_do ?g) (call_ready ?g) ?cs ?ind"
    using q u e by (intro calls_readyI) auto
  have s: "calls_ready (seq_do (\<lambda>_. 4096) ?g') (seq_ready (\<lambda>_. 4096) ?g') ?cs ?ind" using deep_index_value by (simp split: option.split)
  from variants_answer_alike [OF I(1) I(1) refl m s, of 0] show ?thesis by simp
qed

end
