(* ===== verification/Spec2Isabelle.thy ===== *)
theory Spec2Isabelle
  imports Index_Nodes ART_Node_Laws GC_Conc Hash_Conc_Keys Sequential_Calls
begin

text \<open>
  A verification development for the heterogeneous index: a key-value index that keeps hot keys in a
  hash table with 8-entry bins and the rest in an adaptive radix tree (ART) whose inner nodes carry a
  buffer of 3 entries, with a Count-Min sketch that estimates how often keys are used. Keys and values
  are 8 bytes. The code is C and comes in two variants, each modelled in its default configuration: \<open>src/src\<close>
  (\<open>COMPACT\<close>, \<open>SDR_FLOAT\<close> 1), which uses atomic accesses, and \<open>src/sequential\<close>
  (\<open>COMPACT\<close>, no \<open>USE_CM\<close>), which does not. Theories model the first unless they say otherwise. Assertions are modelled as enabled, a
  failed one as \<open>None\<close>; the \<open>Makefile\<close> does not define \<open>DEBUG\<close>, so its build compiles \<open>ASSERT\<close> out. The
  assertion of \<open>gc_cycle\<close> on the staging list is proved never to fail; the others are about how the client calls.

  How the parts interact. \<open>hetero.c\<close> owns the index: \<open>index_insert\<close> tries \<open>hash_modify\<close>, doubles the
  table through the function pointer \<open>hash_expand\<close> when the tree has outgrown it, compacts, and falls
  back on \<open>art_insert_no_replace\<close>. Queries count the key in the sketch and ask the table, then
  \<open>art_search\<close>, which may float a hot entry towards the root or into the table. \<open>index_compact\<close> walks
  the tree breadth first with the ring buffer of \<open>queue.c\<close>. \<open>gc.c\<close> and \<open>ebr.c\<close> reclaim what threads
  unlink; the index does not call them yet.

  Theories, in the order of their dependencies:

  \<^item> \<open>Prelude\<close>, \<open>Common\<close>: machine words, key bytes, \<open>memcmp\<close>/\<open>memmove\<close>, entries and reserved keys
    (\<open>common.h\<close>).
  \<^item> \<open>Murmur3\<close> (\<open>murmur3.c\<close>): both hash functions over byte lists; agreement of the bin index
    they give, injectivity on keys.
  \<^item> \<open>Queue\<close> (\<open>queue.c\<close>): the growing ring buffer, refined to a FIFO list through the locale \<open>fifo\<close>.
  \<^item> \<open>ART_Node\<close> (the node layouts of \<open>art.c\<close> and \<open>art.h\<close>), with \<open>ART_Linear\<close>, \<open>ART_Indexed\<close>,
    \<open>ART_Children\<close> (every operation on one node against the map from bytes to children) and
    \<open>ART_Node_Laws\<close> (the contract \<open>child_index\<close> and its consequences).
  \<^item> \<open>ART_Tree\<close> (the recursive functions of \<open>art.c\<close>), \<open>ART_Correct\<close> (the tree invariant, insert and
    delete against the map of a tree), \<open>ART_Changes\<close> (what insertion and deletion write, as relations with
    one clause per write), \<open>ART_Buffers\<close> (by rule induction on them: what both do to the number of
    buffered keys), \<open>Node_Invariant\<close> (the locale \<open>node_invariant\<close>: a condition on nodes that the operations on one
    node keep holds in all nodes of a tree, and so does the number of children that fits a node's kind),
    \<open>KV_Interface\<close> (the contract of a key-value store as a locale) and \<open>ART_Laws\<close> (its interpretation on the
    tree; the invariant \<open>tree_ok\<close> includes that \<open>buffer_count\<close> is the number of buffered keys and that
    every node has enough children).
  \<^item> \<open>ART_Order\<close> (the children of a node in ascending order, the second interpretation of
    \<open>node_invariant\<close>), \<open>ART_Iter\<close> and \<open>ART_Iter_Laws\<close> (what \<open>art_iter\<close> and \<open>art_iter_prefix\<close> visit, in which order,
    \<open>art_minimum\<close> and \<open>art_maximum\<close>, and how many nodes \<open>art_tree_destroy\<close> frees).
  \<^item> \<open>Data_Sketch\<close> (\<open>data_sketch.c\<close>): Count-Min and Bloom filter: no underestimates, no false
    negatives, bounds of construction.
  \<^item> \<open>Hash\<close>, \<open>Hash_Correct\<close>, \<open>Hash_Laws\<close> (\<open>hash.c\<close>): the table, its map, both ways of doubling, and
    its interpretation of the key-value contract.
  \<^item> \<open>ART_Path\<close> (reading and replacing the node at a path), \<open>ART_Float\<close> (\<open>art_float\<close>, \<open>art_search\<close>,
    \<open>art_update\<close>), \<open>Float_Correct\<close> and \<open>Float_Laws\<close>: every branch of the float keeps the map of the
    index, under the condition \<open>float_safe\<close> that excludes the branch that does not.
  \<^item> \<open>Hetero\<close> (\<open>hetero.c\<close>), \<open>Shape\<close> (what lifting a buffered key leaves of the tree's shape),
    \<open>Compact_Correct\<close> (the compaction loop), \<open>Index_Correct\<close> (the map of the index, the locale
    \<open>hash_grower\<close> for the function pointer with an interpretation on either way of doubling, the
    \<open>REINSERT\<close> loop) and \<open>Index_Laws\<close> (the index as a key-value store).
  \<^item> \<open>Call_Interface\<close> (the functions a client of the index calls as data, the map they promise, and the
    locale \<open>call_store\<close>: a variant that keeps the promise call by call keeps it in every sequence of
    calls), \<open>Buffer_Keys\<close> (the number of buffered keys as the number of keys found in a buffer) and
    \<open>Index_Calls\<close> (the interpretation of the locale for \<open>hetero.c\<close> with either way of doubling);
    \<open>Index_Nodes\<close>: the number of nodes of an index's tree.
  \<^item> \<open>EBR\<close> (\<open>ebr.c\<close>), \<open>GC\<close> (\<open>gc.c\<close>): the operations run one at a time; \<open>GC_Conc\<close>: the same operations
    split at their accesses to shared memory, as a step relation over any number of threads, with the
    invariant that nothing a thread holds is reclaimed.
  \<^item> \<open>Hash_Conc\<close>: \<open>hash_modify\<close>, \<open>hash_search\<close> and \<open>hash_insert_nocheck\<close> of \<open>hash.c\<close> split at their atomic
    accesses, for any number of threads; \<open>Hash_Conc_Laws\<close>: which thread has claimed a slot, where keys
    are, and what the counter is, in every interleaving; \<open>Hash_Conc_Runs\<close>: queries without deletions,
    calls without interruption, and three interleavings that go wrong; \<open>Hash_Conc_Keys\<close>: the table is
    linearizable as long as no two calls for one key overlap, and its counter at rest.
  \<^item> \<open>Sequential\<close>: the functions of \<open>src/sequential\<close> that differ from those of \<open>src/src\<close> (\<open>hash.c\<close>,
    \<open>hetero.c\<close>, search and update of \<open>art.c\<close>, \<open>sketch_construct\<close>); \<open>Sequential_Laws\<close>: what each has
    in common with its counterpart, and the sequential index as a key-value store; \<open>Sequential_Calls\<close>: the
    interpretations of \<open>call_store\<close> for it, and that both variants answer alike every sequence of calls that is within the
    conditions of both.

  State corresponds to the C structs field by field: \<open>queue\<close>, \<open>art_node\<close> and \<open>art_tree\<close>, \<open>sketch\<close>,
  \<open>hash_sys\<close>, \<open>index_sys\<close>, \<open>ebr\<close>, \<open>gc\<close>. Writes through pointers to nodes are returned nodes, a pointer
  into the tree is the path to its node. Failing allocations (\<open>alloc\<close>, asked for the number of bytes),
  random numbers and \<open>hash_expand\<close> are parameters; a write outside an array, a dereference of \<open>NULL\<close>
  or a failed assertion is \<open>None\<close>.

  Outside \<open>GC_Conc\<close> and \<open>Hash_Conc\<close> operations run one at a time: a compare-and-swap whose expected
  value was read just before succeeds. Both interleavings are sequentially consistent. For the table that is what
  C makes of its atomic operations; for \<open>ebr.c\<close>, which uses relaxed accesses between fences, it is an assumption.

  Recursive functions on nodes terminate by the size of the node, loops over arrays run over their
  index range. Loops that need not return are partial functions: \<open>full_sync_loop\<close> and the loop of
  \<open>gc_full\<close>, which wait for other threads, \<open>compact_loop\<close> and \<open>seq_compact_loop\<close>, which run until their
  queue is empty, and \<open>index_reinsert\<close> and \<open>seq_index_reinsert\<close>, which double the table until their
  condition fails. The theorems about them state that they return; the queue holds less than
  $2^{31}$ nodes and the doubling ends at the latest when the table has $2^{35}$ bins (\<open>growth_ends\<close>,
  \<open>seq_growth_ends\<close>).

  The sequential \<open>hash_insert_nocheck\<close> compares the address of a key with \<open>EMPTY_FLAG\<close>, so the address of
  the bins is a parameter there (\<open>addr\<close>, \<open>base\<close>), which the theorems take to be other than 0.

  The theorems that hold only under a condition name it. Each condition excludes a case in which the code loses or
  doubles a key, does not return or is undefined: \<open>mem_safe\<close> a memory-type key put into a buffer below a prefix it
  does not have (\<open>art_insert_before_prefix_loses\<close>), \<open>del_safe\<close> buffered keys made children under a byte that is taken
  (\<open>art_delete_flush_loses\<close>), \<open>float_safe\<close> a displaced key reinserted where no search finds it
  (\<open>art_float_reinsert_loses\<close>), \<open>compact_safe\<close> a queue without cells, an empty tree, and pointers left over in children
  arrays, \<open>growth_ends\<close> a table that is doubled without end, and the part of \<open>insert_ready\<close> that asks for a
  key the tree does not have a key inserted twice (\<open>index_delete_resurrects\<close>). \<open>calls_ready\<close> asks for the
  condition of every call of a sequence where it happens.

  Small deviations from the text of the code: \<open>partial_len\<close> is a number for an 8-bit field that never holds more than
  8 in a well-formed tree; \<open>ctz32 0\<close> is 32 where \<open>__builtin_ctz(0)\<close> is undefined (only \<open>sketch_construct\<close> with width 0
  reaches it); stale pointers in children arrays are copies of nodes (\<open>Hetero\<close>); \<open>Dangling\<close> in \<open>GC_Conc\<close> has no step,
  as following a pointer to freed memory is undefined.

  Not modelled: freeing memory (\<open>hash_destruct\<close>, \<open>queue_destruct\<close>, \<open>sketch_destroy\<close>,
  \<open>index_destruct\<close>), which leaves nothing to state about the state that remains; the intrinsics of
  \<open>atomic.h\<close>, which belong to the compiler; code that the configuration compiles out (\<open>countmin_cooldown\<close>;
  sampling, sinking and floating in \<open>src/sequential\<close>); functions of \<open>src/sequential\<close> with the text of their
  counterparts up to plain loads and stores (\<open>queue.c\<close>, \<open>murmur3.c\<close>, the rest of \<open>art.c\<close> and
  \<open>data_sketch.c\<close>), for which \<open>Sequential\<close> uses the definitions of the counterparts; concurrent calls on
  the tree, whose nodes are not protected; test programs, benchmarks and scripts.
\<close>

end
